(* ===== verification/Zgs_Prelude.thy ===== *)
theory Zgs_Prelude
  imports Main "HOL-Library.Word"
begin

text \<open>
  Shared vocabulary of the development: Rust results and panics as values, loops over
  fallible bodies, machine arithmetic on \<open>usize\<close>/\<open>u64\<close>, bytes, and the list lemmas that the
  components use.

  A Rust function that may fail returns \<open>'a res\<close>: \<open>Inr x\<close> is the value, \<open>Inl (Err m)\<close> an
  \<open>Err\<close> of \<open>anyhow\<close> (the tag \<open>m\<close> names the check), \<open>Inl (Panic m)\<close> a panic (an \<open>unwrap\<close>, an
  \<open>assert!\<close>, an index out of range), and \<open>Inl Diverge\<close> the exhaustion of the fuel of a loop
  that the source leaves unbounded.
\<close>

section \<open>Collections of simplification rules\<close>

named_theorems res_simps \<open>evaluation of fallible computations\<close>
named_theorems alg_simps \<open>laws of the hash algorithm\<close>
named_theorems layer_simps \<open>what the node store operations do to the layers\<close>

section \<open>Results, errors and panics\<close>

datatype fault = Err string | Panic string | Diverge

type_synonym 'a res = "fault + 'a"

definition rbind :: "'a res \<Rightarrow> ('a \<Rightarrow> 'b res) \<Rightarrow> 'b res" where
  "rbind m f = (case m of Inl e \<Rightarrow> Inl e | Inr x \<Rightarrow> f x)"

lemma rbind_Inl [simp, res_simps]: "rbind (Inl e) f = Inl e"
  by (simp add: rbind_def)

lemma rbind_Inr [simp, res_simps]: "rbind (Inr x) f = f x"
  by (simp add: rbind_def)

lemma rbind_eq_Inr [simp]: "rbind m f = Inr y \<longleftrightarrow> (\<exists>x. m = Inr x \<and> f x = Inr y)"
  by (cases m) auto

lemma rbind_eq_Inl:
  "rbind m f = Inl e \<longleftrightarrow> m = Inl e \<or> (\<exists>x. m = Inr x \<and> f x = Inl e)"
  by (cases m) auto

lemma rbind_assoc: "rbind (rbind m f) g = rbind m (\<lambda>x. rbind (f x) g)"
  by (cases m) auto

lemma rbind_cong [fundef_cong]:
  "m = m' \<Longrightarrow> (\<And>x. m' = Inr x \<Longrightarrow> f x = g x) \<Longrightarrow> rbind m f = rbind m' g"
  by (cases m') auto

text \<open>\<open>ensure!\<close>, \<open>assert!\<close> and the conversion of an \<open>Option\<close> by \<open>ok_or\<close>/\<open>expect\<close>.\<close>

definition ensure :: "bool \<Rightarrow> fault \<Rightarrow> unit res" where
  "ensure b e = (if b then Inr () else Inl e)"

lemma ensure_True [simp, res_simps]: "b \<Longrightarrow> ensure b e = Inr ()"
  by (simp add: ensure_def)

lemma ensure_False [simp, res_simps]: "\<not> b \<Longrightarrow> ensure b e = Inl e"
  by (simp add: ensure_def)

lemma ensure_eq_Inr [simp]: "ensure b e = Inr u \<longleftrightarrow> b"
  by (simp add: ensure_def)

lemma ensure_eq_Inl [simp]: "ensure b e = Inl e' \<longleftrightarrow> \<not> b \<and> e = e'"
  by (auto simp: ensure_def)

definition ok_or :: "fault \<Rightarrow> 'a option \<Rightarrow> 'a res" where
  "ok_or e m = (case m of None \<Rightarrow> Inl e | Some x \<Rightarrow> Inr x)"

lemma ok_or_simps [simp, res_simps]:
  "ok_or e None = Inl e" "ok_or e (Some x) = Inr x"
  by (simp_all add: ok_or_def)

lemma ok_or_eq_Inr [simp]: "ok_or e m = Inr x \<longleftrightarrow> m = Some x"
  by (cases m) auto

lemma ok_or_eq_Inl [simp]: "ok_or e m = Inl e' \<longleftrightarrow> m = None \<and> e = e'"
  by (cases m) auto

definition is_ok :: "'a res \<Rightarrow> bool" where
  "is_ok m = (case m of Inl e \<Rightarrow> False | Inr x \<Rightarrow> True)"

lemma is_ok_simps [simp]: "is_ok (Inr x)" "\<not> is_ok (Inl e)"
  by (simp_all add: is_ok_def)

lemma is_ok_iff: "is_ok m \<longleftrightarrow> (\<exists>x. m = Inr x)"
  by (cases m) auto

definition panics :: "'a res \<Rightarrow> bool" where
  "panics m = (case m of Inl (Panic s) \<Rightarrow> True | _ \<Rightarrow> False)"

lemma panics_simps [simp]:
  "\<not> panics (Inr x)" "panics (Inl (Panic s))" "\<not> panics (Inl (Err s))" "\<not> panics (Inl Diverge)"
  by (simp_all add: panics_def)

lemma panics_rbind: "panics (rbind m f) \<longleftrightarrow> panics m \<or> (\<exists>x. m = Inr x \<and> panics (f x))"
  by (cases m) (auto simp: panics_def split: fault.splits)

lemma panics_ensure [simp]: "panics (ensure b e) \<longleftrightarrow> \<not> b \<and> panics (Inl e :: unit res)"
  by (simp add: ensure_def)

lemma panics_ok_or [simp]: "panics (ok_or e m) \<longleftrightarrow> m = None \<and> panics (Inl e :: unit res)"
  by (cases m) (simp_all add: panics_def)

text \<open>\<open>?\<close> on an \<open>Option\<close> inside a fallible computation, and \<open>try_option!\<close>.\<close>

definition robind :: "'a option res \<Rightarrow> ('a \<Rightarrow> 'b option res) \<Rightarrow> 'b option res" where
  "robind m f = rbind m (\<lambda>r. case r of None \<Rightarrow> Inr None | Some x \<Rightarrow> f x)"

lemma robind_simps [simp, res_simps]:
  "robind (Inl e) f = Inl e" "robind (Inr None) f = Inr None" "robind (Inr (Some x)) f = f x"
  by (simp_all add: robind_def)

lemma robind_cong [fundef_cong]:
  "m = m' \<Longrightarrow> (\<And>x. m' = Inr (Some x) \<Longrightarrow> f x = g x) \<Longrightarrow> robind m f = robind m' g"
  by (auto simp: robind_def intro!: rbind_cong split: option.split)

text \<open>A loop whose body may also return \<open>None\<close> early.\<close>

primrec rofold :: "('a \<Rightarrow> 's \<Rightarrow> 's option res) \<Rightarrow> 'a list \<Rightarrow> 's \<Rightarrow> 's option res" where
  "rofold f [] s = Inr (Some s)"
| "rofold f (x # xs) s = robind (f x s) (rofold f xs)"

text \<open>An indexing expression \<open>xs[i]\<close>: a panic when the index is out of range.\<close>

definition index :: "'a list \<Rightarrow> nat \<Rightarrow> 'a res" where
  "index xs i = (if i < length xs then Inr (xs ! i) else Inl (Panic ''index out of bounds''))"

lemma index_in [simp, res_simps]: "i < length xs \<Longrightarrow> index xs i = Inr (xs ! i)"
  by (simp add: index_def)

lemma index_out [res_simps]:
  "\<not> i < length xs \<Longrightarrow> index xs i = Inl (Panic ''index out of bounds'')"
  by (simp add: index_def)

lemma index_eq_Inr [simp]: "index xs i = Inr x \<longleftrightarrow> i < length xs \<and> xs ! i = x"
  by (auto simp: index_def)

text \<open>A \<open>for\<close> loop whose body updates a state and may leave early with an error.\<close>

primrec rfold :: "('a \<Rightarrow> 's \<Rightarrow> 's res) \<Rightarrow> 'a list \<Rightarrow> 's \<Rightarrow> 's res" where
  "rfold f [] s = Inr s"
| "rfold f (x # xs) s = rbind (f x s) (rfold f xs)"

lemma rfold_append: "rfold f (xs @ ys) s = rbind (rfold f xs s) (rfold f ys)"
  by (induction xs arbitrary: s) (auto simp: rbind_assoc intro!: rbind_cong)

lemma rbind_Inr_right [simp]: "rbind m Inr = m"
  by (cases m) auto

lemma rfold_single [simp]: "rfold f [x] s = f x s"
  by (cases "f x s") auto

lemma rfold_invariant:
  assumes "rfold f xs s = Inr s'" and "P s"
    and "\<And>x s t. x \<in> set xs \<Longrightarrow> P s \<Longrightarrow> f x s = Inr t \<Longrightarrow> P t"
  shows "P s'"
  using assms
proof (induction xs arbitrary: s)
  case Nil
  then show ?case by simp
next
  case (Cons x xs)
  from Cons.prems(1) obtain t where t: "f x s = Inr t" and rest: "rfold f xs t = Inr s'"
    by auto
  from Cons.prems(2,3) t have "P t" by (meson list.set_intros(1))
  with rest Cons.prems(3) show ?case by (auto intro: Cons.IH)
qed

lemma rfold_no_panic:
  assumes "P s" "\<And>x s. x \<in> set xs \<Longrightarrow> P s \<Longrightarrow> \<not> panics (f x s) \<and> (\<forall>t. f x s = Inr t \<longrightarrow> P t)"
  shows "\<not> panics (rfold f xs s)"
  using assms
proof (induction xs arbitrary: s)
  case (Cons x xs)
  then show ?case by (auto simp: panics_rbind)
qed simp

lemma rfold_cong [fundef_cong]:
  "xs = ys \<Longrightarrow> s = t \<Longrightarrow> (\<And>x s. x \<in> set ys \<Longrightarrow> f x s = g x s) \<Longrightarrow> rfold f xs s = rfold g ys t"
  by (induction ys arbitrary: xs s t) (auto intro!: rbind_cong)

text \<open>Collecting the results of a fallible \<open>map\<close>, stopping at the first failure.\<close>

primrec rmap :: "('a \<Rightarrow> 'b res) \<Rightarrow> 'a list \<Rightarrow> 'b list res" where
  "rmap f [] = Inr []"
| "rmap f (x # xs) = rbind (f x) (\<lambda>y. rbind (rmap f xs) (\<lambda>ys. Inr (y # ys)))"

lemma rmap_Inr: "(\<And>x. x \<in> set xs \<Longrightarrow> f x = Inr (g x)) \<Longrightarrow> rmap f xs = Inr (map g xs)"
  by (induction xs) auto

lemma rmap_append:
  "rmap f (xs @ ys) = rbind (rmap f xs) (\<lambda>as. rbind (rmap f ys) (\<lambda>bs. Inr (as @ bs)))"
  by (induction xs) (simp_all add: rbind_assoc)

lemma rmap_eq_Inr_length: "rmap f xs = Inr ys \<Longrightarrow> length ys = length xs"
  by (induction xs arbitrary: ys) auto

lemma rmap_eq_Inr_nth: "rmap f xs = Inr ys \<Longrightarrow> i < length xs \<Longrightarrow> f (xs ! i) = Inr (ys ! i)"
  by (induction xs arbitrary: ys i) (auto simp: nth_Cons split: nat.splits)

lemma rmap_no_panic: "(\<And>x. x \<in> set xs \<Longrightarrow> \<not> panics (f x)) \<Longrightarrow> \<not> panics (rmap f xs)"
  by (induction xs) (auto simp: panics_rbind)

text \<open>The slices \<open>bytes[a..]\<close> and \<open>bytes[a..b]\<close>, which panic out of range.\<close>

definition slice_from :: "'a list \<Rightarrow> nat \<Rightarrow> 'a list res" where
  "slice_from xs a = (if a \<le> length xs then Inr (drop a xs) else Inl (Panic ''range start index out of range''))"

definition slice_range :: "'a list \<Rightarrow> nat \<Rightarrow> nat \<Rightarrow> 'a list res" where
  "slice_range xs a b =
     (if a \<le> b \<and> b \<le> length xs then Inr (take (b - a) (drop a xs)) else Inl (Panic ''slice index out of range''))"

text \<open>\<open>chunks_exact\<close> and its parallel version.\<close>

definition chunks_exact :: "nat \<Rightarrow> 'a list \<Rightarrow> 'a list list" where
  "chunks_exact k xs = map (\<lambda>i. take k (drop (i * k) xs)) [0..<length xs div k]"

section \<open>Machine arithmetic\<close>

text \<open>
  Lengths, indices and counters (\<open>usize\<close>, \<open>u64\<close>) are natural numbers. The workspace turns
  \<open>debug-assertions\<close> off in its \<open>dev\<close> profile (\<open>Cargo.toml\<close>), so overflow checks are off in
  every profile and a subtraction below zero wraps: \<open>wsub\<close>. Sums of lengths and indices stay
  far below \<open>2 ^ 64\<close> and are plain sums, except where the source takes them from the network
  or a proof depends on the width; there the reduction is written out.
\<close>

definition wsub :: "nat \<Rightarrow> nat \<Rightarrow> nat" where
  "wsub a b = (if b \<le> a then a - b else 2 ^ 64 - (b - a))"

lemma wsub_le [simp]: "b \<le> a \<Longrightarrow> wsub a b = a - b"
  by (simp add: wsub_def)

text \<open>\<open>1 << n\<close> of a \<open>usize\<close>: the shift amount is reduced.\<close>

definition shl1 :: "nat \<Rightarrow> nat" where
  "shl1 n = 2 ^ (n mod 64)"

text \<open>\<open>is_power_of_two\<close> of the unsigned integers.\<close>

fun is_power_of_two :: "nat \<Rightarrow> bool" where
  "is_power_of_two n = (if n = 0 then False else if n = 1 then True else even n \<and> is_power_of_two (n div 2))"

declare is_power_of_two.simps [simp del]

lemma is_power_of_two_iff: "is_power_of_two n \<longleftrightarrow> (\<exists>k. n = 2 ^ k)"
proof (induction n rule: is_power_of_two.induct)
  case (1 n)
  consider "n = 0" | "n = 1" | "n \<noteq> 0" "n \<noteq> 1" by blast
  then show ?case
  proof cases
    case 1
    then show ?thesis by (simp add: is_power_of_two.simps)
  next
    case 2
    then show ?thesis by (auto simp: is_power_of_two.simps intro: exI [of _ 0])
  next
    case 3
    have "(\<exists>k. n = 2 ^ k) \<longleftrightarrow> even n \<and> (\<exists>k. n div 2 = 2 ^ k)"
    proof
      assume "\<exists>k. n = 2 ^ k"
      then obtain k where k: "n = 2 ^ k" by blast
      then obtain l where "k = Suc l" using 3(2) by (cases k) auto
      then show "even n \<and> (\<exists>k. n div 2 = 2 ^ k)" using k by auto
    next
      assume "even n \<and> (\<exists>k. n div 2 = 2 ^ k)"
      then obtain k where "n = 2 ^ Suc k" by (auto elim!: evenE)
      then show "\<exists>k. n = 2 ^ k" by blast
    qed
    then show ?thesis using 1 3 by (simp add: is_power_of_two.simps [of n])
  qed
qed

section \<open>Bytes\<close>

type_synonym byte = "8 word"

text \<open>\<open>to_be_bytes\<close> and \<open>from_be_bytes\<close> of an integer of \<open>n\<close> bytes.\<close>

primrec be_bytes :: "nat \<Rightarrow> nat \<Rightarrow> byte list" where
  "be_bytes 0 x = []"
| "be_bytes (Suc n) x = be_bytes n (x div 256) @ [of_nat x]"

definition of_be_bytes :: "byte list \<Rightarrow> nat" where
  "of_be_bytes bs = foldl (\<lambda>acc b. 256 * acc + unat b) 0 bs"

lemma length_be_bytes [simp]: "length (be_bytes n x) = n"
  by (induction n arbitrary: x) auto

lemma unat_of_nat_byte: "unat (of_nat x :: byte) = x mod 256"
  by (simp add: unat_of_nat)

lemma of_be_bytes_be_bytes: "x < 256 ^ n \<Longrightarrow> of_be_bytes (be_bytes n x) = x"
proof (induction n arbitrary: x)
  case 0
  then show ?case by (simp add: of_be_bytes_def)
next
  case (Suc n)
  then have "x div 256 < 256 ^ n" by (simp add: less_mult_imp_div_less mult.commute)
  then have "of_be_bytes (be_bytes n (x div 256)) = x div 256" by (rule Suc.IH)
  then show ?case by (simp add: of_be_bytes_def unat_of_nat_byte)
qed

lemma be_bytes_inject:
  assumes "x < 256 ^ n" "y < 256 ^ n" "be_bytes n x = be_bytes n y"
  shows "x = y"
  using assms by (metis of_be_bytes_be_bytes)

lemma be_bytes_of_be_bytes: "be_bytes (length bs) (of_be_bytes bs) = bs"
proof (induction bs rule: rev_induct)
  case (snoc b bs)
  have "unat b < 256" using unsigned_less [of b] by simp
  then have "of_be_bytes (bs @ [b]) div 256 = of_be_bytes bs" "of_nat (of_be_bytes (bs @ [b])) = b"
    unfolding word_unat_eq_iff unat_of_nat_byte by (simp_all add: of_be_bytes_def)
  then show ?case using snoc by simp
qed simp

lemma of_be_bytes_less: "of_be_bytes bs < 256 ^ length bs"
proof (induction bs rule: rev_induct)
  case (snoc b bs)
  have "unat b < 256" using unsigned_less [of b] by simp
  then have "of_be_bytes bs * 256 + unat b < (of_be_bytes bs + 1) * 256" by simp
  also have "\<dots> \<le> 256 ^ length bs * 256" using snoc by (intro mult_right_mono) simp_all
  finally show ?case by (simp add: of_be_bytes_def)
qed (simp add: of_be_bytes_def)

section \<open>Lists\<close>

lemma upt_split: "i \<le> j \<Longrightarrow> j \<le> k \<Longrightarrow> [i..<k] = [i..<j] @ [j..<k]"
  by (metis le_Suc_ex upt_add_eq_append)

end
