(* ===== verification/Hash_Algorithm.thy ===== *)
theory Hash_Algorithm
  imports Zgs_Prelude
begin

text \<open>
  The hash layer of the append-only Merkle trees: \<open>common/append_merkle/src/merkle_tree.rs\<close>
  (the traits \<open>HashElement\<close> and \<open>Algorithm\<close>, the type \<open>OptionalHash\<close> with its byte forms, the
  table \<open>ZERO_HASHES\<close>) and \<open>common/append_merkle/src/sha3.rs\<close> (\<open>Sha3Algorithm\<close>).

  Keccak-256 comes from the crate \<open>tiny_keccak\<close> and is the parameter \<open>keccak\<close> of every
  definition that uses it. The two traits are one record of operations, \<open>hash_alg\<close>, passed to
  the code that is generic in Rust; the locale \<open>merkle_algorithm\<close> states what that code relies
  on, and \<open>Sha3Algorithm\<close> on \<open>OptionalHash\<close> is its interpretation for every \<open>keccak\<close>.
\<close>

section \<open>The traits HashElement and Algorithm\<close>

record 'e hash_alg =
  alg_parent :: "'e \<Rightarrow> 'e \<Rightarrow> 'e"
  alg_end_pad :: "nat \<Rightarrow> 'e"
  alg_null :: 'e

definition is_null :: "('e, 'z) hash_alg_scheme \<Rightarrow> 'e \<Rightarrow> bool" where
  "is_null A x \<longleftrightarrow> x = alg_null A"

definition parent_single :: "('e, 'z) hash_alg_scheme \<Rightarrow> 'e \<Rightarrow> nat \<Rightarrow> 'e" where
  "parent_single A r height = (let right = alg_end_pad A height in alg_parent A r right)"

section \<open>Optional hashes and their byte forms\<close>

type_synonym h256 = "byte list"
type_synonym optional_hash = "h256 option"

definition zero_h256 :: h256 where
  "zero_h256 = replicate 32 0"

definition from_slice :: "byte list \<Rightarrow> optional_hash res" where
  "from_slice bytes =
     (if length bytes \<noteq> 32 then Inl (Err ''Invalid byte length for H256'')
      else Inr (Some bytes))"

definition as_bytes :: "optional_hash \<Rightarrow> byte list" where
  "as_bytes oh = (case oh of Some hash \<Rightarrow> 1 # hash | None \<Rightarrow> 0 # replicate 32 0)"

definition from_bytes :: "byte list \<Rightarrow> optional_hash res" where
  "from_bytes bytes = rbind (index bytes 0) (\<lambda>flag.
     if flag = 0 then Inr None
     else if flag = 1 then Inr (Some (drop 1 bytes))
     else Inl (Err ''Invalid flag byte for OptionalHash''))"

definition ssz_append :: "optional_hash \<Rightarrow> byte list \<Rightarrow> byte list" where
  "ssz_append oh buf =
     (case oh of Some hash \<Rightarrow> (buf @ [1]) @ hash | None \<Rightarrow> (buf @ [0]) @ replicate 32 0)"

text \<open>\<open>H256::from_ssz_bytes\<close> accepts exactly 32 bytes; after the length test it cannot fail.\<close>

definition from_ssz_bytes :: "byte list \<Rightarrow> optional_hash res" where
  "from_ssz_bytes bytes =
     (if length bytes \<noteq> 33 then Inl (Err ''InvalidByteLength'')
      else rbind (index bytes 0) (\<lambda>flag.
        if flag = 0 then Inr None
        else if flag = 1 then Inr (Some (drop 1 bytes))
        else Inl (Err ''Invalid flag byte for OptionalHash'')))"

definition wf_optional_hash :: "optional_hash \<Rightarrow> bool" where
  "wf_optional_hash oh = (case oh of None \<Rightarrow> True | Some h \<Rightarrow> length h = 32)"

lemma length_as_bytes: "wf_optional_hash oh \<Longrightarrow> length (as_bytes oh) = 33"
  by (cases oh) (auto simp: as_bytes_def wf_optional_hash_def)

lemma from_bytes_as_bytes: "from_bytes (as_bytes oh) = Inr oh"
  by (cases oh) (auto simp: as_bytes_def from_bytes_def)

lemma from_ssz_bytes_inverse:
  "wf_optional_hash oh \<Longrightarrow> from_ssz_bytes (ssz_append oh []) = Inr oh"
  by (cases oh) (auto simp: ssz_append_def from_ssz_bytes_def wf_optional_hash_def)

lemma ssz_append_prefix: "ssz_append oh buf = buf @ as_bytes oh"
  by (cases oh) (auto simp: ssz_append_def as_bytes_def)

lemma from_ssz_bytes_Inr_wf: "from_ssz_bytes bs = Inr oh \<Longrightarrow> wf_optional_hash oh"
  by (auto simp: from_ssz_bytes_def wf_optional_hash_def split: if_splits)

section \<open>Sha3Algorithm\<close>

definition parent_raw :: "(byte list \<Rightarrow> h256) \<Rightarrow> h256 \<Rightarrow> h256 \<Rightarrow> h256" where
  "parent_raw keccak left right = keccak (left @ right)"

definition leaf_raw :: "(byte list \<Rightarrow> h256) \<Rightarrow> byte list \<Rightarrow> h256" where
  "leaf_raw keccak data = keccak data"

text \<open>
  The table \<open>ZERO_HASHES\<close>: entry 0 is the hash of a zero entry, entry \<open>i\<close> the parent of two
  copies of entry \<open>i - 1\<close>. The source stores the first 64 entries; an index is a node height
  plus the leaf height, and height 64 would need more leaves than \<open>usize\<close> can count, so the
  recursion below is never read past the table.
\<close>

primrec ZERO_HASHES :: "(byte list \<Rightarrow> h256) \<Rightarrow> nat \<Rightarrow> h256" where
  "ZERO_HASHES keccak 0 = leaf_raw keccak (replicate 256 0)"
| "ZERO_HASHES keccak (Suc i) = parent_raw keccak (ZERO_HASHES keccak i) (ZERO_HASHES keccak i)"

definition ZERO_HASHES_MAP :: "(byte list \<Rightarrow> h256) \<Rightarrow> h256 \<rightharpoonup> h256" where
  "ZERO_HASHES_MAP keccak =
     fold (\<lambda>i m. m(ZERO_HASHES keccak (i - 1) \<mapsto> ZERO_HASHES keccak i)) [1..<64] Map.empty"

definition parent_h256 :: "(byte list \<Rightarrow> h256) \<Rightarrow> h256 \<Rightarrow> h256 \<Rightarrow> h256" where
  "parent_h256 keccak left right =
     (if left = right
      then (case ZERO_HASHES_MAP keccak left of
              Some v \<Rightarrow> v
            | None \<Rightarrow> parent_raw keccak left right)
      else parent_raw keccak left right)"

definition leaf_h256 :: "(byte list \<Rightarrow> h256) \<Rightarrow> byte list \<Rightarrow> h256" where
  "leaf_h256 keccak data =
     (if data = replicate 256 0 then ZERO_HASHES keccak 0 else leaf_raw keccak data)"

definition parent_optional ::
    "(byte list \<Rightarrow> h256) \<Rightarrow> optional_hash \<Rightarrow> optional_hash \<Rightarrow> optional_hash" where
  "parent_optional keccak left right =
     (case (left, right) of
        (Some l, Some r) \<Rightarrow> Some (parent_h256 keccak l r)
      | _ \<Rightarrow> None)"

definition leaf_optional :: "(byte list \<Rightarrow> h256) \<Rightarrow> byte list \<Rightarrow> optional_hash" where
  "leaf_optional keccak data = Some (leaf_h256 keccak data)"

definition sha3_optional :: "(byte list \<Rightarrow> h256) \<Rightarrow> optional_hash hash_alg" where
  "sha3_optional keccak =
     \<lparr>alg_parent = parent_optional keccak,
      alg_end_pad = (\<lambda>height. Some (ZERO_HASHES keccak height)),
      alg_null = None\<rparr>"

definition sha3_h256 :: "(byte list \<Rightarrow> h256) \<Rightarrow> h256 hash_alg" where
  "sha3_h256 keccak =
     \<lparr>alg_parent = parent_h256 keccak,
      alg_end_pad = ZERO_HASHES keccak,
      alg_null = replicate 32 1\<rparr>"

text \<open>The memo table never changes a hash.\<close>

lemma zero_map_entries:
  "fold (\<lambda>i m. m(ZERO_HASHES keccak (i - 1) \<mapsto> ZERO_HASHES keccak i)) is m0 x = Some v \<Longrightarrow>
   (\<And>y w. m0 y = Some w \<Longrightarrow> w = parent_raw keccak y y) \<Longrightarrow>
   (\<And>i. i \<in> set is \<Longrightarrow> 0 < i) \<Longrightarrow> v = parent_raw keccak x x"
proof (induction "is" arbitrary: m0)
  case Nil
  then show ?case by simp
next
  case (Cons i "is")
  from Cons.prems(3)[of i] have "0 < i" by simp
  then have step: "ZERO_HASHES keccak i =
      parent_raw keccak (ZERO_HASHES keccak (i - 1)) (ZERO_HASHES keccak (i - 1))"
    by (cases i) auto
  show ?case
  proof (rule Cons.IH)
    show "fold (\<lambda>i m. m(ZERO_HASHES keccak (i - 1) \<mapsto> ZERO_HASHES keccak i)) is
      (m0(ZERO_HASHES keccak (i - 1) \<mapsto> ZERO_HASHES keccak i)) x = Some v"
      using Cons.prems(1) by (simp only: fold_simps)
    show "\<And>y w. (m0(ZERO_HASHES keccak (i - 1) \<mapsto> ZERO_HASHES keccak i)) y = Some w \<Longrightarrow>
      w = parent_raw keccak y y"
      using Cons.prems(2) step by (auto split: if_splits)
    show "\<And>i. i \<in> set is \<Longrightarrow> 0 < i" using Cons.prems(3) by auto
  qed
qed

lemma ZERO_HASHES_MAP_sound:
  "ZERO_HASHES_MAP keccak x = Some v \<Longrightarrow> v = parent_raw keccak x x"
  unfolding ZERO_HASHES_MAP_def by (erule zero_map_entries) auto

lemma parent_h256_eq_raw: "parent_h256 keccak l r = parent_raw keccak l r"
  by (auto simp: parent_h256_def dest: ZERO_HASHES_MAP_sound split: option.splits)

lemma leaf_h256_eq_raw: "leaf_h256 keccak data = leaf_raw keccak data"
  by (auto simp: leaf_h256_def)

lemma parent_optional_Some [simp]:
  "parent_optional keccak (Some l) (Some r) = Some (parent_raw keccak l r)"
  by (simp add: parent_optional_def parent_h256_eq_raw)

section \<open>What the trees rely on\<close>

text \<open>
  A padding node is known, the padding node of a layer is the parent of two padding nodes of
  the layer below, and the parent of two known nodes is known. From these the nodes of an
  append-only tree are the nodes of the infinite tree whose leaves are the given ones followed
  by padding: \<open>mnode\<close> is that reference tree, \<open>height\<close> 0 being the layer of leaves.
\<close>

primrec mnode :: "('e, 'z) hash_alg_scheme \<Rightarrow> nat \<Rightarrow> 'e list \<Rightarrow> nat \<Rightarrow> nat \<Rightarrow> 'e" where
  "mnode A lh xs 0 i = (if i < length xs then xs ! i else alg_end_pad A lh)"
| "mnode A lh xs (Suc h) i = alg_parent A (mnode A lh xs h (2 * i)) (mnode A lh xs h (2 * i + 1))"

text \<open>The number of real nodes in layer \<open>h\<close> of a tree with \<open>n\<close> leaves.\<close>

primrec width :: "nat \<Rightarrow> nat \<Rightarrow> nat" where
  "width n 0 = n"
| "width n (Suc h) = (width n h + 1) div 2"

lemma width_0 [simp]: "width 0 h = 0"
  by (induction h) auto

lemma width_pos [simp]: "0 < width n h \<longleftrightarrow> 0 < n"
  by (induction h) auto

lemma width_mono: "m \<le> n \<Longrightarrow> width m h \<le> width n h"
  by (induction h) (auto intro: div_le_mono)

lemma width_eq: "width n h = (n + 2 ^ h - 1) div 2 ^ h"
proof (induction h)
  case 0
  then show ?case by simp
next
  case (Suc h)
  have "width n (Suc h) = ((n + 2 ^ h - 1) div 2 ^ h + 1) div 2" by (simp add: Suc)
  also have "(n + 2 ^ h - 1) div 2 ^ h + 1 = (n + 2 ^ h - 1 + 2 ^ h) div 2 ^ h"
    using div_add_self2 [of "2 ^ h" "n + 2 ^ h - 1"] by simp
  also have "n + 2 ^ h - 1 + 2 ^ h = n + 2 ^ Suc h - 1" by (simp add: Suc_leI)
  also have "(n + 2 ^ Suc h - 1) div 2 ^ h div 2 = (n + 2 ^ Suc h - 1) div 2 ^ Suc h"
    by (simp add: power_Suc2 div_mult2_eq del: power_Suc)
  finally show ?case .
qed

lemma div_less_width: "i < n \<Longrightarrow> i div 2 ^ h < width n h"
proof (induction h)
  case 0
  then show ?case by simp
next
  case (Suc h)
  then have "i div 2 ^ h div 2 < (width n h + 1) div 2" by linarith
  then show ?case by (simp add: power_Suc2 div_mult2_eq del: power_Suc)
qed

locale merkle_algorithm =
  fixes A :: "('e, 'z) hash_alg_scheme"
  assumes parent_known:
      "l \<noteq> alg_null A \<Longrightarrow> r \<noteq> alg_null A \<Longrightarrow> alg_parent A l r \<noteq> alg_null A"
    and pad_known: "alg_end_pad A h \<noteq> alg_null A"
    and pad_step: "alg_end_pad A (Suc h) = alg_parent A (alg_end_pad A h) (alg_end_pad A h)"
begin

lemma mnode_beyond: "width (length xs) h \<le> i \<Longrightarrow> mnode A lh xs h i = alg_end_pad A (h + lh)"
proof (induction h arbitrary: i)
  case 0
  then show ?case by simp
next
  case (Suc h)
  from Suc.prems have "width (length xs) h \<le> 2 * i" "width (length xs) h \<le> 2 * i + 1" by auto
  then show ?case by (simp add: Suc.IH pad_step)
qed

lemma mnode_known: "alg_null A \<notin> set xs \<Longrightarrow> mnode A lh xs h i \<noteq> alg_null A"
proof (induction h arbitrary: i)
  case 0
  then show ?case by (auto simp: pad_known dest: nth_mem)
next
  case (Suc h)
  then show ?case by (simp add: parent_known)
qed

text \<open>Nodes whose leaves are the same in both trees are the same.\<close>

lemma mnode_cong:
  assumes "\<And>j. i * 2 ^ h \<le> j \<Longrightarrow> j < (i + 1) * 2 ^ h \<Longrightarrow> mnode A lh xs 0 j = mnode A lh ys 0 j"
  shows "mnode A lh xs h i = mnode A lh ys h i"
  using assms
proof (induction h arbitrary: i)
  case 0
  then show ?case by simp
next
  case (Suc h)
  have lo: "i * 2 ^ Suc h = 2 * i * 2 ^ h" and hi: "(i + 1) * 2 ^ Suc h = (2 * i + 1) * 2 ^ h + 2 ^ h"
    by (simp_all add: algebra_simps)
  have "mnode A lh xs h (2 * i) = mnode A lh ys h (2 * i)"
  proof (rule Suc.IH)
    fix j assume "2 * i * 2 ^ h \<le> j" "j < (2 * i + 1) * 2 ^ h"
    then show "mnode A lh xs 0 j = mnode A lh ys 0 j"
      by (intro Suc.prems) (simp_all only: lo hi)
  qed
  moreover have "mnode A lh xs h (2 * i + 1) = mnode A lh ys h (2 * i + 1)"
  proof (rule Suc.IH)
    fix j assume j: "(2 * i + 1) * 2 ^ h \<le> j" "j < (2 * i + 1 + 1) * 2 ^ h"
    have "2 * i * 2 ^ h \<le> (2 * i + 1) * 2 ^ h" by simp
    moreover have "(2 * i + 1 + 1) * 2 ^ h = (2 * i + 1) * 2 ^ h + 2 ^ h"
      by (simp only: add_mult_distrib mult_1)
    ultimately show "mnode A lh xs 0 j = mnode A lh ys 0 j"
      using j lo hi by (intro Suc.prems) linarith+
  qed
  ultimately show ?case by simp
qed

lemma mnode_append_old:
  assumes "(i + 1) * 2 ^ h \<le> length xs"
  shows "mnode A lh (xs @ ys) h i = mnode A lh xs h i"
proof (rule mnode_cong)
  fix j assume "i * 2 ^ h \<le> j" "j < (i + 1) * 2 ^ h"
  with assms have "j < length xs" by (meson less_le_trans)
  then show "mnode A lh (xs @ ys) 0 j = mnode A lh xs 0 j" by (simp add: nth_append)
qed

end

interpretation sha3: merkle_algorithm "sha3_optional keccak" for keccak
  by unfold_locales (auto simp: sha3_optional_def parent_optional_def parent_h256_eq_raw)

end
