(* ===== verification/Node_Manager.thy ===== *)
theory Node_Manager
  imports Hash_Algorithm
begin

text \<open>
  The node store of the append-only trees: \<open>common/append_merkle/src/node_manager.rs\<close>. A
  \<open>NodeManager\<close> keeps the nodes of a tree in an LRU cache in front of a database and writes
  through a transaction that is opened and committed around every change of the tree.

  The crate \<open>lru\<close> is the record of operations \<open>lru_ops\<close>; the traits \<open>NodeDatabase\<close> and
  \<open>NodeTransaction\<close> are the record \<open>node_database\<close>, with \<open>EmptyNodeDatabase\<close> as one instance
  here and the database of the flow store as another. The locale \<open>node_store\<close> holds what a
  tree relies on; inside it every operation is shown to do what its name says to the layers of
  nodes, which is all the tree code sees.
\<close>

section \<open>Cache and database interfaces\<close>

type_synonym node_key = "nat \<times> nat"

record ('e, 'c) lru_ops =
  lru_new :: "nat \<Rightarrow> 'c"
  lru_unbounded :: 'c
  lru_put :: "'c \<Rightarrow> node_key \<Rightarrow> 'e \<Rightarrow> 'c"
  lru_get :: "'c \<Rightarrow> node_key \<Rightarrow> 'e option \<times> 'c"
  lru_peek :: "'c \<Rightarrow> node_key \<Rightarrow> 'e option"
  lru_pop :: "'c \<Rightarrow> node_key \<Rightarrow> 'c"

record ('e, 'd, 't) node_database =
  db_get_node :: "'d \<Rightarrow> nat \<Rightarrow> nat \<Rightarrow> 'e option res"
  db_get_layer_size :: "'d \<Rightarrow> nat \<Rightarrow> nat option res"
  db_start_transaction :: "'d \<Rightarrow> 't"
  db_commit :: "'d \<Rightarrow> 't \<Rightarrow> 'd \<times> unit res"
  tx_save_node :: "'t \<Rightarrow> nat \<Rightarrow> nat \<Rightarrow> 'e \<Rightarrow> 't"
  tx_save_node_list :: "'t \<Rightarrow> (nat \<times> nat \<times> 'e) list \<Rightarrow> 't"
  tx_remove_node_list :: "'t \<Rightarrow> (nat \<times> nat) list \<Rightarrow> 't"
  tx_save_layer_size :: "'t \<Rightarrow> nat \<Rightarrow> nat \<Rightarrow> 't"
  tx_remove_layer_size :: "'t \<Rightarrow> nat \<Rightarrow> 't"

definition empty_node_database :: "('e, unit, unit) node_database" where
  "empty_node_database =
     \<lparr>db_get_node = (\<lambda>_ _ _. Inr None),
      db_get_layer_size = (\<lambda>_ _. Inr None),
      db_start_transaction = (\<lambda>_. ()),
      db_commit = (\<lambda>_ _. ((), Inr ())),
      tx_save_node = (\<lambda>t _ _ _. t),
      tx_save_node_list = (\<lambda>t _. t),
      tx_remove_node_list = (\<lambda>t _. t),
      tx_save_layer_size = (\<lambda>t _ _. t),
      tx_remove_layer_size = (\<lambda>t _. t)\<rparr>"

section \<open>The node manager\<close>

record ('c, 'd, 't) node_manager =
  nm_cache :: 'c
  nm_layer_size :: "nat list"
  nm_db :: 'd
  nm_db_tx :: "'t option"

text \<open>
  \<open>NodeManager::new\<close> reads the layer sizes until one is missing. A tree has at most 64 layers,
  so 65 iterations read any database a tree has written; a longer run is \<open>Diverge\<close>.
\<close>

fun load_layer_sizes ::
    "('e, 'd, 't) node_database \<Rightarrow> 'd \<Rightarrow> nat \<Rightarrow> nat \<Rightarrow> nat list \<Rightarrow> nat list res" where
  "load_layer_sizes D db 0 layer sizes = Inl Diverge"
| "load_layer_sizes D db (Suc fuel) layer sizes =
     rbind (db_get_layer_size D db layer) (\<lambda>r.
       case r of
         Some sz \<Rightarrow> load_layer_sizes D db fuel (layer + 1) (sizes @ [sz])
       | None \<Rightarrow> Inr sizes)"

definition nm_new ::
    "('e, 'c) lru_ops \<Rightarrow> ('e, 'd, 't) node_database \<Rightarrow> 'd \<Rightarrow> nat \<Rightarrow> ('c, 'd, 't) node_manager res" where
  "nm_new C D db capacity =
     rbind (load_layer_sizes D db 65 0 []) (\<lambda>sizes.
     rbind (ensure (capacity \<noteq> 0) (Panic ''capacity should be non-zero'')) (\<lambda>_.
     Inr \<lparr>nm_cache = lru_new C capacity, nm_layer_size = sizes, nm_db = db, nm_db_tx = None\<rparr>))"

definition nm_new_dummy :: "('e, 'c) lru_ops \<Rightarrow> ('c, unit, unit) node_manager" where
  "nm_new_dummy C =
     \<lparr>nm_cache = lru_unbounded C, nm_layer_size = [], nm_db = (), nm_db_tx = None\<rparr>"

text \<open>\<open>db_tx\<close>: the open transaction is changed in place; without one the \<open>expect\<close> panics.\<close>

definition nm_with_tx ::
    "('t \<Rightarrow> 't) \<Rightarrow> ('c, 'd, 't) node_manager \<Rightarrow> ('c, 'd, 't) node_manager res" where
  "nm_with_tx f nm =
     (case nm_db_tx nm of
        None \<Rightarrow> Inl (Panic ''tx checked'')
      | Some tx \<Rightarrow> Inr (nm\<lparr>nm_db_tx := Some (f tx)\<rparr>))"

definition set_layer_size ::
    "('e, 'd, 't) node_database \<Rightarrow> nat \<Rightarrow> nat \<Rightarrow> ('c, 'd, 't) node_manager \<Rightarrow>
     ('c, 'd, 't) node_manager res" where
  "set_layer_size D layer sz nm =
     rbind (index (nm_layer_size nm) layer) (\<lambda>_.
     nm_with_tx (\<lambda>tx. tx_save_layer_size D tx layer sz)
       (nm\<lparr>nm_layer_size := (nm_layer_size nm)[layer := sz]\<rparr>))"

definition nm_get_node ::
    "('e, 'c) lru_ops \<Rightarrow> ('e, 'd, 't) node_database \<Rightarrow> ('c, 'd, 't) node_manager \<Rightarrow>
     nat \<Rightarrow> nat \<Rightarrow> 'e option" where
  "nm_get_node C D nm layer pos =
     (case lru_peek C (nm_cache nm) (layer, pos) of
        Some node \<Rightarrow> Some node
      | None \<Rightarrow> (case db_get_node D (nm_db nm) layer pos of Inr r \<Rightarrow> r | Inl e \<Rightarrow> None))"

text \<open>\<open>NodeIterator\<close>: it stops at the first node that is missing.\<close>

function nm_get_nodes ::
    "('e, 'c) lru_ops \<Rightarrow> ('e, 'd, 't) node_database \<Rightarrow> ('c, 'd, 't) node_manager \<Rightarrow>
     nat \<Rightarrow> nat \<Rightarrow> nat \<Rightarrow> 'e list" where
  "nm_get_nodes C D nm layer start_pos end_pos =
     (if start_pos < end_pos then
        (case nm_get_node C D nm layer start_pos of
           Some r \<Rightarrow> r # nm_get_nodes C D nm layer (start_pos + 1) end_pos
         | None \<Rightarrow> [])
      else [])"
  by pat_completeness auto
termination
  by (relation "measure (\<lambda>(C, D, nm, layer, start_pos, end_pos). end_pos - start_pos)") auto

declare nm_get_nodes.simps [simp del]

definition nm_add_node ::
    "('e, 'c) lru_ops \<Rightarrow> ('e, 'd, 't) node_database \<Rightarrow> nat \<Rightarrow> nat \<Rightarrow> 'e \<Rightarrow>
     ('c, 'd, 't) node_manager \<Rightarrow> ('c, 'd, 't) node_manager res" where
  "nm_add_node C D layer pos node nm =
     (case lru_get C (nm_cache nm) (layer, pos) of (cached, cache) \<Rightarrow>
        let nm = nm\<lparr>nm_cache := cache\<rparr> in
        if cached \<noteq> Some node then
          rbind (nm_with_tx (\<lambda>tx. tx_save_node D tx layer pos node) nm) (\<lambda>nm.
          Inr (nm\<lparr>nm_cache := lru_put C (nm_cache nm) (layer, pos) node\<rparr>))
        else Inr nm)"

definition nm_push_node ::
    "('e, 'c) lru_ops \<Rightarrow> ('e, 'd, 't) node_database \<Rightarrow> nat \<Rightarrow> 'e \<Rightarrow>
     ('c, 'd, 't) node_manager \<Rightarrow> ('c, 'd, 't) node_manager res" where
  "nm_push_node C D layer node nm =
     rbind (index (nm_layer_size nm) layer) (\<lambda>size.
     rbind (nm_add_node C D layer size node nm) (\<lambda>nm.
     rbind (index (nm_layer_size nm) layer) (\<lambda>size.
     set_layer_size D layer (size + 1) nm)))"

definition nm_append_nodes ::
    "('e, 'c) lru_ops \<Rightarrow> ('e, 'd, 't) node_database \<Rightarrow> nat \<Rightarrow> 'e list \<Rightarrow>
     ('c, 'd, 't) node_manager \<Rightarrow> ('c, 'd, 't) node_manager res" where
  "nm_append_nodes C D layer nodes nm =
     rbind (index (nm_layer_size nm) layer) (\<lambda>pos.
     let (cache, saved_nodes, pos) =
           fold (\<lambda>node (cache, saved, pos).
                   (lru_put C cache (layer, pos) node, saved @ [(layer, pos, node)], pos + 1))
                nodes (nm_cache nm, [], pos)
     in rbind (set_layer_size D layer pos (nm\<lparr>nm_cache := cache\<rparr>)) (\<lambda>nm.
        nm_with_tx (\<lambda>tx. tx_save_node_list D tx saved_nodes) nm))"

definition nm_add_layer ::
    "('e, 'd, 't) node_database \<Rightarrow> ('c, 'd, 't) node_manager \<Rightarrow>
     ('c, 'd, 't) node_manager res" where
  "nm_add_layer D nm =
     (let nm = nm\<lparr>nm_layer_size := nm_layer_size nm @ [0]\<rparr>;
          layer = length (nm_layer_size nm) - 1
      in nm_with_tx (\<lambda>tx. tx_save_layer_size D tx layer 0) nm)"

definition layer_size :: "('c, 'd, 't) node_manager \<Rightarrow> nat \<Rightarrow> nat res" where
  "layer_size nm layer = index (nm_layer_size nm) layer"

definition num_layers :: "('c, 'd, 't) node_manager \<Rightarrow> nat" where
  "num_layers nm = length (nm_layer_size nm)"

definition nm_truncate_nodes ::
    "('e, 'c) lru_ops \<Rightarrow> ('e, 'd, 't) node_database \<Rightarrow> nat \<Rightarrow> nat \<Rightarrow>
     ('c, 'd, 't) node_manager \<Rightarrow> ('c, 'd, 't) node_manager res" where
  "nm_truncate_nodes C D layer pos_end nm =
     rbind (index (nm_layer_size nm) layer) (\<lambda>size.
     let (cache, removed_nodes) =
           fold (\<lambda>pos (cache, removed). (lru_pop C cache (layer, pos), removed @ [(layer, pos)]))
                [pos_end..<size] (nm_cache nm, [])
     in rbind (nm_with_tx (\<lambda>tx. tx_remove_node_list D tx removed_nodes) (nm\<lparr>nm_cache := cache\<rparr>)) (\<lambda>nm.
        set_layer_size D layer pos_end nm))"

definition nm_truncate_layer ::
    "('e, 'c) lru_ops \<Rightarrow> ('e, 'd, 't) node_database \<Rightarrow> nat \<Rightarrow>
     ('c, 'd, 't) node_manager \<Rightarrow> ('c, 'd, 't) node_manager res" where
  "nm_truncate_layer C D layer nm =
     rbind (nm_truncate_nodes C D layer 0 nm) (\<lambda>nm.
     if layer = wsub (num_layers nm) 1
     then nm_with_tx (\<lambda>tx. tx_remove_layer_size D tx layer)
            (nm\<lparr>nm_layer_size := butlast (nm_layer_size nm)\<rparr>)
     else Inr nm)"

definition nm_start_transaction ::
    "('e, 'd, 't) node_database \<Rightarrow> ('c, 'd, 't) node_manager \<Rightarrow>
     ('c, 'd, 't) node_manager res" where
  "nm_start_transaction D nm =
     (if nm_db_tx nm \<noteq> None then Inl (Panic ''start new tx before commit'')
      else Inr (nm\<lparr>nm_db_tx := Some (db_start_transaction D (nm_db nm))\<rparr>))"

definition nm_commit ::
    "('e, 'd, 't) node_database \<Rightarrow> ('c, 'd, 't) node_manager \<Rightarrow> ('c, 'd, 't) node_manager" where
  "nm_commit D nm =
     (case nm_db_tx nm of
        None \<Rightarrow> nm
      | Some tx \<Rightarrow> nm\<lparr>nm_db_tx := None, nm_db := fst (db_commit D (nm_db nm) tx)\<rparr>)"

section \<open>What a tree relies on\<close>

text \<open>
  The documented behaviour of \<open>LruCache\<close> while it holds no more than its capacity, and always of
  \<open>LruCache::unbounded\<close>: a map whose lookups by \<open>get\<close> and \<open>peek\<close> agree.
\<close>

locale node_cache =
  fixes C :: "('e, 'c) lru_ops"
  assumes peek_new: "lru_peek C (lru_new C n) = Map.empty"
    and peek_unbounded: "lru_peek C (lru_unbounded C) = Map.empty"
    and peek_put: "lru_peek C (lru_put C c k v) = (lru_peek C c)(k \<mapsto> v)"
    and peek_pop: "lru_peek C (lru_pop C c k) = (lru_peek C c)(k := None)"
    and get_peek: "fst (lru_get C c k) = lru_peek C c k"
    and peek_get: "lru_peek C (snd (lru_get C c k)) = lru_peek C c"

text \<open>
  \<open>nm_represents C D touched nm L tx\<close>: the manager holds the layers of nodes \<open>L\<close>; a node that is
  not cached was not written by the open transaction, so the database still has it. \<open>tx\<close> says
  whether a transaction is open, and \<open>touched\<close> which keys a transaction writes or removes.
\<close>

definition nm_represents ::
    "('e, 'c) lru_ops \<Rightarrow> ('e, 'd, 't) node_database \<Rightarrow> ('t \<Rightarrow> node_key set) \<Rightarrow>
     ('c, 'd, 't) node_manager \<Rightarrow> 'e list list \<Rightarrow> bool \<Rightarrow> bool" where
  "nm_represents C D touched nm L tx \<longleftrightarrow>
     nm_layer_size nm = map length L \<and> (nm_db_tx nm \<noteq> None \<longleftrightarrow> tx) \<and>
     (\<forall>l < length L. \<forall>p < length (L ! l).
        nm_get_node C D nm l p = Some (L ! l ! p) \<and>
        (lru_peek C (nm_cache nm) (l, p) = None \<longrightarrow>
           (\<forall>t. nm_db_tx nm = Some t \<longrightarrow> (l, p) \<notin> touched t)))"

text \<open>
  A database that leaves alone what a transaction did not write. \<open>touched\<close> collects the keys a
  transaction writes or removes.
\<close>

locale node_store = node_cache C for C :: "('e, 'c) lru_ops" +
  fixes D :: "('e, 'd, 't) node_database"
    and touched :: "'t \<Rightarrow> node_key set"
  assumes touched_start: "touched (db_start_transaction D d) = {}"
    and touched_save: "touched (tx_save_node D t l p v) \<subseteq> insert (l, p) (touched t)"
    and touched_save_list:
      "touched (tx_save_node_list D t ns) \<subseteq> (\<lambda>(l, p, v). (l, p)) ` set ns \<union> touched t"
    and touched_remove_list: "touched (tx_remove_node_list D t ks) \<subseteq> set ks \<union> touched t"
    and touched_layer_size: "touched (tx_save_layer_size D t l n) \<subseteq> touched t"
    and touched_remove_layer: "touched (tx_remove_layer_size D t l) \<subseteq> touched t"
    and commit_frame: "(l, p) \<notin> touched t \<Longrightarrow>
      db_get_node D (fst (db_commit D d t)) l p = db_get_node D d l p"
begin

abbreviation represents :: "('c, 'd, 't) node_manager \<Rightarrow> 'e list list \<Rightarrow> bool \<Rightarrow> bool" where
  "represents \<equiv> nm_represents C D touched"

lemmas represents_def = nm_represents_def [of C D touched]

lemma representsI:
  assumes "nm_layer_size nm = map length L" "nm_db_tx nm \<noteq> None \<longleftrightarrow> tx"
    and "\<And>l p. l < length L \<Longrightarrow> p < length (L ! l) \<Longrightarrow>
      lru_peek C (nm_cache nm) (l, p) = Some (L ! l ! p) \<or>
      lru_peek C (nm_cache nm) (l, p) = None \<and>
      db_get_node D (nm_db nm) l p = Inr (Some (L ! l ! p)) \<and>
      (\<forall>t. nm_db_tx nm = Some t \<longrightarrow> (l, p) \<notin> touched t)"
  shows "represents nm L tx"
  using assms unfolding represents_def nm_get_node_def by fastforce

lemma representsE:
  assumes "represents nm L tx" "l < length L" "p < length (L ! l)"
  obtains "lru_peek C (nm_cache nm) (l, p) = Some (L ! l ! p)"
    | "lru_peek C (nm_cache nm) (l, p) = None"
      "db_get_node D (nm_db nm) l p = Inr (Some (L ! l ! p))"
      "\<And>t. nm_db_tx nm = Some t \<Longrightarrow> (l, p) \<notin> touched t"
  using assms unfolding represents_def nm_get_node_def
  by (fastforce split: option.splits sum.splits)

lemma represents_sizes [layer_simps]:
  assumes "represents nm L tx"
  shows "num_layers nm = length L" "nm_layer_size nm = map length L"
    and "l < length L \<Longrightarrow> layer_size nm l = Inr (length (L ! l))"
  using assms by (auto simp: represents_def num_layers_def layer_size_def)

lemma represents_get [layer_simps]:
  "represents nm L tx \<Longrightarrow> l < length L \<Longrightarrow> p < length (L ! l) \<Longrightarrow>
   nm_get_node C D nm l p = Some (L ! l ! p)"
  by (auto simp: represents_def)

lemma represents_get_nodes [layer_simps]:
  assumes "represents nm L tx" "l < length L" "e \<le> length (L ! l)"
  shows "nm_get_nodes C D nm l s e = drop s (take e (L ! l))"
proof (induction "e - s" arbitrary: s)
  case 0
  then show ?case by (subst nm_get_nodes.simps) simp
next
  case (Suc n)
  then have s: "s < e" by simp
  then have "drop s (take e (L ! l)) = L ! l ! s # drop (Suc s) (take e (L ! l))"
    using assms(3) by (subst Cons_nth_drop_Suc [symmetric]) auto
  moreover have "nm_get_nodes C D nm l (s + 1) e = drop (s + 1) (take e (L ! l))"
    using Suc by (intro Suc.hyps) simp
  ultimately show ?case
    using s assms by (subst nm_get_nodes.simps) (simp add: represents_get)
qed

text \<open>
  What one or more store operations do inside a transaction: the new layer sizes, the new
  contents of the cache, and the keys written. \<open>represents_effect\<close> turns it into layers.
\<close>

definition effect ::
    "('c, 'd, 't) node_manager \<Rightarrow> ('c, 'd, 't) node_manager \<Rightarrow> nat list \<Rightarrow>
     (node_key \<rightharpoonup> 'e) \<Rightarrow> node_key set \<Rightarrow> bool" where
  "effect nm nm' sizes P ks \<longleftrightarrow>
     nm_layer_size nm' = sizes \<and> lru_peek C (nm_cache nm') = P \<and> nm_db nm' = nm_db nm \<and>
     (\<exists>t t'. nm_db_tx nm = Some t \<and> nm_db_tx nm' = Some t' \<and> touched t' \<subseteq> ks \<union> touched t)"

lemma effect_trans:
  "effect nm nm' sizes P ks \<Longrightarrow> effect nm' nm'' sizes' P' ks' \<Longrightarrow> effect nm nm'' sizes' P' (ks \<union> ks')"
  unfolding effect_def by fastforce

lemma represents_effect:
  assumes R: "represents nm L True" and eff: "effect nm nm' (map length L') P ks"
    and new: "\<And>l p. l < length L' \<Longrightarrow> p < length (L' ! l) \<Longrightarrow> P (l, p) = Some (L' ! l ! p) \<or>
      P (l, p) = lru_peek C (nm_cache nm) (l, p) \<and> (l, p) \<notin> ks \<and>
      l < length L \<and> p < length (L ! l) \<and> L ! l ! p = L' ! l ! p"
  shows "represents nm' L' True"
proof (rule representsI)
  show "nm_layer_size nm' = map length L'" "(nm_db_tx nm' \<noteq> None) = True"
    using eff by (auto simp: effect_def)
  fix l p assume lp: "l < length L'" "p < length (L' ! l)"
  show "lru_peek C (nm_cache nm') (l, p) = Some (L' ! l ! p) \<or>
      lru_peek C (nm_cache nm') (l, p) = None \<and>
      db_get_node D (nm_db nm') l p = Inr (Some (L' ! l ! p)) \<and>
      (\<forall>t. nm_db_tx nm' = Some t \<longrightarrow> (l, p) \<notin> touched t)"
    using new [OF lp]
  proof (elim disjE conjE)
    assume "P (l, p) = Some (L' ! l ! p)"
    then show ?thesis using eff by (simp add: effect_def)
  next
    assume old: "P (l, p) = lru_peek C (nm_cache nm) (l, p)" "(l, p) \<notin> ks"
      "l < length L" "p < length (L ! l)" "L ! l ! p = L' ! l ! p"
    show ?thesis using R old(3,4)
      by (cases rule: representsE) (use eff old in \<open>auto simp: effect_def\<close>)
  qed
qed

lemma represents_tx: "represents nm L True \<Longrightarrow> \<exists>t. nm_db_tx nm = Some t"
  by (auto simp: represents_def)

lemma add_node_effect:
  assumes "nm_db_tx nm = Some t"
  shows "\<exists>nm'. nm_add_node C D l p x nm = Inr nm' \<and>
    effect nm nm' (nm_layer_size nm) ((lru_peek C (nm_cache nm))((l, p) \<mapsto> x)) {(l, p)}"
proof -
  obtain g c where g: "lru_get C (nm_cache nm) (l, p) = (g, c)" by fastforce
  have gp: "g = lru_peek C (nm_cache nm) (l, p)" and cp: "lru_peek C c = lru_peek C (nm_cache nm)"
    using get_peek [of "nm_cache nm" "(l, p)"] peek_get [of "nm_cache nm" "(l, p)"] g by auto
  show ?thesis
  proof (cases "g = Some x")
    case True
    then show ?thesis using assms gp cp
      by (auto simp: nm_add_node_def g effect_def fun_upd_idem)
  next
    case False
    then show ?thesis using assms cp touched_save [of t l p x]
      by (auto simp: nm_add_node_def g effect_def nm_with_tx_def peek_put)
  qed
qed

lemma set_layer_size_effect:
  assumes "nm_db_tx nm = Some t" "l < length (nm_layer_size nm)"
  shows "\<exists>nm'. set_layer_size D l n nm = Inr nm' \<and>
    effect nm nm' ((nm_layer_size nm)[l := n]) (lru_peek C (nm_cache nm)) {}"
  using assms touched_layer_size [of t l n]
  by (auto simp: set_layer_size_def nm_with_tx_def effect_def)

lemma effect_tx: "effect nm nm' sizes P ks \<Longrightarrow> \<exists>t. nm_db_tx nm' = Some t"
  by (auto simp: effect_def)

lemma represents_add_node:
  assumes R: "represents nm L True" and l: "l < length L" and p: "p < length (L ! l)"
  shows "\<exists>nm'. nm_add_node C D l p x nm = Inr nm' \<and> represents nm' (L[l := (L ! l)[p := x]]) True"
proof -
  obtain nm' where nm': "nm_add_node C D l p x nm = Inr nm'"
    and eff: "effect nm nm' (nm_layer_size nm) ((lru_peek C (nm_cache nm))((l, p) \<mapsto> x)) {(l, p)}"
    using add_node_effect represents_tx [OF R] by blast
  have "map length (L[l := (L ! l)[p := x]]) = nm_layer_size nm"
    using represents_sizes(2) [OF R] l by (simp add: map_update list_update_same_conv)
  then have "represents nm' (L[l := (L ! l)[p := x]]) True"
    using eff l p by (intro represents_effect [OF R]) (auto simp: nth_list_update)
  then show ?thesis using nm' by blast
qed

lemma represents_push_node:
  assumes R: "represents nm L True" and l: "l < length L"
  shows "\<exists>nm'. nm_push_node C D l x nm = Inr nm' \<and> represents nm' (L[l := L ! l @ [x]]) True"
proof -
  let ?n = "length (L ! l)"
  obtain nm1 where nm1: "nm_add_node C D l ?n x nm = Inr nm1"
    and e1: "effect nm nm1 (nm_layer_size nm) ((lru_peek C (nm_cache nm))((l, ?n) \<mapsto> x)) {(l, ?n)}"
    using add_node_effect represents_tx [OF R] by blast
  have sz: "nm_layer_size nm1 = map length L" using e1 represents_sizes(2) [OF R] by (simp add: effect_def)
  obtain nm2 where nm2: "set_layer_size D l (?n + 1) nm1 = Inr nm2"
    and e2: "effect nm1 nm2 ((nm_layer_size nm1)[l := ?n + 1]) (lru_peek C (nm_cache nm1)) {}"
    using set_layer_size_effect effect_tx [OF e1] l sz by (metis length_map)
  have "effect nm nm2 (map length (L[l := L ! l @ [x]]))
      ((lru_peek C (nm_cache nm))((l, ?n) \<mapsto> x)) ({(l, ?n)} \<union> {})"
    using effect_trans [OF e1 e2] e1 sz by (simp add: effect_def map_update)
  then have "represents nm2 (L[l := L ! l @ [x]]) True"
    using l by (intro represents_effect [OF R]) (auto simp: nth_list_update nth_append)
  then show ?thesis
    using nm1 nm2 sz l represents_sizes(2) [OF R] by (simp add: nm_push_node_def)
qed

lemma append_nodes_fold:
  assumes "fold (\<lambda>node (cache, saved, pos).
      (lru_put C cache (l, pos) node, saved @ [(l, pos, node)], pos + 1)) xs (c, sv, n) = (c', sv', n')"
  shows "n' = n + length xs"
    and "lru_peek C c' (k, q) =
      (if k = l \<and> n \<le> q \<and> q < n + length xs then Some (xs ! (q - n)) else lru_peek C c (k, q))"
    and "(\<lambda>(l, p, v). (l, p)) ` set sv' \<subseteq> (\<lambda>(l, p, v). (l, p)) ` set sv \<union> {l} \<times> {n..}"
  using assms
proof (induction xs arbitrary: c sv n)
  case (Cons x xs)
  {
    case 1
    then show ?case using Cons.IH(1) by fastforce
  next
    case 2
    then show ?case
      using Cons.IH(2) [of "lru_put C c (l, n) x" "sv @ [(l, n, x)]" "n + 1"]
      by (auto simp: peek_put nth_Cons')
  next
    case 3
    then have "(\<lambda>(l, p, v). (l, p)) ` set sv' \<subseteq>
        insert (l, n) ((\<lambda>(l, p, v). (l, p)) ` set sv) \<union> {l} \<times> {n + 1..}"
      using Cons.IH(3) [of "lru_put C c (l, n) x" "sv @ [(l, n, x)]" "n + 1"] by simp
    then show ?case by auto
  }
qed auto

lemma represents_append_nodes:
  assumes R: "represents nm L True" and l: "l < length L"
  shows "\<exists>nm'. nm_append_nodes C D l xs nm = Inr nm' \<and> represents nm' (L[l := L ! l @ xs]) True"
proof -
  let ?n = "length (L ! l)"
  obtain c sv m where f: "fold (\<lambda>node (cache, saved, pos).
      (lru_put C cache (l, pos) node, saved @ [(l, pos, node)], pos + 1)) xs (nm_cache nm, [], ?n) =
      (c, sv, m)"
    by (rule prod_cases3)
  note f' = append_nodes_fold [OF f]
  obtain t where t: "nm_db_tx nm = Some t" using represents_tx [OF R] by blast
  have sz: "nm_layer_size nm = map length L" by (rule represents_sizes(2) [OF R])
  obtain nm2 where nm2: "set_layer_size D l m (nm\<lparr>nm_cache := c\<rparr>) = Inr nm2"
    and e2: "effect (nm\<lparr>nm_cache := c\<rparr>) nm2 ((map length L)[l := m]) (lru_peek C c) {}"
    using set_layer_size_effect [of "nm\<lparr>nm_cache := c\<rparr>" t l m] t l sz by auto
  obtain t2 where t2: "nm_db_tx nm2 = Some t2" "touched t2 \<subseteq> touched t" using e2 t by (auto simp: effect_def)
  let ?nm3 = "nm2\<lparr>nm_db_tx := Some (tx_save_node_list D t2 sv)\<rparr>"
  have "touched (tx_save_node_list D t2 sv) \<subseteq> {l} \<times> {?n..} \<union> touched t"
    using f'(3) t2(2) by (intro order_trans [OF touched_save_list] Un_mono) auto
  then have "effect nm ?nm3 (map length (L[l := L ! l @ xs])) (lru_peek C c) ({l} \<times> {?n..})"
    using e2 t f'(1) by (auto simp: effect_def map_update)
  then have "represents ?nm3 (L[l := L ! l @ xs]) True"
    using l by (rule_tac represents_effect [OF R]) (auto simp: f'(2) nth_list_update nth_append)
  moreover have "nm_append_nodes C D l xs nm = Inr ?nm3"
    using l sz f nm2 t2 by (simp add: nm_append_nodes_def nm_with_tx_def)
  ultimately show ?thesis by blast
qed

lemma represents_add_layer:
  assumes R: "represents nm L True"
  shows "\<exists>nm'. nm_add_layer D nm = Inr nm' \<and> represents nm' (L @ [[]]) True"
proof -
  obtain t where t: "nm_db_tx nm = Some t" using represents_tx [OF R] by blast
  let ?nm' = "nm\<lparr>nm_layer_size := nm_layer_size nm @ [0],
      nm_db_tx := Some (tx_save_layer_size D t (length L) 0)\<rparr>"
  have "effect nm ?nm' (map length (L @ [[]])) (lru_peek C (nm_cache nm)) {}"
    using t touched_layer_size represents_sizes(2) [OF R] by (auto simp: effect_def)
  then have "represents ?nm' (L @ [[]]) True"
    by (rule represents_effect [OF R]) (auto simp: nth_append split: if_splits)
  then show ?thesis
    using t represents_sizes(2) [OF R] by (simp add: nm_add_layer_def nm_with_tx_def)
qed

lemma truncate_nodes_fold:
  assumes "fold (\<lambda>pos (cache, removed). (lru_pop C cache (l, pos), removed @ [(l, pos)])) ps (c, rm) = (c', rm')"
  shows "lru_peek C c' (k, q) = (if k = l \<and> q \<in> set ps then None else lru_peek C c (k, q))"
    and "set rm' = set rm \<union> {l} \<times> set ps"
  using assms
proof (induction ps arbitrary: c rm)
  case (Cons p ps)
  {
    case 1
    then show ?case using Cons.IH(1) [of "lru_pop C c (l, p)" "rm @ [(l, p)]"] by (auto simp: peek_pop)
  next
    case 2
    then show ?case using Cons.IH(2) [of "lru_pop C c (l, p)" "rm @ [(l, p)]"] by auto
  }
qed auto

lemma represents_truncate_nodes:
  assumes R: "represents nm L True" and l: "l < length L" and n: "n \<le> length (L ! l)"
  shows "\<exists>nm'. nm_truncate_nodes C D l n nm = Inr nm' \<and> represents nm' (L[l := take n (L ! l)]) True"
proof -
  obtain c rm where f: "fold (\<lambda>pos (cache, removed). (lru_pop C cache (l, pos), removed @ [(l, pos)]))
      [n..<length (L ! l)] (nm_cache nm, []) = (c, rm)" by fastforce
  note f' = truncate_nodes_fold [OF f]
  obtain t where t: "nm_db_tx nm = Some t" using represents_tx [OF R] by blast
  have sz: "nm_layer_size nm = map length L" by (rule represents_sizes(2) [OF R])
  let ?nm1 = "nm\<lparr>nm_cache := c, nm_db_tx := Some (tx_remove_node_list D t rm)\<rparr>"
  obtain nm2 where nm2: "set_layer_size D l n ?nm1 = Inr nm2"
    and e2: "effect ?nm1 nm2 ((map length L)[l := n]) (lru_peek C c) {}"
    using set_layer_size_effect [of ?nm1 _ l n] l sz by auto
  have "touched (tx_remove_node_list D t rm) \<subseteq> {l} \<times> {n..} \<union> touched t"
    using touched_remove_list [of t rm] f'(2) by auto
  then have "effect nm nm2 (map length (L[l := take n (L ! l)])) (lru_peek C c) ({l} \<times> {n..})"
    using e2 t n by (simp add: effect_def map_update) blast
  then have "represents nm2 (L[l := take n (L ! l)]) True"
    using l by (rule_tac represents_effect [OF R]) (auto simp: f'(1) nth_list_update split: if_splits)
  moreover have "nm_truncate_nodes C D l n nm = Inr nm2"
    using l sz f nm2 t by (simp add: nm_truncate_nodes_def nm_with_tx_def)
  ultimately show ?thesis by blast
qed

lemma represents_truncate_top:
  assumes R: "represents nm L True" and l: "Suc l = length L"
  shows "\<exists>nm'. nm_truncate_layer C D l nm = Inr nm' \<and> represents nm' (butlast L) True"
proof -
  obtain nm1 where nm1: "nm_truncate_nodes C D l 0 nm = Inr nm1"
    and R1: "represents nm1 (L[l := take 0 (L ! l)]) True"
    using represents_truncate_nodes [OF R, of l 0] l by auto
  obtain t where t: "nm_db_tx nm1 = Some t" using represents_tx [OF R1] by blast
  let ?nm2 = "nm1\<lparr>nm_layer_size := butlast (nm_layer_size nm1),
      nm_db_tx := Some (tx_remove_layer_size D t l)\<rparr>"
  have "effect nm1 ?nm2 (map length (butlast L)) (lru_peek C (nm_cache nm1)) {}"
    using t touched_remove_layer represents_sizes(2) [OF R1] l
    by (auto simp: effect_def map_butlast [symmetric] map_update butlast_list_update)
  then have "represents ?nm2 (butlast L) True"
    using l by (rule_tac represents_effect [OF R1]) (auto simp: nth_butlast)
  moreover have "l = wsub (num_layers nm1) 1"
    using l represents_sizes(1) [OF R1] by (simp flip: l)
  ultimately show ?thesis using nm1 t by (auto simp: nm_truncate_layer_def nm_with_tx_def)
qed

lemma represents_start:
  assumes R: "represents nm L False"
  shows "\<exists>nm'. nm_start_transaction D nm = Inr nm' \<and> represents nm' L True"
proof -
  let ?nm' = "nm\<lparr>nm_db_tx := Some (db_start_transaction D (nm_db nm))\<rparr>"
  have "represents ?nm' L True"
  proof (rule representsI)
    fix l p assume "l < length L" "p < length (L ! l)"
    with R show "lru_peek C (nm_cache ?nm') (l, p) = Some (L ! l ! p) \<or>
      lru_peek C (nm_cache ?nm') (l, p) = None \<and>
      db_get_node D (nm_db ?nm') l p = Inr (Some (L ! l ! p)) \<and>
      (\<forall>t. nm_db_tx ?nm' = Some t \<longrightarrow> (l, p) \<notin> touched t)"
      by (cases rule: representsE) (auto simp: touched_start)
  qed (use R in \<open>auto simp: represents_def\<close>)
  moreover have "nm_db_tx nm = None" using R by (auto simp: represents_def)
  ultimately show ?thesis by (auto simp: nm_start_transaction_def)
qed

lemma represents_commit:
  assumes R: "represents nm L True"
  shows "represents (nm_commit D nm) L False"
proof -
  obtain t where t: "nm_db_tx nm = Some t" using represents_tx [OF R] by blast
  show ?thesis
  proof (rule representsI)
    fix l p assume "l < length L" "p < length (L ! l)"
    with R show "lru_peek C (nm_cache (nm_commit D nm)) (l, p) = Some (L ! l ! p) \<or>
      lru_peek C (nm_cache (nm_commit D nm)) (l, p) = None \<and>
      db_get_node D (nm_db (nm_commit D nm)) l p = Inr (Some (L ! l ! p)) \<and>
      (\<forall>t. nm_db_tx (nm_commit D nm) = Some t \<longrightarrow> (l, p) \<notin> touched t)"
      by (cases rule: representsE) (use t in \<open>auto simp: nm_commit_def commit_frame\<close>)
  qed (use R t in \<open>auto simp: represents_def nm_commit_def\<close>)
qed

end

text \<open>The trees in memory: the dummy database needs nothing but the cache.\<close>

sublocale node_cache \<subseteq> memory: node_store C empty_node_database "\<lambda>_. {}"
  by unfold_locales (auto simp: empty_node_database_def)

text \<open>A cache that is a map, for evaluating the model on concrete inputs.\<close>

definition map_cache :: "('e, node_key \<rightharpoonup> 'e) lru_ops" where
  "map_cache =
     \<lparr>lru_new = (\<lambda>_. Map.empty), lru_unbounded = Map.empty, lru_put = (\<lambda>m k v. m(k \<mapsto> v)),
      lru_get = (\<lambda>m k. (m k, m)), lru_peek = (\<lambda>m. m), lru_pop = (\<lambda>m k. m(k := None))\<rparr>"

interpretation map_cache: node_cache map_cache
  by unfold_locales (auto simp: map_cache_def)

end
