(* ===== verification/Merkle_Proof.thy ===== *)
theory Merkle_Proof
  imports Hash_Algorithm
begin

text \<open>
  Inclusion proofs and range proofs of the append-only trees:
  \<open>common/append_merkle/src/proof.rs\<close>. A proof is a list of hashes (leaf, siblings bottom up,
  root) and a list of directions (\<open>True\<close>: the node is the left child). The definitions keep the
  checks and the panics of the source; the lemmas reduce validation to the reference tree
  \<open>mnode\<close>: whatever validates against the root of a tree is in the tree, or a collision of
  the node hash can be read off the proof.
\<close>

section \<open>Inclusion proofs\<close>

record 'e merkle_proof =
  lemma_of :: "'e list"
  path_of :: "bool list"

definition proof_new :: "'e list \<Rightarrow> bool list \<Rightarrow> 'e merkle_proof res" where
  "proof_new hash path =
     (if length hash \<noteq> length path + 2 then Inl (Err ''Proof::new: expected hash length = path.len() + 2'')
      else Inr \<lparr>lemma_of = hash, path_of = path\<rparr>)"

definition proof_new_empty :: "'e merkle_proof" where
  "proof_new_empty = \<lparr>lemma_of = [], path_of = []\<rparr>"

definition proof_item :: "'e merkle_proof \<Rightarrow> 'e res" where
  "proof_item p = (case lemma_of p of [] \<Rightarrow> Inl (Panic ''unwrap on None'') | x # _ \<Rightarrow> Inr x)"

definition proof_root :: "'e merkle_proof \<Rightarrow> 'e res" where
  "proof_root p =
     (if lemma_of p = [] then Inl (Panic ''unwrap on None'') else Inr (last (lemma_of p)))"

definition validate_integrity :: "('e, 'z) hash_alg_scheme \<Rightarrow> 'e merkle_proof \<Rightarrow> bool res" where
  "validate_integrity A p =
     (let size = length (lemma_of p) in
      if size < 2 then Inr False
      else rbind (proof_item p) (\<lambda>item.
        rbind (rfold (\<lambda>i h. rbind (index (path_of p) (i - 1)) (\<lambda>is_left.
                 rbind (index (lemma_of p) i) (\<lambda>s.
                   Inr (if is_left then alg_parent A h s else alg_parent A s h))))
               [1..<size - 1] item) (\<lambda>h.
        rbind (proof_root p) (\<lambda>root. Inr (h = root)))))"

text \<open>
  \<open>position\<close> adds \<open>1 << i\<close> for every right turn. The path comes from the network, so the width
  of \<open>usize\<close> is written out: the shift amount and the sum are reduced.
\<close>

definition proof_position :: "'e merkle_proof \<Rightarrow> nat" where
  "proof_position p =
     fold (\<lambda>(i, is_left) pos. if \<not> is_left then (pos + 2 ^ (i mod 64)) mod 2 ^ 64 else pos)
       (enumerate 0 (path_of p)) 0"

definition proof_validate ::
    "('e, 'z) hash_alg_scheme \<Rightarrow> 'e merkle_proof \<Rightarrow> 'e \<Rightarrow> nat \<Rightarrow> unit res" where
  "proof_validate A p item position =
     rbind (validate_integrity A p) (\<lambda>ok.
     rbind (ensure ok (Err ''Invalid proof'')) (\<lambda>_.
     rbind (proof_item p) (\<lambda>it.
     rbind (ensure (item = it) (Err ''Proof item mismatch'')) (\<lambda>_.
     ensure (position = proof_position p) (Err ''Proof position mismatch'')))))"

text \<open>
  The nodes of the tree that a proof determines, with their index in the layer, bottom up:
  the siblings on the path and the root.
\<close>

definition proof_nodes_in_tree :: "'e merkle_proof \<Rightarrow> (nat \<times> 'e) list res" where
  "proof_nodes_in_tree p =
     rbind (proof_root p) (\<lambda>root.
     rbind (rfold (\<lambda>(i, is_left) (pos, r).
              let pos = (if \<not> is_left then 2 * pos + 1 else 2 * pos);
                  lemma_pos = (if is_left then pos + 1 else pos - 1)
              in rbind (index (lemma_of p) (wsub (length (lemma_of p)) (2 + i)))
                   (\<lambda>s. Inr (pos, r @ [(lemma_pos, s)])))
            (enumerate 0 (rev (path_of p))) (0, [(0, root)])) (\<lambda>(pos, r).
     Inr (rev r)))"

text \<open>
  The loop of \<open>file_proof_nodes_in_tree\<close>: its state is \<open>(subtree_pos, root_pos, in_subtree, r)\<close>,
  and the two \<open>break\<close>s return it at once.
\<close>

fun file_proof_loop ::
    "'e list \<Rightarrow> (nat \<times> 'e) list \<Rightarrow> nat \<Rightarrow> (nat \<times> bool) list \<Rightarrow>
     nat \<times> nat \<times> bool \<times> (nat \<times> 'e) list \<Rightarrow> (nat \<times> 'e) list res" where
  "file_proof_loop ls nodes nsize [] (subtree_pos, root_pos, in_subtree, r) = Inr r"
| "file_proof_loop ls nodes nsize ((i, is_left) # rest) (subtree_pos, root_pos, in_subtree, r) =
     (if \<not> in_subtree then
        (if is_left then
           rbind (index nodes i) (\<lambda>n.
             file_proof_loop ls nodes nsize rest
               (subtree_pos, root_pos div 2 ^ fst n, True, r))
         else if i < length nodes then
           (let root_pos = root_pos + 2 ^ fst (nodes ! i) in
            if i = wsub nsize 2 then
              (if i + 1 \<ge> length nodes then Inr r
               else file_proof_loop ls nodes nsize rest
                      (subtree_pos, root_pos div 2 ^ fst (nodes ! (i + 1)), True, r))
            else file_proof_loop ls nodes nsize rest (subtree_pos, root_pos, in_subtree, r))
         else Inr r)
      else
        (let subtree_pos = 2 * subtree_pos;
             root_pos = 2 * root_pos;
             subtree_pos = (if \<not> is_left then subtree_pos + 1 else subtree_pos);
             lemma_pos = (if is_left then root_pos + subtree_pos + 1
                          else wsub (root_pos + subtree_pos) 1)
         in rbind (index ls (wsub (length ls) (2 + i))) (\<lambda>s.
              file_proof_loop ls nodes nsize rest
                (subtree_pos, root_pos, in_subtree, r @ [(lemma_pos, s)]))))"

definition file_proof_nodes_in_tree ::
    "'e merkle_proof \<Rightarrow> (nat \<times> 'e) list \<Rightarrow> nat \<Rightarrow> (nat \<times> 'e) list res" where
  "file_proof_nodes_in_tree p tx_merkle_nodes tx_merkle_nodes_size =
     rbind (file_proof_loop (lemma_of p) tx_merkle_nodes tx_merkle_nodes_size
              (enumerate 0 (rev (path_of p))) (0, 0, tx_merkle_nodes_size = 1, []))
       (\<lambda>r. Inr (rev r))"

section \<open>Range proofs\<close>

record 'e range_proof =
  left_proof :: "'e merkle_proof"
  right_proof :: "'e merkle_proof"

definition range_new_empty :: "'e range_proof" where
  "range_new_empty = \<lparr>left_proof = proof_new_empty, right_proof = proof_new_empty\<rparr>"

definition range_integrity :: "('e, 'z) hash_alg_scheme \<Rightarrow> 'e range_proof \<Rightarrow> bool res" where
  "range_integrity A rp =
     rbind (validate_integrity A (left_proof rp)) (\<lambda>l.
     if \<not> l then Inr False else
     rbind (validate_integrity A (right_proof rp)) (\<lambda>r.
     if \<not> r then Inr False else
     rbind (proof_root (left_proof rp)) (\<lambda>lroot.
     rbind (proof_root (right_proof rp)) (\<lambda>rroot.
     Inr (lroot = rroot \<and>
          length (path_of (left_proof rp)) = length (path_of (right_proof rp)))))))"

definition range_root :: "'e range_proof \<Rightarrow> 'e res" where
  "range_root rp = proof_root (left_proof rp)"

text \<open>\<open>chunks_exact(2)\<close> mapped by the node hash, and its remainder.\<close>

fun pair_parents :: "('e, 'z) hash_alg_scheme \<Rightarrow> 'e list \<Rightarrow> 'e list" where
  "pair_parents A (l # r # xs) = alg_parent A l r # pair_parents A xs"
| "pair_parents A xs = []"

fun pair_remainder :: "'e list \<Rightarrow> 'e list" where
  "pair_remainder (l # r # xs) = pair_remainder xs"
| "pair_remainder xs = xs"

text \<open>One iteration of the loop of \<open>RangeProof::validate\<close>: the parents of the current layer.\<close>

definition range_layer_up ::
    "('e, 'z) hash_alg_scheme \<Rightarrow> 'e range_proof \<Rightarrow> nat \<Rightarrow> 'e list \<Rightarrow> 'e list res" where
  "range_layer_up A rp height current_layer =
     rbind (index (path_of (left_proof rp)) height) (\<lambda>lbit.
     rbind (if \<not> lbit
            then rbind (index (lemma_of (left_proof rp)) (height + 1)) (\<lambda>s.
                 rbind (index current_layer 0) (\<lambda>c. Inr ([alg_parent A s c], 1)))
            else Inr ([], 0)) (\<lambda>(parent_layer, start_index).
     let rest = drop start_index current_layer;
         parent_layer = parent_layer @ pair_parents A rest
     in case pair_remainder rest of
          [right_most] \<Rightarrow>
            rbind (index (path_of (right_proof rp)) height) (\<lambda>rbit.
            if rbit
            then rbind (index (lemma_of (right_proof rp)) (height + 1)) (\<lambda>s.
                 Inr (parent_layer @ [alg_parent A right_most s]))
            else Inl (Err ''Unexpected error''))
        | _ \<Rightarrow> Inr parent_layer))"

definition range_validate ::
    "('e, 'z) hash_alg_scheme \<Rightarrow> 'e range_proof \<Rightarrow> 'e list \<Rightarrow> nat \<Rightarrow> unit res" where
  "range_validate A rp range_leaves start_position =
     rbind (range_integrity A rp) (\<lambda>ok.
     rbind (ensure ok (Err ''Invalid range proof'')) (\<lambda>_.
     rbind (ensure (range_leaves \<noteq> []) (Err ''Empty range'')) (\<lambda>_.
     let end_position = start_position + length range_leaves - 1 in
     rbind (proof_item (left_proof rp)) (\<lambda>litem.
     rbind (ensure (litem = hd range_leaves) (Err ''equal check fails'')) (\<lambda>_.
     rbind (proof_item (right_proof rp)) (\<lambda>ritem.
     rbind (ensure (ritem = last range_leaves) (Err ''equal check fails'')) (\<lambda>_.
     rbind (ensure (proof_position (left_proof rp) = start_position) (Err ''equal check fails'')) (\<lambda>_.
     rbind (ensure (proof_position (right_proof rp) = end_position) (Err ''equal check fails'')) (\<lambda>_.
     let tree_depth = length (path_of (left_proof rp)) + 1 in
     rbind (rfold (\<lambda>height (children_layer, current_layer).
              rbind (range_layer_up A rp height current_layer) (\<lambda>pl. Inr (pl, pl)))
            [0..<tree_depth - 1] ([], range_leaves)) (\<lambda>(children_layer, current_layer).
     if children_layer = [] then
       rbind (ensure (length range_leaves = 1) (Err ''equal check fails'')) (\<lambda>_.
       rbind (range_root rp) (\<lambda>root.
       ensure (hd range_leaves = root) (Err ''equal check fails'')))
     else
       rbind (ensure (length children_layer = 1) (Err ''equal check fails'')) (\<lambda>_.
       rbind (range_root rp) (\<lambda>root.
       ensure (last children_layer = root) (Err ''equal check fails'')))))))))))))"

section \<open>Positions\<close>

text \<open>The position a path stands for, and its bits.\<close>

primrec path_pos :: "bool list \<Rightarrow> nat" where
  "path_pos [] = 0"
| "path_pos (b # bs) = (if b then 0 else 1) + 2 * path_pos bs"

lemma path_pos_less: "path_pos bs < 2 ^ length bs"
  by (induction bs) auto

lemma path_pos_snoc: "path_pos (bs @ [b]) = path_pos bs + (if b then 0 else 2 ^ length bs)"
  by (induction bs) auto

lemma path_pos_nth: "h < length bs \<Longrightarrow> bs ! h \<longleftrightarrow> even (path_pos bs div 2 ^ h)"
proof (induction bs arbitrary: h)
  case Nil
  then show ?case by simp
next
  case (Cons b bs)
  show ?case
  proof (cases h)
    case 0
    then show ?thesis by simp
  next
    case (Suc k)
    have "path_pos (b # bs) div 2 ^ h = path_pos (b # bs) div 2 div 2 ^ k"
      by (simp add: Suc div_mult2_eq)
    also have "path_pos (b # bs) div 2 = path_pos bs" by simp
    finally show ?thesis using Cons Suc by simp
  qed
qed

lemma proof_position_eq:
  assumes "length (path_of p) \<le> 64"
  shows "proof_position p = path_pos (path_of p)"
proof -
  have "fold (\<lambda>(i, is_left) pos. if \<not> is_left then (pos + 2 ^ (i mod 64)) mod 2 ^ 64 else pos)
      (enumerate 0 bs) 0 = path_pos bs" if "length bs \<le> 64" for bs
    using that
  proof (induction bs rule: rev_induct)
    case Nil
    then show ?case by simp
  next
    case (snoc b bs)
    have len: "length bs < 64" using snoc.prems by simp
    have "path_pos bs < 2 ^ length bs" by (rule path_pos_less)
    moreover have "(2::nat) ^ Suc (length bs) \<le> 2 ^ 64"
      using snoc.prems by (intro power_increasing) auto
    ultimately have "path_pos bs + 2 ^ length bs < 2 ^ 64" by simp
    with len snoc.IH show ?case by (simp add: enumerate_append_eq path_pos_snoc)
  qed
  then show ?thesis using assms by (simp add: proof_position_def)
qed

section \<open>Climbing a path\<close>

fun climb :: "('e, 'z) hash_alg_scheme \<Rightarrow> 'e \<Rightarrow> bool list \<Rightarrow> 'e list \<Rightarrow> 'e" where
  "climb A h (b # bs) (s # ss) = climb A (if b then alg_parent A h s else alg_parent A s h) bs ss"
| "climb A h bs ss = h"

text \<open>A proof as \<open>Proof::new\<close> builds it, with a path that a \<open>usize\<close> position can number.\<close>

definition wf_proof :: "'e merkle_proof \<Rightarrow> bool" where
  "wf_proof p \<longleftrightarrow> length (lemma_of p) = length (path_of p) + 2 \<and> length (path_of p) \<le> 64"

definition proof_siblings :: "'e merkle_proof \<Rightarrow> 'e list" where
  "proof_siblings p = butlast (tl (lemma_of p))"

lemma proof_new_wf:
  "proof_new ls bs = Inr p \<Longrightarrow> length bs \<le> 64 \<Longrightarrow> wf_proof p"
  by (auto simp: proof_new_def wf_proof_def split: if_splits)

lemma integrity_loop:
  assumes "k + m \<le> length bs" "k + m < length ls"
  shows "rfold (\<lambda>i h. rbind (index bs (i - 1)) (\<lambda>is_left. rbind (index ls i) (\<lambda>s.
           Inr (if is_left then alg_parent A h s else alg_parent A s h))))
           [Suc k..<Suc k + m] h =
         Inr (climb A h (take m (drop k bs)) (take m (drop (Suc k) ls)))"
  using assms
proof (induction m arbitrary: k h)
  case 0
  then show ?case by simp
next
  case (Suc m)
  have k: "k < length bs" "Suc k < length ls" using Suc.prems by auto
  have d: "drop k bs = bs ! k # drop (Suc k) bs"
      "drop (Suc k) ls = ls ! Suc k # drop (Suc (Suc k)) ls"
    using k by (simp_all add: Cons_nth_drop_Suc)
  have u: "[Suc k..<Suc k + Suc m] = Suc k # [Suc (Suc k)..<Suc (Suc k) + m]"
    by (simp add: upt_conv_Cons del: upt_Suc)
  have IH: "rfold (\<lambda>i h. rbind (index bs (i - 1)) (\<lambda>is_left. rbind (index ls i) (\<lambda>s.
           Inr (if is_left then alg_parent A h s else alg_parent A s h))))
           [Suc (Suc k)..<Suc (Suc k) + m] h' =
         Inr (climb A h' (take m (drop (Suc k) bs)) (take m (drop (Suc (Suc k)) ls)))" for h'
    using Suc.prems by (intro Suc.IH) auto
  show ?case
    unfolding u d take_Suc_Cons rfold.simps climb.simps
    using k by (simp only: diff_Suc_1 index_in rbind_Inr IH)
qed

lemma validate_integrity_loop:
  assumes "2 \<le> length (lemma_of p)" "length (lemma_of p) \<le> length (path_of p) + 2"
  shows "validate_integrity A p =
    Inr (climb A (hd (lemma_of p)) (take (length (lemma_of p) - 2) (path_of p)) (proof_siblings p) =
      last (lemma_of p))"
proof -
  obtain x zs where "lemma_of p = x # zs" and "zs \<noteq> []"
    using assms(1) by (cases "lemma_of p") fastforce+
  then obtain ss r where ls: "lemma_of p = x # ss @ [r]" by (metis append_butlast_last_id)
  have len: "length ss \<le> length (path_of p)" using assms by (simp add: ls)
  have "rfold (\<lambda>i h. rbind (index (path_of p) (i - 1)) (\<lambda>is_left. rbind (index (lemma_of p) i) (\<lambda>s.
           Inr (if is_left then alg_parent A h s else alg_parent A s h))))
           [Suc 0..<Suc 0 + length ss] x = Inr (climb A x (take (length ss) (path_of p)) ss)"
    using len by (subst integrity_loop) (auto simp: ls)
  then show ?thesis
    by (simp add: validate_integrity_def proof_item_def proof_root_def proof_siblings_def ls)
qed

lemma validate_integrity_wf:
  assumes "length (lemma_of p) = length (path_of p) + 2"
  shows "validate_integrity A p =
    Inr (climb A (hd (lemma_of p)) (path_of p) (proof_siblings p) = last (lemma_of p))"
  using assms by (subst validate_integrity_loop) auto

text \<open>Only as many bits of the path are hashed as the proof has siblings.\<close>

lemma validate_integrity_longer_path:
  assumes "length (lemma_of p) = length (path_of p) + 2"
  shows "validate_integrity A (p\<lparr>path_of := path_of p @ bs\<rparr>) = validate_integrity A p"
  using assms by (simp add: validate_integrity_loop proof_siblings_def)

text \<open>A proof whose path is too short for its hashes makes the validation panic.\<close>

lemma validate_integrity_short_path:
  assumes "length (path_of p) + 2 < length (lemma_of p)"
  shows "validate_integrity A p = Inl (Panic ''index out of bounds'')"
proof -
  let ?n = "length (path_of p)"
  let ?f = "\<lambda>i h. rbind (index (path_of p) (i - 1)) (\<lambda>is_left. rbind (index (lemma_of p) i) (\<lambda>s.
           Inr (if is_left then alg_parent A h s else alg_parent A s h)))"
  obtain x zs where ls: "lemma_of p = x # zs" using assms by (cases "lemma_of p") auto
  have split: "[1..<length (lemma_of p) - 1] =
      [Suc 0..<Suc 0 + ?n] @ [Suc 0 + ?n..<length (lemma_of p) - 1]"
    unfolding One_nat_def by (rule upt_split) (use assms in simp_all)
  obtain h where loop: "rfold ?f [Suc 0..<Suc 0 + ?n] x = Inr h"
    using integrity_loop [of 0 ?n "path_of p" "lemma_of p" A x] assms by auto
  have out: "rfold ?f [Suc 0 + ?n..<length (lemma_of p) - 1] h = Inl (Panic ''index out of bounds'')"
    using assms by (subst upt_conv_Cons) (simp_all add: index_out)
  have "rfold ?f [1..<length (lemma_of p) - 1] x = Inl (Panic ''index out of bounds'')"
    unfolding split rfold_append loop rbind_Inr by (rule out)
  then show ?thesis using assms by (auto simp: validate_integrity_def proof_item_def ls simp del: upt_Suc)
qed

section \<open>Soundness against the reference tree\<close>

text \<open>
  The pairs of nodes a validator hashes, and a clash: one of these pairs hashes to a node of the
  reference tree without being the two children of that node. No hash function excludes it, so
  soundness is: what was proved is in the tree, or the proof itself shows such a clash.
\<close>

definition hash_clash :: "('e, 'z) hash_alg_scheme \<Rightarrow> nat \<Rightarrow> 'e list \<Rightarrow> ('e \<times> 'e) list \<Rightarrow> bool" where
  "hash_clash A lh xs ps \<longleftrightarrow>
     (\<exists>(l, r) \<in> set ps. \<exists>h i. alg_parent A l r = mnode A lh xs (Suc h) i \<and>
        (l, r) \<noteq> (mnode A lh xs h (2 * i), mnode A lh xs h (2 * i + 1)))"

lemma clash_free:
  assumes "\<not> hash_clash A lh xs ps" "(l, r) \<in> set ps" "alg_parent A l r = mnode A lh xs (Suc h) i"
  shows "l = mnode A lh xs h (2 * i) \<and> r = mnode A lh xs h (2 * i + 1)"
  using assms unfolding hash_clash_def by blast

lemma clash_subset: "hash_clash A lh xs ps \<Longrightarrow> set ps \<subseteq> set qs \<Longrightarrow> hash_clash A lh xs qs"
  unfolding hash_clash_def by blast

fun climb_pairs :: "('e, 'z) hash_alg_scheme \<Rightarrow> 'e \<Rightarrow> bool list \<Rightarrow> 'e list \<Rightarrow> ('e \<times> 'e) list" where
  "climb_pairs A h (b # bs) (s # ss) =
     (let p = (if b then (h, s) else (s, h)) in p # climb_pairs A (alg_parent A (fst p) (snd p)) bs ss)"
| "climb_pairs A h bs ss = []"

definition proof_pairs :: "('e, 'z) hash_alg_scheme \<Rightarrow> 'e merkle_proof \<Rightarrow> ('e \<times> 'e) list" where
  "proof_pairs A p = climb_pairs A (hd (lemma_of p)) (path_of p) (proof_siblings p)"

lemma climb_sound:
  assumes "\<not> hash_clash A lh xs (climb_pairs A x bs ss)" "length ss = length bs"
    and "climb A x bs ss = mnode A lh xs (k + length bs) q"
  shows "x = mnode A lh xs k (path_pos bs + q * 2 ^ length bs)"
  using assms
proof (induction bs arbitrary: k x ss)
  case Nil
  then show ?case by simp
next
  case (Cons b bs)
  then obtain s ss' where ss: "ss = s # ss'" by (cases ss) auto
  let ?j = "path_pos bs + q * 2 ^ length bs" and ?p = "if b then (x, s) else (s, x)"
  let ?up = "alg_parent A (fst ?p) (snd ?p)"
  have "\<not> hash_clash A lh xs (climb_pairs A ?up bs ss')"
    using Cons.prems(1) by (auto simp: ss Let_def elim!: contrapos_nn intro: clash_subset)
  then have "?up = mnode A lh xs (Suc k) ?j"
    using Cons.prems(2,3) by (intro Cons.IH [of _ ss']) (auto simp: ss)
  then have "fst ?p = mnode A lh xs k (2 * ?j) \<and> snd ?p = mnode A lh xs k (2 * ?j + 1)"
    by (intro clash_free [OF Cons.prems(1)]) (auto simp: ss Let_def)
  moreover have "path_pos (b # bs) + q * 2 ^ length (b # bs) = (if b then 0 else 1) + 2 * ?j"
    by simp
  ultimately show ?case by (simp add: mult.left_commute split: if_splits)
qed

text \<open>The converse: climbing along the nodes of the tree reaches the tree's node.\<close>

lemma climb_complete:
  assumes "length ss = length bs"
    and "\<And>j. j < length bs \<Longrightarrow> bs ! j \<longleftrightarrow> even (i div 2 ^ j)"
    and "\<And>j. j < length bs \<Longrightarrow>
      ss ! j = mnode A lh xs (k + j) (if bs ! j then i div 2 ^ j + 1 else i div 2 ^ j - 1)"
  shows "climb A (mnode A lh xs k i) bs ss = mnode A lh xs (k + length bs) (i div 2 ^ length bs)"
  using assms
proof (induction bs arbitrary: k i ss)
  case Nil
  then show ?case by simp
next
  case (Cons b bs)
  then obtain s ss' where ss: "ss = s # ss'" by (cases ss) auto
  have b: "b \<longleftrightarrow> even i" using Cons.prems(2) [of 0] by simp
  have s: "s = mnode A lh xs k (if b then i + 1 else i - 1)" using Cons.prems(3) [of 0] by (simp add: ss)
  have up: "(if b then alg_parent A (mnode A lh xs k i) s else alg_parent A s (mnode A lh xs k i)) =
      mnode A lh xs (Suc k) (i div 2)"
    using b by (auto simp: s elim!: oddE)
  have half: "i div 2 ^ Suc j = i div 2 div 2 ^ j" for j by (simp add: div_mult2_eq)
  have "climb A (mnode A lh xs (Suc k) (i div 2)) bs ss' =
      mnode A lh xs (Suc k + length bs) (i div 2 div 2 ^ length bs)"
  proof (rule Cons.IH)
    show "length ss' = length bs" using Cons.prems(1) by (simp add: ss)
    fix j assume j: "j < length bs"
    show "bs ! j \<longleftrightarrow> even (i div 2 div 2 ^ j)"
      using Cons.prems(2) [of "Suc j"] j unfolding half by simp
    show "ss' ! j = mnode A lh xs (Suc k + j)
        (if bs ! j then i div 2 div 2 ^ j + 1 else i div 2 div 2 ^ j - 1)"
      using Cons.prems(3) [of "Suc j"] j unfolding half by (simp add: ss)
  qed
  then show ?case by (simp add: ss up half del: mnode.simps power_Suc)
qed

lemma proof_validate_sound_aux:
  assumes wf: "wf_proof p" and ok: "proof_validate A p item position = Inr ()"
    and root: "proof_root p = Inr (mnode A lh xs (length (path_of p)) 0)"
    and nc: "\<not> hash_clash A lh xs (proof_pairs A p)"
  shows "item = mnode A lh xs 0 position"
proof -
  have ne: "lemma_of p \<noteq> []" using wf by (auto simp: wf_proof_def)
  have item: "item = hd (lemma_of p)" and pos: "position = path_pos (path_of p)"
    and ok: "climb A (hd (lemma_of p)) (path_of p) (proof_siblings p) = last (lemma_of p)"
    using wf ok ne
    by (auto simp: proof_validate_def wf_proof_def validate_integrity_wf proof_item_def
        proof_position_eq split: list.splits)
  have "last (lemma_of p) = mnode A lh xs (0 + length (path_of p)) 0"
    using root ne by (simp add: proof_root_def)
  then have "hd (lemma_of p) = mnode A lh xs 0 (path_pos (path_of p) + 0 * 2 ^ length (path_of p))"
    using ok wf nc
    by (intro climb_sound [where ss = "proof_siblings p"])
       (auto simp: proof_siblings_def proof_pairs_def wf_proof_def)
  then show ?thesis by (simp add: item pos)
qed

section \<open>Range proofs cover their range\<close>

fun pairs_of :: "'e list \<Rightarrow> ('e \<times> 'e) list" where
  "pairs_of (l # r # xs) = (l, r) # pairs_of xs"
| "pairs_of xs = []"

text \<open>
  The pairs hashed for one layer: the layer with the left sibling before it where the path needs
  one, and the right sibling after it; \<open>pairs_of\<close> leaves the latter out when the layer is even.
\<close>

definition range_layer_pairs :: "'e range_proof \<Rightarrow> nat \<Rightarrow> 'e list \<Rightarrow> ('e \<times> 'e) list" where
  "range_layer_pairs rp h cur =
     pairs_of ((if path_of (left_proof rp) ! h then [] else [lemma_of (left_proof rp) ! (h + 1)]) @
               cur @ [lemma_of (right_proof rp) ! (h + 1)])"

fun range_pairs ::
    "('e, 'z) hash_alg_scheme \<Rightarrow> 'e range_proof \<Rightarrow> nat \<Rightarrow> nat \<Rightarrow> 'e list \<Rightarrow> ('e \<times> 'e) list" where
  "range_pairs A rp h 0 cur = []"
| "range_pairs A rp h (Suc n) cur =
     (let ps = range_layer_pairs rp h cur
      in ps @ range_pairs A rp (Suc h) n (map (\<lambda>(l, r). alg_parent A l r) ps))"

lemma length_pairs_of [simp]: "length (pairs_of xs) = length xs div 2"
  by (induction xs rule: pairs_of.induct) auto

lemma pairs_of_nth: "2 * j + 1 < length xs \<Longrightarrow> pairs_of xs ! j = (xs ! (2 * j), xs ! (2 * j + 1))"
  by (induction xs arbitrary: j rule: pairs_of.induct) (auto simp: nth_Cons split: nat.splits)

lemma pair_parents_pairs: "pair_parents A xs = map (\<lambda>(l, r). alg_parent A l r) (pairs_of xs)"
  by (induction xs rule: pairs_of.induct) auto

lemma pairs_of_snoc: "pairs_of (xs @ [s]) = pairs_of xs @ map (\<lambda>z. (z, s)) (pair_remainder xs)"
  by (induction xs rule: pairs_of.induct) auto

lemma pair_remainder_cases: "pair_remainder xs = [] \<or> (\<exists>z. pair_remainder xs = [z])"
  by (induction xs rule: pair_remainder.induct) auto

lemma range_layer_up_pairs:
  assumes "range_layer_up A rp h cur = Inr up" "cur \<noteq> []"
  shows "up = map (\<lambda>(l, r). alg_parent A l r) (range_layer_pairs rp h cur)"
proof -
  let ?lp = "left_proof rp" and ?rp = "right_proof rp"
  obtain c cs where cur: "cur = c # cs" using assms(2) by (cases cur) auto
  define rest where "rest = (if path_of ?lp ! h then cur else cs)"
  have "range_layer_pairs rp h cur =
      (if path_of ?lp ! h then [] else [(lemma_of ?lp ! (h + 1), c)]) @
      pairs_of rest @ map (\<lambda>z. (z, lemma_of ?rp ! (h + 1))) (pair_remainder rest)"
    unfolding range_layer_pairs_def by (simp add: cur rest_def flip: pairs_of_snoc)
  then show ?thesis
    using assms(1) pair_remainder_cases [of rest]
    by (auto simp: range_layer_up_def cur rest_def pair_parents_pairs split: if_splits)
qed

lemma range_layer_up_nonempty:
  assumes "range_layer_up A rp h cur = Inr up" "cur \<noteq> []"
  shows "up \<noteq> []"
proof -
  have "length up \<noteq> 0"
    using assms(2) unfolding range_layer_up_pairs [OF assms] by (cases cur) (auto simp: range_layer_pairs_def)
  then show ?thesis by auto
qed

lemma range_layer_sound:
  fixes s :: nat
  assumes nc: "\<not> hash_clash A lh xs (range_layer_pairs rp h cur)"
    and bit: "path_of (left_proof rp) ! h \<longleftrightarrow> even s"
    and tree: "\<And>j. j < length (range_layer_pairs rp h cur) \<Longrightarrow>
      (case range_layer_pairs rp h cur ! j of (l, r) \<Rightarrow> alg_parent A l r) = mnode A lh xs (Suc h) (s div 2 + j)"
    and j: "j < length cur"
  shows "cur ! j = mnode A lh xs h (s + j)"
proof -
  let ?pre = "if path_of (left_proof rp) ! h then [] else [lemma_of (left_proof rp) ! (h + 1)]"
  let ?ys = "?pre @ cur @ [lemma_of (right_proof rp) ! (h + 1)]" and ?ps = "range_layer_pairs rp h cur"
  have pre: "length ?pre = s mod 2" using bit by (simp add: mod_2_eq_odd)
  have ps: "?ps = pairs_of ?ys" by (simp add: range_layer_pairs_def)
  let ?i = "(s mod 2 + j) div 2"
  have lt: "s mod 2 + j + 1 < length ?ys" using j pre by simp
  then have i: "2 * ?i + 1 < length ?ys" by linarith
  have il: "?i < length ?ps" unfolding ps length_pairs_of using i by linarith
  have nth: "?ps ! ?i = (?ys ! (2 * ?i), ?ys ! (2 * ?i + 1))" unfolding ps by (rule pairs_of_nth [OF i])
  have "(?ys ! (2 * ?i), ?ys ! (2 * ?i + 1)) \<in> set ?ps" using nth_mem [OF il] unfolding nth .
  moreover have "alg_parent A (?ys ! (2 * ?i)) (?ys ! (2 * ?i + 1)) = mnode A lh xs (Suc h) (s div 2 + ?i)"
    using tree [OF il] unfolding nth by simp
  ultimately have kids: "?ys ! (2 * ?i) = mnode A lh xs h (2 * (s div 2 + ?i)) \<and>
      ?ys ! (2 * ?i + 1) = mnode A lh xs h (2 * (s div 2 + ?i) + 1)"
    by (rule clash_free [OF nc])
  have cur: "cur ! j = ?ys ! (s mod 2 + j)" unfolding pre [symmetric] nth_append_length_plus using j by (simp add: nth_append)
  show "cur ! j = mnode A lh xs h (s + j)"
  proof (cases "even (s mod 2 + j)")
    case True
    then have "s mod 2 + j = 2 * ?i" "s + j = 2 * (s div 2 + ?i)" by presburger+
    then show ?thesis using kids cur by metis
  next
    case False
    then have "s mod 2 + j = 2 * ?i + 1" "s + j = 2 * (s div 2 + ?i) + 1" by presburger+
    then show ?thesis using kids cur by metis
  qed
qed

lemma range_loop_sound:
  assumes bits: "\<And>k. k < d \<Longrightarrow> path_of (left_proof rp) ! k \<longleftrightarrow> even (s div 2 ^ k)"
    and "\<not> hash_clash A lh xs (range_pairs A rp h (d - h) cur)" "h \<le> d" "cur \<noteq> []"
    and "rfold (\<lambda>height (children_layer, current_layer).
           rbind (range_layer_up A rp height current_layer) (\<lambda>pl. Inr (pl, pl)))
         [h..<d] (ch, cur) = Inr (ch', fin)"
    and "fin = [mnode A lh xs d (s div 2 ^ d)]"
  shows "\<forall>j < length cur. cur ! j = mnode A lh xs h (s div 2 ^ h + j)"
  using assms(2-)
proof (induction "d - h" arbitrary: h ch cur)
  case 0
  then show ?case by simp
next
  case (Suc n)
  then have h: "h < d" by simp
  let ?ps = "range_layer_pairs rp h cur"
  from Suc.prems(4) h obtain up where up: "range_layer_up A rp h cur = Inr up"
    and rest: "rfold (\<lambda>height (children_layer, current_layer).
           rbind (range_layer_up A rp height current_layer) (\<lambda>pl. Inr (pl, pl)))
         [Suc h..<d] (up, up) = Inr (ch', fin)"
    by (auto simp: upt_conv_Cons)
  note eq = range_layer_up_pairs [OF up Suc.prems(3)]
  have dh: "d - h = Suc (d - Suc h)" using h by simp
  have nc: "\<not> hash_clash A lh xs (range_pairs A rp (Suc h) (d - Suc h) up)" "\<not> hash_clash A lh xs ?ps"
    using Suc.prems(1) unfolding dh range_pairs.simps Let_def eq [symmetric]
    by (auto elim!: contrapos_nn intro: clash_subset)
  have half: "s div 2 ^ Suc h = s div 2 ^ h div 2" by (simp add: div_mult2_eq power_Suc2 del: power_Suc)
  have ne: "up \<noteq> []" by (rule range_layer_up_nonempty [OF up Suc.prems(3)])
  have "\<forall>j < length up. up ! j = mnode A lh xs (Suc h) (s div 2 ^ Suc h + j)"
    using Suc.hyps(2) Suc.prems(5) h by (intro Suc.hyps(1) [OF _ nc(1) _ ne rest]) auto
  then have "(case ?ps ! j of (l, r) \<Rightarrow> alg_parent A l r) = mnode A lh xs (Suc h) (s div 2 ^ h div 2 + j)"
    if "j < length ?ps" for j using that unfolding half eq by (simp del: mnode.simps)
  then show ?case using range_layer_sound [OF nc(2) bits [OF h]] by blast
qed

lemma range_validate_sound_aux:
  assumes wf: "length (path_of (left_proof rp)) \<le> 64"
    and ok: "range_validate A rp leaves start = Inr ()"
    and root: "range_root rp = Inr (mnode A lh xs (length (path_of (left_proof rp))) 0)"
    and nc: "\<not> hash_clash A lh xs (range_pairs A rp 0 (length (path_of (left_proof rp))) leaves)"
    and j: "j < length leaves"
  shows "leaves ! j = mnode A lh xs 0 (start + j)"
proof -
  let ?d = "length (path_of (left_proof rp))"
  let ?loop = "rfold (\<lambda>height (children_layer, current_layer).
           rbind (range_layer_up A rp height current_layer) (\<lambda>pl. Inr (pl, pl))) [0..<?d] ([], leaves)"
  have ne: "leaves \<noteq> []" using j by auto
  have start: "start = path_pos (path_of (left_proof rp))"
    using ok wf by (auto simp: range_validate_def Let_def proof_position_eq)
  then have small: "start < 2 ^ ?d" by (simp add: path_pos_less)
  obtain ch cur where loop: "?loop = Inr (ch, cur)" and
    fin: "if ch = [] then length leaves = 1 \<and> hd leaves = mnode A lh xs ?d 0
          else length ch = 1 \<and> last ch = mnode A lh xs ?d 0"
    using ok root by (auto simp: range_validate_def Let_def split: if_splits)
  show ?thesis
  proof (cases "?d = 0")
    case True
    then show ?thesis using fin loop j small by (cases leaves) auto
  next
    case False
    then obtain e where e: "?d = Suc e" by (cases ?d) auto
    have "ch = cur" using loop by (auto simp: e rfold_append)
    have "cur \<noteq> []"
      by (rule rfold_invariant [OF loop, where P = "\<lambda>(ch, c). c \<noteq> []", simplified])
         (auto simp: ne dest: range_layer_up_nonempty)
    then have "cur = [mnode A lh xs ?d (start div 2 ^ ?d)]"
      using fin small \<open>ch = cur\<close> by (cases cur) auto
    then show ?thesis
      using range_loop_sound [of ?d rp start, OF _ _ _ ne loop] nc j by (simp add: path_pos_nth start)
  qed
qed

end
