(* ===== verification/Append_Merkle.thy ===== *)
theory Append_Merkle
  imports Node_Manager Merkle_Proof "HOL-Library.Finite_Map"
begin

text \<open>
  The append-only Merkle tree, \<open>AppendMerkleTree\<close> of \<open>common/append_merkle/src/lib.rs\<close>: its
  state, the reads of \<open>MerkleTreeRead\<close>, the incremental recomputation of parent nodes, the
  operations that append, fill and replace nodes, and the versions that \<open>revert_to\<close> and
  \<open>at_version\<close> use. The operations take the hash algorithm \<open>A\<close>, the cache \<open>C\<close> and the node
  database \<open>D\<close>.

  An operation of type \<open>tree \<Rightarrow> tree res\<close> can only panic. One that returns a \<open>Result\<close> in Rust
  and can leave a changed tree behind its \<open>Err\<close> has type \<open>tree \<Rightarrow> (tree \<times> 'a res) res\<close>: the outer
  result is the panic, the inner one the value of the Rust function.
\<close>

section \<open>State\<close>

record 'e delta_nodes =
  right_most_nodes :: "(nat \<times> 'e) list"

record ('e, 'c, 'd, 't) append_merkle_tree =
  node_manager :: "('c, 'd, 't) node_manager"
  delta_nodes_map :: "(nat, 'e delta_nodes) fmap"
  root_to_tx_seq_map :: "'e \<rightharpoonup> nat"
  min_depth :: "nat option"
  leaf_height :: nat

definition delta_get :: "'e delta_nodes \<Rightarrow> nat \<Rightarrow> nat \<Rightarrow> 'e option res" where
  "delta_get dn height position =
     (if height \<ge> length (right_most_nodes dn) \<or> position > fst (right_most_nodes dn ! height)
      then Inl (Err ''position out of tree range'')
      else if position = fst (right_most_nodes dn ! height)
      then Inr (Some (snd (right_most_nodes dn ! height)))
      else Inr None)"

definition delta_layer_len :: "'e delta_nodes \<Rightarrow> nat \<Rightarrow> nat res" where
  "delta_layer_len dn height = rbind (index (right_most_nodes dn) height) (\<lambda>n. Inr (fst n + 1))"

definition delta_height :: "'e delta_nodes \<Rightarrow> nat" where
  "delta_height dn = length (right_most_nodes dn)"

definition delta_root :: "'e delta_nodes \<Rightarrow> 'e res" where
  "delta_root dn =
     (if right_most_nodes dn = [] then Inl (Panic ''unwrap on None'')
      else Inr (snd (last (right_most_nodes dn))))"

section \<open>Reading the tree\<close>

definition amt_node ::
    "('e, 'c) lru_ops \<Rightarrow> ('e, 'd, 't) node_database \<Rightarrow> ('e, 'c, 'd, 't) append_merkle_tree \<Rightarrow>
     nat \<Rightarrow> nat \<Rightarrow> 'e res" where
  "amt_node C D t layer i = ok_or (Panic ''index checked'') (nm_get_node C D (node_manager t) layer i)"

definition amt_height :: "('e, 'c, 'd, 't) append_merkle_tree \<Rightarrow> nat" where
  "amt_height t = num_layers (node_manager t)"

definition amt_layer_len :: "('e, 'c, 'd, 't) append_merkle_tree \<Rightarrow> nat \<Rightarrow> nat res" where
  "amt_layer_len t layer = layer_size (node_manager t) layer"

definition amt_leaves :: "('e, 'c, 'd, 't) append_merkle_tree \<Rightarrow> nat res" where
  "amt_leaves t = amt_layer_len t 0"

definition amt_root ::
    "('e, 'c) lru_ops \<Rightarrow> ('e, 'd, 't) node_database \<Rightarrow> ('e, 'c, 'd, 't) append_merkle_tree \<Rightarrow> 'e res" where
  "amt_root C D t = amt_node C D t (wsub (amt_height t) 1) 0"

definition amt_padding_node ::
    "('e, 'z) hash_alg_scheme \<Rightarrow> ('e, 'c, 'd, 't) append_merkle_tree \<Rightarrow> nat \<Rightarrow> 'e" where
  "amt_padding_node A t height = alg_end_pad A (height + leaf_height t)"

definition check_root :: "('e, 'c, 'd, 't) append_merkle_tree \<Rightarrow> 'e \<Rightarrow> bool" where
  "check_root t root \<longleftrightarrow> root_to_tx_seq_map t root \<noteq> None"

definition leaf_at ::
    "('e, 'z) hash_alg_scheme \<Rightarrow> ('e, 'c) lru_ops \<Rightarrow> ('e, 'd, 't) node_database \<Rightarrow>
     ('e, 'c, 'd, 't) append_merkle_tree \<Rightarrow> nat \<Rightarrow> 'e option res" where
  "leaf_at A C D t position =
     rbind (amt_leaves t) (\<lambda>n.
     if position \<ge> n then Inl (Err ''Out of bound'')
     else rbind (amt_node C D t 0 position) (\<lambda>x.
       if \<not> is_null A x then Inr (Some x) else Inr None))"

definition tx_seq_at_root :: "('e, 'c, 'd, 't) append_merkle_tree \<Rightarrow> 'e \<Rightarrow> nat res" where
  "tx_seq_at_root t root_hash = ok_or (Err ''old root unavailable'') (root_to_tx_seq_map t root_hash)"

section \<open>Changing nodes\<close>

text \<open>Run a store operation on the tree's node manager.\<close>

definition on_nodes ::
    "(('c, 'd, 't) node_manager \<Rightarrow> ('c, 'd, 't) node_manager res) \<Rightarrow>
     ('e, 'c, 'd, 't) append_merkle_tree \<Rightarrow> ('e, 'c, 'd, 't) append_merkle_tree res" where
  "on_nodes f t = rbind (f (node_manager t)) (\<lambda>nm. Inr (t\<lparr>node_manager := nm\<rparr>))"

definition push_node where
  "push_node C D layer node = on_nodes (nm_push_node C D layer node)"

definition append_nodes where
  "append_nodes C D layer nodes = on_nodes (nm_append_nodes C D layer nodes)"

definition update_node where
  "update_node C D layer pos node = on_nodes (nm_add_node C D layer pos node)"

definition start_transaction where
  "start_transaction D = on_nodes (nm_start_transaction D)"

definition commit_nodes ::
    "('e, 'd, 't) node_database \<Rightarrow> ('e, 'c, 'd, 't) append_merkle_tree \<Rightarrow>
     ('e, 'c, 'd, 't) append_merkle_tree" where
  "commit_nodes D t = t\<lparr>node_manager := nm_commit D (node_manager t)\<rparr>"

definition before_extend_layer ::
    "('e, 'd, 't) node_database \<Rightarrow> nat \<Rightarrow> ('e, 'c, 'd, 't) append_merkle_tree \<Rightarrow>
     ('e, 'c, 'd, 't) append_merkle_tree res" where
  "before_extend_layer D height t =
     (if height = amt_height t then on_nodes (nm_add_layer D) t else Inr t)"

section \<open>Recomputing the parents of changed nodes\<close>

text \<open>
  The parents of one layer's changed nodes with their index, taken two by two; an odd node at
  the end is paired with the padding of its layer, and an unknown child gives an unknown parent.
\<close>

fun parent_updates ::
    "('e, 'z) hash_alg_scheme \<Rightarrow> nat \<Rightarrow> nat \<Rightarrow> 'e list \<Rightarrow> (nat \<times> 'e) list" where
  "parent_updates A pad_height i (left # right # xs) =
     (i, if is_null A left \<or> is_null A right then alg_null A else alg_parent A left right)
       # parent_updates A pad_height (i + 1) xs"
| "parent_updates A pad_height i [r] =
     [(i, if is_null A r then alg_null A else parent_single A r pad_height)]"
| "parent_updates A pad_height i [] = []"

text \<open>One round of the loop over \<open>parent_update\<close>, with \<open>last_changed_parent_index\<close> in the state.\<close>

definition apply_parent ::
    "('e, 'z) hash_alg_scheme \<Rightarrow> ('e, 'c) lru_ops \<Rightarrow> ('e, 'd, 't) node_database \<Rightarrow> nat \<Rightarrow> nat \<times> 'e \<Rightarrow>
     ('e, 'c, 'd, 't) append_merkle_tree \<times> nat option \<Rightarrow>
     (('e, 'c, 'd, 't) append_merkle_tree \<times> nat option) res" where
  "apply_parent A C D height = (\<lambda>(parent_index, parent) (t, last_changed).
     rbind (amt_layer_len t (height + 1)) (\<lambda>len.
     if parent_index < len then
       (if \<not> is_null A parent then
          rbind (amt_node C D t (height + 1) parent_index) (\<lambda>old.
          if is_null A old \<or> (old \<noteq> parent \<and> parent_index = len - 1) then
            rbind (update_node C D (height + 1) parent_index parent t) (\<lambda>t.
            Inr (t, Some parent_index))
          else if old \<noteq> parent then Inl (Panic ''Invalid append merkle tree!'')
          else Inr (t, last_changed))
        else Inr (t, last_changed))
     else if parent_index = len then
       rbind (push_node C D (height + 1) parent t) (\<lambda>t. Inr (t, Some parent_index))
     else Inl (Panic ''unreachable'')))"

text \<open>
  One iteration of the \<open>while\<close> loop of \<open>recompute\<close>: the tree with the parents updated, the start
  index in the next layer and the last changed parent.
\<close>

definition recompute_step ::
    "('e, 'z) hash_alg_scheme \<Rightarrow> ('e, 'c) lru_ops \<Rightarrow> ('e, 'd, 't) node_database \<Rightarrow> nat \<Rightarrow> nat \<Rightarrow> nat option \<Rightarrow>
     ('e, 'c, 'd, 't) append_merkle_tree \<Rightarrow>
     (('e, 'c, 'd, 't) append_merkle_tree \<times> nat option) res" where
  "recompute_step A C D start_index height maybe_end_index t =
     rbind (amt_layer_len t height) (\<lambda>len.
     let next_layer_start_index = start_index div 2;
         start_index = (if start_index mod 2 = 1 then start_index - 1 else start_index);
         end_index = (case maybe_end_index of Some e \<Rightarrow> e | None \<Rightarrow> len);
         end_index = (if end_index mod 2 = 1 \<and> end_index \<noteq> len then end_index + 1 else end_index);
         parent_update = parent_updates A (height + leaf_height t) next_layer_start_index
           (nm_get_nodes C D (node_manager t) height start_index end_index)
     in rbind (if parent_update \<noteq> [] then before_extend_layer D (height + 1) t else Inr t) (\<lambda>t.
        rfold (apply_parent A C D height) parent_update (t, None)))"

text \<open>
  The loop. Every iteration moves up one layer and a new layer is half as long as the one below,
  so the fuel below is never used up (\<open>recompute_append\<close>, \<open>recompute_fill\<close>).
\<close>

fun recompute_loop ::
    "('e, 'z) hash_alg_scheme \<Rightarrow> ('e, 'c) lru_ops \<Rightarrow> ('e, 'd, 't) node_database \<Rightarrow> nat \<Rightarrow>
     nat \<Rightarrow> nat \<Rightarrow> nat option \<Rightarrow> ('e, 'c, 'd, 't) append_merkle_tree \<Rightarrow>
     ('e, 'c, 'd, 't) append_merkle_tree res" where
  "recompute_loop A C D 0 start_index height maybe_end_index t = Inl Diverge"
| "recompute_loop A C D (Suc fuel) start_index height maybe_end_index t =
     rbind (amt_layer_len t height) (\<lambda>len.
     if len > 1 \<or> height < wsub (amt_height t) 1 then
       rbind (recompute_step A C D start_index height maybe_end_index t) (\<lambda>(t, last_changed).
       case last_changed of
         None \<Rightarrow> Inr t
       | Some i \<Rightarrow> recompute_loop A C D fuel (start_index div 2) (height + 1) (Some (i + 1)) t)
     else Inr t)"

definition recompute ::
    "('e, 'z) hash_alg_scheme \<Rightarrow> ('e, 'c) lru_ops \<Rightarrow> ('e, 'd, 't) node_database \<Rightarrow> nat \<Rightarrow> nat \<Rightarrow>
     nat option \<Rightarrow> ('e, 'c, 'd, 't) append_merkle_tree \<Rightarrow> ('e, 'c, 'd, 't) append_merkle_tree res" where
  "recompute A C D start_index height maybe_end_index t =
     rbind (amt_layer_len t height) (\<lambda>len.
     recompute_loop A C D (amt_height t + len + 1) (start_index div 2 ^ height) height
       (map_option (\<lambda>e. e div 2 ^ height) maybe_end_index) t)"

definition recompute_after_append_leaves where
  "recompute_after_append_leaves A C D start_index = recompute A C D start_index 0 None"

definition recompute_after_append_subtree where
  "recompute_after_append_subtree A C D start_index height = recompute A C D start_index height None"

definition recompute_after_fill_leaves where
  "recompute_after_fill_leaves A C D start_index end_index =
     recompute A C D start_index 0 (Some end_index)"

section \<open>Versions\<close>

definition amt_commit ::
    "('e, 'c) lru_ops \<Rightarrow> ('e, 'd, 't) node_database \<Rightarrow> nat option \<Rightarrow>
     ('e, 'c, 'd, 't) append_merkle_tree \<Rightarrow> ('e, 'c, 'd, 't) append_merkle_tree res" where
  "amt_commit C D maybe_tx_seq t =
     (case maybe_tx_seq of
        None \<Rightarrow> Inr t
      | Some tx_seq \<Rightarrow>
          rbind (amt_leaves t) (\<lambda>n.
          if n = 0 then
            Inr (t\<lparr>delta_nodes_map := fmupd tx_seq \<lparr>right_most_nodes = []\<rparr> (delta_nodes_map t)\<rparr>)
          else
            rbind (rmap (\<lambda>height. rbind (amt_layer_len t height) (\<lambda>len.
                     let pos = wsub len 1 in
                     rbind (amt_node C D t height pos) (\<lambda>x. Inr (pos, x))))
                   [0..<amt_height t]) (\<lambda>rms.
            rbind (amt_root C D t) (\<lambda>root.
            Inr (t\<lparr>delta_nodes_map := fmupd tx_seq \<lparr>right_most_nodes = rms\<rparr> (delta_nodes_map t),
                   root_to_tx_seq_map := (root_to_tx_seq_map t)(root \<mapsto> tx_seq)\<rparr>)))))"

lemma fcard_fmdrop_less: "fmlookup m k = Some v \<Longrightarrow> fcard (fmdom m |-| {|k|}) < fcard (fmdom m)"
  by (rule fcard_fminus1_less) (rule fmdomI)

text \<open>\<open>clear_after\<close> drops the versions that follow \<open>tx_seq\<close> without a gap.\<close>

function clear_versions ::
    "nat \<Rightarrow> (nat, 'e delta_nodes) fmap \<Rightarrow> ('e \<rightharpoonup> nat) \<Rightarrow>
     ((nat, 'e delta_nodes) fmap \<times> ('e \<rightharpoonup> nat)) res" where
  "clear_versions tx_seq deltas roots =
     (case fmlookup deltas tx_seq of
        None \<Rightarrow> Inr (deltas, roots)
      | Some nodes \<Rightarrow>
          (if delta_height nodes \<noteq> 0 then
             rbind (delta_root nodes) (\<lambda>root.
             clear_versions (tx_seq + 1) (fmdrop tx_seq deltas) (roots(root := None)))
           else clear_versions (tx_seq + 1) (fmdrop tx_seq deltas) roots))"
  by pat_completeness auto
termination
  by (relation "measure (\<lambda>(tx_seq, deltas, roots). fcard (fmdom deltas))") (auto simp: fcard_fmdrop_less)

declare clear_versions.simps [simp del]

definition clear_after ::
    "nat \<Rightarrow> ('e, 'c, 'd, 't) append_merkle_tree \<Rightarrow> ('e, 'c, 'd, 't) append_merkle_tree res" where
  "clear_after tx_seq t =
     rbind (clear_versions (tx_seq + 1) (delta_nodes_map t) (root_to_tx_seq_map t)) (\<lambda>(deltas, roots).
     Inr (t\<lparr>delta_nodes_map := deltas, root_to_tx_seq_map := roots\<rparr>))"

definition revert_to ::
    "('e, 'c) lru_ops \<Rightarrow> ('e, 'd, 't) node_database \<Rightarrow> nat \<Rightarrow> ('e, 'c, 'd, 't) append_merkle_tree \<Rightarrow>
     (('e, 'c, 'd, 't) append_merkle_tree \<times> unit res) res" where
  "revert_to C D tx_seq t =
     rbind (amt_layer_len t 0) (\<lambda>n.
     if n = 0 then Inr (t, Inr ())
     else rbind (start_transaction D t) (\<lambda>t.
       case fmlookup (delta_nodes_map t) tx_seq of
         None \<Rightarrow> Inr (t, Inl (Err ''tx_seq unavailable''))
       | Some delta_nodes \<Rightarrow>
           rbind (rfold (\<lambda>height. on_nodes (nm_truncate_layer C D height))
                   (rev [length (right_most_nodes delta_nodes)..<amt_height t]) t) (\<lambda>t.
           rbind (rfold (\<lambda>(height, last_index, right_most_node) t.
                     rbind (on_nodes (nm_truncate_nodes C D height (last_index + 1)) t) (\<lambda>t.
                     update_node C D height last_index right_most_node t))
                   (enumerate 0 (right_most_nodes delta_nodes)) t) (\<lambda>t.
           rbind (clear_after tx_seq t) (\<lambda>t.
           Inr (commit_nodes D t, Inr ()))))))"

definition revert_to_leaves ::
    "('e, 'z) hash_alg_scheme \<Rightarrow> ('e, 'c) lru_ops \<Rightarrow> ('e, 'd, 't) node_database \<Rightarrow> nat \<Rightarrow>
     ('e, 'c, 'd, 't) append_merkle_tree \<Rightarrow> ('e, 'c, 'd, 't) append_merkle_tree res" where
  "revert_to_leaves A C D leaves t =
     rbind (start_transaction D t) (\<lambda>t.
     rbind (rfold (\<lambda>height t.
              let kept_nodes = leaves div 2 ^ height in
              if kept_nodes = 0 then on_nodes (nm_truncate_layer C D height) t
              else on_nodes (nm_truncate_nodes C D height (kept_nodes + 1)) t)
            (rev [0..<amt_height t]) t) (\<lambda>t.
     rbind (recompute_after_append_leaves A C D leaves t) (\<lambda>t.
     Inr (commit_nodes D t))))"

definition amt_reset ::
    "('e, 'c) lru_ops \<Rightarrow> ('e, 'd, 't) node_database \<Rightarrow>
     ('e, 'c, 'd, 't) append_merkle_tree \<Rightarrow> ('e, 'c, 'd, 't) append_merkle_tree res" where
  "amt_reset C D t =
     rbind (start_transaction D t) (\<lambda>t.
     rbind (rfold (\<lambda>height. on_nodes (nm_truncate_layer C D height)) (rev [0..<amt_height t]) t) (\<lambda>t.
     rbind (case min_depth t of
              Some depth \<Rightarrow> rfold (\<lambda>_. on_nodes (nm_add_layer D)) [0..<depth] t
            | None \<Rightarrow> on_nodes (nm_add_layer D) t) (\<lambda>t.
     Inr (commit_nodes D t))))"

text \<open>A version of the tree: the current nodes, overridden by the right-most nodes it kept.\<close>

record ('e, 'c, 'd, 't) history_tree =
  ht_node_manager :: "('c, 'd, 't) node_manager"
  ht_delta_nodes :: "'e delta_nodes"
  ht_leaf_height :: nat

definition at_version ::
    "nat \<Rightarrow> ('e, 'c, 'd, 't) append_merkle_tree \<Rightarrow> ('e, 'c, 'd, 't) history_tree res" where
  "at_version tx_seq t =
     rbind (ok_or (Err ''tx_seq unavailable'') (fmlookup (delta_nodes_map t) tx_seq)) (\<lambda>delta_nodes.
     if delta_height delta_nodes = 0 then Inl (Err ''empty tree'')
     else Inr \<lparr>ht_node_manager = node_manager t, ht_delta_nodes = delta_nodes,
               ht_leaf_height = leaf_height t\<rparr>)"

definition history_node ::
    "('e, 'z) hash_alg_scheme \<Rightarrow> ('e, 'c) lru_ops \<Rightarrow> ('e, 'd, 't) node_database \<Rightarrow>
     ('e, 'c, 'd, 't) history_tree \<Rightarrow> nat \<Rightarrow> nat \<Rightarrow> 'e res" where
  "history_node A C D h layer i =
     (case delta_get (ht_delta_nodes h) layer i of
        Inl _ \<Rightarrow> Inl (Panic ''range checked'')
      | Inr r \<Rightarrow>
          (case r of
             Some node \<Rightarrow>
               (if \<not> is_null A node then Inr node
                else ok_or (Panic ''index checked'') (nm_get_node C D (ht_node_manager h) layer i))
           | None \<Rightarrow> ok_or (Panic ''index checked'') (nm_get_node C D (ht_node_manager h) layer i)))"

definition history_height :: "('e, 'c, 'd, 't) history_tree \<Rightarrow> nat" where
  "history_height h = delta_height (ht_delta_nodes h)"

definition history_layer_len :: "('e, 'c, 'd, 't) history_tree \<Rightarrow> nat \<Rightarrow> nat res" where
  "history_layer_len h layer = delta_layer_len (ht_delta_nodes h) layer"

definition history_padding_node ::
    "('e, 'z) hash_alg_scheme \<Rightarrow> ('e, 'c, 'd, 't) history_tree \<Rightarrow> nat \<Rightarrow> 'e" where
  "history_padding_node A h height = alg_end_pad A (height + ht_leaf_height h)"

section \<open>Construction\<close>

definition empty_tree ::
    "('c, 'd, 't) node_manager \<Rightarrow> nat option \<Rightarrow> nat \<Rightarrow> ('e, 'c, 'd, 't) append_merkle_tree" where
  "empty_tree nm depth lh =
     \<lparr>node_manager = nm, delta_nodes_map = fmempty, root_to_tx_seq_map = Map.empty,
      min_depth = depth, leaf_height = lh\<rparr>"

definition commit_empty ::
    "nat option \<Rightarrow> ('e, 'c, 'd, 't) append_merkle_tree \<Rightarrow> ('e, 'c, 'd, 't) append_merkle_tree" where
  "commit_empty start_tx_seq t =
     (case start_tx_seq of
        Some seq \<Rightarrow> t\<lparr>delta_nodes_map := fmupd seq \<lparr>right_most_nodes = []\<rparr> (delta_nodes_map t)\<rparr>
      | None \<Rightarrow> t)"

definition amt_new ::
    "('e, 'z) hash_alg_scheme \<Rightarrow> ('e, 'c) lru_ops \<Rightarrow> 'e list \<Rightarrow> nat \<Rightarrow> nat option \<Rightarrow>
     ('e, 'c, unit, unit) append_merkle_tree res" where
  "amt_new A C leaves lh start_tx_seq =
     (let D = empty_node_database in
      rbind (start_transaction D (empty_tree (nm_new_dummy C) None lh)) (\<lambda>t.
      rbind (on_nodes (nm_add_layer D) t) (\<lambda>t.
      rbind (append_nodes C D 0 leaves t) (\<lambda>t.
      rbind (amt_leaves t) (\<lambda>n.
      if n = 0 then Inr (commit_nodes D (commit_empty start_tx_seq t))
      else
        rbind (recompute A C D 0 0 None t) (\<lambda>t.
        amt_commit C D start_tx_seq (commit_nodes D t)))))))"

definition new_with_subtrees ::
    "('e, 'c) lru_ops \<Rightarrow> ('e, 'd, 't) node_database \<Rightarrow> 'd \<Rightarrow> nat \<Rightarrow> nat \<Rightarrow>
     ('e, 'c, 'd, 't) append_merkle_tree res" where
  "new_with_subtrees C D node_db node_cache_capacity lh =
     rbind (nm_new C D node_db node_cache_capacity) (\<lambda>nm.
     let t = empty_tree nm None lh in
     if amt_height t = 0 then
       rbind (start_transaction D t) (\<lambda>t.
       rbind (on_nodes (nm_add_layer D) t) (\<lambda>t.
       Inr (commit_nodes D t)))
     else Inr t)"

definition new_with_depth ::
    "('e, 'z) hash_alg_scheme \<Rightarrow> ('e, 'c) lru_ops \<Rightarrow> 'e list \<Rightarrow> nat \<Rightarrow> nat option \<Rightarrow>
     ('e, 'c, unit, unit) append_merkle_tree res" where
  "new_with_depth A C leaves depth start_tx_seq =
     (let D = empty_node_database in
      rbind (start_transaction D (empty_tree (nm_new_dummy C) (Some depth) 0)) (\<lambda>t.
      if leaves = [] then
        rbind (rfold (\<lambda>_. on_nodes (nm_add_layer D)) [0..<depth] t) (\<lambda>t.
        Inr (commit_nodes D (commit_empty start_tx_seq t)))
      else
        rbind (on_nodes (nm_add_layer D) t) (\<lambda>t.
        rbind (append_nodes C D 0 leaves t) (\<lambda>t.
        rbind (rfold (\<lambda>_. on_nodes (nm_add_layer D)) [1..<depth] t) (\<lambda>t.
        rbind (recompute A C D 0 0 None t) (\<lambda>t.
        amt_commit C D start_tx_seq (commit_nodes D t)))))))"

section \<open>Appending and replacing leaves\<close>

definition amt_append ::
    "('e, 'z) hash_alg_scheme \<Rightarrow> ('e, 'c) lru_ops \<Rightarrow> ('e, 'd, 't) node_database \<Rightarrow> 'e \<Rightarrow>
     ('e, 'c, 'd, 't) append_merkle_tree \<Rightarrow> ('e, 'c, 'd, 't) append_merkle_tree res" where
  "amt_append A C D new_leaf t =
     (if is_null A new_leaf then Inr t
      else
        rbind (start_transaction D t) (\<lambda>t.
        rbind (push_node C D 0 new_leaf t) (\<lambda>t.
        rbind (amt_leaves t) (\<lambda>n.
        rbind (recompute_after_append_leaves A C D (wsub n 1) t) (\<lambda>t.
        Inr (commit_nodes D t))))))"

definition append_list ::
    "('e, 'z) hash_alg_scheme \<Rightarrow> ('e, 'c) lru_ops \<Rightarrow> ('e, 'd, 't) node_database \<Rightarrow> 'e list \<Rightarrow>
     ('e, 'c, 'd, 't) append_merkle_tree \<Rightarrow> ('e, 'c, 'd, 't) append_merkle_tree res" where
  "append_list A C D leaf_list t =
     (if list_ex (is_null A) leaf_list then Inr t
      else
        rbind (start_transaction D t) (\<lambda>t.
        rbind (amt_leaves t) (\<lambda>start_index.
        rbind (append_nodes C D 0 leaf_list t) (\<lambda>t.
        rbind (recompute_after_append_leaves A C D start_index t) (\<lambda>t.
        Inr (commit_nodes D t))))))"

definition update_last ::
    "('e, 'z) hash_alg_scheme \<Rightarrow> ('e, 'c) lru_ops \<Rightarrow> ('e, 'd, 't) node_database \<Rightarrow> 'e \<Rightarrow>
     ('e, 'c, 'd, 't) append_merkle_tree \<Rightarrow> ('e, 'c, 'd, 't) append_merkle_tree res" where
  "update_last A C D updated_leaf t =
     (if is_null A updated_leaf then Inr t
      else
        rbind (start_transaction D t) (\<lambda>t.
        rbind (amt_layer_len t 0) (\<lambda>len.
        rbind (if len = 0 then push_node C D 0 updated_leaf t
               else update_node C D 0 (len - 1) updated_leaf t) (\<lambda>t.
        rbind (amt_leaves t) (\<lambda>n.
        rbind (recompute_after_append_leaves A C D (wsub n 1) t) (\<lambda>t.
        Inr (commit_nodes D t)))))))"

section \<open>Appending subtrees by their root\<close>

text \<open>The only \<open>Err\<close> of \<open>append_subtree_inner\<close> comes before any change of the tree.\<close>

definition append_subtree_inner ::
    "('e, 'z) hash_alg_scheme \<Rightarrow> ('e, 'c) lru_ops \<Rightarrow> ('e, 'd, 't) node_database \<Rightarrow> nat \<Rightarrow> 'e \<Rightarrow>
     ('e, 'c, 'd, 't) append_merkle_tree \<Rightarrow> ('e, 'c, 'd, 't) append_merkle_tree res" where
  "append_subtree_inner A C D subtree_depth subtree_root t =
     (if subtree_depth = 0 then Inl (Err ''Subtree depth should not be zero!'')
      else
        rbind (rfold (\<lambda>height t.
                 rbind (before_extend_layer D height t) (\<lambda>t.
                 let subtree_layer_size = 2 ^ (subtree_depth - 1 - height) in
                 append_nodes C D height (replicate subtree_layer_size (alg_null A)) t))
               [0..<subtree_depth - 1] t) (\<lambda>t.
        rbind (before_extend_layer D (subtree_depth - 1) t) (\<lambda>t.
        push_node C D (subtree_depth - 1) subtree_root t)))"

text \<open>The operator \<open>?\<close> on a step that failed without changing the tree \<open>t\<close>.\<close>

definition question ::
    "'s \<Rightarrow> 'a res \<Rightarrow> ('a \<Rightarrow> ('s \<times> 'b res) res) \<Rightarrow> ('s \<times> 'b res) res" where
  "question t m f =
     (case m of
        Inr x \<Rightarrow> f x
      | Inl (Err e) \<Rightarrow> Inr (t, Inl (Err e))
      | Inl e \<Rightarrow> Inl e)"

definition append_subtree_step ::
    "('e, 'z) hash_alg_scheme \<Rightarrow> ('e, 'c) lru_ops \<Rightarrow> ('e, 'd, 't) node_database \<Rightarrow> nat \<Rightarrow> 'e \<Rightarrow>
     ('e, 'c, 'd, 't) append_merkle_tree \<Rightarrow> ('e, 'c, 'd, 't) append_merkle_tree res" where
  "append_subtree_step A C D subtree_depth subtree_root t =
     rbind (amt_leaves t) (\<lambda>start_index.
     rbind (append_subtree_inner A C D subtree_depth subtree_root t) (\<lambda>t.
     recompute_after_append_subtree A C D start_index (subtree_depth - 1) t))"

definition append_subtree ::
    "('e, 'z) hash_alg_scheme \<Rightarrow> ('e, 'c) lru_ops \<Rightarrow> ('e, 'd, 't) node_database \<Rightarrow> nat \<Rightarrow> 'e \<Rightarrow>
     ('e, 'c, 'd, 't) append_merkle_tree \<Rightarrow> (('e, 'c, 'd, 't) append_merkle_tree \<times> unit res) res" where
  "append_subtree A C D subtree_depth subtree_root t =
     (if is_null A subtree_root then Inr (t, Inl (Err ''subtree_root is null''))
      else
        rbind (start_transaction D t) (\<lambda>t.
        question t (append_subtree_step A C D subtree_depth subtree_root t) (\<lambda>t.
        Inr (commit_nodes D t, Inr ()))))"

fun append_subtrees_loop ::
    "('e, 'z) hash_alg_scheme \<Rightarrow> ('e, 'c) lru_ops \<Rightarrow> ('e, 'd, 't) node_database \<Rightarrow> (nat \<times> 'e) list \<Rightarrow>
     ('e, 'c, 'd, 't) append_merkle_tree \<Rightarrow> (('e, 'c, 'd, 't) append_merkle_tree \<times> unit res) res" where
  "append_subtrees_loop A C D [] t = Inr (commit_nodes D t, Inr ())"
| "append_subtrees_loop A C D ((subtree_depth, subtree_root) # rest) t =
     question t (append_subtree_step A C D subtree_depth subtree_root t)
       (append_subtrees_loop A C D rest)"

definition append_subtree_list ::
    "('e, 'z) hash_alg_scheme \<Rightarrow> ('e, 'c) lru_ops \<Rightarrow> ('e, 'd, 't) node_database \<Rightarrow> (nat \<times> 'e) list \<Rightarrow>
     ('e, 'c, 'd, 't) append_merkle_tree \<Rightarrow> (('e, 'c, 'd, 't) append_merkle_tree \<times> unit res) res" where
  "append_subtree_list A C D subtree_list t =
     (if list_ex (\<lambda>(_, root). is_null A root) subtree_list
      then Inr (t, Inl (Err ''subtree_list contains null''))
      else rbind (start_transaction D t) (append_subtrees_loop A C D subtree_list))"

section \<open>Filling in unknown nodes\<close>

definition fill_leaf ::
    "('e, 'z) hash_alg_scheme \<Rightarrow> ('e, 'c) lru_ops \<Rightarrow> ('e, 'd, 't) node_database \<Rightarrow> nat \<Rightarrow> 'e \<Rightarrow>
     ('e, 'c, 'd, 't) append_merkle_tree \<Rightarrow> ('e, 'c, 'd, 't) append_merkle_tree res" where
  "fill_leaf A C D i leaf t =
     (if is_null A leaf then Inr t
      else rbind (amt_node C D t 0 i) (\<lambda>old.
        if is_null A old then
          rbind (start_transaction D t) (\<lambda>t.
          rbind (update_node C D 0 i leaf t) (\<lambda>t.
          rbind (recompute_after_fill_leaves A C D i (i + 1) t) (\<lambda>t.
          Inr (commit_nodes D t))))
        else if old \<noteq> leaf then Inl (Panic ''Fill with invalid leaf'')
        else Inr t))"

fun fill_with_proof_loop ::
    "('e, 'z) hash_alg_scheme \<Rightarrow> ('e, 'c) lru_ops \<Rightarrow> ('e, 'd, 't) node_database \<Rightarrow> (nat \<times> nat \<times> 'e) list \<Rightarrow>
     ('e, 'c, 'd, 't) append_merkle_tree \<Rightarrow> (nat \<times> nat \<times> 'e) list \<Rightarrow>
     (('e, 'c, 'd, 't) append_merkle_tree \<times> (nat \<times> nat \<times> 'e) list res) res" where
  "fill_with_proof_loop A C D [] t updated_nodes = Inr (t, Inr updated_nodes)"
| "fill_with_proof_loop A C D ((i, position, data) # rest) t updated_nodes =
     rbind (amt_layer_len t i) (\<lambda>len.
     if position > len then Inr (t, Inl (Err ''proof position out of range''))
     else if position = len then fill_with_proof_loop A C D rest t updated_nodes
     else rbind (amt_node C D t i position) (\<lambda>old.
       if is_null A old then
         rbind (update_node C D i position data t) (\<lambda>t.
         fill_with_proof_loop A C D rest t (updated_nodes @ [(i, position, data)]))
       else fill_with_proof_loop A C D rest t updated_nodes))"

definition fill_with_proof ::
    "('e, 'z) hash_alg_scheme \<Rightarrow> ('e, 'c) lru_ops \<Rightarrow> ('e, 'd, 't) node_database \<Rightarrow> (nat \<times> 'e) list \<Rightarrow>
     ('e, 'c, 'd, 't) append_merkle_tree \<Rightarrow>
     (('e, 'c, 'd, 't) append_merkle_tree \<times> (nat \<times> nat \<times> 'e) list res) res" where
  "fill_with_proof A C D position_and_data t =
     fill_with_proof_loop A C D (enumerate 0 position_and_data) t []"

text \<open>\<open>split_off(leaf_height)\<close>, guarded by the length as in the source.\<close>

definition fill_with_nodes ::
    "('e, 'z) hash_alg_scheme \<Rightarrow> ('e, 'c) lru_ops \<Rightarrow> ('e, 'd, 't) node_database \<Rightarrow> (nat \<times> 'e) list \<Rightarrow>
     ('e, 'c, 'd, 't) append_merkle_tree \<Rightarrow>
     (('e, 'c, 'd, 't) append_merkle_tree \<times> (nat \<times> nat \<times> 'e) list res) res" where
  "fill_with_nodes A C D nodes t =
     (if length nodes \<ge> leaf_height t then fill_with_proof A C D (drop (leaf_height t) nodes) t
      else Inr (t, Inr []))"

definition fill_with_range_proof ::
    "('e, 'z) hash_alg_scheme \<Rightarrow> ('e, 'c) lru_ops \<Rightarrow> ('e, 'd, 't) node_database \<Rightarrow> 'e range_proof \<Rightarrow>
     ('e, 'c, 'd, 't) append_merkle_tree \<Rightarrow>
     (('e, 'c, 'd, 't) append_merkle_tree \<times> (nat \<times> nat \<times> 'e) list res) res" where
  "fill_with_range_proof A C D rp t =
     rbind (start_transaction D t) (\<lambda>t.
     rbind (proof_nodes_in_tree (left_proof rp)) (\<lambda>left_nodes.
     rbind (fill_with_nodes A C D left_nodes t) (\<lambda>(t, r).
     case r of
       Inl e \<Rightarrow> Inr (t, Inl e)
     | Inr updated_left \<Rightarrow>
         rbind (proof_nodes_in_tree (right_proof rp)) (\<lambda>right_nodes.
         rbind (fill_with_nodes A C D right_nodes t) (\<lambda>(t, r).
         case r of
           Inl e \<Rightarrow> Inr (t, Inl e)
         | Inr updated_right \<Rightarrow>
             Inr (commit_nodes D t, Inr (updated_left @ updated_right)))))))"

definition fill_with_file_proof ::
    "('e, 'z) hash_alg_scheme \<Rightarrow> ('e, 'c) lru_ops \<Rightarrow> ('e, 'd, 't) node_database \<Rightarrow> 'e merkle_proof \<Rightarrow>
     (nat \<times> 'e) list \<Rightarrow> nat \<Rightarrow> ('e, 'c, 'd, 't) append_merkle_tree \<Rightarrow>
     (('e, 'c, 'd, 't) append_merkle_tree \<times> (nat \<times> nat \<times> 'e) list res) res" where
  "fill_with_file_proof A C D p tx_merkle_nodes start_index t =
     (let tx_merkle_nodes_size = length tx_merkle_nodes;
          tx_merkle_nodes =
            (if leaf_height t \<noteq> 0
             then List.map_filter (\<lambda>(height, data).
                    if height > leaf_height t then Some (height - leaf_height t - 1, data) else None)
                    tx_merkle_nodes
             else tx_merkle_nodes)
      in if tx_merkle_nodes = [] then Inr (t, Inr [])
         else rbind (start_transaction D t) (\<lambda>t.
           rbind (file_proof_nodes_in_tree p tx_merkle_nodes tx_merkle_nodes_size) (\<lambda>position_and_data.
           let start_index = start_index div 2 ^ leaf_height t;
               position_and_data =
                 map (\<lambda>(i, position, data). (position + start_index div 2 ^ i, data))
                   (enumerate 0 position_and_data)
           in rbind (fill_with_proof A C D position_and_data t) (\<lambda>(t, r).
              case r of
                Inl e \<Rightarrow> Inr (t, Inl e)
              | Inr updated_nodes \<Rightarrow> Inr (commit_nodes D t, Inr updated_nodes)))))"

section \<open>Listing the known subtrees\<close>

function first_known_root_loop ::
    "('e, 'z) hash_alg_scheme \<Rightarrow> ('e, 'c) lru_ops \<Rightarrow> ('e, 'd, 't) node_database \<Rightarrow>
     ('e, 'c, 'd, 't) append_merkle_tree \<Rightarrow> nat \<Rightarrow> nat \<Rightarrow> (nat \<times> 'e) res" where
  "first_known_root_loop A C D t height index_in_layer =
     (if height < amt_height t then
        rbind (amt_node C D t height index_in_layer) (\<lambda>node.
        if \<not> is_null A node then Inr (height + 1, node)
        else first_known_root_loop A C D t (height + 1) (index_in_layer div 2))
      else Inl (Panic ''unreachable''))"
  by pat_completeness auto
termination
  by (relation "measure (\<lambda>(A, C, D, t, height, i). amt_height t - height)") auto

declare first_known_root_loop.simps [simp del]

definition first_known_root_at where
  "first_known_root_at A C D t i = first_known_root_loop A C D t 0 i"

text \<open>The inner loop: pop the subtrees that the new one contains.\<close>

fun pop_subtrees :: "nat \<Rightarrow> nat \<Rightarrow> (nat \<times> 'e) list \<Rightarrow> nat \<times> (nat \<times> 'e) list" where
  "pop_subtrees root_start_index next_index [] = (next_index, [])"
| "pop_subtrees root_start_index next_index (l # rest) =
     (let next_index = wsub next_index (2 ^ (fst l - 1)) in
      if next_index = root_start_index then (next_index, rest)
      else pop_subtrees root_start_index next_index rest)"

text \<open>
  The subtree list is kept with its last element first. An iteration ends behind the subtree it
  adds, so as many iterations as there are leaves are enough.
\<close>

fun get_subtrees_loop ::
    "('e, 'z) hash_alg_scheme \<Rightarrow> ('e, 'c) lru_ops \<Rightarrow> ('e, 'd, 't) node_database \<Rightarrow>
     ('e, 'c, 'd, 't) append_merkle_tree \<Rightarrow> nat \<Rightarrow> nat \<Rightarrow> nat \<Rightarrow> (nat \<times> 'e) list \<Rightarrow> (nat \<times> 'e) list res" where
  "get_subtrees_loop A C D t 0 n next_index acc = Inl Diverge"
| "get_subtrees_loop A C D t (Suc fuel) n next_index acc =
     (if next_index < n then
        rbind (first_known_root_at A C D t next_index) (\<lambda>root_tuple.
        let subtree_size = 2 ^ (fst root_tuple - 1);
            root_start_index = next_index div subtree_size * subtree_size;
            (next_index, acc) =
              (if root_start_index < next_index
               then pop_subtrees root_start_index next_index acc
               else (next_index, acc))
        in get_subtrees_loop A C D t fuel n (next_index + subtree_size) (root_tuple # acc))
      else Inr (rev acc))"

definition get_subtrees ::
    "('e, 'z) hash_alg_scheme \<Rightarrow> ('e, 'c) lru_ops \<Rightarrow> ('e, 'd, 't) node_database \<Rightarrow>
     ('e, 'c, 'd, 't) append_merkle_tree \<Rightarrow> (nat \<times> 'e) list res" where
  "get_subtrees A C D t =
     rbind (amt_leaves t) (\<lambda>n. get_subtrees_loop A C D t (n + 1) n 0 [])"

end
