(* ===== verification/Recompute.thy ===== *)
theory Recompute
  imports Append_Merkle
begin

text \<open>
  The incremental recomputation of \<open>AppendMerkleTree::recompute\<close> against the reference tree
  \<open>mnode\<close>. After leaves were appended (or the last one replaced) behind correct layers, the loop
  ends, does not panic, and leaves every layer as the reference tree has it, nodes before the
  changed range untouched (\<open>recompute_append\<close>). After an unknown leaf was filled in, it ends, does
  not panic, keeps every known node and only adds nodes of the reference tree
  (\<open>recompute_fill\<close>).
\<close>

declare recompute_loop.simps [simp del]

section \<open>Depth and full trees\<close>

text \<open>The number of layers that \<open>n\<close> leaves need.\<close>

function tree_depth :: "nat \<Rightarrow> nat" where
  "tree_depth n = (if n \<le> 1 then 1 else Suc (tree_depth ((n + 1) div 2)))"
  by pat_completeness auto
termination
  by (relation "measure id") auto

declare tree_depth.simps [simp del]

lemma tree_depth_pos: "0 < tree_depth n"
  by (subst tree_depth.simps) simp

lemma width_Suc': "width n (Suc h) = width ((n + 1) div 2) h"
  by (induction h) auto

lemma width_tree_depth: "width n (tree_depth n - 1) \<le> 1"
proof (induction n rule: tree_depth.induct)
  case (1 n)
  show ?case
  proof (cases "n \<le> 1")
    case True
    then show ?thesis by (subst tree_depth.simps) simp
  next
    case False
    then have "tree_depth n - 1 = Suc (tree_depth ((n + 1) div 2) - 1)"
      using tree_depth_pos [of "(n + 1) div 2"] by (subst tree_depth.simps) simp
    then show ?thesis using 1 [OF False] by (simp only: width_Suc')
  qed
qed

lemma width_before_depth: "Suc h < tree_depth n \<Longrightarrow> 1 < width n h"
proof (induction n arbitrary: h rule: tree_depth.induct)
  case (1 n)
  have n: "\<not> n \<le> 1" using 1(2) by (subst (asm) tree_depth.simps) (auto split: if_splits)
  show ?case
  proof (cases h)
    case 0
    then show ?thesis using n by simp
  next
    case (Suc k)
    then have "Suc k < tree_depth ((n + 1) div 2)"
      using 1(2) n by (subst (asm) tree_depth.simps) simp
    then show ?thesis using 1(1) [OF n] Suc by (simp only: width_Suc')
  qed
qed

lemma width_antimono: "0 < n \<Longrightarrow> width n (Suc h) \<le> width n h"
  by (induction h) auto

lemma width_le_1_iff: "width n h \<le> 1 \<longleftrightarrow> tree_depth n \<le> Suc h"
proof
  show "width n h \<le> 1 \<Longrightarrow> tree_depth n \<le> Suc h"
    using width_before_depth [of h n] by (meson not_le)
  assume "tree_depth n \<le> Suc h"
  then have h: "tree_depth n - 1 \<le> h" by simp
  have "width n (tree_depth n - 1 + k) \<le> 1" for k
    by (induction k) (use width_tree_depth [of n] in auto)
  then show "width n h \<le> 1" using h by (metis le_add_diff_inverse)
qed

lemma width_halves: "width n h \<le> n div 2 ^ h + 1" "n div 2 ^ h \<le> width n h"
proof -
  have "width n h \<le> n div 2 ^ h + 1 \<and> n div 2 ^ h \<le> width n h"
  proof (induction h)
    case (Suc h)
    have "n div 2 ^ Suc h = n div 2 ^ h div 2" by (simp add: power_Suc2 div_mult2_eq del: power_Suc)
    then show ?case using Suc by simp linarith
  qed simp
  then show "width n h \<le> n div 2 ^ h + 1" "n div 2 ^ h \<le> width n h" by auto
qed

lemma width_pred: "0 < n \<Longrightarrow> width n h = (n - 1) div 2 ^ h + 1"
proof (induction h)
  case (Suc h)
  have "(n - 1) div 2 ^ Suc h = (n - 1) div 2 ^ h div 2"
    by (simp add: power_Suc2 div_mult2_eq del: power_Suc)
  then show ?case using Suc by simp
qed simp

lemma width_add: "width n (h + k) = width (width n h) k"
  by (induction k) auto

lemma tree_depth_bound: "tree_depth n \<le> h + width n h + 1"
proof -
  have "width m m \<le> 1" for m
  proof (cases m)
    case (Suc l)
    have "m - 1 < 2 ^ m" using less_exp [of m] by linarith
    then have "(m - 1) div 2 ^ m = 0" by simp
    then show ?thesis using width_pred [of m m] Suc by simp
  qed simp
  then have "width n (h + width n h) \<le> 1" by (simp add: width_add)
  then show ?thesis unfolding width_le_1_iff by simp
qed

text \<open>The layers of a full tree: \<open>H\<close> layers over the leaves \<open>ys\<close>.\<close>

definition tree_of :: "('e, 'z) hash_alg_scheme \<Rightarrow> nat \<Rightarrow> nat \<Rightarrow> 'e list \<Rightarrow> 'e list list" where
  "tree_of A lh H ys = map (\<lambda>h. map (mnode A lh ys h) [0..<width (length ys) h]) [0..<H]"

lemma length_tree_of [simp]: "length (tree_of A lh H ys) = H"
  by (simp add: tree_of_def)

lemma tree_of_layer [simp]:
  "h < H \<Longrightarrow> tree_of A lh H ys ! h = map (mnode A lh ys h) [0..<width (length ys) h]"
  by (simp add: tree_of_def)

text \<open>
  Partly known trees. \<open>agrees\<close>: \<open>L\<close> has the shape of the tree over \<open>ys\<close> and every node that is
  known is the node of that tree. \<open>closed_except\<close>: a node whose children are known is known
  itself, with a set of exceptions given by the height of the children and the index of the node.
\<close>

definition agrees :: "('e, 'z) hash_alg_scheme \<Rightarrow> nat \<Rightarrow> 'e list \<Rightarrow> 'e list list \<Rightarrow> bool" where
  "agrees A lh ys L \<longleftrightarrow>
     L \<noteq> [] \<and> alg_null A \<notin> set ys \<and> width (length ys) (length L - 1) \<le> 1 \<and>
     (\<forall>k < length L. length (L ! k) = width (length ys) k) \<and>
     (\<forall>k < length L. \<forall>i < width (length ys) k. L ! k ! i = alg_null A \<or> L ! k ! i = mnode A lh ys k i)"

definition closed_except ::
    "('e, 'z) hash_alg_scheme \<Rightarrow> (nat \<times> nat) set \<Rightarrow> 'e list list \<Rightarrow> bool" where
  "closed_except A X L \<longleftrightarrow>
     (\<forall>k i. k + 1 < length L \<longrightarrow> i < length (L ! (k + 1)) \<longrightarrow> (k, i) \<notin> X \<longrightarrow>
        L ! k ! (2 * i) \<noteq> alg_null A \<longrightarrow>
        (2 * i + 1 < length (L ! k) \<longrightarrow> L ! k ! (2 * i + 1) \<noteq> alg_null A) \<longrightarrow>
        L ! (k + 1) ! i \<noteq> alg_null A)"

text \<open>\<open>L'\<close> has every known node of \<open>L\<close> and fills in nodes of the tree over \<open>ys\<close> only.\<close>

definition extends ::
    "('e, 'z) hash_alg_scheme \<Rightarrow> nat \<Rightarrow> 'e list \<Rightarrow> 'e list list \<Rightarrow> 'e list list \<Rightarrow> bool" where
  "extends A lh ys L L' \<longleftrightarrow>
     length L' = length L \<and>
     (\<forall>k < length L. length (L' ! k) = length (L ! k) \<and>
        (\<forall>i < length (L ! k). L' ! k ! i = L ! k ! i \<or>
           L ! k ! i = alg_null A \<and> L' ! k ! i = mnode A lh ys k i))"

lemma extends_refl: "extends A lh ys L L"
  by (simp add: extends_def)

lemma extends_trans: "extends A lh ys L L' \<Longrightarrow> extends A lh ys L' L'' \<Longrightarrow> extends A lh ys L L''"
  unfolding extends_def by (metis (no_types, lifting))

lemma agrees_extends: "agrees A lh ys L \<Longrightarrow> extends A lh ys L L' \<Longrightarrow> agrees A lh ys L'"
  unfolding agrees_def extends_def by (metis length_0_conv)

lemma extends_set:
  assumes "k < length L" "i < length (L ! k)" "L ! k ! i = alg_null A" "x = mnode A lh ys k i"
  shows "extends A lh ys L (L[k := (L ! k)[i := x]])"
  using assms by (auto simp: extends_def nth_list_update)

lemma closed_except_set:
  assumes cl: "closed_except A {(h, a)} L" and h: "h + 1 < length L"
    and a: "a < length (L ! (h + 1))" and x: "x \<noteq> alg_null A"
  shows "closed_except A {(h + 1, a div 2)} (L[h + 1 := (L ! (h + 1))[a := x]])" (is "closed_except A _ ?L'")
  unfolding closed_except_def
proof (intro allI impI)
  fix k i
  assume k: "k + 1 < length ?L'" and i: "i < length (?L' ! (k + 1))" and ne: "(k, i) \<notin> {(h + 1, a div 2)}"
    and c1: "?L' ! k ! (2 * i) \<noteq> alg_null A"
    and c2: "2 * i + 1 < length (?L' ! k) \<longrightarrow> ?L' ! k ! (2 * i + 1) \<noteq> alg_null A"
  have node: "?L' ! j ! p = (if j = h + 1 \<and> p = a then x else L ! j ! p)" for j p
    using h a by (auto simp: nth_list_update)
  have len: "length (?L' ! j) = length (L ! j)" for j using h by (auto simp: nth_list_update)
  show "?L' ! (k + 1) ! i \<noteq> alg_null A"
  proof (cases "(k, i) = (h, a)")
    case True
    then show ?thesis using x node by auto
  next
    case False
    have "L ! k ! (2 * i) \<noteq> alg_null A" "2 * i + 1 < length (L ! k) \<longrightarrow> L ! k ! (2 * i + 1) \<noteq> alg_null A"
      using c1 c2 ne unfolding node len by (auto split: if_splits)
    then have "L ! (k + 1) ! i \<noteq> alg_null A"
      using cl False k i unfolding closed_except_def len by (metis length_list_update singletonD)
    then show ?thesis unfolding node using x by simp
  qed
qed

section \<open>The parents of one layer\<close>

lemma length_parent_updates: "length (parent_updates A ph i xs) = (length xs + 1) div 2"
  by (induction A ph i xs rule: parent_updates.induct) auto

lemma parent_updates_nth:
  "j < (length xs + 1) div 2 \<Longrightarrow> parent_updates A ph i xs ! j =
     (i + j, if 2 * j + 1 < length xs
             then (if is_null A (xs ! (2 * j)) \<or> is_null A (xs ! (2 * j + 1)) then alg_null A
                   else alg_parent A (xs ! (2 * j)) (xs ! (2 * j + 1)))
             else (if is_null A (xs ! (2 * j)) then alg_null A else parent_single A (xs ! (2 * j)) ph))"
proof (induction A ph i xs arbitrary: j rule: parent_updates.induct)
  case (1 A ph i l r xs)
  then show ?case by (cases j) auto
qed auto

context merkle_algorithm
begin

text \<open>Nodes over leaves that two trees share.\<close>

lemma mnode_take:
  assumes "take s xs = take s ys" "s \<le> length xs" "s \<le> length ys" "(i + 1) * 2 ^ h \<le> s"
  shows "mnode A lh xs h i = mnode A lh ys h i"
proof (rule mnode_cong)
  fix j assume "i * 2 ^ h \<le> j" "j < (i + 1) * 2 ^ h"
  with assms(4) have "j < s" by (meson less_le_trans)
  then have "xs ! j = ys ! j" using assms(1) by (metis nth_take)
  then show "mnode A lh xs 0 j = mnode A lh ys 0 j" using \<open>j < s\<close> assms(2,3) by simp
qed

text \<open>
  Two trees that share the leaves before \<open>s\<close> and end in the same node over \<open>s\<close> in one layer are
  the same above it.
\<close>

lemma mnode_same_above:
  assumes share: "take s xs = take s ys" "s \<le> length xs" "s \<le> length ys"
    and w: "width (length xs) h = s div 2 ^ h + 1" "width (length ys) h = s div 2 ^ h + 1"
    and eq: "mnode A lh xs h (s div 2 ^ h) = mnode A lh ys h (s div 2 ^ h)"
  shows "width (length xs) (h + k) = s div 2 ^ (h + k) + 1 \<and>
    width (length ys) (h + k) = s div 2 ^ (h + k) + 1 \<and>
    mnode A lh xs (h + k) (s div 2 ^ (h + k)) = mnode A lh ys (h + k) (s div 2 ^ (h + k))"
proof (induction k)
  case 0
  then show ?case using w eq by simp
next
  case (Suc k)
  let ?j = "s div 2 ^ (h + k)"
  have half: "s div 2 ^ (h + Suc k) = ?j div 2" by (simp add: power_Suc2 div_mult2_eq del: power_Suc)
  have wd: "width (length xs) (h + Suc k) = ?j div 2 + 1" "width (length ys) (h + Suc k) = ?j div 2 + 1"
    using Suc by auto
  have "mnode A lh xs (Suc (h + k)) (?j div 2) = mnode A lh ys (Suc (h + k)) (?j div 2)"
  proof (cases "even ?j")
    case True
    then have "2 * (?j div 2) = ?j" by simp
    moreover have "mnode A lh xs (h + k) (?j + 1) = mnode A lh ys (h + k) (?j + 1)"
      using Suc by (simp add: mnode_beyond)
    ultimately show ?thesis using Suc by simp
  next
    case False
    then have j: "2 * (?j div 2) + 1 = ?j" by (rule odd_two_times_div_two_succ)
    have "?j * 2 ^ (h + k) \<le> s" by simp
    then have "mnode A lh xs (h + k) (2 * (?j div 2)) = mnode A lh ys (h + k) (2 * (?j div 2))"
      by (intro mnode_take [OF share]) (simp only: j)
    then show ?thesis using Suc j by simp
  qed
  then show ?case unfolding half using wd by simp
qed

text \<open>The parents of the known nodes from an even position on are nodes of the tree.\<close>

lemma parent_updates_tree:
  assumes known: "alg_null A \<notin> set ys" and a: "2 * a \<le> width (length ys) h"
    and xs: "xs = map (mnode A lh ys h) [2 * a..<width (length ys) h]"
  shows "parent_updates A (h + lh) a xs =
    map (\<lambda>j. (j, mnode A lh ys (Suc h) j)) [a..<width (length ys) (Suc h)]" (is "?l = ?r")
proof (rule nth_equalityI)
  let ?N = "width (length ys) h"
  have len: "length xs = ?N - 2 * a" by (simp add: xs)
  show "length ?l = length ?r" using a by (simp add: length_parent_updates len)
  fix j assume j: "j < length ?l"
  then have j': "j < (length xs + 1) div 2" by (simp add: length_parent_updates)
  then have x0: "2 * j < length xs" by linarith
  then have x: "xs ! (2 * j) = mnode A lh ys h (2 * (a + j))" unfolding xs by (simp add: algebra_simps)
  have r: "?r ! j = (a + j, mnode A lh ys (Suc h) (a + j))"
    using j' len by (subst nth_map) (auto simp del: upt_Suc mnode.simps)
  note nn = mnode_known [OF known]
  show "?l ! j = ?r ! j"
  proof (cases "2 * j + 1 < length xs")
    case True
    then have "xs ! (2 * j + 1) = mnode A lh ys h (2 * (a + j) + 1)"
      unfolding xs by (simp add: algebra_simps)
    then show ?thesis
      unfolding r parent_updates_nth [OF j'] using True nn x by (simp add: is_null_def)
  next
    case False
    then have "?N \<le> 2 * (a + j) + 1" using len x0 by simp
    then have "mnode A lh ys h (2 * (a + j) + 1) = alg_end_pad A (h + lh)" by (rule mnode_beyond)
    then show ?thesis
      unfolding r parent_updates_nth [OF j'] using False nn x
      by (simp add: is_null_def parent_single_def)
  qed
qed

end

lemma take_append_same_iff:
  assumes "a \<le> length xs" "length xs \<le> a + 1" "a < W"
  shows "take a xs @ map f [a..<W] = xs \<longleftrightarrow> W = a + 1 \<and> length xs = a + 1 \<and> xs ! a = f a"
proof
  assume eq: "take a xs @ map f [a..<W] = xs"
  then have "length xs = a + (W - a)" using assms(1) by (metis length_append length_map length_take length_upt min.absorb2)
  then have W: "W = a + 1" "length xs = a + 1" using assms by auto
  then have "(take a xs @ map f [a..<W]) ! a = f a" by (simp add: nth_append)
  then show "W = a + 1 \<and> length xs = a + 1 \<and> xs ! a = f a" using W eq by simp
next
  assume "W = a + 1 \<and> length xs = a + 1 \<and> xs ! a = f a"
  then show "take a xs @ map f [a..<W] = xs"
    using take_Suc_conv_app_nth [of a xs] by simp
qed

section \<open>Store operations on a tree\<close>

locale append_tree = node_store C D touched + merkle_algorithm A
  for C :: "('e, 'c) lru_ops" and D :: "('e, 'd, 't) node_database" and touched
    and A :: "('e, 'z) hash_alg_scheme"
begin

text \<open>A computation on the tree \<open>t\<close> that changes its nodes to the layers \<open>L\<close> and nothing else.\<close>

definition yields ::
    "('e, 'c, 'd, 't) append_merkle_tree \<Rightarrow> ('e, 'c, 'd, 't) append_merkle_tree res \<Rightarrow>
     'e list list \<Rightarrow> bool" where
  "yields t m L \<longleftrightarrow> (\<exists>nm. m = Inr (t\<lparr>node_manager := nm\<rparr>) \<and> represents nm L True)"

lemma yieldsE:
  assumes "yields t m L"
  obtains nm where "m = Inr (t\<lparr>node_manager := nm\<rparr>)" "represents nm L True"
  using assms by (auto simp: yields_def)

lemma yields_refl: "represents (node_manager t) L True \<Longrightarrow> yields t (Inr t) L"
  unfolding yields_def by (intro exI [of _ "node_manager t"]) simp

lemma yields_on_nodes:
  "\<exists>nm'. f (node_manager t) = Inr nm' \<and> represents nm' L True \<Longrightarrow> yields t (on_nodes f t) L"
  by (auto simp: yields_def on_nodes_def)

lemma yields_push [intro]:
  "represents (node_manager t) L True \<Longrightarrow> l < length L \<Longrightarrow>
   yields t (push_node C D l x t) (L[l := L ! l @ [x]])"
  unfolding push_node_def by (rule yields_on_nodes) (rule represents_push_node)

lemma yields_append [intro]:
  "represents (node_manager t) L True \<Longrightarrow> l < length L \<Longrightarrow>
   yields t (append_nodes C D l xs t) (L[l := L ! l @ xs])"
  unfolding append_nodes_def by (rule yields_on_nodes) (rule represents_append_nodes)

lemma yields_update [intro]:
  "represents (node_manager t) L True \<Longrightarrow> l < length L \<Longrightarrow> p < length (L ! l) \<Longrightarrow>
   yields t (update_node C D l p x t) (L[l := (L ! l)[p := x]])"
  unfolding update_node_def by (rule yields_on_nodes) (rule represents_add_node)

lemma yields_extend:
  assumes "represents (node_manager t) L True" "l \<le> length L"
  shows "yields t (before_extend_layer D l t) (if l = length L then L @ [[]] else L)"
proof (cases "l = length L")
  case True
  then show ?thesis
    using assms represents_sizes(1) [OF assms(1)] represents_add_layer [OF assms(1)]
    by (auto simp: before_extend_layer_def amt_height_def intro: yields_on_nodes)
next
  case False
  then show ?thesis
    using assms represents_sizes(1) [OF assms(1)]
    by (auto simp: before_extend_layer_def amt_height_def intro: yields_refl)
qed

lemma tree_reads [layer_simps]:
  assumes "represents (node_manager t) L tx"
  shows "amt_height t = length L"
    and "l < length L \<Longrightarrow> amt_layer_len t l = Inr (length (L ! l))"
    and "l < length L \<Longrightarrow> p < length (L ! l) \<Longrightarrow> amt_node C D t l p = Inr (L ! l ! p)"
    and "L \<noteq> [] \<Longrightarrow> amt_leaves t = Inr (length (L ! 0))"
  using assms
  by (simp_all add: amt_height_def amt_layer_len_def amt_node_def amt_leaves_def layer_simps)

section \<open>Updating one layer of parents\<close>

text \<open>Pushing a run of parents behind the end of their layer.\<close>

lemma apply_parents_push:
  assumes "represents (node_manager t) L True" "h + 1 < length L" "length (L ! (h + 1)) = b" "b \<le> W"
  shows "\<exists>nm. rfold (apply_parent A C D h) (map (\<lambda>j. (j, f j)) [b..<W]) (t, lc) =
      Inr (t\<lparr>node_manager := nm\<rparr>, if b < W then Some (W - 1) else lc) \<and>
    represents nm (L[h + 1 := L ! (h + 1) @ map f [b..<W]]) True"
  using assms
proof (induction "W - b" arbitrary: b t L lc)
  case 0
  then show ?case by (intro exI [of _ "node_manager t"]) simp
next
  case (Suc n)
  then have b: "b < W" by simp
  obtain nm1 where p1: "push_node C D (h + 1) (f b) t = Inr (t\<lparr>node_manager := nm1\<rparr>)"
    and R1: "represents nm1 (L[h + 1 := L ! (h + 1) @ [f b]]) True"
    using yields_push [OF Suc.prems(1,2), of "f b"] by (rule yieldsE)
  let ?L1 = "L[h + 1 := L ! (h + 1) @ [f b]]" and ?t1 = "t\<lparr>node_manager := nm1\<rparr>"
  have step: "apply_parent A C D h (b, f b) (t, lc) = Inr (?t1, Some b)"
    using tree_reads(2) [OF Suc.prems(1,2)] Suc.prems(3) p1 by (simp add: apply_parent_def)
  have ups: "[b..<W] = b # [Suc b..<W]" using b by (simp add: upt_conv_Cons)
  have lc: "(if Suc b < W then Some (W - 1) else Some b) = Some (W - 1)" using b by auto
  have "\<exists>nm. rfold (apply_parent A C D h) (map (\<lambda>j. (j, f j)) [Suc b..<W]) (?t1, Some b) =
      Inr (?t1\<lparr>node_manager := nm\<rparr>, if Suc b < W then Some (W - 1) else Some b) \<and>
    represents nm (?L1[h + 1 := ?L1 ! (h + 1) @ map f [Suc b..<W]]) True"
    using Suc.hyps(2) Suc.prems R1 by (intro Suc.hyps(1)) auto
  then obtain nm where
    "rfold (apply_parent A C D h) (map (\<lambda>j. (j, f j)) [Suc b..<W]) (?t1, Some b) =
      Inr (t\<lparr>node_manager := nm\<rparr>, Some (W - 1))"
    "represents nm (L[h + 1 := L ! (h + 1) @ f b # map f [Suc b..<W]]) True"
    using Suc.prems(2) unfolding lc by auto
  then show ?case unfolding ups using b step by (intro exI [of _ nm]) simp
qed

text \<open>
  The updates of an append: the first parent may replace the last node of its layer, all others
  extend the layer. Nothing changed only if the one parent was already right.
\<close>

lemma apply_parents_append:
  assumes R: "represents (node_manager t) L True" and h: "h + 1 < length L"
    and len: "a \<le> length (L ! (h + 1))" "length (L ! (h + 1)) \<le> a + 1" "length (L ! (h + 1)) \<le> W"
    and a: "a < W" and known: "\<And>j. f j \<noteq> alg_null A"
  defines "same \<equiv> W = a + 1 \<and> length (L ! (h + 1)) = a + 1 \<and> L ! (h + 1) ! a = f a"
  shows "\<exists>nm. rfold (apply_parent A C D h) (map (\<lambda>j. (j, f j)) [a..<W]) (t, None) =
      Inr (t\<lparr>node_manager := nm\<rparr>, if same then None else Some (W - 1)) \<and>
    represents nm (L[h + 1 := take a (L ! (h + 1)) @ map f [a..<W]]) True"
proof (cases "length (L ! (h + 1)) = a")
  case True
  then show ?thesis
    using apply_parents_push [OF R h True, of W f None] a by (auto simp: same_def)
next
  case False
  then have la: "length (L ! (h + 1)) = a + 1" using len by simp
  have ups: "[a..<W] = a # [a + 1..<W]" using a by (simp add: upt_conv_Cons)
  let ?X = "L ! (h + 1)"
  have old: "?X = take a ?X @ [?X ! a]" using la
    by (metis Suc_eq_plus1 lessI take_Suc_conv_app_nth take_all_iff le_refl)
  show ?thesis
  proof (cases "?X ! a = f a")
    case True
    have st: "apply_parent A C D h (a, f a) (t, None) = Inr (t, None)"
      using tree_reads(2,3) [OF R h] la True known by (simp add: apply_parent_def is_null_def)
    have "L[h + 1 := take a ?X @ f a # map f [a + 1..<W]] = L[h + 1 := ?X @ map f [a + 1..<W]]"
      using old True by (metis append.assoc append_Cons append_Nil)
    moreover obtain nm where
      "rfold (apply_parent A C D h) (map (\<lambda>j. (j, f j)) [a + 1..<W]) (t, None) =
        Inr (t\<lparr>node_manager := nm\<rparr>, if a + 1 < W then Some (W - 1) else None)"
      "represents nm (L[h + 1 := ?X @ map f [a + 1..<W]]) True"
      using apply_parents_push [OF R h la, of W f None] a by auto
    moreover have "same \<longleftrightarrow> \<not> a + 1 < W" using a la True by (auto simp: same_def)
    ultimately show ?thesis
      unfolding ups using st by (intro exI [of _ nm]) auto
  next
    case diff: False
    obtain nm1 where p1: "update_node C D (h + 1) a (f a) t = Inr (t\<lparr>node_manager := nm1\<rparr>)"
      and R1: "represents nm1 (L[h + 1 := ?X[a := f a]]) True"
      using yields_update [OF R h, of a "f a"] la by (auto elim: yieldsE)
    let ?L1 = "L[h + 1 := ?X[a := f a]]" and ?t1 = "t\<lparr>node_manager := nm1\<rparr>"
    have st: "apply_parent A C D h (a, f a) (t, None) = Inr (?t1, Some a)"
      using tree_reads(2,3) [OF R h] la diff known p1 by (simp add: apply_parent_def is_null_def)
    have "?X[a := f a] = take a ?X @ [f a]" using la by (simp add: upd_conv_take_nth_drop)
    then have X1: "?L1 ! (h + 1) = take a ?X @ [f a]" using h by simp
    have "\<exists>nm. rfold (apply_parent A C D h) (map (\<lambda>j. (j, f j)) [a + 1..<W]) (?t1, Some a) =
        Inr (?t1\<lparr>node_manager := nm\<rparr>, if a + 1 < W then Some (W - 1) else Some a) \<and>
      represents nm (?L1[h + 1 := ?L1 ! (h + 1) @ map f [a + 1..<W]]) True"
      using a h la R1 by (intro apply_parents_push) auto
    moreover have "(if a + 1 < W then Some (W - 1) else Some a) = Some (W - 1)" using a by auto
    ultimately obtain nm where
      "rfold (apply_parent A C D h) (map (\<lambda>j. (j, f j)) [a + 1..<W]) (?t1, Some a) =
        Inr (t\<lparr>node_manager := nm\<rparr>, Some (W - 1))"
      "represents nm (L[h + 1 := take a ?X @ f a # map f [a + 1..<W]]) True"
      unfolding X1 by auto
    then show ?thesis
      unfolding ups same_def using st diff by (intro exI [of _ nm]) simp
  qed
qed

section \<open>Recomputing after an append\<close>

text \<open>
  The state of the loop at height \<open>h\<close> while leaves from \<open>s\<close> on changed: the layers up to \<open>h\<close> have
  the length of the new tree over \<open>ys\<close>, and layer \<open>h\<close> is right from the pair of the first changed
  node on. The layers above are still those of the old tree over \<open>ys0\<close>, which has no leaf
  behind \<open>s\<close>; of their unchanged nodes the one before the change is known when it is needed.
\<close>

definition ready :: "nat \<Rightarrow> 'e list \<Rightarrow> 'e list \<Rightarrow> nat \<Rightarrow> nat \<Rightarrow> 'e list list \<Rightarrow> bool" where
  "ready lh ys ys0 s h L \<longleftrightarrow>
     s < length ys \<and> h < length L \<and> alg_null A \<notin> set ys \<and>
     take s ys = take s ys0 \<and> (length ys0 = s \<or> length ys0 = s + 1) \<and>
     (\<forall>k \<le> h. length (L ! k) = width (length ys) k) \<and>
     (\<forall>i. 2 * (s div 2 ^ h div 2) \<le> i \<longrightarrow> i < width (length ys) h \<longrightarrow> L ! h ! i = mnode A lh ys h i) \<and>
     (\<forall>k. h < k \<longrightarrow> k < length L \<longrightarrow>
        length (L ! k) = width (length ys0) k \<and>
        (s div 2 ^ k < width (length ys0) k \<longrightarrow> L ! k ! (s div 2 ^ k) = mnode A lh ys0 k (s div 2 ^ k)) \<and>
        (odd (s div 2 ^ k) \<longrightarrow> L ! k ! (s div 2 ^ k - 1) = mnode A lh ys k (s div 2 ^ k - 1))) \<and>
     width (length ys0) (length L - 1) \<le> 1"

text \<open>What the loop leaves.\<close>

definition rebuilt :: "nat \<Rightarrow> 'e list \<Rightarrow> nat \<Rightarrow> nat \<Rightarrow> 'e list list \<Rightarrow> 'e list list \<Rightarrow> bool" where
  "rebuilt lh ys s h L L' \<longleftrightarrow>
     length L' = max (length L) (tree_depth (length ys)) \<and>
     (\<forall>k < length L'. length (L' ! k) = width (length ys) k) \<and>
     (\<forall>k i. h \<le> k \<longrightarrow> k < length L' \<longrightarrow> s div 2 ^ k \<le> i \<longrightarrow> i < width (length ys) k \<longrightarrow>
        L' ! k ! i = mnode A lh ys k i) \<and>
     (\<forall>k \<le> h. L' ! k = L ! k) \<and>
     (\<forall>k. h < k \<longrightarrow> k < length L \<longrightarrow> take (s div 2 ^ k) (L' ! k) = take (s div 2 ^ k) (L ! k))"

definition next_layers :: "nat \<Rightarrow> 'e list \<Rightarrow> nat \<Rightarrow> nat \<Rightarrow> 'e list list \<Rightarrow> 'e list list" where
  "next_layers lh ys s h L =
     (let a = s div 2 ^ (h + 1); new = map (mnode A lh ys (h + 1)) [a..<width (length ys) (h + 1)] in
      if h + 1 = length L then L @ [new]
      else L[h + 1 := take a (L ! (h + 1)) @ new])"

lemma ready_parent_layer:
  assumes "ready lh ys ys0 s h L" "h + 1 < length L"
  shows "s div 2 ^ (h + 1) \<le> length (L ! (h + 1))" "length (L ! (h + 1)) \<le> s div 2 ^ (h + 1) + 1"
    and "length (L ! (h + 1)) \<le> width (length ys) (h + 1)"
proof -
  let ?k = "h + 1"
  have len: "length (L ! ?k) = width (length ys0) ?k" and n0: "length ys0 = s \<or> length ys0 = s + 1"
    and s: "s < length ys"
    using assms by (auto simp: ready_def)
  show "s div 2 ^ ?k \<le> length (L ! ?k)"
    using n0 width_halves(2) [of s ?k] width_mono [of s "length ys0" ?k] unfolding len by auto
  show "length (L ! ?k) \<le> s div 2 ^ ?k + 1"
    using n0 width_halves(1) [of s ?k] width_pred [of "s + 1" ?k] unfolding len by auto
  show "length (L ! ?k) \<le> width (length ys) ?k"
    unfolding len using n0 s by (intro width_mono) auto
qed

lemma ready_top:
  assumes "ready lh ys ys0 s h L" "h + 1 = length L"
  shows "s div 2 ^ (h + 1) = 0"
proof -
  have "s div 2 ^ h \<le> width (length ys0) h"
    using assms width_halves(2) [of s h] width_mono [of s "length ys0" h] by (auto simp: ready_def)
  then have "s div 2 ^ h \<le> 1" using assms unfolding ready_def
    by (metis add_diff_cancel_right' le_trans)
  moreover have "s div 2 ^ (h + 1) = s div 2 ^ h div 2"
    by (simp add: power_Suc2 div_mult2_eq del: power_Suc)
  ultimately show ?thesis by simp
qed

lemma ready_child_nodes:
  assumes r: "ready lh ys ys0 s h L"
  shows "drop (2 * (s div 2 ^ h div 2)) (L ! h) =
    map (mnode A lh ys h) [2 * (s div 2 ^ (h + 1))..<width (length ys) h]" (is "?l = ?r")
proof (rule nth_equalityI)
  have half: "s div 2 ^ (h + 1) = s div 2 ^ h div 2" by (simp add: power_Suc2 div_mult2_eq del: power_Suc)
  have len: "length (L ! h) = width (length ys) h" using r by (auto simp: ready_def)
  then show "length ?l = length ?r" unfolding half by simp
  fix i assume "i < length ?l"
  then show "?l ! i = ?r ! i" using r len unfolding half by (simp add: ready_def)
qed

lemma recompute_step_append:
  assumes r: "ready lh ys ys0 s h L" and R: "represents (node_manager t) L True"
    and lh: "leaf_height t = lh" and e: "e = None \<or> e = Some (width (length ys) h)"
  defines "L' \<equiv> next_layers lh ys s h L"
  shows "\<exists>nm. recompute_step A C D (s div 2 ^ h) h e t =
      Inr (t\<lparr>node_manager := nm\<rparr>, if L' = L then None else Some (width (length ys) (h + 1) - 1)) \<and>
    represents nm L' True"
proof -
  let ?N = "width (length ys) h" and ?W = "width (length ys) (h + 1)"
  let ?a = "s div 2 ^ (h + 1)" and ?f = "mnode A lh ys (h + 1)"
  have h: "h < length L" and len: "length (L ! h) = ?N" and known: "alg_null A \<notin> set ys"
    and s: "s < length ys" using r by (auto simp: ready_def)
  have half: "?a = s div 2 ^ h div 2" by (simp add: power_Suc2 div_mult2_eq del: power_Suc)
  have even_start: "(if s div 2 ^ h mod 2 = 1 then s div 2 ^ h - 1 else s div 2 ^ h) = 2 * (s div 2 ^ h div 2)"
    by (simp add: minus_mod_eq_mult_div [symmetric])
  have sN: "s div 2 ^ h < ?N" using s by (rule div_less_width)
  have a: "2 * ?a \<le> ?N" "?a < ?W" using sN div_less_width [OF s, of "h + 1"] unfolding half by auto
  have nodes: "nm_get_nodes C D (node_manager t) h (2 * (s div 2 ^ h div 2)) ?N =
      map (mnode A lh ys h) [2 * ?a..<?N]"
    using represents_get_nodes [OF R h, of ?N] ready_child_nodes [OF r] len by simp
  have ups: "parent_updates A (h + lh) (s div 2 ^ h div 2) (map (mnode A lh ys h) [2 * ?a..<?N]) =
      map (\<lambda>j. (j, ?f j)) [?a..<?W]"
    using parent_updates_tree [OF known a(1) refl, of lh] half by simp
  have body: "recompute_step A C D (s div 2 ^ h) h e t =
      rbind (before_extend_layer D (h + 1) t) (\<lambda>t.
        rfold (apply_parent A C D h) (map (\<lambda>j. (j, ?f j)) [?a..<?W]) (t, None))"
  proof -
    have e': "(case e of None \<Rightarrow> ?N | Some x \<Rightarrow> x) = ?N" using e by auto
    have ne: "map (\<lambda>j. (j, ?f j)) [?a..<?W] \<noteq> []" using a(2) by (simp del: mnode.simps width.simps)
    show ?thesis
      unfolding recompute_step_def tree_reads(2) [OF R h] len rbind_Inr Let_def even_start e' lh
      using ne by (simp only: nodes ups simp_thms if_True if_False not_True_eq_False)
  qed
  obtain nm1 where b1: "before_extend_layer D (h + 1) t = Inr (t\<lparr>node_manager := nm1\<rparr>)"
    and R1: "represents nm1 (if h + 1 = length L then L @ [[]] else L) True"
    using yields_extend [OF R, of "h + 1"] h by (auto elim: yieldsE)
  let ?L1 = "if h + 1 = length L then L @ [[]] else L"
  have kn: "?f j \<noteq> alg_null A" for j by (rule mnode_known [OF known])
  have lens: "?a \<le> length (?L1 ! (h + 1))" "length (?L1 ! (h + 1)) \<le> ?a + 1"
      "length (?L1 ! (h + 1)) \<le> ?W"
    using ready_parent_layer [OF r] ready_top [OF r] h
    by (auto simp: nth_append simp del: power_Suc width.simps)
  have L1: "?L1[h + 1 := take ?a (?L1 ! (h + 1)) @ map ?f [?a..<?W]] = L'"
    using h by (auto simp: L'_def next_layers_def Let_def list_update_append nth_append)
  have same: "(?W = ?a + 1 \<and> length (?L1 ! (h + 1)) = ?a + 1 \<and> ?L1 ! (h + 1) ! ?a = ?f ?a) \<longleftrightarrow> L' = L"
  proof (cases "h + 1 = length L")
    case True
    then show ?thesis by (simp add: L'_def next_layers_def Let_def del: mnode.simps width.simps)
  next
    case False
    then have h1: "h + 1 < length L" using h by simp
    have "L' = L \<longleftrightarrow> take ?a (L ! (h + 1)) @ map ?f [?a..<?W] = L ! (h + 1)"
      unfolding L'_def next_layers_def Let_def using False h1
      by (simp only: if_False list_update_same_conv) (rule eq_commute)
    then show ?thesis using take_append_same_iff [OF lens(1,2) a(2), of ?f] False
      by (simp del: mnode.simps width.simps)
  qed
  show ?thesis
    using apply_parents_append [of "t\<lparr>node_manager := nm1\<rparr>" ?L1 h ?a ?W ?f] R1 h lens a(2) kn
    unfolding body b1 rbind_Inr L1 same by auto
qed

lemma next_layers_nth:
  assumes "ready lh ys ys0 s h L"
  shows "length (next_layers lh ys s h L) = max (length L) (h + 2)"
    and "k \<noteq> h + 1 \<Longrightarrow> k < length L \<Longrightarrow> next_layers lh ys s h L ! k = L ! k"
    and "next_layers lh ys s h L ! (h + 1) =
      (if h + 1 = length L then [] else take (s div 2 ^ (h + 1)) (L ! (h + 1))) @
      map (mnode A lh ys (h + 1)) [s div 2 ^ (h + 1)..<width (length ys) (h + 1)]"
proof -
  have h: "h < length L" using assms by (simp add: ready_def)
  then show "length (next_layers lh ys s h L) = max (length L) (h + 2)"
    by (auto simp: next_layers_def Let_def)
  show "k \<noteq> h + 1 \<Longrightarrow> k < length L \<Longrightarrow> next_layers lh ys s h L ! k = L ! k"
    by (auto simp: next_layers_def Let_def nth_append)
  show "next_layers lh ys s h L ! (h + 1) =
      (if h + 1 = length L then [] else take (s div 2 ^ (h + 1)) (L ! (h + 1))) @
      map (mnode A lh ys (h + 1)) [s div 2 ^ (h + 1)..<width (length ys) (h + 1)]"
    using h by (auto simp: next_layers_def Let_def nth_append simp del: mnode.simps width.simps power_Suc)
qed

lemma next_layer_prefix:
  assumes r: "ready lh ys ys0 s h L"
  shows "length (if h + 1 = length L then [] else take (s div 2 ^ (h + 1)) (L ! (h + 1))) = s div 2 ^ (h + 1)"
proof (cases "h + 1 = length L")
  case True
  then show ?thesis using ready_top [OF r] by simp
next
  case False
  then have "h + 1 < length L" using r by (simp add: ready_def)
  then show ?thesis using False ready_parent_layer(1) [OF r] by simp
qed

lemma ready_next:
  assumes r: "ready lh ys ys0 s h L"
  shows "ready lh ys ys0 s (h + 1) (next_layers lh ys s h L)" (is "ready lh ys ys0 s _ ?L'")
proof -
  let ?a = "s div 2 ^ (h + 1)" and ?W = "width (length ys) (h + 1)"
  note nl = next_layers_nth [OF r] and pre = next_layer_prefix [OF r]
  have h: "h < length L" and s: "s < length ys" using r by (simp_all add: ready_def)
  have aW: "?a < ?W" using s by (rule div_less_width)
  have len1: "length (?L' ! (h + 1)) = ?W"
    unfolding nl(3) length_append pre using aW by (simp del: width.simps power_Suc)
  have len: "length (?L' ! k) = width (length ys) k" if "k \<le> h + 1" for k
    using that len1 nl(2) [of k] r h by (cases "k = h + 1") (auto simp: ready_def)
  have new: "?L' ! (h + 1) ! i = mnode A lh ys (h + 1) i" if "?a \<le> i" "i < ?W" for i
    unfolding nl(3) nth_append pre using that by (simp del: width.simps mnode.simps power_Suc)
  have old: "?L' ! (h + 1) ! (?a - 1) = mnode A lh ys (h + 1) (?a - 1)" if odd: "odd ?a"
  proof -
    have a0: "?a - 1 < ?a" using odd by (cases ?a) auto
    have h1: "h + 1 \<noteq> length L" using odd ready_top [OF r] by (metis even_zero)
    then have "h + 1 < length L" using h by simp
    then have "L ! (h + 1) ! (?a - 1) = mnode A lh ys (h + 1) (?a - 1)"
      using r odd unfolding ready_def by (metis less_add_one)
    then show ?thesis unfolding nl(3) nth_append pre using a0 h1
      by (simp del: width.simps mnode.simps power_Suc)
  qed
  have right: "?L' ! (h + 1) ! i = mnode A lh ys (h + 1) i" if i: "2 * (?a div 2) \<le> i" "i < ?W" for i
  proof (cases "?a \<le> i")
    case True
    then show ?thesis using new i by blast
  next
    case False
    have odd: "odd ?a"
    proof
      assume "even ?a"
      then show False using i(1) False by (metis dvd_mult_div_cancel)
    qed
    then have "2 * (?a div 2) + 1 = ?a" by (rule odd_two_times_div_two_succ)
    then have "i = ?a - 1" using i(1) False by linarith
    then show ?thesis using old odd by blast
  qed
  have up: "k < length L \<and> ?L' ! k = L ! k" if "h + 1 < k" "k < length ?L'" for k
    using that nl(1) nl(2) [of k] by (auto simp: max_def split: if_splits)
  have top: "width (length ys0) (length ?L' - 1) \<le> 1"
  proof (cases "h + 1 = length L")
    case True
    then have "h = length L - 1" "length ?L' - 1 = Suc h" using nl(1) by auto
    moreover have "width (length ys0) (length L - 1) \<le> 1" using r unfolding ready_def by blast
    ultimately show ?thesis by simp
  next
    case False
    then have "length ?L' = length L" using nl(1) h by simp
    then show ?thesis using r by (simp add: ready_def)
  qed
  show ?thesis
    unfolding ready_def
  proof (intro conjI allI impI)
    show "h + 1 < length ?L'" using nl(1) by simp
    fix k assume k: "h + 1 < k" "k < length ?L'"
    show "length (?L' ! k) = width (length ys0) k"
      "s div 2 ^ k < width (length ys0) k \<Longrightarrow> ?L' ! k ! (s div 2 ^ k) = mnode A lh ys0 k (s div 2 ^ k)"
      "odd (s div 2 ^ k) \<Longrightarrow> ?L' ! k ! (s div 2 ^ k - 1) = mnode A lh ys k (s div 2 ^ k - 1)"
      using r up [OF k] k by (simp_all add: ready_def)
  qed (use r len right top in \<open>auto simp: ready_def\<close>)
qed

lemma ready_layer:
  assumes "ready lh ys ys0 s h L" "s div 2 ^ h \<le> i" "i < width (length ys) h"
  shows "L ! h ! i = mnode A lh ys h i"
proof -
  have "2 * (s div 2 ^ h div 2) \<le> s div 2 ^ h" by simp
  then have "2 * (s div 2 ^ h div 2) \<le> i" using assms(2) by (rule order_trans)
  then show ?thesis using assms(1,3) unfolding ready_def by blast
qed

text \<open>The two ways the loop ends: at the top, or because a parent did not change.\<close>

lemma rebuilt_top:
  assumes r: "ready lh ys ys0 s h L" and top: "h + 1 = length L" and w: "width (length ys) h \<le> 1"
  shows "rebuilt lh ys s h L L"
proof -
  have "tree_depth (length ys) \<le> length L" using w top unfolding width_le_1_iff by simp
  moreover have "L ! k ! i = mnode A lh ys k i"
    if "h \<le> k" "k < length L" "s div 2 ^ k \<le> i" "i < width (length ys) k" for k i
    using ready_layer [OF r] that top by (cases "k = h") auto
  ultimately show ?thesis using r top by (simp add: rebuilt_def ready_def)
qed

lemma rebuilt_unchanged:
  assumes r: "ready lh ys ys0 s h L" and same: "next_layers lh ys s h L = L"
  shows "rebuilt lh ys s h L L"
proof -
  let ?a = "s div 2 ^ (h + 1)"
  have h: "h < length L" and s: "s < length ys" and n0: "length ys0 = s \<or> length ys0 = s + 1"
    and share: "take s ys = take s ys0" using r by (auto simp: ready_def)
  have h1: "h + 1 < length L" using next_layers_nth(1) [OF r] h unfolding same by simp
  have r1: "ready lh ys ys0 s (h + 1) L" using ready_next [OF r] unfolding same .
  have w1: "width (length ys) (h + 1) = length (L ! (h + 1))" using r1 by (simp add: ready_def)
  have a1: "?a < width (length ys) (h + 1)" using s by (rule div_less_width)
  then have w: "width (length ys) (h + 1) = ?a + 1" and w0: "width (length ys0) (h + 1) = ?a + 1"
    using w1 ready_parent_layer(2) [OF r h1] r h1 by (simp_all add: ready_def del: width.simps power_Suc)
  have "L ! (h + 1) ! ?a = mnode A lh ys (h + 1) ?a"
    using r1 a1 unfolding ready_def by (metis div_times_less_eq_dividend mult.commute)
  moreover have "L ! (h + 1) ! ?a = mnode A lh ys0 (h + 1) ?a"
    using r h1 w0 unfolding ready_def by (metis less_add_one)
  ultimately have "mnode A lh ys (h + 1) ?a = mnode A lh ys0 (h + 1) ?a" by simp
  note above = mnode_same_above [OF share _ _ w w0 this]
  have up: "width (length ys) k = s div 2 ^ k + 1 \<and> width (length ys0) k = s div 2 ^ k + 1 \<and>
      mnode A lh ys k (s div 2 ^ k) = mnode A lh ys0 k (s div 2 ^ k)" if "h + 1 \<le> k" for k
    using above [of "k - (h + 1)"] that s n0 by auto
  have "h + 1 \<le> length L - 1" using h1 by simp
  note up [OF this]
  moreover have "width (length ys0) (length L - 1) \<le> 1" using r unfolding ready_def by blast
  ultimately have "width (length ys) (length L - 1) \<le> 1" by simp
  then have depth: "tree_depth (length ys) \<le> length L" unfolding width_le_1_iff using h by simp
  have lens: "length (L ! k) = width (length ys) k" if "k < length L" for k
    using that r up [of k] by (cases "k \<le> h") (auto simp: ready_def)
  have "L ! k ! i = mnode A lh ys k i"
    if k: "h \<le> k" "k < length L" "s div 2 ^ k \<le> i" "i < width (length ys) k" for k i
  proof (cases "k = h")
    case True
    then show ?thesis using ready_layer [OF r] k by simp
  next
    case False
    then have hk: "h + 1 \<le> k" using k by simp
    then have "i = s div 2 ^ k" using up [OF hk] k by simp
    moreover have "L ! k ! (s div 2 ^ k) = mnode A lh ys0 k (s div 2 ^ k)"
      using r hk k(2) up [OF hk] by (simp add: ready_def)
    ultimately show ?thesis using up [OF hk] by simp
  qed
  then show ?thesis using depth lens by (simp add: rebuilt_def)
qed

lemma rebuilt_step:
  assumes r: "ready lh ys ys0 s h L" and go: "1 < width (length ys) h \<or> h + 1 < length L"
    and b: "rebuilt lh ys s (h + 1) (next_layers lh ys s h L) L'"
  shows "rebuilt lh ys s h L L'"
proof -
  let ?N = "next_layers lh ys s h L" and ?a = "s div 2 ^ (h + 1)"
  note nl = next_layers_nth [OF r] and pre = next_layer_prefix [OF r]
  have h: "h < length L" using r by (simp add: ready_def)
  have "h + 2 \<le> max (length L) (tree_depth (length ys))"
  proof (cases "h + 1 < length L")
    case False
    then have "\<not> width (length ys) h \<le> 1" using go by simp
    then show ?thesis unfolding width_le_1_iff by simp
  qed simp
  then have len: "length L' = max (length L) (tree_depth (length ys))"
    using b nl(1) by (auto simp: rebuilt_def)
  have low: "L' ! k = L ! k" if "k \<le> h" for k
    using b nl(2) [of k] that h by (auto simp: rebuilt_def)
  have "take (s div 2 ^ k) (L' ! k) = take (s div 2 ^ k) (L ! k)" if k: "h < k" "k < length L" for k
  proof (cases "k = h + 1")
    case True
    have "L' ! (h + 1) = ?N ! (h + 1)" using b by (simp add: rebuilt_def)
    then show ?thesis unfolding True nl(3) using pre k True by simp
  next
    case False
    then have "take (s div 2 ^ k) (L' ! k) = take (s div 2 ^ k) (?N ! k)"
      using b k nl(1) by (simp add: rebuilt_def)
    then show ?thesis using nl(2) [OF False k(2)] by simp
  qed
  moreover have "L' ! k ! i = mnode A lh ys k i"
    if k: "h \<le> k" "k < length L'" "s div 2 ^ k \<le> i" "i < width (length ys) k" for k i
  proof (cases "k = h")
    case True
    then show ?thesis using low [of h] ready_layer [OF r] k by simp
  next
    case False
    then show ?thesis using b k by (simp add: rebuilt_def)
  qed
  ultimately show ?thesis using len low b by (simp add: rebuilt_def)
qed

lemma recompute_loop_append:
  assumes "ready lh ys ys0 s h L" "represents (node_manager t) L True" "leaf_height t = lh"
    and "e = None \<or> e = Some (width (length ys) h)"
    and "max (length L) (tree_depth (length ys)) \<le> h + fuel"
  shows "\<exists>L'. yields t (recompute_loop A C D fuel (s div 2 ^ h) h e t) L' \<and> rebuilt lh ys s h L L'"
  using assms
proof (induction fuel arbitrary: h L t e)
  case 0
  then show ?case by (simp add: ready_def)
next
  case (Suc fuel)
  note r = Suc.prems(1) and R = Suc.prems(2)
  let ?N = "width (length ys) h" and ?L1 = "next_layers lh ys s h L"
  have h: "h < length L" and len: "length (L ! h) = ?N" using r by (auto simp: ready_def)
  have reads: "amt_layer_len t h = Inr ?N" "amt_height t = length L" using tree_reads(1,2) [OF R] h len by auto
  have half: "s div 2 ^ h div 2 = s div 2 ^ (h + 1)" by (simp add: power_Suc2 div_mult2_eq del: power_Suc)
  show ?case
  proof (cases "1 < ?N \<or> h < length L - 1")
    case False
    then have "h + 1 = length L" "?N \<le> 1" using h by auto
    then have "rebuilt lh ys s h L L" by (rule rebuilt_top [OF r])
    moreover have "recompute_loop A C D (Suc fuel) (s div 2 ^ h) h e t = Inr t"
      using False reads h by (simp add: recompute_loop.simps)
    ultimately show ?thesis using yields_refl [OF R] by auto
  next
    case True
    obtain nm where st: "recompute_step A C D (s div 2 ^ h) h e t =
        Inr (t\<lparr>node_manager := nm\<rparr>, if ?L1 = L then None else Some (width (length ys) (h + 1) - 1))"
      and R1: "represents nm ?L1 True"
      using recompute_step_append [OF r R Suc.prems(3,4)] by blast
    have unf: "recompute_loop A C D (Suc fuel) (s div 2 ^ h) h e t =
        (if ?L1 = L then Inr (t\<lparr>node_manager := nm\<rparr>)
         else recompute_loop A C D fuel (s div 2 ^ (h + 1)) (h + 1)
           (Some (width (length ys) (h + 1) - 1 + 1)) (t\<lparr>node_manager := nm\<rparr>))"
      using True reads h st unfolding half [symmetric]
      by (simp add: recompute_loop.simps del: width.simps)
    show ?thesis
    proof (cases "?L1 = L")
      case True
      then show ?thesis using unf rebuilt_unchanged [OF r True] R1 by (auto simp: yields_def)
    next
      case False
      have W: "width (length ys) (h + 1) - 1 + 1 = width (length ys) (h + 1)"
        using div_less_width [of s "length ys" "h + 1"] r unfolding ready_def by linarith
      have fuel: "max (length ?L1) (tree_depth (length ys)) \<le> h + 1 + fuel"
      proof (cases "h + 1 < length L")
        case True
        then show ?thesis using Suc.prems(5) next_layers_nth(1) [OF r] by simp
      next
        case False
        then have "\<not> ?N \<le> 1" using True by auto
        then have "h + 2 \<le> tree_depth (length ys)" unfolding width_le_1_iff by simp
        then show ?thesis using Suc.prems(5) next_layers_nth(1) [OF r] False h by simp
      qed
      obtain L' where y: "yields (t\<lparr>node_manager := nm\<rparr>) (recompute_loop A C D fuel (s div 2 ^ (h + 1)) (h + 1)
          (Some (width (length ys) (h + 1))) (t\<lparr>node_manager := nm\<rparr>)) L'"
        and b: "rebuilt lh ys s (h + 1) ?L1 L'"
        using Suc.IH [OF ready_next [OF r], of "t\<lparr>node_manager := nm\<rparr>"] R1 Suc.prems(3) fuel by auto
      have "1 < ?N \<or> h + 1 < length L" using True by auto
      then have "rebuilt lh ys s h L L'" using b by (rule rebuilt_step [OF r])
      moreover have "yields t (recompute_loop A C D (Suc fuel) (s div 2 ^ h) h e t) L'"
        using y False unfolding unf W by (simp add: yields_def)
      ultimately show ?thesis by blast
    qed
  qed
qed

text \<open>\<open>recompute\<close> after an append or a replacement of the last leaf.\<close>

lemma recompute_append:
  assumes r: "ready lh ys ys0 s h L" and R: "represents (node_manager t) L True"
    and lh: "leaf_height t = lh"
  shows "\<exists>L'. yields t (recompute A C D s h None t) L' \<and> rebuilt lh ys s h L L'"
proof -
  have h: "h < length L" "length (L ! h) = width (length ys) h" using r by (auto simp: ready_def)
  have "max (length L) (tree_depth (length ys)) \<le> h + (length L + width (length ys) h + 1)"
    using tree_depth_bound [of "length ys" h] by simp
  then show ?thesis
    using recompute_loop_append [OF r R lh, of None] tree_reads(1,2) [OF R] h
    by (auto simp: recompute_def)
qed

section \<open>Recomputing after a leaf was filled in\<close>

lemma parent_updates_pair:
  assumes "xs \<noteq> []" "length xs \<le> 2"
  shows "parent_updates A ph a xs =
    [(a, if alg_null A \<in> set xs then alg_null A
         else alg_parent A (xs ! 0) (if length xs = 2 then xs ! 1 else alg_end_pad A ph))]"
proof -
  consider x where "xs = [x]" | x y where "xs = [x, y]"
    using assms by (metis One_nat_def Suc_1 Suc_le_mono le_zero_eq length_0_conv length_Suc_conv le_Suc_eq)
  then show ?thesis by cases (auto simp: is_null_def parent_single_def)
qed

text \<open>The pair (or the last single node) that contains the changed node of layer \<open>h\<close>.\<close>

lemma fill_children:
  assumes ag: "agrees A lh ys L" and h: "h + 1 < length L" and i: "i < width (length ys) h"
  defines "N \<equiv> width (length ys) h"
  defines "e \<equiv> (if (i + 1) mod 2 = 1 \<and> i + 1 \<noteq> N then i + 1 + 1 else i + 1)"
  defines "xs \<equiv> drop (2 * (i div 2)) (take e (L ! h))"
  shows "e \<le> N" and "i div 2 < width (length ys) (h + 1)"
    and "parent_updates A (h + lh) (i div 2) xs =
      [(i div 2, if L ! h ! (2 * (i div 2)) \<noteq> alg_null A \<and>
                    (2 * (i div 2) + 1 < N \<longrightarrow> L ! h ! (2 * (i div 2) + 1) \<noteq> alg_null A)
                 then mnode A lh ys (h + 1) (i div 2) else alg_null A)]"
proof -
  let ?a = "i div 2"
  have len: "length (L ! h) = N" using ag h by (simp add: agrees_def N_def)
  have iN: "i < N" using i by (simp add: N_def)
  have e: "e = (if 2 * ?a + 1 < N then 2 * ?a + 2 else 2 * ?a + 1)"
    using iN unfolding e_def by (cases "even i") (auto elim!: evenE oddE, presburger)
  have aN: "2 * ?a < N" using iN by linarith
  then show "e \<le> N" unfolding e by simp
  show "?a < width (length ys) (h + 1)" using aN by (simp add: N_def)
  have xs: "xs = (if 2 * ?a + 1 < N then [L ! h ! (2 * ?a), L ! h ! (2 * ?a + 1)] else [L ! h ! (2 * ?a)])"
  proof -
    have d: "drop (2 * ?a) (L ! h) = L ! h ! (2 * ?a) # drop (Suc (2 * ?a)) (L ! h)"
      using aN len by (simp add: Cons_nth_drop_Suc)
    have "drop (Suc (2 * ?a)) (L ! h) = L ! h ! Suc (2 * ?a) # drop (Suc (Suc (2 * ?a))) (L ! h)"
      if "2 * ?a + 1 < N"
      using that len by (simp add: Cons_nth_drop_Suc)
    then show ?thesis using aN len unfolding xs_def e drop_take d by simp
  qed
  have node: "L ! h ! j = alg_null A \<or> L ! h ! j = mnode A lh ys h j" if "j < N" for j
    using ag h that by (simp add: agrees_def N_def)
  have pad: "mnode A lh ys h (2 * ?a + 1) = alg_end_pad A (h + lh)" if "\<not> 2 * ?a + 1 < N"
    using that by (intro mnode_beyond) (simp add: N_def)
  show "parent_updates A (h + lh) ?a xs =
      [(?a, if L ! h ! (2 * ?a) \<noteq> alg_null A \<and>
               (2 * ?a + 1 < N \<longrightarrow> L ! h ! (2 * ?a + 1) \<noteq> alg_null A)
            then mnode A lh ys (h + 1) ?a else alg_null A)]"
    using node [OF aN] node [of "2 * ?a + 1"] pad aN
    by (subst parent_updates_pair) (auto simp: xs)
qed

lemma recompute_step_fill:
  assumes ag: "agrees A lh ys L" and cl: "closed_except A {(h, i div 2)} L"
    and R: "represents (node_manager t) L True" and lh: "leaf_height t = lh"
    and h: "h + 1 < length L" and i: "i < width (length ys) h"
  shows "\<exists>nm c L'. recompute_step A C D i h (Some (i + 1)) t = Inr (t\<lparr>node_manager := nm\<rparr>, c) \<and>
    represents nm L' True \<and> extends A lh ys L L' \<and>
    (c = None \<and> closed_except A {} L' \<or>
     c = Some (i div 2) \<and> closed_except A {(h + 1, i div 2 div 2)} L')"
proof -
  let ?N = "width (length ys) h" and ?a = "i div 2" and ?X = "L ! (h + 1)"
  let ?e = "if (i + 1) mod 2 = 1 \<and> i + 1 \<noteq> ?N then i + 1 + 1 else i + 1"
  let ?kids = "L ! h ! (2 * ?a) \<noteq> alg_null A \<and> (2 * ?a + 1 < ?N \<longrightarrow> L ! h ! (2 * ?a + 1) \<noteq> alg_null A)"
  let ?m = "mnode A lh ys (h + 1) ?a"
  note kid = fill_children [OF ag h i]
  have h0: "h < length L" using h by simp
  have len: "length (L ! h) = ?N" "length ?X = width (length ys) (h + 1)"
    and known: "alg_null A \<notin> set ys" using ag h by (simp_all add: agrees_def)
  have aX: "?a < length ?X" using kid(2) len by simp
  have m: "?m \<noteq> alg_null A" by (rule mnode_known [OF known])
  have old: "?X ! ?a = alg_null A \<or> ?X ! ?a = ?m" using ag h kid(2) unfolding agrees_def by blast
  have start: "(if i mod 2 = 1 then i - 1 else i) = 2 * ?a" by (simp add: minus_mod_eq_mult_div [symmetric])
  have ext: "before_extend_layer D (h + 1) t = Inr t"
    using h tree_reads(1) [OF R] by (simp add: before_extend_layer_def)
  have body: "recompute_step A C D i h (Some (i + 1)) t =
      apply_parent A C D h (?a, if ?kids then ?m else alg_null A) (t, None)"
    unfolding recompute_step_def tree_reads(2) [OF R h0] len rbind_Inr Let_def start option.case lh
      represents_get_nodes [OF R h0, unfolded len, OF kid(1)] kid(3)
    using ext by (simp del: mnode.simps width.simps rfold.simps)
  show ?thesis
  proof (cases "?kids \<and> ?X ! ?a = alg_null A")
    case True
    then obtain nm where "update_node C D (h + 1) ?a ?m t = Inr (t\<lparr>node_manager := nm\<rparr>)"
      and R1: "represents nm (L[h + 1 := ?X[?a := ?m]]) True"
      using yields_update [OF R h aX, of ?m] by (auto elim: yieldsE)
    then have "recompute_step A C D i h (Some (i + 1)) t = Inr (t\<lparr>node_manager := nm\<rparr>, Some ?a)"
      unfolding body using True tree_reads(2,3) [OF R h] aX m
      by (simp add: apply_parent_def is_null_def del: mnode.simps)
    moreover have "extends A lh ys L (L[h + 1 := ?X[?a := ?m]])"
      using True aX h by (intro extends_set) auto
    moreover have "closed_except A {(h + 1, ?a div 2)} (L[h + 1 := ?X[?a := ?m]])"
      using cl h aX m by (rule closed_except_set)
    ultimately show ?thesis using R1 by blast
  next
    case False
    then have "recompute_step A C D i h (Some (i + 1)) t = Inr (t\<lparr>node_manager := node_manager t\<rparr>, None)"
      unfolding body using tree_reads(2,3) [OF R h] aX m old
      by (auto simp: apply_parent_def is_null_def simp del: mnode.simps)
    moreover have "closed_except A {} L"
      using cl False old m len unfolding closed_except_def
      by (metis (no_types, lifting) Pair_inject singletonD)
    ultimately show ?thesis using R extends_refl by blast
  qed
qed

lemma recompute_loop_fill:
  assumes "agrees A lh ys L" "closed_except A {(h, i div 2)} L"
    and "represents (node_manager t) L True" "leaf_height t = lh"
    and "h < length L" "i < width (length ys) h" "length L \<le> h + fuel"
  shows "\<exists>L'. yields t (recompute_loop A C D fuel i h (Some (i + 1)) t) L' \<and>
    extends A lh ys L L' \<and> closed_except A {} L'"
  using assms
proof (induction fuel arbitrary: h i L t)
  case 0
  then show ?case by simp
next
  case (Suc fuel)
  note ag = Suc.prems(1) and R = Suc.prems(3)
  have len: "length (L ! h) = width (length ys) h" using ag Suc.prems(5) by (simp add: agrees_def)
  have reads: "amt_layer_len t h = Inr (width (length ys) h)" "amt_height t = length L"
    using tree_reads(1,2) [OF R] Suc.prems(5) len by auto
  show ?case
  proof (cases "h + 1 < length L")
    case False
    then have "h = length L - 1" using Suc.prems(5) by simp
    then have w: "width (length ys) h \<le> 1" using ag unfolding agrees_def by blast
    have "closed_except A {} L"
      using Suc.prems(2) False Suc.prems(5) by (auto simp: closed_except_def)
    moreover have "recompute_loop A C D (Suc fuel) i h (Some (i + 1)) t = Inr t"
    proof -
      have "\<not> h < length L - 1" using False by simp
      then show ?thesis using w reads Suc.prems(5) by (auto simp: recompute_loop.simps)
    qed
    ultimately show ?thesis using yields_refl [OF R] extends_refl by metis
  next
    case True
    obtain nm c L1 where st: "recompute_step A C D i h (Some (i + 1)) t = Inr (t\<lparr>node_manager := nm\<rparr>, c)"
      and R1: "represents nm L1 True" and x1: "extends A lh ys L L1"
      and c: "c = None \<and> closed_except A {} L1 \<or>
        c = Some (i div 2) \<and> closed_except A {(h + 1, i div 2 div 2)} L1"
      using recompute_step_fill [OF ag Suc.prems(2) R Suc.prems(4) True Suc.prems(6)] by blast
    have unf: "recompute_loop A C D (Suc fuel) i h (Some (i + 1)) t =
        (case c of None \<Rightarrow> Inr (t\<lparr>node_manager := nm\<rparr>)
         | Some j \<Rightarrow> recompute_loop A C D fuel (i div 2) (h + 1) (Some (j + 1)) (t\<lparr>node_manager := nm\<rparr>))"
      using reads True st by (cases c) (auto simp: recompute_loop.simps)
    from c show ?thesis
    proof (elim disjE conjE)
      assume "c = None" "closed_except A {} L1"
      then show ?thesis using unf R1 x1 by (auto simp: yields_def)
    next
      assume cs: "c = Some (i div 2)" "closed_except A {(h + 1, i div 2 div 2)} L1"
      have "i div 2 < width (length ys) (h + 1)" by (rule fill_children(2) [OF ag True Suc.prems(6)])
      then obtain L2 where "yields (t\<lparr>node_manager := nm\<rparr>) (recompute_loop A C D fuel (i div 2) (h + 1)
          (Some (i div 2 + 1)) (t\<lparr>node_manager := nm\<rparr>)) L2"
        and "extends A lh ys L1 L2" "closed_except A {} L2"
        using Suc.IH [OF agrees_extends [OF ag x1] cs(2), of "t\<lparr>node_manager := nm\<rparr>"] R1
          Suc.prems True x1 by (auto simp: extends_def)
      then show ?thesis using unf cs(1) extends_trans [OF x1] by (auto simp: yields_def)
    qed
  qed
qed

text \<open>\<open>recompute\<close> after the unknown leaf \<open>i\<close> was filled in.\<close>

lemma recompute_fill:
  assumes "agrees A lh ys L" "closed_except A {(0, i div 2)} L"
    and R: "represents (node_manager t) L True" and "leaf_height t = lh" "i < length ys"
  shows "\<exists>L'. yields t (recompute A C D i 0 (Some (i + 1)) t) L' \<and>
    extends A lh ys L L' \<and> closed_except A {} L'"
proof -
  have L: "0 < length L" using assms(1) by (simp add: agrees_def)
  show ?thesis
    using recompute_loop_fill [OF assms(1,2) R assms(4) L] tree_reads(1,2) [OF R] L assms(5)
    by (simp add: recompute_def)
qed

end

end
