(* ===== verification/Tree_Operations.thy ===== *)
theory Tree_Operations
  imports Recompute
begin

text \<open>
  What the public operations of \<open>AppendMerkleTree\<close> do to a tree: \<open>append\<close>, \<open>append_list\<close>,
  \<open>append_subtree\<close>, \<open>update_last\<close>, \<open>fill_leaf\<close> and the constructors, all against the reference
  tree over a list of leaves, for full trees and for trees in which nodes are unknown.
\<close>

section \<open>The frontier\<close>

text \<open>
  The next append hashes the last node of a layer when it has an odd position, and may replace a
  node over an incomplete range. \<open>frontier_at\<close>: these nodes of layer \<open>k\<close> are known when the tree
  is continued at leaf \<open>n\<close>.
\<close>

definition frontier_at :: "('e, 'z) hash_alg_scheme \<Rightarrow> nat \<Rightarrow> nat \<Rightarrow> 'e list \<Rightarrow> bool" where
  "frontier_at A n k X \<longleftrightarrow>
     (n div 2 ^ k < length X \<longrightarrow> X ! (n div 2 ^ k) \<noteq> alg_null A) \<and>
     (odd (n div 2 ^ k) \<longrightarrow> X ! (n div 2 ^ k - 1) \<noteq> alg_null A)"

definition frontier :: "('e, 'z) hash_alg_scheme \<Rightarrow> nat \<Rightarrow> 'e list list \<Rightarrow> bool" where
  "frontier A n L \<longleftrightarrow> (\<forall>k < length L. frontier_at A n k (L ! k))"

text \<open>The trees the operations work on: they agree with \<open>ys\<close> and can be continued.\<close>

definition tree_inv :: "('e, 'z) hash_alg_scheme \<Rightarrow> nat \<Rightarrow> 'e list \<Rightarrow> 'e list list \<Rightarrow> bool" where
  "tree_inv A lh ys L \<longleftrightarrow> agrees A lh ys L \<and> frontier A (length ys) L"

lemma div_pow_Suc: "(n::nat) div 2 ^ Suc k = n div 2 ^ k div 2"
  by (simp add: power_Suc2 div_mult2_eq del: power_Suc)

lemma div_pow_mono: "(m::nat) \<le> n \<Longrightarrow> m div 2 ^ k \<le> n div 2 ^ k"
  by (rule div_le_mono)

lemma width_aligned: "2 ^ k dvd n \<Longrightarrow> width n k = n div 2 ^ k"
proof (induction k)
  case (Suc k)
  then have d: "2 ^ k dvd n" and ev: "2 * (n div 2 ^ Suc k) = n div 2 ^ k"
    by (auto simp: dvd_def power_Suc2 mult.assoc simp del: power_Suc)
  then show ?case using Suc.IH by simp
qed simp

lemma aligned_sum_div:
  assumes "2 ^ h dvd (n::nat)" "k \<le> h"
  shows "(n + 2 ^ h) div 2 ^ k = n div 2 ^ k + 2 ^ (h - k)" "2 ^ k dvd n" "k < h \<Longrightarrow> even (n div 2 ^ k)"
proof -
  obtain q where q: "n = 2 ^ h * q" using assms(1) by (auto simp: dvd_def)
  have p: "(2::nat) ^ h = 2 ^ k * 2 ^ (h - k)" using assms(2) by (simp flip: power_add)
  have "n = 2 ^ k * (2 ^ (h - k) * q)" "n + 2 ^ h = 2 ^ k * (2 ^ (h - k) * q + 2 ^ (h - k))"
    by (simp_all only: q p algebra_simps)
  then show "(n + 2 ^ h) div 2 ^ k = n div 2 ^ k + 2 ^ (h - k)" "2 ^ k dvd n"
    "k < h \<Longrightarrow> even (n div 2 ^ k)"
    by auto
qed

lemma pair_start: "2 * (s div 2) \<le> i \<Longrightarrow> i < s \<Longrightarrow> odd s \<and> i = s - (1::nat)"
  by presburger

lemma odd_pred_less: "odd (n::nat) \<Longrightarrow> n - 1 < n"
  by (cases n) auto

lemma Suc_mult_div_le: "i < s div 2 ^ k \<Longrightarrow> (i + 1) * 2 ^ k \<le> (s::nat)"
  by (metis Suc_eq_plus1 Suc_leI div_times_less_eq_dividend le_trans mult_le_mono1)

lemma closed_set_leaf:
  assumes cl: "closed_except A {} L" and L: "0 < length L" "i < length (L ! 0)"
  shows "closed_except A {(0, i div 2)} (L[0 := (L ! 0)[i := x]])" (is "closed_except A _ ?L'")
  unfolding closed_except_def
proof (intro allI impI)
  fix k j
  assume k: "k + 1 < length ?L'" "j < length (?L' ! (k + 1))" "(k, j) \<notin> {(0, i div 2)}"
    and c1: "?L' ! k ! (2 * j) \<noteq> alg_null A"
    and c2: "2 * j + 1 < length (?L' ! k) \<longrightarrow> ?L' ! k ! (2 * j + 1) \<noteq> alg_null A"
  have node: "?L' ! l ! p = (if l = 0 \<and> p = i then x else L ! l ! p)" for l p
    using L by (auto simp: nth_list_update)
  have len: "length (?L' ! l) = length (L ! l)" for l using L by (auto simp: nth_list_update)
  have "L ! k ! (2 * j) \<noteq> alg_null A" "2 * j + 1 < length (L ! k) \<longrightarrow> L ! k ! (2 * j + 1) \<noteq> alg_null A"
    using c1 c2 k(3) unfolding node len by (auto split: if_splits)
  then have "L ! (k + 1) ! j \<noteq> alg_null A"
    using cl k(1,2) unfolding closed_except_def len by (metis empty_iff length_list_update)
  then show "?L' ! (k + 1) ! j \<noteq> alg_null A" by (simp add: node)
qed

lemma extends_known:
  "extends A lh ys L L' \<Longrightarrow> k < length L \<Longrightarrow> i < length (L ! k) \<Longrightarrow> L ! k ! i \<noteq> alg_null A \<Longrightarrow>
   L' ! k ! i = L ! k ! i"
  unfolding extends_def by blast

lemma extends_frontier:
  assumes x: "extends A lh ys L L'" and fr: "frontier A n L"
    and lens: "\<And>k. k < length L \<Longrightarrow> n div 2 ^ k \<le> length (L ! k)"
  shows "frontier A n L'"
  unfolding frontier_def
proof (intro allI impI)
  fix k assume "k < length L'"
  then have k: "k < length L" "length (L' ! k) = length (L ! k)" using x by (auto simp: extends_def)
  have f: "frontier_at A n k (L ! k)" using fr k(1) by (simp add: frontier_def)
  show "frontier_at A n k (L' ! k)"
    unfolding frontier_at_def k(2)
  proof (intro conjI impI)
    assume lt: "n div 2 ^ k < length (L ! k)"
    then show "L' ! k ! (n div 2 ^ k) \<noteq> alg_null A"
      using f extends_known [OF x k(1) lt] by (simp add: frontier_at_def)
  next
    assume odd: "odd (n div 2 ^ k)"
    then have "n div 2 ^ k - 1 < length (L ! k)"
      using lens [OF k(1)] odd_pred_less [OF odd] by simp
    then show "L' ! k ! (n div 2 ^ k - 1) \<noteq> alg_null A"
      using f odd extends_known [OF x k(1)] by (simp add: frontier_at_def)
  qed
qed

context append_tree
begin

text \<open>
  The invariant of the rebuilt tree: \<open>L\<close> is the old tree over \<open>ys0\<close>, \<open>L1\<close> the layers before the
  recomputation, which differ from \<open>L\<close> up to height \<open>h\<close> only.
\<close>

lemma rebuilt_agrees:
  assumes ag: "agrees A lh ys0 L" and b: "rebuilt lh ys s h L1 L'"
    and ys: "take s ys = take s ys0" "s \<le> length ys0" "s < length ys" "alg_null A \<notin> set ys"
    and low: "\<And>k i. k \<le> h \<Longrightarrow> i < width (length ys) k \<Longrightarrow> L1 ! k ! i = alg_null A \<or> L1 ! k ! i = mnode A lh ys k i"
    and up: "\<And>k. h < k \<Longrightarrow> k < length L1 \<Longrightarrow> k < length L \<and> L1 ! k = L ! k"
    and h: "h < length L1"
    and top: "\<And>k. length L1 \<le> k \<Longrightarrow> s div 2 ^ k = 0"
  shows "agrees A lh ys L'"
  unfolding agrees_def
proof (intro conjI allI impI)
  have len: "length L' = max (length L1) (tree_depth (length ys))" using b by (simp add: rebuilt_def)
  then show ne: "L' \<noteq> []" using h by auto
  have "tree_depth (length ys) \<le> Suc (length L' - 1)" using len ne by simp
  then show "width (length ys) (length L' - 1) \<le> 1" by (simp only: width_le_1_iff)
  show "alg_null A \<notin> set ys" by (rule ys(4))
  fix k assume k: "k < length L'"
  show "length (L' ! k) = width (length ys) k" using b k by (simp add: rebuilt_def)
  fix i assume i: "i < width (length ys) k"
  consider "k \<le> h" | "h < k" "s div 2 ^ k \<le> i" | "h < k" "i < s div 2 ^ k" by linarith
  then show "L' ! k ! i = alg_null A \<or> L' ! k ! i = mnode A lh ys k i"
  proof cases
    case 1
    then show ?thesis using b low [OF 1 i] by (simp add: rebuilt_def)
  next
    case 2
    then show ?thesis using b k i by (simp add: rebuilt_def)
  next
    case 3
    have k1: "k < length L1" using top [of k] 3(2) by (cases "k < length L1") auto
    have u: "k < length L" "L1 ! k = L ! k" using up [OF 3(1) k1] by auto
    have "take (s div 2 ^ k) (L' ! k) = take (s div 2 ^ k) (L1 ! k)" using b 3(1) k1 by (simp add: rebuilt_def)
    then have "L' ! k ! i = L ! k ! i" using 3(2) u(2) by (metis nth_take)
    moreover have "s div 2 ^ k \<le> width (length ys0) k"
      using width_halves(2) [of s k] width_mono [OF ys(2), of k] by linarith
    then have "L ! k ! i = alg_null A \<or> L ! k ! i = mnode A lh ys0 k i"
      using ag u(1) 3(2) unfolding agrees_def by (meson less_le_trans)
    moreover have "mnode A lh ys0 k i = mnode A lh ys k i"
      using ys Suc_mult_div_le [OF 3(2)] by (intro mnode_take [of s]) auto
    ultimately show ?thesis by simp
  qed
qed

text \<open>Every node from the changed range on is known; so is the frontier of the new tree.\<close>

lemma rebuilt_frontier:
  assumes b: "rebuilt lh ys s h L1 L'" and ys: "s < length ys" "alg_null A \<notin> set ys"
    and m: "s \<le> m" "m \<le> length ys"
    and low: "\<And>k. k \<le> h \<Longrightarrow> frontier_at A m k (L1 ! k)"
    and up: "\<And>k. h < k \<Longrightarrow> k < length L1 \<Longrightarrow> odd (s div 2 ^ k) \<Longrightarrow>
      L1 ! k ! (s div 2 ^ k - 1) \<noteq> alg_null A"
    and top: "\<And>k. length L1 \<le> k \<Longrightarrow> s div 2 ^ k = 0"
  shows "frontier A m L'"
  unfolding frontier_def
proof (intro allI impI)
  fix k assume k: "k < length L'"
  show "frontier_at A m k (L' ! k)"
  proof (cases "k \<le> h")
    case True
    then show ?thesis using low [OF True] b by (simp add: rebuilt_def)
  next
    case False
    have new: "L' ! k ! i \<noteq> alg_null A" if "s div 2 ^ k \<le> i" "i < width (length ys) k" for i
    proof -
      have "L' ! k ! i = mnode A lh ys k i" using b False k that by (simp add: rebuilt_def)
      then show ?thesis using mnode_known [OF ys(2)] by simp
    qed
    have len: "length (L' ! k) = width (length ys) k" using b k by (simp add: rebuilt_def)
    have le: "s div 2 ^ k \<le> m div 2 ^ k" using m(1) by (rule div_pow_mono)
    have mw: "m div 2 ^ k \<le> width (length ys) k"
      using width_halves(2) [of m k] width_mono [OF m(2), of k] by linarith
    have "L' ! k ! (m div 2 ^ k - 1) \<noteq> alg_null A" if odd: "odd (m div 2 ^ k)"
    proof (cases "m div 2 ^ k = s div 2 ^ k")
      case True
      then have odds: "odd (s div 2 ^ k)" using odd by simp
      then have k1: "k < length L1" using top [of k] by (cases "k < length L1") auto
      have "take (s div 2 ^ k) (L' ! k) = take (s div 2 ^ k) (L1 ! k)"
        using b False k1 by (simp add: rebuilt_def)
      then have "L' ! k ! (s div 2 ^ k - 1) = L1 ! k ! (s div 2 ^ k - 1)"
        using odd_pred_less [OF odds] by (metis nth_take)
      then show ?thesis using up [of k] False k1 odds True by simp
    next
      case False
      then have "s div 2 ^ k \<le> m div 2 ^ k - 1" "m div 2 ^ k - 1 < m div 2 ^ k"
        using le odd_pred_less [OF odd] by auto
      then show ?thesis using new mw by (meson less_le_trans)
    qed
    then show ?thesis using new le len by (simp add: frontier_at_def)
  qed
qed

text \<open>The starting point of the recomputation.\<close>

lemma agrees_known:
  assumes "agrees A lh ys L" "k < length L" "i < length (L ! k)" "L ! k ! i \<noteq> alg_null A"
  shows "L ! k ! i = mnode A lh ys k i"
  using assms unfolding agrees_def by metis

lemma width_le_1_up: "width n h \<le> 1 \<Longrightarrow> h \<le> k \<Longrightarrow> width n k \<le> 1"
  unfolding width_le_1_iff by simp

lemma agrees_top:
  assumes ag: "agrees A lh ys0 L" and s: "s \<le> length ys0" and k: "length L \<le> k"
  shows "s div 2 ^ k = 0"
proof -
  have L: "0 < length L" "width (length ys0) (length L - 1) \<le> 1" using ag by (auto simp: agrees_def)
  then obtain k' where k': "k = Suc k'" "length L - 1 \<le> k'" using k by (cases k) auto
  have "s div 2 ^ k' \<le> width (length ys0) k'"
    using width_halves(2) [of s k'] width_mono [OF s, of k'] by linarith
  also have "\<dots> \<le> 1" using L(2) k'(2) by (rule width_le_1_up)
  finally show ?thesis unfolding k' div_pow_Suc by simp
qed

lemma ready_from:
  assumes ag: "agrees A lh ys0 L" and fr: "frontier A s L"
    and ys: "take s ys = take s ys0" "length ys0 = s \<or> length ys0 = s + 1" "s < length ys" "alg_null A \<notin> set ys"
    and h: "h < length L1" "length L \<le> length L1"
    and lens: "\<And>k. k \<le> h \<Longrightarrow> length (L1 ! k) = width (length ys) k"
    and layer: "\<And>i. 2 * (s div 2 ^ h div 2) \<le> i \<Longrightarrow> i < width (length ys) h \<Longrightarrow> L1 ! h ! i = mnode A lh ys h i"
    and up: "\<And>k. h < k \<Longrightarrow> k < length L1 \<Longrightarrow> k < length L \<and> L1 ! k = L ! k"
  shows "ready lh ys ys0 s h L1"
  unfolding ready_def
proof (intro conjI allI impI)
  have "width (length ys0) (length L - 1) \<le> 1" using ag by (simp add: agrees_def)
  then show "width (length ys0) (length L1 - 1) \<le> 1" by (rule width_le_1_up) (use h(2) in simp)
  fix k assume k: "h < k" "k < length L1"
  have u: "k < length L" "L1 ! k = L ! k" using up [OF k] by auto
  show len: "length (L1 ! k) = width (length ys0) k" using ag u by (simp add: agrees_def)
  have fk: "frontier_at A s k (L ! k)" using fr u(1) by (simp add: frontier_def)
  show "L1 ! k ! (s div 2 ^ k) = mnode A lh ys0 k (s div 2 ^ k)" if "s div 2 ^ k < width (length ys0) k"
    using fk that agrees_known [OF ag u(1)] len unfolding u(2) frontier_at_def by simp
  show "L1 ! k ! (s div 2 ^ k - 1) = mnode A lh ys k (s div 2 ^ k - 1)" if odd: "odd (s div 2 ^ k)"
  proof -
    have lt: "s div 2 ^ k - 1 < s div 2 ^ k" using odd by (rule odd_pred_less)
    have s0: "s \<le> length ys0" using ys(2) by auto
    have "s div 2 ^ k \<le> length (L ! k)"
      using width_halves(2) [of s k] width_mono [OF s0, of k] len u(2) by simp
    then have "L ! k ! (s div 2 ^ k - 1) = mnode A lh ys0 k (s div 2 ^ k - 1)"
      using fk odd lt agrees_known [OF ag u(1)] unfolding frontier_at_def by simp
    also have "\<dots> = mnode A lh ys k (s div 2 ^ k - 1)"
      using ys s0 Suc_mult_div_le [OF lt] by (intro mnode_take [of s]) auto
    finally show ?thesis using u(2) by simp
  qed
qed (use assms in auto)

text \<open>
  One append: from layers \<open>L\<close> over \<open>ys0\<close>, with \<open>L1\<close> the layers after the new nodes were added up
  to height \<open>h\<close>, to layers over \<open>ys\<close>.
\<close>

lemma rebuild:
  assumes ag: "agrees A lh ys0 L" and fr: "frontier A s L"
    and ys: "take s ys = take s ys0" "length ys0 = s \<or> length ys0 = s + 1" "s < length ys" "alg_null A \<notin> set ys"
    and h: "h < length L1" "length L \<le> length L1"
    and lens: "\<And>k. k \<le> h \<Longrightarrow> length (L1 ! k) = width (length ys) k"
    and layer: "\<And>i. 2 * (s div 2 ^ h div 2) \<le> i \<Longrightarrow> i < width (length ys) h \<Longrightarrow> L1 ! h ! i = mnode A lh ys h i"
    and up: "\<And>k. h < k \<Longrightarrow> k < length L1 \<Longrightarrow> k < length L \<and> L1 ! k = L ! k"
    and low: "\<And>k i. k \<le> h \<Longrightarrow> i < width (length ys) k \<Longrightarrow> L1 ! k ! i = alg_null A \<or> L1 ! k ! i = mnode A lh ys k i"
    and R: "represents (node_manager t) L1 True" and lh: "leaf_height t = lh"
  shows "\<exists>L'. yields t (recompute A C D s h None t) L' \<and> agrees A lh ys L' \<and> rebuilt lh ys s h L1 L' \<and>
    (\<forall>m. s \<le> m \<longrightarrow> m \<le> length ys \<longrightarrow> (\<forall>k \<le> h. frontier_at A m k (L1 ! k)) \<longrightarrow> frontier A m L')"
proof -
  have s0: "s \<le> length ys0" using ys(2) by auto
  have "ready lh ys ys0 s h L1" by (rule ready_from [OF ag fr ys h lens layer up])
  then obtain L' where y: "yields t (recompute A C D s h None t) L'" and b: "rebuilt lh ys s h L1 L'"
    using recompute_append [OF _ R lh] by blast
  have top: "s div 2 ^ k = 0" if "length L1 \<le> k" for k
    using agrees_top [OF ag s0] h(2) that by simp
  have "agrees A lh ys L'"
    using rebuilt_agrees [OF ag b ys(1) s0 ys(3,4) low up h(1) top] by blast
  moreover have "frontier A m L'"
    if "s \<le> m" "m \<le> length ys" "\<forall>k \<le> h. frontier_at A m k (L1 ! k)" for m
  proof (rule rebuilt_frontier [OF b ys(3,4) that(1,2) _ _ top])
    fix k assume k: "h < k" "k < length L1" "odd (s div 2 ^ k)"
    then show "L1 ! k ! (s div 2 ^ k - 1) \<noteq> alg_null A"
      using fr up [OF k(1,2)] by (simp add: frontier_def frontier_at_def)
  qed (use that in auto)
  ultimately show ?thesis using y b by blast
qed

section \<open>Operations as transactions\<close>

text \<open>An operation on a tree that changes its layers to \<open>L\<close> and nothing else.\<close>

definition becomes ::
    "('e, 'c, 'd, 't) append_merkle_tree \<Rightarrow> ('e, 'c, 'd, 't) append_merkle_tree res \<Rightarrow>
     'e list list \<Rightarrow> bool" where
  "becomes t m L \<longleftrightarrow> (\<exists>nm. m = Inr (t\<lparr>node_manager := nm\<rparr>) \<and> represents nm L False)"

lemma yields_update_twice: "yields (t\<lparr>node_manager := nm\<rparr>) m L \<longleftrightarrow> yields t m L"
  by (simp add: yields_def)

lemma start_transaction_yields:
  "represents (node_manager t) L False \<Longrightarrow> yields t (start_transaction D t) L"
  unfolding start_transaction_def by (rule yields_on_nodes) (rule represents_start)

lemma yields_bind:
  assumes "yields t m L"
    and "\<And>nm. represents nm L True \<Longrightarrow> yields t (f (t\<lparr>node_manager := nm\<rparr>)) L'"
  shows "yields t (rbind m f) L'"
  using assms by (auto simp: yields_def)

lemma yields_commit:
  "yields t m L \<Longrightarrow> becomes t (rbind m (\<lambda>t. Inr (commit_nodes D t))) L"
  by (auto simp: yields_def becomes_def commit_nodes_def dest: represents_commit)

lemma becomes_bind:
  assumes "yields t m L"
    and "\<And>nm. represents nm L True \<Longrightarrow> becomes t (f (t\<lparr>node_manager := nm\<rparr>)) L'"
  shows "becomes t (rbind m f) L'"
  using assms by (auto simp: yields_def becomes_def)

section \<open>Appending leaves\<close>

lemma append_rebuild:
  assumes inv: "tree_inv A lh ys L" and R: "represents (node_manager t) (L[0 := L ! 0 @ zs]) True"
    and lh: "leaf_height t = lh" and zs: "zs \<noteq> []" "alg_null A \<notin> set zs"
  shows "\<exists>L'. yields t (recompute A C D (length ys) 0 None t) L' \<and> tree_inv A lh (ys @ zs) L' \<and>
    rebuilt lh (ys @ zs) (length ys) 0 (L[0 := L ! 0 @ zs]) L'"
proof -
  let ?L1 = "L[0 := L ! 0 @ zs]"
  have ag: "agrees A lh ys L" and fr: "frontier A (length ys) L" using inv by (auto simp: tree_inv_def)
  have L: "0 < length L" and l0: "length (L ! 0) = length ys" and known: "alg_null A \<notin> set ys"
    using ag by (auto simp: agrees_def)
  have old: "L ! 0 ! i = alg_null A \<or> L ! 0 ! i = ys ! i" if "i < length ys" for i
    using ag L that unfolding agrees_def by fastforce
  have node: "?L1 ! 0 ! i = (if i < length ys then L ! 0 ! i else zs ! (i - length ys))" for i
    using L l0 by (auto simp: nth_append)
  have last: "L ! 0 ! (length ys - 1) \<noteq> alg_null A" if "odd (length ys)"
    using fr L that by (auto simp: frontier_def frontier_at_def)
  have "\<exists>L'. yields t (recompute A C D (length ys) 0 None t) L' \<and> agrees A lh (ys @ zs) L' \<and>
      rebuilt lh (ys @ zs) (length ys) 0 ?L1 L' \<and>
    (\<forall>m. length ys \<le> m \<longrightarrow> m \<le> length (ys @ zs) \<longrightarrow> (\<forall>k \<le> 0. frontier_at A m k (?L1 ! k)) \<longrightarrow> frontier A m L')"
  proof (rule rebuild [OF ag fr _ _ _ _ _ _ _ _ _ _ R lh])
    fix i assume i: "2 * (length ys div 2 ^ 0 div 2) \<le> i" "i < width (length (ys @ zs)) 0"
    show "?L1 ! 0 ! i = mnode A lh (ys @ zs) 0 i"
    proof (cases "i < length ys")
      case True
      then have "odd (length ys) \<and> i = length ys - 1" using i(1) by (intro pair_start) simp_all
      then have "L ! 0 ! i \<noteq> alg_null A" using last by simp
      then show ?thesis using node True old [OF True] by (simp add: nth_append)
    next
      case False
      then show ?thesis using node i(2) by (simp add: nth_append)
    qed
  next
    fix k i :: nat assume "k \<le> 0" "i < width (length (ys @ zs)) k"
    then show "?L1 ! k ! i = alg_null A \<or> ?L1 ! k ! i = mnode A lh (ys @ zs) k i"
      using node old by (auto simp: nth_append)
  qed (use L l0 zs known in \<open>auto\<close>)
  moreover have "frontier_at A (length (ys @ zs)) 0 (?L1 ! 0)"
  proof -
    have "length ys \<le> length (ys @ zs) - 1" "length (ys @ zs) - 1 - length ys < length zs"
      using zs(1) by (cases zs; simp)+
    then have "?L1 ! 0 ! (length (ys @ zs) - 1) \<in> set zs" unfolding node by simp
    then show ?thesis using zs(2) L l0 by (auto simp: frontier_at_def)
  qed
  ultimately show ?thesis unfolding tree_inv_def by fastforce
qed

lemma append_list_layers:
  assumes inv: "tree_inv A lh ys L" and R: "represents (node_manager t) L False"
    and lh: "leaf_height t = lh" and zs: "zs \<noteq> []" "alg_null A \<notin> set zs"
  shows "\<exists>L'. becomes t (append_list A C D zs t) L' \<and> tree_inv A lh (ys @ zs) L' \<and>
    rebuilt lh (ys @ zs) (length ys) 0 (L[0 := L ! 0 @ zs]) L'"
proof -
  have L: "0 < length L" and l0: "length (L ! 0) = length ys" using inv by (auto simp: tree_inv_def agrees_def)
  have nn: "\<not> list_ex (is_null A) zs" using zs(2) by (auto simp: list_ex_iff is_null_def)
  obtain nm where st: "start_transaction D t = Inr (t\<lparr>node_manager := nm\<rparr>)" and R1: "represents nm L True"
    using start_transaction_yields [OF R] by (rule yieldsE)
  let ?t = "t\<lparr>node_manager := nm\<rparr>"
  obtain nm2 where ap: "append_nodes C D 0 zs ?t = Inr (t\<lparr>node_manager := nm2\<rparr>)"
    and R2: "represents nm2 (L[0 := L ! 0 @ zs]) True"
    using yields_append [of ?t L 0 zs] R1 L by (auto elim: yieldsE)
  obtain L' where y: "yields t (recompute A C D (length ys) 0 None (t\<lparr>node_manager := nm2\<rparr>)) L'"
    and "tree_inv A lh (ys @ zs) L'" "rebuilt lh (ys @ zs) (length ys) 0 (L[0 := L ! 0 @ zs]) L'"
    using append_rebuild [OF inv, of "t\<lparr>node_manager := nm2\<rparr>" zs] R2 lh zs by (auto simp: yields_def)
  moreover have "becomes t (append_list A C D zs t) L'"
    using yields_commit [OF y] nn st ap tree_reads(4) [of ?t L True] R1 L l0
    by (simp add: append_list_def recompute_after_append_leaves_def)
  ultimately show ?thesis by blast
qed

lemma append_layers:
  assumes inv: "tree_inv A lh ys L" and R: "represents (node_manager t) L False"
    and lh: "leaf_height t = lh" and x: "x \<noteq> alg_null A"
  shows "\<exists>L'. becomes t (amt_append A C D x t) L' \<and> tree_inv A lh (ys @ [x]) L' \<and>
    rebuilt lh (ys @ [x]) (length ys) 0 (L[0 := L ! 0 @ [x]]) L'"
proof -
  have L: "0 < length L" and l0: "length (L ! 0) = length ys" using inv by (auto simp: tree_inv_def agrees_def)
  obtain nm where st: "start_transaction D t = Inr (t\<lparr>node_manager := nm\<rparr>)" and R1: "represents nm L True"
    using start_transaction_yields [OF R] by (rule yieldsE)
  obtain nm2 where ap: "push_node C D 0 x (t\<lparr>node_manager := nm\<rparr>) = Inr (t\<lparr>node_manager := nm2\<rparr>)"
    and R2: "represents nm2 (L[0 := L ! 0 @ [x]]) True"
    using yields_push [of "t\<lparr>node_manager := nm\<rparr>" L 0 x] R1 L by (auto elim: yieldsE)
  obtain L' where y: "yields t (recompute A C D (length ys) 0 None (t\<lparr>node_manager := nm2\<rparr>)) L'"
    and "tree_inv A lh (ys @ [x]) L'" "rebuilt lh (ys @ [x]) (length ys) 0 (L[0 := L ! 0 @ [x]]) L'"
    using append_rebuild [OF inv, of "t\<lparr>node_manager := nm2\<rparr>" "[x]"] R2 lh x by (auto simp: yields_def)
  moreover have "becomes t (amt_append A C D x t) L'"
    using yields_commit [OF y] x st ap tree_reads(4) [of "t\<lparr>node_manager := nm2\<rparr>"] R2 L l0
    by (simp add: amt_append_def recompute_after_append_leaves_def is_null_def)
  ultimately show ?thesis by blast
qed

section \<open>Replacing the last leaf\<close>

lemma update_rebuild:
  assumes ag: "agrees A lh ys L" and fr: "frontier A (length ys - 1) L" and ne: "ys \<noteq> []"
    and x: "x \<noteq> alg_null A" and lh: "leaf_height t = lh"
    and R: "represents (node_manager t) (L[0 := (L ! 0)[length ys - 1 := x]]) True"
  defines "ys' \<equiv> ys[length ys - 1 := x]"
  shows "\<exists>L'. yields t (recompute A C D (length ys - 1) 0 None t) L' \<and> tree_inv A lh ys' L' \<and>
    frontier A (length ys - 1) L' \<and>
    rebuilt lh ys' (length ys - 1) 0 (L[0 := (L ! 0)[length ys - 1 := x]]) L'"
proof -
  let ?L1 = "L[0 := (L ! 0)[length ys - 1 := x]]" and ?s = "length ys - 1"
  have L: "0 < length L" and l0: "length (L ! 0) = length ys" and known: "alg_null A \<notin> set ys"
    and s: "?s < length ys" using ag ne by (auto simp: agrees_def)
  have len: "length ys' = length ys" by (simp add: ys'_def)
  have known': "alg_null A \<notin> set ys'"
    using known x set_update_subset_insert [of ys ?s x] by (auto simp: ys'_def)
  have old: "L ! 0 ! i = alg_null A \<or> L ! 0 ! i = ys ! i" if "i < length ys" for i
    using ag L that unfolding agrees_def by fastforce
  have node: "?L1 ! 0 ! i = (if i = ?s then x else L ! 0 ! i)" for i
    using L l0 s by (auto simp: nth_list_update)
  have ynode: "ys' ! i = (if i = ?s then x else ys ! i)" if "i < length ys" for i
    using that by (auto simp: ys'_def nth_list_update)
  have prev: "L ! 0 ! (?s - 1) \<noteq> alg_null A" if "odd ?s"
    using fr L that by (auto simp: frontier_def frontier_at_def)
  have "\<exists>L'. yields t (recompute A C D ?s 0 None t) L' \<and> agrees A lh ys' L' \<and> rebuilt lh ys' ?s 0 ?L1 L' \<and>
    (\<forall>m. ?s \<le> m \<longrightarrow> m \<le> length ys' \<longrightarrow> (\<forall>k \<le> 0. frontier_at A m k (?L1 ! k)) \<longrightarrow> frontier A m L')"
  proof (rule rebuild [OF ag fr _ _ _ known' _ _ _ _ _ _ R lh])
    show "take ?s ys' = take ?s ys" by (simp add: ys'_def)
    fix i assume i: "2 * (?s div 2 ^ 0 div 2) \<le> i" "i < width (length ys') 0"
    show "?L1 ! 0 ! i = mnode A lh ys' 0 i"
    proof (cases "i = ?s")
      case True
      then show ?thesis using node ynode s len by simp
    next
      case False
      then have "i < ?s" using i(2) len by simp
      then have pr: "odd ?s \<and> i = ?s - 1" using i(1) by (intro pair_start) simp_all
      then have "L ! 0 ! i \<noteq> alg_null A" using prev by simp
      then show ?thesis using node ynode [of i] old [of i] i(2) False len by simp
    qed
  next
    fix k i :: nat assume "k \<le> 0" "i < width (length ys') k"
    then show "?L1 ! k ! i = alg_null A \<or> ?L1 ! k ! i = mnode A lh ys' k i"
      using node ynode old len by auto
  qed (use L l0 s len in \<open>auto\<close>)
  moreover have "frontier_at A (length ys) 0 (?L1 ! 0)"
    using node x L l0 by (auto simp: frontier_at_def)
  moreover have "frontier_at A ?s 0 (?L1 ! 0)"
    using node x prev by (auto simp: frontier_at_def)
  ultimately show ?thesis unfolding tree_inv_def len by (metis diff_le_self le_refl le_zero_eq)
qed

lemma update_last_layers:
  assumes ag: "agrees A lh ys L" and fr: "frontier A (length ys - 1) L" and ne: "ys \<noteq> []"
    and R: "represents (node_manager t) L False" and lh: "leaf_height t = lh" and x: "x \<noteq> alg_null A"
  shows "\<exists>L'. becomes t (update_last A C D x t) L' \<and> tree_inv A lh (ys[length ys - 1 := x]) L' \<and>
    frontier A (length ys - 1) L' \<and>
    rebuilt lh (ys[length ys - 1 := x]) (length ys - 1) 0 (L[0 := (L ! 0)[length ys - 1 := x]]) L'"
proof -
  have L: "0 < length L" and l0: "length (L ! 0) = length ys" using ag by (auto simp: agrees_def)
  let ?L1 = "L[0 := (L ! 0)[length ys - 1 := x]]"
  obtain nm where st: "start_transaction D t = Inr (t\<lparr>node_manager := nm\<rparr>)" and R1: "represents nm L True"
    using start_transaction_yields [OF R] by (rule yieldsE)
  obtain nm2 where up: "update_node C D 0 (length ys - 1) x (t\<lparr>node_manager := nm\<rparr>) = Inr (t\<lparr>node_manager := nm2\<rparr>)"
    and R2: "represents nm2 ?L1 True"
    using yields_update [of "t\<lparr>node_manager := nm\<rparr>" L 0 "length ys - 1" x] R1 L l0 ne by (auto elim: yieldsE)
  obtain L' where y: "yields t (recompute A C D (length ys - 1) 0 None (t\<lparr>node_manager := nm2\<rparr>)) L'"
    and "tree_inv A lh (ys[length ys - 1 := x]) L'" "frontier A (length ys - 1) L'"
    and "rebuilt lh (ys[length ys - 1 := x]) (length ys - 1) 0 ?L1 L'"
    using update_rebuild [OF ag fr ne x, of "t\<lparr>node_manager := nm2\<rparr>"] R2 lh by (auto simp: yields_def)
  moreover have "becomes t (update_last A C D x t) L'"
    using yields_commit [OF y] x st up ne tree_reads(2) [of "t\<lparr>node_manager := nm\<rparr>" L True 0]
      tree_reads(4) [of "t\<lparr>node_manager := nm2\<rparr>" ?L1 True] R1 R2 L l0
    by (simp add: update_last_def recompute_after_append_leaves_def is_null_def Suc_leI)
  ultimately show ?thesis by blast
qed

section \<open>Full trees\<close>

text \<open>A tree without unknown nodes is the reference tree, and stays one.\<close>

lemma agrees_full:
  assumes "agrees A lh ys L" "\<And>k. k < length L \<Longrightarrow> alg_null A \<notin> set (L ! k)"
  shows "L = tree_of A lh (length L) ys"
proof (rule nth_equalityI)
  fix k assume k: "k < length L"
  then have len: "length (L ! k) = width (length ys) k" using assms(1) by (simp add: agrees_def)
  have "L ! k = map (mnode A lh ys k) [0..<width (length ys) k]"
  proof (rule nth_equalityI)
    fix i assume i: "i < length (L ! k)"
    then have "L ! k ! i \<noteq> alg_null A" using assms(2) [OF k] by (metis nth_mem)
    then show "L ! k ! i = map (mnode A lh ys k) [0..<width (length ys) k] ! i"
      using agrees_known [OF assms(1) k i] i len by simp
  qed (simp add: len)
  then show "L ! k = tree_of A lh (length L) ys ! k" using k by simp
qed simp

lemma tree_of_known: "alg_null A \<notin> set ys \<Longrightarrow> k < H \<Longrightarrow> alg_null A \<notin> set (tree_of A lh H ys ! k)"
  by (simp add: image_iff) (metis mnode_known)

lemma tree_of_agrees:
  assumes "alg_null A \<notin> set ys" "tree_depth (length ys) \<le> H"
  shows "agrees A lh ys (tree_of A lh H ys)"
proof -
  have H: "0 < H" using assms(2) tree_depth_pos [of "length ys"] by simp
  then have "width (length ys) (H - 1) \<le> 1" using assms(2) unfolding width_le_1_iff by simp
  then show ?thesis using assms(1) H by (auto simp: agrees_def tree_of_def)
qed

lemma tree_of_frontier:
  assumes known: "alg_null A \<notin> set ys" and m: "m \<le> length ys"
  shows "frontier A m (tree_of A lh H ys)"
  unfolding frontier_def
proof (intro allI impI)
  fix k assume k: "k < length (tree_of A lh H ys)"
  let ?X = "tree_of A lh H ys ! k"
  have nn: "?X ! i \<noteq> alg_null A" if "i < length ?X" for i
    using tree_of_known [OF known, of k H lh] k that by (metis length_tree_of nth_mem)
  have "m div 2 ^ k \<le> length ?X"
    using k width_halves(2) [of m k] width_mono [OF m, of k] by simp
  then show "frontier_at A m k ?X"
    using nn odd_pred_less [of "m div 2 ^ k"] unfolding frontier_at_def by (meson less_le_trans)
qed

lemma tree_of_inv:
  "alg_null A \<notin> set ys \<Longrightarrow> tree_depth (length ys) \<le> H \<Longrightarrow> tree_inv A lh ys (tree_of A lh H ys)"
  by (simp add: tree_inv_def tree_of_agrees tree_of_frontier)

lemma rebuilt_known:
  assumes b: "rebuilt lh ys s h L1 L'" and known: "alg_null A \<notin> set ys"
    and L1: "\<And>k. k < length L1 \<Longrightarrow> alg_null A \<notin> set (L1 ! k)" and h: "h < length L1"
    and s: "s < length ys" and top: "\<And>k. length L1 \<le> k \<Longrightarrow> s div 2 ^ k = 0"
    and k: "k < length L'"
  shows "alg_null A \<notin> set (L' ! k)"
proof (cases "k \<le> h")
  case True
  then show ?thesis using b L1 [of k] h by (simp add: rebuilt_def)
next
  case False
  have "L' ! k ! i \<noteq> alg_null A" if i: "i < length (L' ! k)" for i
  proof (cases "s div 2 ^ k \<le> i")
    case True
    then have "L' ! k ! i = mnode A lh ys k i" using b False k i by (simp add: rebuilt_def)
    then show ?thesis using mnode_known [OF known] by simp
  next
    case less: False
    then have k1: "k < length L1" using top [of k] by (cases "k < length L1") auto
    have eq: "take (s div 2 ^ k) (L' ! k) = take (s div 2 ^ k) (L1 ! k)"
      using b False k1 by (simp add: rebuilt_def)
    then have "i < length (L1 ! k)" using less i by (metis length_take min_less_iff_conj not_le)
    moreover have "L' ! k ! i = L1 ! k ! i" using eq less by (metis nth_take not_le)
    ultimately show ?thesis using L1 [OF k1] by (metis nth_mem)
  qed
  then show ?thesis by (metis in_set_conv_nth)
qed

lemma rebuilt_full:
  assumes known: "alg_null A \<notin> set ys" "alg_null A \<notin> set ys'" and H: "tree_depth (length ys) \<le> H"
    and s: "s \<le> length ys" "s < length ys'"
    and X: "alg_null A \<notin> set X" and b: "rebuilt lh ys' s 0 ((tree_of A lh H ys)[0 := X]) L'"
    and ag: "agrees A lh ys' L'"
  shows "L' = tree_of A lh (max H (tree_depth (length ys'))) ys'"
proof -
  let ?L = "tree_of A lh H ys"
  have H0: "0 < H" using H tree_depth_pos [of "length ys"] by simp
  have top: "s div 2 ^ k = 0" if "length (?L[0 := X]) \<le> k" for k
    using agrees_top [OF tree_of_agrees [OF known(1) H] s(1), of lh k] that by simp
  have "alg_null A \<notin> set (L' ! k)" if "k < length L'" for k
  proof (rule rebuilt_known [OF b known(2) _ _ s(2) top that])
    fix j assume j: "j < length (?L[0 := X])"
    have "alg_null A \<notin> set (?L ! j)" using j by (intro tree_of_known [OF known(1)]) simp
    then show "alg_null A \<notin> set (?L[0 := X] ! j)" using X H0 by (cases "j = 0") auto
  qed (use H0 in simp)
  then have "L' = tree_of A lh (length L') ys'" by (rule agrees_full [OF ag])
  moreover have "length L' = max H (tree_depth (length ys'))" using b by (simp add: rebuilt_def)
  ultimately show ?thesis by simp
qed

lemma tree_of_leaves: "0 < H \<Longrightarrow> tree_of A lh H ys ! 0 = ys"
  by (auto intro!: nth_equalityI)

lemma append_list_full:
  assumes R: "represents (node_manager t) (tree_of A lh H ys) False" and lh: "leaf_height t = lh"
    and known: "alg_null A \<notin> set ys" and H: "tree_depth (length ys) \<le> H"
    and zs: "zs \<noteq> []" "alg_null A \<notin> set zs"
  shows "becomes t (append_list A C D zs t) (tree_of A lh (max H (tree_depth (length (ys @ zs)))) (ys @ zs))"
proof -
  have H0: "0 < H" using H tree_depth_pos [of "length ys"] by simp
  obtain L' where be: "becomes t (append_list A C D zs t) L'" and inv: "tree_inv A lh (ys @ zs) L'"
    and b: "rebuilt lh (ys @ zs) (length ys) 0 ((tree_of A lh H ys)[0 := ys @ zs]) L'"
    using append_list_layers [OF tree_of_inv [OF known H] R lh zs] unfolding tree_of_leaves [OF H0] by blast
  have "L' = tree_of A lh (max H (tree_depth (length (ys @ zs)))) (ys @ zs)"
    using known zs inv b by (intro rebuilt_full [OF _ _ H]) (auto simp: tree_inv_def)
  then show ?thesis using be by simp
qed

lemma append_full:
  assumes R: "represents (node_manager t) (tree_of A lh H ys) False" and lh: "leaf_height t = lh"
    and known: "alg_null A \<notin> set ys" and H: "tree_depth (length ys) \<le> H" and x: "x \<noteq> alg_null A"
  shows "becomes t (amt_append A C D x t) (tree_of A lh (max H (tree_depth (length (ys @ [x])))) (ys @ [x]))"
proof -
  have H0: "0 < H" using H tree_depth_pos [of "length ys"] by simp
  obtain L' where be: "becomes t (amt_append A C D x t) L'" and inv: "tree_inv A lh (ys @ [x]) L'"
    and b: "rebuilt lh (ys @ [x]) (length ys) 0 ((tree_of A lh H ys)[0 := ys @ [x]]) L'"
    using append_layers [OF tree_of_inv [OF known H] R lh x] unfolding tree_of_leaves [OF H0] by blast
  have "L' = tree_of A lh (max H (tree_depth (length (ys @ [x])))) (ys @ [x])"
    using known x inv b by (intro rebuilt_full [OF _ _ H]) (auto simp: tree_inv_def)
  then show ?thesis using be by simp
qed

lemma known_update: "alg_null A \<notin> set ys \<Longrightarrow> x \<noteq> alg_null A \<Longrightarrow> alg_null A \<notin> set (ys[i := x])"
  using set_update_subset_insert [of ys i x] by auto

lemma update_last_full:
  assumes R: "represents (node_manager t) (tree_of A lh H ys) False" and lh: "leaf_height t = lh"
    and known: "alg_null A \<notin> set ys" and H: "tree_depth (length ys) \<le> H"
    and ne: "ys \<noteq> []" and x: "x \<noteq> alg_null A"
  shows "becomes t (update_last A C D x t) (tree_of A lh H (ys[length ys - 1 := x]))"
proof -
  have H0: "0 < H" using H tree_depth_pos [of "length ys"] by simp
  let ?ys = "ys[length ys - 1 := x]"
  obtain L' where be: "becomes t (update_last A C D x t) L'" and inv: "tree_inv A lh ?ys L'"
    and b: "rebuilt lh ?ys (length ys - 1) 0 ((tree_of A lh H ys)[0 := ?ys]) L'"
    using update_last_layers [OF tree_of_agrees [OF known H] tree_of_frontier [OF known] ne R lh x]
    unfolding tree_of_leaves [OF H0] by auto
  have "L' = tree_of A lh (max H (tree_depth (length ?ys))) ?ys"
    using known known_update [OF known x] inv b ne
    by (intro rebuilt_full [OF known _ H]) (auto simp: tree_inv_def)
  then show ?thesis using be H by (simp add: max_absorb1)
qed

section \<open>Filling in a leaf\<close>

lemma tree_inv_extends:
  assumes inv: "tree_inv A lh ys L" and x: "extends A lh ys L L'"
  shows "tree_inv A lh ys L'"
proof -
  have "length ys div 2 ^ k \<le> length (L ! k)" if "k < length L" for k
    using inv that width_halves(2) [of "length ys" k] by (simp add: tree_inv_def agrees_def)
  then show ?thesis
    using inv extends_frontier [OF x] agrees_extends [OF _ x] by (auto simp: tree_inv_def)
qed

lemma fill_leaf_layers:
  assumes inv: "tree_inv A lh ys L" and cl: "closed_except A {} L"
    and R: "represents (node_manager t) L False" and lh: "leaf_height t = lh" and i: "i < length ys"
  shows "\<exists>L'. becomes t (fill_leaf A C D i (ys ! i) t) L' \<and> extends A lh ys L L' \<and>
    tree_inv A lh ys L' \<and> closed_except A {} L' \<and> L' ! 0 ! i = ys ! i"
proof -
  have L: "0 < length L" and l0: "i < length (L ! 0)" and known: "ys ! i \<noteq> alg_null A"
    and ag: "agrees A lh ys L"
    using inv i by (auto simp: tree_inv_def agrees_def in_set_conv_nth)
  have old: "L ! 0 ! i = alg_null A \<or> L ! 0 ! i = ys ! i" using ag L l0 i unfolding agrees_def by fastforce
  have rd: "amt_node C D t 0 i = Inr (L ! 0 ! i)" using tree_reads(3) [OF R L l0] .
  show ?thesis
  proof (cases "L ! 0 ! i = alg_null A")
    case False
    then have "fill_leaf A C D i (ys ! i) t = Inr (t\<lparr>node_manager := node_manager t\<rparr>)"
      using old known rd by (simp add: fill_leaf_def is_null_def)
    then have "becomes t (fill_leaf A C D i (ys ! i) t) L" using R unfolding becomes_def by blast
    then show ?thesis using False old inv cl extends_refl by blast
  next
    case True
    let ?L1 = "L[0 := (L ! 0)[i := ys ! i]]"
    have x1: "extends A lh ys L ?L1" using True L l0 i by (intro extends_set) auto
    obtain nm where st: "start_transaction D t = Inr (t\<lparr>node_manager := nm\<rparr>)" and R1: "represents nm L True"
      using start_transaction_yields [OF R] by (rule yieldsE)
    obtain nm2 where up: "update_node C D 0 i (ys ! i) (t\<lparr>node_manager := nm\<rparr>) = Inr (t\<lparr>node_manager := nm2\<rparr>)"
      and R2: "represents nm2 ?L1 True"
      using yields_update [of "t\<lparr>node_manager := nm\<rparr>" L 0 i "ys ! i"] R1 L l0 by (auto elim: yieldsE)
    obtain L' where y: "yields t (recompute A C D i 0 (Some (i + 1)) (t\<lparr>node_manager := nm2\<rparr>)) L'"
      and x2: "extends A lh ys ?L1 L'" and cl': "closed_except A {} L'"
      using recompute_fill [OF agrees_extends [OF ag x1] closed_set_leaf [OF cl L l0],
          of "t\<lparr>node_manager := nm2\<rparr>"] R2 lh i by (auto simp: yields_def)
    have "becomes t (fill_leaf A C D i (ys ! i) t) L'"
      using yields_commit [OF y] True known rd st up
      by (simp add: fill_leaf_def recompute_after_fill_leaves_def is_null_def)
    moreover have "L' ! 0 ! i = ys ! i"
      using extends_known [OF x2, of 0 i] L l0 known by simp
    ultimately show ?thesis using extends_trans [OF x1 x2] tree_inv_extends [OF inv] cl' by blast
  qed
qed

end

section \<open>Construction in memory\<close>

locale memory_tree = node_cache C + merkle_algorithm A
  for C :: "('e, 'c) lru_ops" and A :: "('e, 'z) hash_alg_scheme"

sublocale memory_tree \<subseteq> mem: append_tree C empty_node_database "\<lambda>_. {}" A ..

context memory_tree
begin

abbreviation mem_db :: "('e, unit, unit) node_database" where
  "mem_db \<equiv> empty_node_database"

lemma represents_dummy: "memory.represents (nm_new_dummy C) [] False"
  by (simp add: nm_represents_def nm_new_dummy_def)

lemma start_dummy:
  obtains nm where
    "start_transaction mem_db (empty_tree (nm_new_dummy C) md lh :: ('e, 'c, unit, unit) append_merkle_tree) =
       Inr (empty_tree nm md lh)"
    "memory.represents nm [] True"
  using memory.represents_start [OF represents_dummy]
  by (auto simp: start_transaction_def on_nodes_def empty_tree_def)

lemma add_layers:
  assumes "memory.represents (node_manager t) L True"
  shows "mem.yields t (rfold (\<lambda>_. on_nodes (nm_add_layer mem_db)) is t) (L @ replicate (length is) [])"
  using assms
proof (induction "is" arbitrary: t L)
  case Nil
  then show ?case by (simp add: mem.yields_refl)
next
  case (Cons i "is")
  obtain nm where s: "on_nodes (nm_add_layer mem_db) t = Inr (t\<lparr>node_manager := nm\<rparr>)"
    and R: "memory.represents nm (L @ [[]]) True"
    using memory.represents_add_layer [OF Cons.prems] by (auto simp: on_nodes_def)
  then show ?case using Cons.IH [of "t\<lparr>node_manager := nm\<rparr>" "L @ [[]]"] by (simp add: mem.yields_def)
qed

lemma empty_layers_inv: "0 < d \<Longrightarrow> tree_inv A lh [] (replicate d [])"
  by (auto simp: tree_inv_def agrees_def frontier_def frontier_at_def)

lemma empty_layers_tree: "replicate d [] = tree_of A lh d []"
  by (auto intro: nth_equalityI)

text \<open>What the constructors share: the leaves below \<open>d - 1\<close> empty layers, then \<open>recompute\<close>.\<close>

lemma build_full:
  assumes R: "memory.represents (node_manager t) ((replicate d [])[0 := ys]) True" and d: "0 < d"
    and lh: "leaf_height t = lh" and ys: "ys \<noteq> []" "alg_null A \<notin> set ys"
  shows "mem.yields t (recompute A C mem_db 0 0 None t) (tree_of A lh (max d (tree_depth (length ys))) ys)"
proof -
  have inv: "tree_inv A lh [] (replicate d [])" using d by (rule empty_layers_inv)
  have R': "memory.represents (node_manager t) ((replicate d [])[0 := replicate d [] ! 0 @ ys]) True"
    using R d by simp
  obtain L' where y: "mem.yields t (recompute A C mem_db 0 0 None t) L'"
    and inv': "tree_inv A lh ys L'" and b: "mem.rebuilt lh ys 0 0 ((replicate d [])[0 := ys]) L'"
    using mem.append_rebuild [OF inv R' lh ys] d by auto
  have b': "mem.rebuilt lh ys 0 0 ((tree_of A lh d [])[0 := ys]) L'"
    using b by (simp add: empty_layers_tree [symmetric])
  have "L' = tree_of A lh (max d (tree_depth (length ys))) ys"
    using ys inv' d b' tree_depth.simps [of 0]
    by (intro mem.rebuilt_full [of "[]" ys d 0 ys]) (auto simp: tree_inv_def)
  then show ?thesis using y by simp
qed

text \<open>The tree right after construction, before its version is committed.\<close>

lemma amt_new_layers:
  assumes "alg_null A \<notin> set ys"
  shows "\<exists>nm. amt_new A C ys lh start = (if ys = [] then Inr (commit_empty start (empty_tree nm None lh))
      else amt_commit C mem_db start (empty_tree nm None lh)) \<and>
    memory.represents nm (tree_of A lh (tree_depth (length ys)) ys) False"
proof -
  obtain nm1 where s: "start_transaction mem_db (empty_tree (nm_new_dummy C) None lh ::
      ('e, 'c, unit, unit) append_merkle_tree) = Inr (empty_tree nm1 None lh)"
    and R1: "memory.represents nm1 [] True" by (rule start_dummy)
  let ?t1 = "empty_tree nm1 None lh :: ('e, 'c, unit, unit) append_merkle_tree"
  obtain nm2 where a: "on_nodes (nm_add_layer mem_db) ?t1 = Inr (empty_tree nm2 None lh)"
    and R2: "memory.represents nm2 [[]] True"
    using memory.represents_add_layer [OF R1] by (auto simp: on_nodes_def empty_tree_def)
  let ?t2 = "empty_tree nm2 None lh :: ('e, 'c, unit, unit) append_merkle_tree"
  obtain nm3 where ap: "append_nodes C mem_db 0 ys ?t2 = Inr (empty_tree nm3 None lh)"
    and R3: "memory.represents nm3 [ys] True"
    using mem.yields_append [of ?t2 "[[]]" 0 ys] R2 by (auto simp: mem.yields_def empty_tree_def)
  let ?t3 = "empty_tree nm3 None lh :: ('e, 'c, unit, unit) append_merkle_tree"
  have n: "amt_leaves ?t3 = Inr (length ys)"
    using mem.tree_reads(4) [of ?t3 "[ys]" True] R3 by (simp add: empty_tree_def)
  show ?thesis
  proof (cases "ys = []")
    case True
    have "amt_new A C ys lh start = Inr (commit_empty start (empty_tree (nm_commit mem_db nm3) None lh))"
      using s a ap n True
      by (auto simp: amt_new_def commit_nodes_def commit_empty_def empty_tree_def split: option.splits)
    moreover have "memory.represents (nm_commit mem_db nm3) (tree_of A lh (tree_depth 0) []) False"
      using memory.represents_commit [OF R3] True tree_depth.simps [of 0] by (simp add: tree_of_def)
    ultimately show ?thesis using True by auto
  next
    case False
    obtain nm4 where rc: "recompute A C mem_db 0 0 None ?t3 = Inr (empty_tree nm4 None lh)"
      and R4: "memory.represents nm4 (tree_of A lh (max 1 (tree_depth (length ys))) ys) True"
      using build_full [of ?t3 1 ys lh] R3 False assms by (auto simp: mem.yields_def empty_tree_def)
    have "amt_new A C ys lh start = amt_commit C mem_db start (empty_tree (nm_commit mem_db nm4) None lh)"
      using s a ap n False rc by (simp add: amt_new_def commit_nodes_def empty_tree_def)
    moreover have "max 1 (tree_depth (length ys)) = tree_depth (length ys)"
      using tree_depth_pos [of "length ys"] by simp
    ultimately show ?thesis using memory.represents_commit [OF R4] False by auto
  qed
qed

lemma new_with_depth_layers:
  assumes "alg_null A \<notin> set ys" and d: "0 < depth"
  shows "\<exists>nm. new_with_depth A C ys depth start =
      (if ys = [] then Inr (commit_empty start (empty_tree nm (Some depth) 0))
       else amt_commit C mem_db start (empty_tree nm (Some depth) 0)) \<and>
    memory.represents nm (tree_of A 0 (max depth (tree_depth (length ys))) ys) False"
proof -
  obtain nm1 where s: "start_transaction mem_db (empty_tree (nm_new_dummy C) (Some depth) 0 ::
      ('e, 'c, unit, unit) append_merkle_tree) = Inr (empty_tree nm1 (Some depth) 0)"
    and R1: "memory.represents nm1 [] True" by (rule start_dummy)
  let ?t = "\<lambda>nm. empty_tree nm (Some depth) 0 :: ('e, 'c, unit, unit) append_merkle_tree"
  have upd: "(?t nm)\<lparr>node_manager := nm'\<rparr> = ?t nm'" "node_manager (?t nm) = nm" "leaf_height (?t nm) = 0" for nm nm'
    by (simp_all add: empty_tree_def)
  show ?thesis
  proof (cases "ys = []")
    case True
    obtain nm2 where a: "rfold (\<lambda>_. on_nodes (nm_add_layer mem_db)) [0..<depth] (?t nm1) = Inr (?t nm2)"
      and R2: "memory.represents nm2 (replicate depth []) True"
      using add_layers [of "?t nm1" "[]" "[0..<depth]"] R1 by (auto simp: mem.yields_def upd)
    have "new_with_depth A C ys depth start = Inr (commit_empty start (?t (nm_commit mem_db nm2)))"
      using s a True
      by (auto simp: new_with_depth_def commit_nodes_def commit_empty_def empty_tree_def split: option.splits)
    moreover have "max depth (tree_depth 0) = depth" using d tree_depth.simps [of 0] by simp
    ultimately show ?thesis
      using memory.represents_commit [OF R2] True unfolding empty_layers_tree [of _ 0] by auto
  next
    case False
    obtain nm2 where a: "on_nodes (nm_add_layer mem_db) (?t nm1) = Inr (?t nm2)"
      and R2: "memory.represents nm2 [[]] True"
      using memory.represents_add_layer [OF R1] by (auto simp: on_nodes_def empty_tree_def)
    obtain nm3 where ap: "append_nodes C mem_db 0 ys (?t nm2) = Inr (?t nm3)"
      and R3: "memory.represents nm3 [ys] True"
      using mem.yields_append [of "?t nm2" "[[]]" 0 ys] R2 by (auto simp: mem.yields_def upd)
    obtain nm4 where l: "rfold (\<lambda>_. on_nodes (nm_add_layer mem_db)) [1..<depth] (?t nm3) = Inr (?t nm4)"
      and R4: "memory.represents nm4 ([ys] @ replicate (depth - 1) []) True"
      using add_layers [of "?t nm3" "[ys]" "[1..<depth]"] R3 by (auto simp: mem.yields_def upd)
    have "[ys] @ replicate (depth - 1) [] = (replicate depth [])[0 := ys]" using d by (cases depth) auto
    then obtain nm5 where rc: "recompute A C mem_db 0 0 None (?t nm4) = Inr (?t nm5)"
      and R5: "memory.represents nm5 (tree_of A 0 (max depth (tree_depth (length ys))) ys) True"
      using build_full [of "?t nm4" depth ys 0] R4 False assms by (auto simp: mem.yields_def upd)
    have "new_with_depth A C ys depth start = amt_commit C mem_db start (?t (nm_commit mem_db nm5))"
      using s a ap l False rc by (simp add: new_with_depth_def commit_nodes_def upd)
    then show ?thesis using memory.represents_commit [OF R5] False by auto
  qed
qed

end

section \<open>Appending a subtree by its root\<close>

context append_tree
begin

lemma mnode_append_shift:
  assumes "2 ^ h dvd length ys"
  shows "mnode A lh (ys @ zs) h (length ys div 2 ^ h + i) = mnode A lh zs h i"
  using assms
proof (induction h arbitrary: i)
  case 0
  then show ?case by (simp add: nth_append)
next
  case (Suc h)
  then have d: "2 ^ h dvd length ys" and ev: "2 * (length ys div 2 ^ Suc h) = length ys div 2 ^ h"
    by (auto simp: dvd_def power_Suc2 mult.assoc simp del: power_Suc)
  have "2 * (length ys div 2 ^ Suc h + i) = length ys div 2 ^ h + 2 * i"
    "2 * (length ys div 2 ^ Suc h + i) + 1 = length ys div 2 ^ h + (2 * i + 1)"
    using ev by auto
  then show ?case unfolding mnode.simps by (simp only: Suc.IH [OF d])
qed

text \<open>
  The layers after \<open>append_subtree_inner\<close>: \<open>null_layers d m L\<close> has the unknown nodes of the first
  \<open>m\<close> layers, and the subtree's root goes on top of them.
\<close>

definition null_layers :: "nat \<Rightarrow> nat \<Rightarrow> 'e list list \<Rightarrow> 'e list list" where
  "null_layers d m L =
     map (\<lambda>k. (if k < length L then L ! k else []) @
              (if k < m then replicate (2 ^ (d - 1 - k)) (alg_null A) else [])) [0..<max m (length L)]"

lemma null_layers_0: "null_layers d 0 L = L"
  by (auto simp: null_layers_def intro!: nth_equalityI)

lemma null_layers_nth:
  "k < max m (length L) \<Longrightarrow> null_layers d m L ! k =
     (if k < length L then L ! k else []) @ (if k < m then replicate (2 ^ (d - 1 - k)) (alg_null A) else [])"
  by (simp add: null_layers_def)

lemma length_null_layers [simp]: "length (null_layers d m L) = max m (length L)"
  by (simp add: null_layers_def)

lemma null_layers_Suc:
  defines "E \<equiv> \<lambda>m L. if m = length L then L @ [[]] else L"
  shows "null_layers d (Suc m) L =
    (E m (null_layers d m L))[m := E m (null_layers d m L) ! m @ replicate (2 ^ (d - 1 - m)) (alg_null A)]"
  by (rule nth_equalityI) (auto simp: E_def null_layers_nth nth_list_update nth_append max_def)

lemma null_layers_loop:
  assumes R: "represents (node_manager t) L True"
  shows "yields t (rfold (\<lambda>height t.
            rbind (before_extend_layer D height t) (\<lambda>t.
            let subtree_layer_size = 2 ^ (d - 1 - height) in
            append_nodes C D height (replicate subtree_layer_size (alg_null A)) t)) [0..<m] t)
     (null_layers d m L)"
proof (induction m)
  case 0
  then show ?case using R by (simp add: null_layers_0 yields_refl)
next
  case (Suc m)
  let ?f = "\<lambda>height t. rbind (before_extend_layer D height t) (\<lambda>t.
            let subtree_layer_size = 2 ^ (d - 1 - height) in
            append_nodes C D height (replicate subtree_layer_size (alg_null A)) t)"
  let ?L = "null_layers d m L" and ?xs = "replicate (2 ^ (d - 1 - m)) (alg_null A)"
  let ?E = "if m = length ?L then ?L @ [[]] else ?L"
  obtain nm where f: "rfold ?f [0..<m] t = Inr (t\<lparr>node_manager := nm\<rparr>)" and R1: "represents nm ?L True"
    using Suc by (rule yieldsE)
  have "yields (t\<lparr>node_manager := nm\<rparr>) (?f m (t\<lparr>node_manager := nm\<rparr>)) (?E[m := ?E ! m @ ?xs])"
    unfolding Let_def
  proof (rule yields_bind [OF yields_extend])
    show "represents (node_manager (t\<lparr>node_manager := nm\<rparr>)) ?L True" using R1 by simp
    fix nm' assume "represents nm' ?E True"
    then have "yields (t\<lparr>node_manager := nm'\<rparr>) (append_nodes C D m ?xs (t\<lparr>node_manager := nm'\<rparr>))
        (?E[m := ?E ! m @ ?xs])"
      by (intro yields_append) auto
    then show "yields (t\<lparr>node_manager := nm\<rparr>)
        (append_nodes C D m ?xs (t\<lparr>node_manager := nm\<rparr>\<lparr>node_manager := nm'\<rparr>)) (?E[m := ?E ! m @ ?xs])"
      by (simp add: yields_def)
  qed simp
  then show ?case using f null_layers_Suc [of d m L] by (simp add: rfold_append yields_def)
qed

lemma append_subtree_inner_layers:
  fixes h :: nat
  assumes R: "represents (node_manager t) L True"
  defines "N \<equiv> null_layers (Suc h) h L"
  defines "E \<equiv> if h = length N then N @ [[]] else N"
  shows "yields t (append_subtree_inner A C D (Suc h) r t) (E[h := E ! h @ [r]])"
proof -
  obtain nm where f: "rfold (\<lambda>height t.
            rbind (before_extend_layer D height t) (\<lambda>t.
            let subtree_layer_size = 2 ^ (Suc h - 1 - height) in
            append_nodes C D height (replicate subtree_layer_size (alg_null A)) t)) [0..<h] t =
        Inr (t\<lparr>node_manager := nm\<rparr>)" and R1: "represents nm N True"
    using null_layers_loop [OF R, of "Suc h" h] unfolding N_def by (rule yieldsE)
  obtain nm2 where e: "before_extend_layer D h (t\<lparr>node_manager := nm\<rparr>) = Inr (t\<lparr>node_manager := nm2\<rparr>)"
    and R2: "represents nm2 E True"
    using yields_extend [of "t\<lparr>node_manager := nm\<rparr>" N h] R1 unfolding E_def
    by (auto simp: N_def elim: yieldsE)
  have "yields (t\<lparr>node_manager := nm2\<rparr>) (push_node C D h r (t\<lparr>node_manager := nm2\<rparr>)) (E[h := E ! h @ [r]])"
    using R2 by (intro yields_push) (auto simp: E_def N_def)
  then show ?thesis using f e by (simp add: append_subtree_inner_def yields_def)
qed

text \<open>What \<open>append_subtree_inner\<close> leaves when the tree is aligned.\<close>

definition with_subtree :: "nat \<Rightarrow> 'e \<Rightarrow> 'e list list \<Rightarrow> 'e list list" where
  "with_subtree h r L =
     (let N = null_layers (Suc h) h L; E = (if h = length N then N @ [[]] else N) in E[h := E ! h @ [r]])"

lemma with_subtree_nth:
  shows "length (with_subtree h r L) = max (Suc h) (length L)"
    and "k < h \<Longrightarrow> with_subtree h r L ! k =
      (if k < length L then L ! k else []) @ replicate (2 ^ (h - k)) (alg_null A)"
    and "with_subtree h r L ! h = (if h < length L then L ! h else []) @ [r]"
    and "h < k \<Longrightarrow> k < length L \<Longrightarrow> with_subtree h r L ! k = L ! k"
  by (auto simp: with_subtree_def Let_def null_layers_nth nth_list_update nth_append max_def)

lemma subtree_rebuild:
  assumes inv: "tree_inv A lh ys L" and al: "2 ^ h dvd length ys" and lh: "leaf_height t = lh"
    and zs: "length zs = 2 ^ h" "alg_null A \<notin> set zs"
    and R: "represents (node_manager t) (with_subtree h (mnode A lh zs h 0) L) True"
  shows "\<exists>L'. yields t (recompute A C D (length ys) h None t) L' \<and> tree_inv A lh (ys @ zs) L' \<and>
    rebuilt lh (ys @ zs) (length ys) h (with_subtree h (mnode A lh zs h 0) L) L'"
proof -
  let ?r = "mnode A lh zs h 0" and ?n = "length ys"
  let ?L1 = "with_subtree h ?r L"
  define B where "B k = (if k < length L then L ! k else [])" for k
  note ws = with_subtree_nth [where h = h and r = ?r and L = L] and ad = aligned_sum_div [OF al]
  have ag: "agrees A lh ys L" and fr: "frontier A ?n L" using inv by (auto simp: tree_inv_def)
  have known: "alg_null A \<notin> set (ys @ zs)" using ag zs(2) by (auto simp: agrees_def)
  have base: "length (B k) = ?n div 2 ^ k" if k: "k \<le> h" for k
  proof (cases "k < length L")
    case True
    then show ?thesis using ag width_aligned [OF ad(2) [OF k]] by (simp add: agrees_def B_def)
  next
    case False
    then show ?thesis using agrees_top [OF ag, of ?n k] by (simp add: B_def)
  qed
  have lay: "?L1 ! k = B k @ (if k < h then replicate (2 ^ (h - k)) (alg_null A) else [?r])" if "k \<le> h" for k
    using ws(2) [of k] ws(3) that by (cases "k = h") (simp_all add: B_def)
  have w: "width (length (ys @ zs)) k = ?n div 2 ^ k + 2 ^ (h - k)" if k: "k \<le> h" for k
    using ad [OF k] zs(1) width_aligned [of k "?n + 2 ^ h"] that by (simp add: le_imp_power_dvd)
  have old: "B k ! i = alg_null A \<or> B k ! i = mnode A lh (ys @ zs) k i"
    if k: "k \<le> h" and i: "i < ?n div 2 ^ k" for k i
  proof -
    have kl: "k < length L" using i agrees_top [OF ag, of ?n k] by (cases "k < length L") auto
    have "i < width ?n k" using i width_halves(2) [of ?n k] by simp
    then have "L ! k ! i = alg_null A \<or> L ! k ! i = mnode A lh ys k i"
      using ag kl unfolding agrees_def by blast
    moreover have "mnode A lh (ys @ zs) k i = mnode A lh ys k i"
      using Suc_mult_div_le [OF i] by (rule mnode_append_old)
    ultimately show ?thesis using kl by (simp add: B_def)
  qed
  have root: "?L1 ! h ! (?n div 2 ^ h) = mnode A lh (ys @ zs) h (?n div 2 ^ h)"
    using mnode_append_shift [OF al, of lh zs 0] base [of h] by (simp add: lay nth_append)
  have new: "?L1 ! k ! i = alg_null A \<or> ?L1 ! k ! i = mnode A lh (ys @ zs) k i"
    if k: "k \<le> h" and i: "i < width (length (ys @ zs)) k" for k i
  proof (cases "i < ?n div 2 ^ k")
    case True
    then show ?thesis using old [OF k True] base [OF k] by (simp add: lay [OF k] nth_append)
  next
    case False
    show ?thesis
    proof (cases "k = h")
      case True
      then show ?thesis using root i w [OF k] False by (simp add: le_less_Suc_eq)
    next
      case kh: False
      then show ?thesis using i w [OF k] False base [OF k] k by (simp add: lay [OF k] nth_append)
    qed
  qed
  have "\<exists>L'. yields t (recompute A C D ?n h None t) L' \<and> agrees A lh (ys @ zs) L' \<and>
      rebuilt lh (ys @ zs) ?n h ?L1 L' \<and>
    (\<forall>m. ?n \<le> m \<longrightarrow> m \<le> length (ys @ zs) \<longrightarrow> (\<forall>k \<le> h. frontier_at A m k (?L1 ! k)) \<longrightarrow> frontier A m L')"
  proof (rule rebuild [OF ag fr _ _ _ known _ _ _ _ _ _ R lh])
    fix k assume k: "k \<le> h"
    show "length (?L1 ! k) = width (length (ys @ zs)) k"
      using base [OF k] w [OF k] k by (cases "k = h") (simp_all add: lay)
    show "?L1 ! k ! i = alg_null A \<or> ?L1 ! k ! i = mnode A lh (ys @ zs) k i"
      if "i < width (length (ys @ zs)) k" for i using new [OF k that] .
  next
    fix i assume i: "2 * (?n div 2 ^ h div 2) \<le> i" "i < width (length (ys @ zs)) h"
    show "?L1 ! h ! i = mnode A lh (ys @ zs) h i"
    proof (cases "i < ?n div 2 ^ h")
      case True
      have "odd (?n div 2 ^ h) \<and> i = ?n div 2 ^ h - 1" using i(1) True by (rule pair_start)
      moreover have hl: "h < length L" using True agrees_top [OF ag, of ?n h] by (cases "h < length L") auto
      ultimately have "L ! h ! i \<noteq> alg_null A" using fr by (auto simp: frontier_def frontier_at_def)
      then show ?thesis
        using old [OF _ True] hl base [of h] True by (simp add: lay nth_append B_def)
    next
      case False
      then show ?thesis using root i(2) w [of h] by (simp add: le_less_Suc_eq)
    qed
  qed (use ws zs in auto)
  moreover have "frontier_at A (length (ys @ zs)) k (?L1 ! k)" if k: "k \<le> h" for k
  proof (cases "k = h")
    case True
    then show ?thesis
      using ad(1) [of h] zs(1) base [of h] root mnode_known [OF known]
      by (simp add: frontier_at_def lay)
  next
    case False
    then have "even (?n div 2 ^ k)" "even ((2::nat) ^ (h - k))" using ad(3) [OF k] k by simp_all
    then show ?thesis
      using ad(1) [OF k] zs(1) base [OF k] False k by (simp add: frontier_at_def lay)
  qed
  ultimately show ?thesis unfolding tree_inv_def by (metis le_add1 le_refl length_append)
qed

lemma append_subtree_step_layers:
  assumes inv: "tree_inv A lh ys L" and al: "2 ^ h dvd length ys" and lh: "leaf_height t = lh"
    and zs: "length zs = 2 ^ h" "alg_null A \<notin> set zs" and R: "represents (node_manager t) L True"
  shows "\<exists>L'. yields t (append_subtree_step A C D (Suc h) (mnode A lh zs h 0) t) L' \<and>
    tree_inv A lh (ys @ zs) L' \<and>
    rebuilt lh (ys @ zs) (length ys) h (with_subtree h (mnode A lh zs h 0) L) L'"
proof -
  let ?r = "mnode A lh zs h 0"
  have L: "0 < length L" and l0: "length (L ! 0) = length ys" using inv by (auto simp: tree_inv_def agrees_def)
  obtain nm where i: "append_subtree_inner A C D (Suc h) ?r t = Inr (t\<lparr>node_manager := nm\<rparr>)"
    and R1: "represents nm (with_subtree h ?r L) True"
    using append_subtree_inner_layers [OF R, of h ?r] unfolding with_subtree_def Let_def by (rule yieldsE)
  obtain L' where "yields t (recompute A C D (length ys) h None (t\<lparr>node_manager := nm\<rparr>)) L'"
    and "tree_inv A lh (ys @ zs) L'" "rebuilt lh (ys @ zs) (length ys) h (with_subtree h ?r L) L'"
    using subtree_rebuild [OF inv al _ zs, of "t\<lparr>node_manager := nm\<rparr>"] R1 lh by (auto simp: yields_def)
  then show ?thesis
    using i tree_reads(4) [OF R] L l0
    by (auto simp: append_subtree_step_def recompute_after_append_subtree_def)
qed

lemma append_subtree_layers:
  assumes inv: "tree_inv A lh ys L" and al: "2 ^ h dvd length ys" and lh: "leaf_height t = lh"
    and zs: "length zs = 2 ^ h" "alg_null A \<notin> set zs" and R: "represents (node_manager t) L False"
  shows "\<exists>nm L'. append_subtree A C D (Suc h) (mnode A lh zs h 0) t = Inr (t\<lparr>node_manager := nm\<rparr>, Inr ()) \<and>
    represents nm L' False \<and> tree_inv A lh (ys @ zs) L' \<and>
    rebuilt lh (ys @ zs) (length ys) h (with_subtree h (mnode A lh zs h 0) L) L'"
proof -
  let ?r = "mnode A lh zs h 0"
  have nn: "\<not> is_null A ?r" using mnode_known [OF zs(2)] by (simp add: is_null_def)
  obtain nm where st: "start_transaction D t = Inr (t\<lparr>node_manager := nm\<rparr>)" and R1: "represents nm L True"
    using start_transaction_yields [OF R] by (rule yieldsE)
  obtain nm2 L' where s: "append_subtree_step A C D (Suc h) ?r (t\<lparr>node_manager := nm\<rparr>) = Inr (t\<lparr>node_manager := nm2\<rparr>)"
    and R2: "represents nm2 L' True" and inv': "tree_inv A lh (ys @ zs) L'"
    and b: "rebuilt lh (ys @ zs) (length ys) h (with_subtree h ?r L) L'"
    using append_subtree_step_layers [OF inv al _ zs, of "t\<lparr>node_manager := nm\<rparr>"] R1 lh
    by (auto simp: yields_def)
  have "append_subtree A C D (Suc h) ?r t = Inr (t\<lparr>node_manager := nm_commit D nm2\<rparr>, Inr ())"
    using nn st s by (simp add: append_subtree_def question_def commit_nodes_def)
  then show ?thesis using represents_commit [OF R2] inv' b by blast
qed

end

text \<open>A list of subtrees that are aligned one after the other, given by their leaves.\<close>

fun aligned_subtrees :: "nat \<Rightarrow> (nat \<times> 'e list) list \<Rightarrow> bool" where
  "aligned_subtrees n [] \<longleftrightarrow> True"
| "aligned_subtrees n ((h, zs) # rest) \<longleftrightarrow>
     2 ^ h dvd n \<and> length zs = 2 ^ h \<and> aligned_subtrees (n + 2 ^ h) rest"

context append_tree
begin

lemma append_subtrees_loop_layers:
  assumes "tree_inv A lh ys L" "aligned_subtrees (length ys) sts" "leaf_height t = lh"
    and "\<And>h zs. (h, zs) \<in> set sts \<Longrightarrow> alg_null A \<notin> set zs" and "represents (node_manager t) L True"
  shows "\<exists>nm L'. append_subtrees_loop A C D (map (\<lambda>(h, zs). (Suc h, mnode A lh zs h 0)) sts) t =
      Inr (t\<lparr>node_manager := nm\<rparr>, Inr ()) \<and>
    represents nm L' False \<and> tree_inv A lh (ys @ concat (map snd sts)) L'"
  using assms
proof (induction sts arbitrary: t ys L)
  case Nil
  then show ?case
    using represents_commit [OF Nil.prems(5)] by (auto simp: commit_nodes_def)
next
  case (Cons st sts)
  obtain h zs where st: "st = (h, zs)" by fastforce
  have al: "2 ^ h dvd length ys" and zs: "length zs = 2 ^ h" "alg_null A \<notin> set zs"
    using Cons.prems(2,4) by (auto simp: st)
  obtain nm L1 where s: "append_subtree_step A C D (Suc h) (mnode A lh zs h 0) t = Inr (t\<lparr>node_manager := nm\<rparr>)"
    and R1: "represents nm L1 True" and inv1: "tree_inv A lh (ys @ zs) L1"
    using append_subtree_step_layers [OF Cons.prems(1) al Cons.prems(3) zs Cons.prems(5)]
    by (auto simp: yields_def)
  have "\<exists>nm' L'. append_subtrees_loop A C D (map (\<lambda>(h, zs). (Suc h, mnode A lh zs h 0)) sts) (t\<lparr>node_manager := nm\<rparr>) =
      Inr (t\<lparr>node_manager := nm\<rparr>\<lparr>node_manager := nm'\<rparr>, Inr ()) \<and>
    represents nm' L' False \<and> tree_inv A lh ((ys @ zs) @ concat (map snd sts)) L'"
    by (rule Cons.IH [OF inv1]) (use Cons.prems st zs R1 in auto)
  then show ?case using s by (auto simp: st question_def)
qed

lemma append_subtree_list_layers:
  assumes inv: "tree_inv A lh ys L" and al: "aligned_subtrees (length ys) sts" and lh: "leaf_height t = lh"
    and nn: "\<And>h zs. (h, zs) \<in> set sts \<Longrightarrow> alg_null A \<notin> set zs" and R: "represents (node_manager t) L False"
  shows "\<exists>nm L'. append_subtree_list A C D (map (\<lambda>(h, zs). (Suc h, mnode A lh zs h 0)) sts) t =
      Inr (t\<lparr>node_manager := nm\<rparr>, Inr ()) \<and>
    represents nm L' False \<and> tree_inv A lh (ys @ concat (map snd sts)) L'"
proof -
  have "\<not> list_ex (\<lambda>(_, root). is_null A root) (map (\<lambda>(h, zs). (Suc h, mnode A lh zs h 0)) sts)"
    using nn mnode_known by (fastforce simp: list_ex_iff is_null_def)
  moreover obtain nm where "start_transaction D t = Inr (t\<lparr>node_manager := nm\<rparr>)" and "represents nm L True"
    using start_transaction_yields [OF R] by (rule yieldsE)
  ultimately show ?thesis
    using append_subtrees_loop_layers [OF inv al, of "t\<lparr>node_manager := nm\<rparr>"] nn lh
    by (auto simp: append_subtree_list_def)
qed

end

end
