(* ===== verification/History.thy ===== *)
theory History
  imports Tree_Operations
begin

text \<open>
  Versions of an append-only tree: \<open>commit\<close> remembers the right-most node of every layer,
  \<open>revert_to\<close> cuts the layers back and puts these nodes in place, \<open>at_version\<close> reads an old
  version through them. The lemmas show that whatever was appended, replaced at the end or filled
  in since the commit, both give the tree of the commit again.
\<close>

section \<open>Versions\<close>

text \<open>What \<open>commit\<close> stores for the layers \<open>L\<close>.\<close>

definition right_most :: "'e list list \<Rightarrow> (nat \<times> 'e) list" where
  "right_most L = map (\<lambda>X. (length X - 1, last X)) L"

text \<open>
  \<open>covers\<close>: the current layers \<open>L\<close> still contain the nodes of the version with leaves \<open>ys\<close> and
  layers \<open>V\<close>, the right-most ones apart; unknown nodes may have been filled in.
\<close>

definition covers ::
    "('e, 'z) hash_alg_scheme \<Rightarrow> nat \<Rightarrow> 'e list \<Rightarrow> 'e list list \<Rightarrow> 'e list list \<Rightarrow> bool" where
  "covers A lh ys V L \<longleftrightarrow>
     length V \<le> length L \<and>
     (\<forall>k < length V. length (V ! k) \<le> length (L ! k) \<and>
        (\<forall>i. i + 1 < length (V ! k) \<longrightarrow>
           L ! k ! i = V ! k ! i \<or> V ! k ! i = alg_null A \<and> L ! k ! i = mnode A lh ys k i))"

lemma covers_refl: "covers A lh ys V V"
  by (simp add: covers_def)

text \<open>A version of a tree whose leaves are now \<open>ys\<close>: it shares all leaves but its last with it.\<close>

definition version_of ::
    "('e, 'z) hash_alg_scheme \<Rightarrow> nat \<Rightarrow> 'e list \<Rightarrow> 'e list list \<Rightarrow> 'e list \<Rightarrow> 'e list list \<Rightarrow> bool" where
  "version_of A lh ys L vs V \<longleftrightarrow>
     agrees A lh vs V \<and> vs \<noteq> [] \<and> length vs \<le> length ys \<and>
     take (length vs - 1) ys = take (length vs - 1) vs \<and> covers A lh vs V L"

lemma version_of_self: "agrees A lh ys L \<Longrightarrow> ys \<noteq> [] \<Longrightarrow> version_of A lh ys L ys L"
  by (simp add: version_of_def covers_refl)

lemma agrees_lengths: "agrees A lh ys L \<Longrightarrow> k < length L \<Longrightarrow> length (L ! k) = width (length ys) k"
  by (simp add: agrees_def)

text \<open>The versions that \<open>clear_after\<close> removes.\<close>

lemma clear_versions_total:
  "\<exists>deltas' roots'. clear_versions seq deltas roots = Inr (deltas', roots') \<and>
     (\<forall>q < seq. fmlookup deltas' q = fmlookup deltas q) \<and>
     (\<forall>q \<ge> seq. fmlookup deltas' q = None \<or> fmlookup deltas' q = fmlookup deltas q \<and>
        (\<exists>r. seq \<le> r \<and> r < q \<and> fmlookup deltas r = None))"
proof (induction seq deltas roots rule: clear_versions.induct)
  case (1 seq deltas roots)
  show ?case
  proof (cases "fmlookup deltas seq")
    case None
    then have "fmlookup deltas q = None \<or> (\<exists>r. seq \<le> r \<and> r < q \<and> fmlookup deltas r = None)" if "seq \<le> q" for q
      using that by (cases "q = seq") auto
    then show ?thesis using None by (auto simp: clear_versions.simps)
  next
    case (Some dn)
    let ?roots = "if delta_height dn \<noteq> 0 then roots(snd (last (right_most_nodes dn)) := None) else roots"
    have unf: "clear_versions seq deltas roots = clear_versions (seq + 1) (fmdrop seq deltas) ?roots"
      using Some by (subst clear_versions.simps) (auto simp: delta_root_def delta_height_def)
    have "\<exists>deltas' roots'. clear_versions (seq + 1) (fmdrop seq deltas) ?roots = Inr (deltas', roots') \<and>
       (\<forall>q < seq + 1. fmlookup deltas' q = fmlookup (fmdrop seq deltas) q) \<and>
       (\<forall>q \<ge> seq + 1. fmlookup deltas' q = None \<or> fmlookup deltas' q = fmlookup (fmdrop seq deltas) q \<and>
          (\<exists>r. seq + 1 \<le> r \<and> r < q \<and> fmlookup (fmdrop seq deltas) r = None))"
    proof (cases "delta_height dn = 0")
      case True
      then show ?thesis using "1.IH"(2) [OF Some] by simp
    next
      case False
      then have "delta_root dn = Inr (snd (last (right_most_nodes dn)))"
        by (auto simp: delta_root_def delta_height_def)
      note IH = "1.IH"(1) [OF Some False this]
      show ?thesis unfolding if_P [OF False] by (rule IH)
    qed
    then obtain deltas' roots' where c: "clear_versions (seq + 1) (fmdrop seq deltas) ?roots = Inr (deltas', roots')"
      and lo: "\<And>q. q < seq + 1 \<Longrightarrow> fmlookup deltas' q = fmlookup (fmdrop seq deltas) q"
      and hi: "\<And>q. seq + 1 \<le> q \<Longrightarrow> fmlookup deltas' q = None \<or>
          fmlookup deltas' q = fmlookup (fmdrop seq deltas) q \<and>
          (\<exists>r. seq + 1 \<le> r \<and> r < q \<and> fmlookup (fmdrop seq deltas) r = None)"
      by blast
    have "fmlookup deltas' q = None \<or> fmlookup deltas' q = fmlookup deltas q \<and>
        (\<exists>r. seq \<le> r \<and> r < q \<and> fmlookup deltas r = None)" if "seq \<le> q" for q
    proof (cases "q = seq")
      case True
      then show ?thesis using lo [of seq] by simp
    next
      case False
      then have q: "seq + 1 \<le> q" using that by simp
      from hi [OF q] show ?thesis
      proof (elim disjE conjE exE)
        fix r assume r: "fmlookup deltas' q = fmlookup (fmdrop seq deltas) q" "seq + 1 \<le> r" "r < q"
          "fmlookup (fmdrop seq deltas) r = None"
        then have "fmlookup deltas r = None" "fmlookup deltas' q = fmlookup deltas q" using q by auto
        then show ?thesis using r(2,3) by (intro disjI2 conjI exI [of _ r]) auto
      qed simp
    qed
    moreover have "fmlookup deltas' q = fmlookup deltas q" if "q < seq" for q
      using lo [of q] that by simp
    ultimately show ?thesis unfolding unf c by blast
  qed
qed

lemma length_right_most [simp]: "length (right_most L) = length L"
  by (simp add: right_most_def)

context append_tree
begin

text \<open>A recomputation from leaf \<open>s\<close> on keeps every version that ends at \<open>s\<close> or before.\<close>

lemma version_rebuilt:
  assumes v: "version_of A lh ys L vs V" and b: "rebuilt lh ys' s h L1 L'"
    and s: "length vs \<le> s + 1" "length vs \<le> length ys'"
    and ys': "take (length vs - 1) ys' = take (length vs - 1) ys"
    and L1: "length L \<le> length L1"
      "\<And>k. k \<le> h \<Longrightarrow> k < length V \<Longrightarrow> length (V ! k) \<le> length (L1 ! k)"
      "\<And>k i. k \<le> h \<Longrightarrow> k < length V \<Longrightarrow> i + 1 < length (V ! k) \<Longrightarrow> L1 ! k ! i = L ! k ! i"
      "\<And>k. h < k \<Longrightarrow> k < length L \<Longrightarrow> L1 ! k = L ! k"
  shows "version_of A lh ys' L' vs V"
proof -
  have ag: "agrees A lh vs V" and ne: "vs \<noteq> []" and c: "covers A lh vs V L"
    and sh: "take (length vs - 1) ys = take (length vs - 1) vs"
    using v by (auto simp: version_of_def)
  have VL: "length V \<le> length L" using c by (simp add: covers_def)
  have len': "length L' = max (length L1) (tree_depth (length ys'))" using b by (simp add: rebuilt_def)
  have "length (V ! k) \<le> length (L' ! k) \<and>
      (\<forall>i. i + 1 < length (V ! k) \<longrightarrow>
         L' ! k ! i = V ! k ! i \<or> V ! k ! i = alg_null A \<and> L' ! k ! i = mnode A lh vs k i)"
    if k: "k < length V" for k
  proof (intro conjI allI impI)
    have lv: "length (V ! k) = width (length vs) k" using agrees_lengths [OF ag k] .
    have "length (L' ! k) = width (length ys') k" using b k VL L1(1) len' by (simp add: rebuilt_def)
    then show "length (V ! k) \<le> length (L' ! k)" using lv width_mono [OF s(2)] by simp
    fix i assume i: "i + 1 < length (V ! k)"
    have "L' ! k ! i = L ! k ! i"
    proof (cases "k \<le> h")
      case True
      then show ?thesis using b L1(3) [OF True k i] by (simp add: rebuilt_def)
    next
      case False
      have "i < (length vs - 1) div 2 ^ k" using i lv width_pred [of "length vs" k] ne by simp
      also have "\<dots> \<le> s div 2 ^ k" using s(1) by (intro div_pow_mono) simp
      finally have "i < s div 2 ^ k" .
      moreover have "take (s div 2 ^ k) (L' ! k) = take (s div 2 ^ k) (L1 ! k)"
        using b False k VL L1(1) by (simp add: rebuilt_def)
      ultimately have "L' ! k ! i = L1 ! k ! i" by (metis nth_take)
      then show ?thesis using L1(4) [of k] False k VL by simp
    qed
    then show "L' ! k ! i = V ! k ! i \<or> V ! k ! i = alg_null A \<and> L' ! k ! i = mnode A lh vs k i"
      using c k i by (simp add: covers_def)
  qed
  then show ?thesis
    using ag ne s(2) sh ys' VL L1(1) len' unfolding version_of_def covers_def by simp
qed

text \<open>Filling in unknown nodes keeps every version.\<close>

lemma version_extends:
  assumes v: "version_of A lh ys L vs V" and x: "extends A lh ys L L'"
  shows "version_of A lh ys L' vs V"
proof -
  have ag: "agrees A lh vs V" and ne: "vs \<noteq> []" and c: "covers A lh vs V L"
    and sh: "take (length vs - 1) ys = take (length vs - 1) vs" and n: "length vs \<le> length ys"
    using v by (auto simp: version_of_def)
  have VL: "length V \<le> length L" using c by (simp add: covers_def)
  have "L' ! k ! i = V ! k ! i \<or> V ! k ! i = alg_null A \<and> L' ! k ! i = mnode A lh vs k i"
    if k: "k < length V" and i: "i + 1 < length (V ! k)" for k i
  proof -
    have iL: "i < length (L ! k)" using c k i by (auto simp: covers_def)
    have "i < (length vs - 1) div 2 ^ k"
      using i agrees_lengths [OF ag k] width_pred [of "length vs" k] ne by simp
    then have "(i + 1) * 2 ^ k \<le> length vs - 1" by (rule Suc_mult_div_le)
    then have m: "mnode A lh ys k i = mnode A lh vs k i"
      using sh n by (intro mnode_take [of "length vs - 1"]) auto
    have "L' ! k ! i = L ! k ! i \<or> L ! k ! i = alg_null A \<and> L' ! k ! i = mnode A lh ys k i"
      using x k VL iL by (simp add: extends_def)
    moreover have "L ! k ! i = V ! k ! i \<or> V ! k ! i = alg_null A \<and> L ! k ! i = mnode A lh vs k i"
      using c k i by (simp add: covers_def)
    ultimately show ?thesis using m by auto
  qed
  moreover have "length (V ! k) \<le> length (L' ! k)" if "k < length V" for k
    using c x that VL by (simp add: covers_def extends_def)
  ultimately show ?thesis
    using ag ne sh n VL x unfolding version_of_def covers_def extends_def by simp
qed

section \<open>Committing a version\<close>

lemma amt_commit_layers:
  assumes R: "represents (node_manager t) L tx" and ag: "agrees A lh ys L" and ne: "ys \<noteq> []"
  shows "amt_commit C D (Some seq) t =
    Inr (t\<lparr>delta_nodes_map := fmupd seq \<lparr>right_most_nodes = right_most L\<rparr> (delta_nodes_map t),
           root_to_tx_seq_map := (root_to_tx_seq_map t)(last L ! 0 \<mapsto> seq)\<rparr>)"
proof -
  have L: "L \<noteq> []" "0 < length L" and lens: "\<And>k. k < length L \<Longrightarrow> 0 < length (L ! k)"
    using ag ne by (auto simp: agrees_def)
  have n: "amt_leaves t = Inr (length (L ! 0))" using tree_reads(4) [OF R L(1)] .
  have "rmap (\<lambda>height. rbind (amt_layer_len t height) (\<lambda>len. let pos = wsub len 1 in
            rbind (amt_node C D t height pos) (\<lambda>x. Inr (pos, x)))) [0..<length L] =
        Inr (map (\<lambda>k. (length (L ! k) - 1, last (L ! k))) [0..<length L])"
  proof (rule rmap_Inr)
    fix k assume "k \<in> set [0..<length L]"
    then have k: "k < length L" by simp
    then have "0 < length (L ! k)" by (rule lens)
    then show "rbind (amt_layer_len t k) (\<lambda>len. let pos = wsub len 1 in
        rbind (amt_node C D t k pos) (\<lambda>x. Inr (pos, x))) = Inr (length (L ! k) - 1, last (L ! k))"
      using tree_reads(2,3) [OF R k] by (simp add: Let_def Suc_leI last_conv_nth)
  qed
  moreover have "map (\<lambda>k. (length (L ! k) - 1, last (L ! k))) [0..<length L] = right_most L"
    by (rule nth_equalityI) (simp_all add: right_most_def)
  moreover have "amt_root C D t = Inr (last L ! 0)"
    using L lens [of "length L - 1"] tree_reads(1) [OF R] tree_reads(3) [OF R, of "length L - 1" 0]
    by (simp add: amt_root_def Suc_leI last_conv_nth)
  ultimately show ?thesis
    using n lens [OF L(2)] tree_reads(1) [OF R] by (simp add: amt_commit_def)
qed

section \<open>Reverting\<close>

lemma truncate_layers:
  assumes "represents (node_manager t) L True" "n \<le> length L"
  shows "yields t (rfold (\<lambda>height. on_nodes (nm_truncate_layer C D height)) (rev [n..<length L]) t) (take n L)"
  using assms
proof (induction "length L - n" arbitrary: t L)
  case 0
  then show ?case by (simp add: yields_refl)
next
  case (Suc m)
  then obtain l where l: "Suc l = length L" "n \<le> l" by (cases "length L") auto
  obtain nm where s: "on_nodes (nm_truncate_layer C D l) t = Inr (t\<lparr>node_manager := nm\<rparr>)"
    and R: "represents nm (butlast L) True"
    using represents_truncate_top [OF Suc.prems(1) l(1)] by (auto simp: on_nodes_def)
  have ups: "rev [n..<length L] = l # rev [n..<length (butlast L)]" using l by (simp flip: l(1))
  have "yields (t\<lparr>node_manager := nm\<rparr>) (rfold (\<lambda>height. on_nodes (nm_truncate_layer C D height))
      (rev [n..<length (butlast L)]) (t\<lparr>node_manager := nm\<rparr>)) (take n (butlast L))"
    using Suc.hyps(2) l R by (intro Suc.hyps(1)) auto
  moreover have "take n (butlast L) = take n L" using l by (simp add: take_butlast)
  ultimately show ?case unfolding ups using s by (simp add: yields_def)
qed

lemma restore_right_most:
  assumes "represents (node_manager t) X True" "j + length rms \<le> length X"
    and "\<And>k. k < length rms \<Longrightarrow> fst (rms ! k) < length (X ! (j + k))"
  shows "\<exists>X'. yields t (rfold (\<lambda>(height, last_index, right_most_node) t.
            rbind (on_nodes (nm_truncate_nodes C D height (last_index + 1)) t) (\<lambda>t.
            update_node C D height last_index right_most_node t)) (enumerate j rms) t) X' \<and>
    length X' = length X \<and>
    (\<forall>k < length X. X' ! k =
       (if j \<le> k \<and> k < j + length rms
        then take (fst (rms ! (k - j))) (X ! k) @ [snd (rms ! (k - j))] else X ! k))"
  using assms
proof (induction rms arbitrary: t X j)
  case Nil
  then show ?case by (intro exI [of _ X]) (auto simp: yields_refl)
next
  case (Cons r rms)
  obtain p x where r: "r = (p, x)" by fastforce
  let ?f = "\<lambda>(height, last_index, right_most_node) t.
            rbind (on_nodes (nm_truncate_nodes C D height (last_index + 1)) t) (\<lambda>t.
            update_node C D height last_index right_most_node t)"
  have j: "j < length X" "p < length (X ! j)" using Cons.prems(2) Cons.prems(3) [of 0] by (auto simp: r)
  obtain nm1 where s1: "on_nodes (nm_truncate_nodes C D j (p + 1)) t = Inr (t\<lparr>node_manager := nm1\<rparr>)"
    and R1: "represents nm1 (X[j := take (p + 1) (X ! j)]) True"
    using represents_truncate_nodes [OF Cons.prems(1) j(1), of "p + 1"] j(2) by (auto simp: on_nodes_def)
  let ?X1 = "X[j := take p (X ! j) @ [x]]"
  have "(take (p + 1) (X ! j))[p := x] = take p (X ! j) @ [x]"
    using j(2) by (simp add: take_Suc_conv_app_nth list_update_append)
  then obtain nm2 where s2: "update_node C D j p x (t\<lparr>node_manager := nm1\<rparr>) = Inr (t\<lparr>node_manager := nm2\<rparr>)"
    and R2: "represents nm2 ?X1 True"
    using yields_update [of "t\<lparr>node_manager := nm1\<rparr>" "X[j := take (p + 1) (X ! j)]" j p x] R1 j
    by (auto simp: yields_def)
  have "\<exists>X'. yields (t\<lparr>node_manager := nm2\<rparr>) (rfold ?f (enumerate (Suc j) rms) (t\<lparr>node_manager := nm2\<rparr>)) X' \<and>
    length X' = length ?X1 \<and>
    (\<forall>k < length ?X1. X' ! k =
       (if Suc j \<le> k \<and> k < Suc j + length rms
        then take (fst (rms ! (k - Suc j))) (?X1 ! k) @ [snd (rms ! (k - Suc j))] else ?X1 ! k))"
    using R2 Cons.prems(2) Cons.prems(3) [of "Suc _"] by (intro Cons.IH) auto
  then obtain X' where "yields (t\<lparr>node_manager := nm2\<rparr>) (rfold ?f (enumerate (Suc j) rms) (t\<lparr>node_manager := nm2\<rparr>)) X'"
    and X': "length X' = length X" "\<And>k. k < length X \<Longrightarrow> X' ! k =
       (if Suc j \<le> k \<and> k < Suc j + length rms
        then take (fst (rms ! (k - Suc j))) (?X1 ! k) @ [snd (rms ! (k - Suc j))] else ?X1 ! k)"
    by auto
  then have "yields t (rfold ?f (enumerate j (r # rms)) t) X'"
    using s1 s2 by (simp add: r yields_def)
  moreover have "X' ! k = (if j \<le> k \<and> k < j + length (r # rms)
      then take (fst ((r # rms) ! (k - j))) (X ! k) @ [snd ((r # rms) ! (k - j))] else X ! k)"
    if "k < length X" for k
    using X'(2) [OF that] j(1) by (cases "k = j") (auto simp: r nth_Cons' Suc_diff_Suc)
  ultimately show ?case using X'(1) by blast
qed

lemma revert_to_layers:
  assumes v: "version_of A lh ys L vs V" and R: "represents (node_manager t) L False"
    and found: "fmlookup (delta_nodes_map t) seq = Some \<lparr>right_most_nodes = right_most V\<rparr>"
  shows "\<exists>t' L'. revert_to C D seq t = Inr (t', Inr ()) \<and> represents (node_manager t') L' False \<and>
    extends A lh vs V L' \<and> leaf_height t' = leaf_height t \<and> min_depth t' = min_depth t \<and>
    (\<forall>q \<le> seq. fmlookup (delta_nodes_map t') q = fmlookup (delta_nodes_map t) q) \<and>
    (\<forall>q > seq. fmlookup (delta_nodes_map t') q = None \<or>
       fmlookup (delta_nodes_map t') q = fmlookup (delta_nodes_map t) q \<and>
       (\<exists>r. seq < r \<and> r < q \<and> fmlookup (delta_nodes_map t) r = None))"
proof -
  have ag: "agrees A lh vs V" and c: "covers A lh vs V L" and ne: "vs \<noteq> []"
    using v by (auto simp: version_of_def)
  have VL: "length V \<le> length L" and V0: "0 < length V" using c ag by (auto simp: covers_def agrees_def)
  have lens: "0 < length (V ! k)" "length (V ! k) \<le> length (L ! k)" if "k < length V" for k
    using that agrees_lengths [OF ag that] ne c by (auto simp: covers_def)
  have n: "amt_layer_len t 0 = Inr (length (L ! 0))" "0 < length (L ! 0)"
  proof -
    have "0 < length L" using V0 VL by (rule less_le_trans)
    then show "amt_layer_len t 0 = Inr (length (L ! 0))" by (rule tree_reads(2) [OF R])
    show "0 < length (L ! 0)" using lens [OF V0] by (rule less_le_trans)
  qed
  obtain nm1 where st: "start_transaction D t = Inr (t\<lparr>node_manager := nm1\<rparr>)" and R1: "represents nm1 L True"
    using start_transaction_yields [OF R] by (rule yieldsE)
  have H: "amt_height (t\<lparr>node_manager := nm1\<rparr>) = length L"
    using tree_reads(1) [of "t\<lparr>node_manager := nm1\<rparr>" L True] R1 by simp
  obtain nm2 where tr: "rfold (\<lambda>height. on_nodes (nm_truncate_layer C D height))
      (rev [length V..<length L]) (t\<lparr>node_manager := nm1\<rparr>) = Inr (t\<lparr>node_manager := nm2\<rparr>)"
    and R2: "represents nm2 (take (length V) L) True"
    using truncate_layers [of "t\<lparr>node_manager := nm1\<rparr>" L "length V"] R1 VL by (auto simp: yields_def)
  have X: "fst (right_most V ! k) < length (take (length V) L ! (0 + k))" if "k < length (right_most V)" for k
  proof -
    have k: "k < length V" using that by simp
    then have "length (V ! k) - 1 < length (L ! k)" using lens [OF k] by linarith
    then show ?thesis using k by (simp add: right_most_def)
  qed
  obtain nm3 L' where rs: "rfold (\<lambda>(height, last_index, right_most_node) t.
            rbind (on_nodes (nm_truncate_nodes C D height (last_index + 1)) t) (\<lambda>t.
            update_node C D height last_index right_most_node t)) (enumerate 0 (right_most V))
            (t\<lparr>node_manager := nm2\<rparr>) = Inr (t\<lparr>node_manager := nm3\<rparr>)"
    and R3: "represents nm3 L' True" and L': "length L' = length V"
      "\<And>k. k < length V \<Longrightarrow> L' ! k = take (length (V ! k) - 1) (L ! k) @ [last (V ! k)]"
    using restore_right_most [of "t\<lparr>node_manager := nm2\<rparr>" "take (length V) L" 0 "right_most V", OF _ _ X] R2 VL
    by (auto simp: yields_def right_most_def)
  obtain ds rt where cl: "clear_versions (seq + 1) (delta_nodes_map t) (root_to_tx_seq_map t) = Inr (ds, rt)"
    and ds: "\<forall>q < seq + 1. fmlookup ds q = fmlookup (delta_nodes_map t) q"
      "\<forall>q \<ge> seq + 1. fmlookup ds q = None \<or> fmlookup ds q = fmlookup (delta_nodes_map t) q \<and>
         (\<exists>r. seq + 1 \<le> r \<and> r < q \<and> fmlookup (delta_nodes_map t) r = None)"
    using clear_versions_total [of "seq + 1" "delta_nodes_map t" "root_to_tx_seq_map t"] by blast
  let ?t' = "commit_nodes D (t\<lparr>node_manager := nm3, delta_nodes_map := ds, root_to_tx_seq_map := rt\<rparr>)"
  have "revert_to C D seq t = Inr (?t', Inr ())"
    using n st found H tr rs cl by (simp add: revert_to_def clear_after_def)
  moreover have "represents (node_manager ?t') L' False"
    using represents_commit [OF R3] by (simp add: commit_nodes_def)
  moreover have "extends A lh vs V L'"
    unfolding extends_def
  proof (intro conjI allI impI)
    fix k assume k: "k < length V"
    show len: "length (L' ! k) = length (V ! k)" using L'(2) [OF k] lens [OF k] by simp
    fix i assume i: "i < length (V ! k)"
    show "L' ! k ! i = V ! k ! i \<or> V ! k ! i = alg_null A \<and> L' ! k ! i = mnode A lh vs k i"
    proof (cases "i + 1 < length (V ! k)")
      case True
      then have "i < length (V ! k) - 1" by simp
      then have "L' ! k ! i = L ! k ! i" using L'(2) [OF k] lens [OF k] by (simp add: nth_append)
      then show ?thesis using c k True by (simp add: covers_def)
    next
      case False
      then have "i = length (V ! k) - 1" using i by simp
      then show ?thesis using L'(2) [OF k] lens [OF k] by (simp add: nth_append last_conv_nth)
    qed
  qed (use L'(1) in simp)
  ultimately show ?thesis
    using ds by (intro exI [of _ ?t'] exI [of _ L']) (simp add: commit_nodes_def Suc_le_eq)
qed

section \<open>Reading an old version\<close>

lemma extends_full:
  assumes x: "extends A lh vs V L'" and full: "\<And>k. k < length V \<Longrightarrow> alg_null A \<notin> set (V ! k)"
  shows "L' = V"
proof (rule nth_equalityI)
  show "length L' = length V" using x by (simp add: extends_def)
  fix k assume "k < length L'"
  then have k: "k < length V" using x by (simp add: extends_def)
  show "L' ! k = V ! k"
  proof (rule nth_equalityI)
    show "length (L' ! k) = length (V ! k)" using x k by (simp add: extends_def)
    fix i assume "i < length (L' ! k)"
    then have i: "i < length (V ! k)" using x k by (simp add: extends_def)
    then have "V ! k ! i \<noteq> alg_null A" using full [OF k] by (metis nth_mem)
    then show "L' ! k ! i = V ! k ! i" using extends_known [OF x k i] by simp
  qed
qed

lemma history_reads:
  fixes l :: nat
  assumes v: "version_of A lh ys L vs V" and R: "represents nm L tx"
    and full: "\<And>k. k < length V \<Longrightarrow> alg_null A \<notin> set (V ! k)" and k: "k < length V"
  defines "h \<equiv> \<lparr>ht_node_manager = nm, ht_delta_nodes = \<lparr>right_most_nodes = right_most V\<rparr>, ht_leaf_height = l\<rparr>"
  shows "history_height h = length V" and "history_layer_len h k = Inr (length (V ! k))"
    and "i < length (V ! k) \<Longrightarrow> history_node A C D h k i = Inr (V ! k ! i)"
proof -
  have ag: "agrees A lh vs V" and c: "covers A lh vs V L" and ne: "vs \<noteq> []"
    using v by (auto simp: version_of_def)
  have len: "0 < length (V ! k)" using agrees_lengths [OF ag k] ne by simp
  show "history_height h = length V" by (simp add: history_height_def delta_height_def h_def)
  show "history_layer_len h k = Inr (length (V ! k))"
    using k len by (simp add: history_layer_len_def delta_layer_len_def h_def right_most_def)
  assume i: "i < length (V ! k)"
  have nn: "V ! k ! i \<noteq> alg_null A" using full [OF k] i by (metis nth_mem)
  have get: "delta_get (ht_delta_nodes h) k i = Inr (if i = length (V ! k) - 1 then Some (last (V ! k)) else None)"
    using k i by (auto simp: delta_get_def h_def right_most_def)
  show "history_node A C D h k i = Inr (V ! k ! i)"
  proof (cases "i = length (V ! k) - 1")
    case True
    then have "last (V ! k) = V ! k ! i" using len by (simp add: last_conv_nth)
    then show ?thesis using True get nn by (simp add: history_node_def is_null_def)
  next
    case False
    then have i1: "i + 1 < length (V ! k)" using i by simp
    have "k < length L" "i < length (L ! k)" using c k i by (auto simp: covers_def)
    then have "nm_get_node C D nm k i = Some (L ! k ! i)" by (rule represents_get [OF R])
    moreover have "L ! k ! i = V ! k ! i" using c k i1 nn by (auto simp: covers_def)
    ultimately show ?thesis using False get by (simp add: history_node_def h_def)
  qed
qed

end

end
