(* ===== verification/Merkle_Read.thy ===== *)
theory Merkle_Read
  imports History
begin

text \<open>
  Proof generation, the provided methods of the trait \<open>MerkleTreeRead\<close>
  (\<open>common/append_merkle/src/merkle_tree.rs\<close>), and the conversions between proofs over
  \<open>OptionalHash\<close> and over \<open>H256\<close> (\<open>common/append_merkle/src/lib.rs\<close>). The required methods of the
  trait are the record \<open>merkle_tree_read\<close>; \<open>AppendMerkleTree\<close> and \<open>HistoryTree\<close> are its two
  instances. Every proof that is generated from a tree validates against the tree's root.
\<close>

section \<open>The trait MerkleTreeRead\<close>

record 'e merkle_tree_read =
  rd_node :: "nat \<Rightarrow> nat \<Rightarrow> 'e res"
  rd_height :: nat
  rd_layer_len :: "nat \<Rightarrow> nat res"
  rd_padding_node :: "nat \<Rightarrow> 'e"

definition amt_read ::
    "('e, 'z) hash_alg_scheme \<Rightarrow> ('e, 'c) lru_ops \<Rightarrow> ('e, 'd, 't) node_database \<Rightarrow>
     ('e, 'c, 'd, 't) append_merkle_tree \<Rightarrow> 'e merkle_tree_read" where
  "amt_read A C D t =
     \<lparr>rd_node = amt_node C D t, rd_height = amt_height t, rd_layer_len = amt_layer_len t,
      rd_padding_node = amt_padding_node A t\<rparr>"

definition history_read ::
    "('e, 'z) hash_alg_scheme \<Rightarrow> ('e, 'c) lru_ops \<Rightarrow> ('e, 'd, 't) node_database \<Rightarrow>
     ('e, 'c, 'd, 't) history_tree \<Rightarrow> 'e merkle_tree_read" where
  "history_read A C D h =
     \<lparr>rd_node = history_node A C D h, rd_height = history_height h,
      rd_layer_len = history_layer_len h, rd_padding_node = history_padding_node A h\<rparr>"

definition rd_leaves :: "'e merkle_tree_read \<Rightarrow> nat res" where
  "rd_leaves T = rd_layer_len T 0"

definition rd_root :: "'e merkle_tree_read \<Rightarrow> 'e res" where
  "rd_root T = rd_node T (wsub (rd_height T) 1) 0"

text \<open>One iteration of the loop of \<open>gen_proof\<close>; the state is \<open>(lemma, path, index_in_layer)\<close>.\<close>

definition gen_proof_step ::
    "'e merkle_tree_read \<Rightarrow> nat \<Rightarrow> 'e list \<times> bool list \<times> nat \<Rightarrow> ('e list \<times> bool list \<times> nat) res" where
  "gen_proof_step T height = (\<lambda>(ls, path, index_in_layer).
     if index_in_layer mod 2 = 0 then
       rbind (rd_layer_len T height) (\<lambda>len.
       rbind (if index_in_layer + 1 = len then Inr (rd_padding_node T height)
              else rd_node T height (index_in_layer + 1)) (\<lambda>s.
       Inr (ls @ [s], path @ [True], index_in_layer div 2)))
     else
       rbind (rd_node T height (index_in_layer - 1)) (\<lambda>s.
       Inr (ls @ [s], path @ [False], index_in_layer div 2)))"

definition gen_proof ::
    "('e, 'z) hash_alg_scheme \<Rightarrow> 'e merkle_tree_read \<Rightarrow> nat \<Rightarrow> 'e merkle_proof res" where
  "gen_proof A T leaf_index =
     rbind (rd_leaves T) (\<lambda>n.
     if leaf_index \<ge> n then Inl (Err ''leaf index out of bound'')
     else rbind (rd_node T 0 leaf_index) (\<lambda>leaf.
     if is_null A leaf then Inl (Err ''Not ready to generate proof'')
     else if rd_height T = 1 then rbind (rd_root T) (\<lambda>root. proof_new [root, root] [])
     else
       rbind (rfold (gen_proof_step T) [0..<wsub (rd_height T) 1] ([leaf], [], leaf_index)) (\<lambda>(ls, path, i).
       rbind (rd_root T) (\<lambda>root.
       let ls = ls @ [root] in
       if list_ex (is_null A) ls then Inl (Err ''Not enough data to generate proof'')
       else proof_new ls path))))"

definition gen_range_proof ::
    "('e, 'z) hash_alg_scheme \<Rightarrow> 'e merkle_tree_read \<Rightarrow> nat \<Rightarrow> nat \<Rightarrow> 'e range_proof res" where
  "gen_range_proof A T start_index end_index =
     (if end_index \<le> start_index then Inl (Err ''invalid proof range'')
      else rbind (gen_proof A T start_index) (\<lambda>l.
           rbind (gen_proof A T (end_index - 1)) (\<lambda>r.
           Inr \<lparr>left_proof = l, right_proof = r\<rparr>)))"

section \<open>Conversions\<close>

definition convert_proof_to_h256 :: "optional_hash merkle_proof \<Rightarrow> h256 merkle_proof res" where
  "convert_proof_to_h256 p =
     rbind (rmap (ok_or (Err ''Cannot convert null OptionalHash to H256'')) (lemma_of p)) (\<lambda>ls.
     proof_new ls (path_of p))"

definition convert_range_proof_to_h256 :: "optional_hash range_proof \<Rightarrow> h256 range_proof res" where
  "convert_range_proof_to_h256 rp =
     rbind (convert_proof_to_h256 (left_proof rp)) (\<lambda>l.
     rbind (convert_proof_to_h256 (right_proof rp)) (\<lambda>r.
     Inr \<lparr>left_proof = l, right_proof = r\<rparr>))"

definition convert_proof_from_h256 :: "h256 merkle_proof \<Rightarrow> optional_hash merkle_proof res" where
  "convert_proof_from_h256 p = proof_new (map Some (lemma_of p)) (path_of p)"

definition convert_range_proof_from_h256 :: "h256 range_proof \<Rightarrow> optional_hash range_proof res" where
  "convert_range_proof_from_h256 rp =
     rbind (convert_proof_from_h256 (left_proof rp)) (\<lambda>l.
     rbind (convert_proof_from_h256 (right_proof rp)) (\<lambda>r.
     Inr \<lparr>left_proof = l, right_proof = r\<rparr>))"

definition gen_proof_h256 ::
    "(byte list \<Rightarrow> h256) \<Rightarrow> optional_hash merkle_tree_read \<Rightarrow> nat \<Rightarrow> h256 merkle_proof res" where
  "gen_proof_h256 keccak T leaf_index =
     rbind (gen_proof (sha3_optional keccak) T leaf_index) convert_proof_to_h256"

definition gen_range_proof_h256 ::
    "(byte list \<Rightarrow> h256) \<Rightarrow> optional_hash merkle_tree_read \<Rightarrow> nat \<Rightarrow> nat \<Rightarrow> h256 range_proof res" where
  "gen_range_proof_h256 keccak T start_index end_index =
     rbind (gen_range_proof (sha3_optional keccak) T start_index end_index) convert_range_proof_to_h256"

definition root_h256 :: "optional_hash merkle_tree_read \<Rightarrow> h256 res" where
  "root_h256 T = rbind (rd_root T) (ok_or (Panic ''unwrap on None''))"

section \<open>Generated proofs\<close>

text \<open>The reads of a full tree over the leaves \<open>ys\<close> with \<open>H\<close> layers.\<close>

definition reads_tree ::
    "('e, 'z) hash_alg_scheme \<Rightarrow> nat \<Rightarrow> nat \<Rightarrow> 'e list \<Rightarrow> 'e merkle_tree_read \<Rightarrow> bool" where
  "reads_tree A lh H ys T \<longleftrightarrow>
     rd_height T = H \<and> tree_depth (length ys) \<le> H \<and>
     (\<forall>k < H. rd_layer_len T k = Inr (width (length ys) k) \<and>
        (\<forall>i < width (length ys) k. rd_node T k i = Inr (mnode A lh ys k i))) \<and>
     (\<forall>k. rd_padding_node T k = alg_end_pad A (k + lh))"

text \<open>The proof that a full tree generates for leaf \<open>i\<close>: siblings of the first \<open>m\<close> layers and the root.\<close>

definition tree_proof :: "('e, 'z) hash_alg_scheme \<Rightarrow> nat \<Rightarrow> nat \<Rightarrow> 'e list \<Rightarrow> nat \<Rightarrow> 'e merkle_proof" where
  "tree_proof A lh m ys i =
     \<lparr>lemma_of = mnode A lh ys 0 i
        # map (\<lambda>k. mnode A lh ys k (if even (i div 2 ^ k) then i div 2 ^ k + 1 else i div 2 ^ k - 1)) [0..<m]
        @ [mnode A lh ys m 0],
      path_of = map (\<lambda>k. even (i div 2 ^ k)) [0..<m]\<rparr>"

context merkle_algorithm
begin

text \<open>The sibling of the node \<open>i\<close> in layer \<open>k\<close>, padding included.\<close>

lemma gen_proof_step_tree:
  assumes T: "reads_tree A lh H ys T" and k: "k + 1 < H" and i: "i < width (length ys) k"
  shows "gen_proof_step T k (ls, bs, i) =
    Inr (ls @ [mnode A lh ys k (if even i then i + 1 else i - 1)], bs @ [even i], i div 2)"
proof -
  have rd: "rd_layer_len T k = Inr (width (length ys) k)"
    "\<And>j. j < width (length ys) k \<Longrightarrow> rd_node T k j = Inr (mnode A lh ys k j)"
    "rd_padding_node T k = alg_end_pad A (k + lh)"
    using T k by (auto simp: reads_tree_def)
  show ?thesis
  proof (cases "even i")
    case True
    have "(if i + 1 = width (length ys) k then Inr (alg_end_pad A (k + lh)) else rd_node T k (i + 1)) =
        Inr (mnode A lh ys k (i + 1))"
      using i rd(2) [of "i + 1"] by (auto simp: mnode_beyond)
    then show ?thesis using True rd by (auto simp: gen_proof_step_def mnode_beyond split: if_splits)
  next
    case False
    then show ?thesis using i rd(2) [of "i - 1"] by (simp add: gen_proof_step_def mod_2_eq_odd)
  qed
qed

lemma gen_proof_loop_tree:
  assumes T: "reads_tree A lh H ys T" and i: "i < length ys" and m: "m < H"
  shows "rfold (gen_proof_step T) [0..<m] ([x], [], i) =
    Inr (x # map (\<lambda>k. mnode A lh ys k (if even (i div 2 ^ k) then i div 2 ^ k + 1 else i div 2 ^ k - 1)) [0..<m],
         map (\<lambda>k. even (i div 2 ^ k)) [0..<m], i div 2 ^ m)"
  using m
proof (induction m)
  case 0
  then show ?case by simp
next
  case (Suc m)
  have "i div 2 ^ m < width (length ys) m" using i by (rule div_less_width)
  then show ?case
    using Suc gen_proof_step_tree [OF T, of m "i div 2 ^ m"] by (simp add: rfold_append div_pow_Suc del: power_Suc)
qed

lemma reads_tree_top:
  assumes T: "reads_tree A lh H ys T" and i: "i < length ys"
  shows "0 < H" "i div 2 ^ (H - 1) = 0" "width (length ys) (H - 1) = 1"
proof -
  show H: "0 < H" using T tree_depth_pos [of "length ys"] by (simp add: reads_tree_def)
  have "width (length ys) (H - 1) \<le> 1" using T H unfolding reads_tree_def width_le_1_iff by simp
  moreover have "i div 2 ^ (H - 1) < width (length ys) (H - 1)" using i by (rule div_less_width)
  ultimately show "i div 2 ^ (H - 1) = 0" "width (length ys) (H - 1) = 1" by auto
qed

lemma gen_proof_tree:
  assumes T: "reads_tree A lh H ys T" and i: "i < length ys" and known: "alg_null A \<notin> set ys"
  shows "gen_proof A T i = Inr (tree_proof A lh (H - 1) ys i)"
proof -
  note top = reads_tree_top [OF T i]
  have H: "rd_height T = H" and n: "rd_leaves T = Inr (length ys)"
    and leaf: "rd_node T 0 i = Inr (mnode A lh ys 0 i)" and root: "rd_root T = Inr (mnode A lh ys (H - 1) 0)"
    using T top i by (auto simp: reads_tree_def rd_leaves_def rd_root_def)
  have nn: "\<not> is_null A (mnode A lh ys k j)" for k j using mnode_known [OF known] by (simp add: is_null_def)
  show ?thesis
  proof (cases "H = 1")
    case True
    then have "i = 0" using top(2) by simp
    then show ?thesis
      using True H n leaf root nn i by (simp add: gen_proof_def proof_new_def tree_proof_def del: mnode.simps)
  next
    case False
    then show ?thesis
      using H n leaf root nn i top(1) gen_proof_loop_tree [OF T i, of "H - 1" "mnode A lh ys 0 i"]
      by (simp add: gen_proof_def proof_new_def tree_proof_def Let_def list_ex_iff del: mnode.simps)
  qed
qed

lemma path_pos_bits: "path_pos (map (\<lambda>k. even (i div 2 ^ k)) [0..<m]) = i mod 2 ^ m"
proof (induction m)
  case (Suc m)
  have "i mod 2 ^ Suc m = i mod 2 ^ m + (if even (i div 2 ^ m) then 0 else 2 ^ m)"
    by (simp add: power_Suc2 mod_mult2_eq mod_2_eq_odd del: power_Suc)
  then show ?case using Suc by (simp add: path_pos_snoc)
qed simp

lemma tree_proof_simps [simp]:
  "length (path_of (tree_proof A lh m ys i)) = m"
  "length (lemma_of (tree_proof A lh m ys i)) = m + 2"
  "proof_root (tree_proof A lh m ys i) = Inr (mnode A lh ys m 0)"
  "proof_item (tree_proof A lh m ys i) = Inr (mnode A lh ys 0 i)"
  by (simp_all add: tree_proof_def proof_root_def proof_item_def)

lemma tree_proof_position:
  assumes "m \<le> 64" "i < 2 ^ m"
  shows "proof_position (tree_proof A lh m ys i) = i"
proof -
  have "proof_position (tree_proof A lh m ys i) = path_pos (path_of (tree_proof A lh m ys i))"
    using assms(1) by (intro proof_position_eq) simp
  then show ?thesis using assms(2) by (simp add: tree_proof_def path_pos_bits)
qed

lemma tree_proof_integrity:
  assumes "i < 2 ^ m"
  shows "validate_integrity A (tree_proof A lh m ys i) = Inr True"
proof -
  let ?p = "tree_proof A lh m ys i"
  have "climb A (mnode A lh ys 0 i) (path_of ?p) (proof_siblings ?p) =
      mnode A lh ys (0 + length (path_of ?p)) (i div 2 ^ length (path_of ?p))"
    by (rule climb_complete) (auto simp: tree_proof_def proof_siblings_def butlast_append nth_append)
  then show ?thesis
    using assms by (subst validate_integrity_wf) (auto simp: tree_proof_def simp del: mnode.simps)
qed

lemma tree_proof_validates:
  assumes "m \<le> 64" "i < 2 ^ m"
  shows "proof_validate A (tree_proof A lh m ys i) (mnode A lh ys 0 i) i = Inr ()"
  using tree_proof_position [OF assms] tree_proof_integrity [OF assms(2)]
  by (simp add: proof_validate_def del: mnode.simps)

section \<open>Generated range proofs\<close>

lemma pair_parents_tree:
  assumes "a \<le> b"
  shows "pair_parents A (map (mnode A lh ys h) [2 * a..<2 * b]) = map (mnode A lh ys (Suc h)) [a..<b]"
    and "pair_remainder (map (mnode A lh ys h) [2 * a..<2 * b]) = []"
    and "pair_parents A (map (mnode A lh ys h) [2 * a..<2 * b + 1]) = map (mnode A lh ys (Suc h)) [a..<b]"
    and "pair_remainder (map (mnode A lh ys h) [2 * a..<2 * b + 1]) = [mnode A lh ys h (2 * b)]"
  using assms
proof (induction "b - a" arbitrary: a)
  case (Suc n)
  then have ab: "a < b" by simp
  have u: "[2 * a..<2 * b] = 2 * a # (2 * a + 1) # [2 * (a + 1)..<2 * b]"
    "[2 * a..<2 * b + 1] = 2 * a # (2 * a + 1) # [2 * (a + 1)..<2 * b + 1]"
    "[a..<b] = a # [a + 1..<b]"
    using ab by (simp_all add: upt_conv_Cons del: upt_Suc)
  have n: "n = b - (a + 1)" "a + 1 \<le> b" using Suc.hyps(5) ab by auto
  note IH = Suc.hyps(1-4) [OF n]
  {
    case 1
    show ?case unfolding u using IH(1) by simp
  next
    case 2
    show ?case unfolding u using IH(2) by simp
  next
    case 3
    show ?case unfolding u using IH(3) by simp
  next
    case 4
    show ?case unfolding u using IH(4) by simp
  }
qed auto

lemma range_layer_up_tree:
  assumes h: "h < m" and lr: "l div 2 ^ h \<le> r div 2 ^ h"
    and rp: "rp = \<lparr>left_proof = tree_proof A lh m ys l, right_proof = tree_proof A lh m ys r\<rparr>"
  shows "range_layer_up A rp h (map (mnode A lh ys h) [l div 2 ^ h..<r div 2 ^ h + 1]) =
    Inr (map (mnode A lh ys (Suc h)) [l div 2 ^ Suc h..<r div 2 ^ Suc h + 1])"
proof -
  let ?M = "mnode A lh ys"
  define i j where "i = l div 2 ^ h" and "j = r div 2 ^ h"
  define a where "a = (i + 1) div 2"
  have ij: "i \<le> j" using lr by (simp add: i_def j_def)
  have len: "h < length (path_of (left_proof rp))" "h < length (path_of (right_proof rp))"
      "h + 1 < length (lemma_of (left_proof rp))" "h + 1 < length (lemma_of (right_proof rp))"
    and bits: "path_of (left_proof rp) ! h = even i" "path_of (right_proof rp) ! h = even j"
    and sib: "lemma_of (left_proof rp) ! (h + 1) = ?M h (if even i then i + 1 else i - 1)"
      "lemma_of (right_proof rp) ! (h + 1) = ?M h (if even j then j + 1 else j - 1)"
    using h by (simp_all add: rp tree_proof_def nth_append i_def j_def)
  let ?cur = "map (?M h) [i..<j + 1]" and ?rest = "map (?M h) [2 * a..<j + 1]"
  have cur: "?cur = ?M h i # map (?M h) [i + 1..<j + 1]" using ij by (simp add: upt_conv_Cons del: upt_Suc)
  have start: "(if \<not> even i
            then rbind (index (lemma_of (left_proof rp)) (h + 1)) (\<lambda>s.
                 rbind (index ?cur 0) (\<lambda>c. Inr ([alg_parent A s c], 1)))
            else Inr ([], 0)) = Inr (map (?M (Suc h)) [i div 2..<a], i mod 2)"
  proof (cases "even i")
    case True
    then have "a = i div 2" by (auto simp: a_def)
    then show ?thesis using True by auto
  next
    case False
    then have e: "2 * (i div 2) = i - 1" "2 * (i div 2) + 1 = i" "a = i div 2 + 1" "i mod 2 = 1"
      by (auto simp: a_def elim!: oddE)
    have c0: "index ?cur 0 = Inr (?M h i)" unfolding cur by simp
    have "?M (Suc h) (i div 2) = alg_parent A (?M h (i - 1)) (?M h i)"
      unfolding mnode.simps e(1) by (metis e(1,2))
    moreover have "[i div 2..<a] = [i div 2]" using e(3) by simp
    ultimately show ?thesis using False len sib(1) c0 e(4) by (simp del: mnode.simps upt_Suc)
  qed
  have rest: "drop (i mod 2) ?cur = ?rest"
    unfolding drop_map drop_upt a_def by (auto simp: mod_2_eq_odd elim!: evenE oddE simp del: upt_Suc)
  have body: "range_layer_up A rp h ?cur =
      (let parent_layer = map (?M (Suc h)) [i div 2..<a] @ pair_parents A ?rest
       in case pair_remainder ?rest of
            [z] \<Rightarrow> rbind (index (path_of (right_proof rp)) h) (\<lambda>rbit.
              if rbit then rbind (index (lemma_of (right_proof rp)) (h + 1)) (\<lambda>s.
                 Inr (parent_layer @ [alg_parent A z s])) else Inl (Err ''Unexpected error''))
          | _ \<Rightarrow> Inr parent_layer)"
    unfolding range_layer_up_def index_in [OF len(1)] rbind_Inr bits(1) start prod.case Let_def rest ..
  have join: "map (?M (Suc h)) [i div 2..<a] @ map (?M (Suc h)) [a..<b] = map (?M (Suc h)) [i div 2..<b]"
    if "a \<le> b" for b
    using that upt_split [of "i div 2" a b] unfolding a_def by (simp del: mnode.simps)
  have "range_layer_up A rp h ?cur = Inr (map (?M (Suc h)) [i div 2..<j div 2 + 1])"
  proof (cases "even j")
    case False
    then have e: "j + 1 = 2 * (j div 2 + 1)" "a \<le> j div 2 + 1" using ij by (auto simp: a_def elim!: oddE)
    show ?thesis
      unfolding body unfolding Let_def e(1) pair_parents_tree(1,2) [OF e(2)] join [OF e(2)] by (simp del: mnode.simps upt_Suc)
  next
    case True
    then have e: "j + 1 = 2 * (j div 2) + 1" "a \<le> j div 2" using ij by (auto simp: a_def elim!: evenE)
    have "?M (Suc h) (j div 2) = alg_parent A (?M h (2 * (j div 2))) (?M h (j + 1))"
      using e(1) by simp
    moreover have "i div 2 \<le> j div 2" using ij by (rule div_le_mono)
    ultimately show ?thesis
      unfolding body unfolding Let_def e(1) pair_parents_tree(3,4) [OF e(2)] join [OF e(2)]
      using len sib(2) bits(2) True by (simp del: mnode.simps add: upt_Suc_append)
  qed
  then show ?thesis by (simp only: i_def j_def div_pow_Suc)
qed

lemma range_loop_tree:
  assumes rp: "rp = \<lparr>left_proof = tree_proof A lh m ys l, right_proof = tree_proof A lh m ys r\<rparr>"
    and lr: "l \<le> r" and k: "k \<le> m"
  shows "rfold (\<lambda>height (children_layer, current_layer).
            rbind (range_layer_up A rp height current_layer) (\<lambda>pl. Inr (pl, pl)))
         [0..<k] ([], map (mnode A lh ys 0) [l..<r + 1]) =
       Inr (if k = 0 then [] else map (mnode A lh ys k) [l div 2 ^ k..<r div 2 ^ k + 1],
            map (mnode A lh ys k) [l div 2 ^ k..<r div 2 ^ k + 1])"
  using k
proof (induction k)
  case 0
  then show ?case by simp
next
  case (Suc k)
  have "l div 2 ^ k \<le> r div 2 ^ k" using lr by (rule div_le_mono)
  then have "range_layer_up A rp k (map (mnode A lh ys k) [l div 2 ^ k..<r div 2 ^ k + 1]) =
      Inr (map (mnode A lh ys (Suc k)) [l div 2 ^ Suc k..<r div 2 ^ Suc k + 1])"
    using Suc.prems by (intro range_layer_up_tree [OF _ _ rp]) simp_all
  then show ?case
    using Suc by (simp add: rfold_append del: mnode.simps power_Suc upt_Suc) (simp add: upt_Suc_append rfold_append del: mnode.simps power_Suc upt_Suc)
qed

lemma tree_range_validates:
  assumes m: "m \<le> 64" and lr: "l \<le> r" "r < 2 ^ m" and leaves: "leaves = map (mnode A lh ys 0) [l..<r + 1]"
  shows "range_validate A \<lparr>left_proof = tree_proof A lh m ys l, right_proof = tree_proof A lh m ys r\<rparr> leaves l = Inr ()"
proof -
  let ?rp = "\<lparr>left_proof = tree_proof A lh m ys l, right_proof = tree_proof A lh m ys r\<rparr>"
  have l: "l < 2 ^ m" using lr by simp
  have integ: "range_integrity A ?rp = Inr True"
    using tree_proof_integrity [OF l] tree_proof_integrity [OF lr(2)] by (simp add: range_integrity_def)
  have ends: "leaves \<noteq> []" "hd leaves = mnode A lh ys 0 l" "last leaves = mnode A lh ys 0 r" "l + length leaves - 1 = r"
    using lr by (simp_all add: leaves upt_rec [of l] last_map del: mnode.simps upt_Suc)
  have top: "l div 2 ^ m = 0" "r div 2 ^ m = 0" using l lr by simp_all
  have u: "[0..<Suc 0] = [0]" by simp
  show ?thesis
    using integ ends m l lr tree_proof_position [OF m l, of lh ys] tree_proof_position [OF m lr(2), of lh ys]
      range_loop_tree [OF refl lr(1) le_refl, of lh m ys] top
    by (cases "m = 0") (simp_all add: range_validate_def Let_def range_root_def leaves u del: mnode.simps upt_Suc)
qed

end

section \<open>Round trips of the conversions\<close>

lemma rmap_ok_or_map: "rmap (ok_or e) (map Some xs) = Inr xs"
  by (induction xs) auto

lemma convert_proof_round_trip:
  assumes "length (lemma_of p) = length (path_of p) + 2"
  shows "rbind (convert_proof_from_h256 p) convert_proof_to_h256 = Inr p"
  using assms
  by (simp add: convert_proof_from_h256_def convert_proof_to_h256_def proof_new_def rmap_ok_or_map)

section \<open>The two instances\<close>

context append_tree
begin

lemma amt_reads_tree:
  assumes R: "represents (node_manager t) (tree_of A lh H ys) tx" and lh: "leaf_height t = lh"
    and H: "tree_depth (length ys) \<le> H"
  shows "reads_tree A lh H ys (amt_read A C D t)"
  using tree_reads [OF R] H lh
  by (auto simp: reads_tree_def amt_read_def amt_padding_node_def)

lemma history_reads_tree:
  assumes v: "version_of A lh ys L vs (tree_of A lh H vs)" and R: "represents nm L tx"
    and H: "tree_depth (length vs) \<le> H"
  shows "reads_tree A lh H vs (history_read A C D
    \<lparr>ht_node_manager = nm, ht_delta_nodes = \<lparr>right_most_nodes = right_most (tree_of A lh H vs)\<rparr>, ht_leaf_height = lh\<rparr>)"
proof -
  have known: "alg_null A \<notin> set vs" using v by (simp add: version_of_def agrees_def)
  have H0: "0 < H" using H tree_depth_pos [of "length vs"] by simp
  have full: "alg_null A \<notin> set (tree_of A lh H vs ! k)" if "k < length (tree_of A lh H vs)" for k
    using that by (intro tree_of_known [OF known]) simp
  note rd = history_reads [OF v R full, where l = lh]
  show ?thesis
    using rd(1) [of 0] rd(2) rd(3) H H0
    by (auto simp: reads_tree_def history_read_def history_padding_node_def)
qed

end

end
