(* ===== verification/Tree_Refinement.thy ===== *)
theory Tree_Refinement
  imports Merkle_Read
begin

text \<open>
  What \<open>AppendMerkleTree\<close> promises to its callers, as an abstract machine: a list of leaves, the
  number of layers, and the list of committed versions. Any sequence of appends, replacements of
  the last leaf, commits and reverts runs without a panic and keeps the tree equal to the
  reference tree over the abstract leaves, with every committed version still readable.
\<close>

section \<open>The abstract machine\<close>

datatype 'e tree_op =
    Append 'e
  | Append_List "'e list"
  | Update_Last 'e
  | Commit nat
  | Revert_To nat

record 'e tree_spec =
  spec_leaves :: "'e list"
  spec_height :: nat
  spec_versions :: "(nat \<times> 'e list) list"

text \<open>
  Versions carry consecutive sequence numbers from \<open>a\<close> on, as the log manager commits one version
  per transaction.
\<close>

definition valid_op :: "('e, 'z) hash_alg_scheme \<Rightarrow> nat \<Rightarrow> 'e tree_spec \<Rightarrow> 'e tree_op \<Rightarrow> bool" where
  "valid_op A a s op =
     (case op of
        Append x \<Rightarrow> x \<noteq> alg_null A
      | Append_List zs \<Rightarrow> zs \<noteq> [] \<and> alg_null A \<notin> set zs
      | Update_Last x \<Rightarrow> x \<noteq> alg_null A
      | Commit q \<Rightarrow> q = a + length (spec_versions s) \<and> spec_leaves s \<noteq> []
      | Revert_To q \<Rightarrow> a \<le> q \<and> q < a + length (spec_versions s))"

definition spec_append :: "'e list \<Rightarrow> 'e tree_spec \<Rightarrow> 'e tree_spec" where
  "spec_append zs s =
     s\<lparr>spec_leaves := spec_leaves s @ zs,
       spec_height := max (spec_height s) (tree_depth (length (spec_leaves s @ zs)))\<rparr>"

definition spec_op :: "nat \<Rightarrow> 'e tree_op \<Rightarrow> 'e tree_spec \<Rightarrow> 'e tree_spec" where
  "spec_op a op s =
     (case op of
        Append x \<Rightarrow> spec_append [x] s
      | Append_List zs \<Rightarrow> spec_append zs s
      | Update_Last x \<Rightarrow>
          (if spec_leaves s = [] then spec_append [x] s
           else s\<lparr>spec_leaves := (spec_leaves s)[length (spec_leaves s) - 1 := x]\<rparr>)
      | Commit q \<Rightarrow> s\<lparr>spec_versions := spec_versions s @ [(spec_height s, spec_leaves s)]\<rparr>
      | Revert_To q \<Rightarrow>
          s\<lparr>spec_leaves := snd (spec_versions s ! (q - a)), spec_height := fst (spec_versions s ! (q - a)),
            spec_versions := take (q - a + 1) (spec_versions s)\<rparr>)"

fun valid_ops :: "('e, 'z) hash_alg_scheme \<Rightarrow> nat \<Rightarrow> 'e tree_spec \<Rightarrow> 'e tree_op list \<Rightarrow> bool" where
  "valid_ops A a s [] \<longleftrightarrow> True"
| "valid_ops A a s (op # ops) \<longleftrightarrow> valid_op A a s op \<and> valid_ops A a (spec_op a op s) ops"

section \<open>The same operations on the tree\<close>

definition tree_op ::
    "('e, 'z) hash_alg_scheme \<Rightarrow> ('e, 'c) lru_ops \<Rightarrow> ('e, 'd, 't) node_database \<Rightarrow> 'e tree_op \<Rightarrow>
     ('e, 'c, 'd, 't) append_merkle_tree \<Rightarrow> ('e, 'c, 'd, 't) append_merkle_tree res" where
  "tree_op A C D op t =
     (case op of
        Append x \<Rightarrow> amt_append A C D x t
      | Append_List zs \<Rightarrow> append_list A C D zs t
      | Update_Last x \<Rightarrow> update_last A C D x t
      | Commit q \<Rightarrow> amt_commit C D (Some q) t
      | Revert_To q \<Rightarrow> rbind (revert_to C D q t) (\<lambda>(t, r). rbind r (\<lambda>_. Inr t)))"

text \<open>The layers of a version, and the version map of a list of versions.\<close>

definition version_tree :: "('e, 'z) hash_alg_scheme \<Rightarrow> nat \<Rightarrow> nat \<times> 'e list \<Rightarrow> 'e list list" where
  "version_tree A lh v = tree_of A lh (fst v) (snd v)"

definition version_map ::
    "('e, 'z) hash_alg_scheme \<Rightarrow> nat \<Rightarrow> nat \<Rightarrow> (nat \<times> 'e list) list \<Rightarrow> (nat, 'e delta_nodes) fmap \<Rightarrow> bool" where
  "version_map A lh a vers ds \<longleftrightarrow>
     (\<forall>q. fmlookup ds q =
        (if a \<le> q \<and> q < a + length vers
         then Some \<lparr>right_most_nodes = right_most (version_tree A lh (vers ! (q - a)))\<rparr> else None))"

text \<open>
  The tree refines the abstract state: its layers are the reference tree, the version map holds
  exactly the abstract versions, and these are versions of the tree and of each other in order.
\<close>

definition refines ::
    "('e, 'z) hash_alg_scheme \<Rightarrow> ('e, 'c) lru_ops \<Rightarrow> ('e, 'd, 't) node_database \<Rightarrow> ('t \<Rightarrow> node_key set) \<Rightarrow>
     nat \<Rightarrow> nat \<Rightarrow> ('e, 'c, 'd, 't) append_merkle_tree \<Rightarrow> 'e tree_spec \<Rightarrow> bool" where
  "refines A C D touched lh a t s \<longleftrightarrow>
     nm_represents C D touched (node_manager t) (tree_of A lh (spec_height s) (spec_leaves s)) False \<and>
     leaf_height t = lh \<and> alg_null A \<notin> set (spec_leaves s) \<and>
     tree_depth (length (spec_leaves s)) \<le> spec_height s \<and>
     version_map A lh a (spec_versions s) (delta_nodes_map t) \<and>
     (\<forall>v \<in> set (spec_versions s). tree_depth (length (snd v)) \<le> fst v \<and>
        version_of A lh (spec_leaves s) (tree_of A lh (spec_height s) (spec_leaves s)) (snd v) (version_tree A lh v)) \<and>
     sorted_wrt (\<lambda>w v. version_of A lh (snd v) (version_tree A lh v) (snd w) (version_tree A lh w)) (spec_versions s)"

context append_tree
begin

text \<open>Versions survive an append and a replacement of the last leaf of a full tree.\<close>

lemma version_append_full:
  assumes v: "version_of A lh ys (tree_of A lh H ys) vs V" and H: "tree_depth (length ys) \<le> H"
    and ys': "length vs \<le> length ys'" "take (length vs - 1) ys' = take (length vs - 1) ys" "H \<le> H'"
  shows "version_of A lh ys' (tree_of A lh H' ys') vs V"
proof -
  have c: "covers A lh vs V (tree_of A lh H ys)" and ag: "agrees A lh vs V" and ne: "vs \<noteq> []"
    and n: "length vs \<le> length ys"
    using v by (auto simp: version_of_def)
  have VH: "length V \<le> H" using c by (simp add: covers_def)
  have "covers A lh vs V (tree_of A lh H' ys')"
    unfolding covers_def
  proof (intro conjI allI impI)
    show "length V \<le> length (tree_of A lh H' ys')" using VH ys'(3) by simp
    fix k assume k: "k < length V"
    have lv: "length (V ! k) = width (length vs) k" using agrees_lengths [OF ag k] .
    then show "length (V ! k) \<le> length (tree_of A lh H' ys' ! k)"
      using k VH ys'(3) width_mono [OF ys'(1), of k] by simp
    fix i assume i: "i + 1 < length (V ! k)"
    have "i < (length vs - 1) div 2 ^ k" using i lv width_pred [of "length vs" k] ne by simp
    then have "(i + 1) * 2 ^ k \<le> length vs - 1" by (rule Suc_mult_div_le)
    then have "mnode A lh ys' k i = mnode A lh ys k i"
      using ys'(1,2) n by (intro mnode_take [of "length vs - 1"]) auto
    moreover have "i < width (length ys') k" "i < width (length ys) k"
      using i lv width_mono [OF ys'(1), of k] width_mono [OF n, of k] by simp_all
    ultimately have "tree_of A lh H' ys' ! k ! i = tree_of A lh H ys ! k ! i"
      using k VH ys'(3) by simp
    moreover have "tree_of A lh H ys ! k ! i = V ! k ! i \<or>
        V ! k ! i = alg_null A \<and> tree_of A lh H ys ! k ! i = mnode A lh vs k i"
      using c k i unfolding covers_def by blast
    ultimately show "tree_of A lh H' ys' ! k ! i = V ! k ! i \<or>
        V ! k ! i = alg_null A \<and> tree_of A lh H' ys' ! k ! i = mnode A lh vs k i"
      by (simp only:)
  qed
  then show ?thesis using v ys' by (simp add: version_of_def)
qed

abbreviation tree_refines ::
    "nat \<Rightarrow> nat \<Rightarrow> ('e, 'c, 'd, 't) append_merkle_tree \<Rightarrow> 'e tree_spec \<Rightarrow> bool" where
  "tree_refines \<equiv> refines A C D touched"

text \<open>A change of the nodes that keeps the version map.\<close>

lemma refines_nodes:
  assumes r: "tree_refines lh a t s"
    and R: "represents nm (tree_of A lh H ys) False" and known: "alg_null A \<notin> set ys"
    and H: "tree_depth (length ys) \<le> H" "spec_height s \<le> H"
    and ys: "length (spec_leaves s) \<le> length ys"
      "\<And>n. n < length (spec_leaves s) \<Longrightarrow> take n ys = take n (spec_leaves s)"
  shows "tree_refines lh a (t\<lparr>node_manager := nm\<rparr>) (s\<lparr>spec_leaves := ys, spec_height := H\<rparr>)"
proof -
  have "version_of A lh ys (tree_of A lh H ys) (snd v) (version_tree A lh v)" if "v \<in> set (spec_versions s)" for v
  proof -
    have v: "version_of A lh (spec_leaves s) (tree_of A lh (spec_height s) (spec_leaves s)) (snd v) (version_tree A lh v)"
      using r that by (simp add: refines_def)
    then have n: "snd v \<noteq> []" "length (snd v) \<le> length (spec_leaves s)" by (auto simp: version_of_def)
    then have "length (snd v) - 1 < length (spec_leaves s)" by (cases "snd v") auto
    then show ?thesis
      using r ys H(2) n by (intro version_append_full [OF v]) (auto simp: refines_def)
  qed
  then show ?thesis using r R known H(1) by (simp add: refines_def)
qed

lemma refines_append:
  assumes r: "tree_refines lh a t s" and zs: "alg_null A \<notin> set zs"
    and b: "becomes t m (tree_of A lh (max (spec_height s) (tree_depth (length (spec_leaves s @ zs)))) (spec_leaves s @ zs))"
  shows "\<exists>t'. m = Inr t' \<and> tree_refines lh a t' (spec_append zs s)"
proof -
  obtain nm where m: "m = Inr (t\<lparr>node_manager := nm\<rparr>)"
    and R: "represents nm (tree_of A lh (max (spec_height s) (tree_depth (length (spec_leaves s @ zs)))) (spec_leaves s @ zs)) False"
    using b by (auto simp: becomes_def)
  have "alg_null A \<notin> set (spec_leaves s @ zs)" using r zs by (simp add: refines_def)
  then have "tree_refines lh a (t\<lparr>node_manager := nm\<rparr>) (spec_append zs s)"
    unfolding spec_append_def by (intro refines_nodes [OF r R]) auto
  then show ?thesis using m by blast
qed

lemma update_last_empty:
  assumes R: "represents (node_manager t) (tree_of A lh H []) False" and lh: "leaf_height t = lh"
    and H: "tree_depth 0 \<le> H" and x: "x \<noteq> alg_null A"
  shows "update_last A C D x t = amt_append A C D x t"
proof -
  have H0: "0 < H" using H tree_depth_pos [of 0] by simp
  obtain nm where st: "start_transaction D t = Inr (t\<lparr>node_manager := nm\<rparr>)"
    and R1: "represents nm (tree_of A lh H []) True"
    using start_transaction_yields [OF R] by (rule yieldsE)
  have "amt_layer_len (t\<lparr>node_manager := nm\<rparr>) 0 = Inr 0"
    using tree_reads(2) [of "t\<lparr>node_manager := nm\<rparr>" "tree_of A lh H []" True 0] R1 H0 by simp
  then show ?thesis using st x by (simp add: update_last_def amt_append_def)
qed

lemma refines_commit:
  assumes r: "tree_refines lh a t s" and ne: "spec_leaves s \<noteq> []" and q: "q = a + length (spec_versions s)"
  shows "\<exists>t'. amt_commit C D (Some q) t = Inr t' \<and> tree_refines lh a t' (spec_op a (Commit q) s)"
proof -
  let ?L = "tree_of A lh (spec_height s) (spec_leaves s)"
  have R: "represents (node_manager t) ?L False" and known: "alg_null A \<notin> set (spec_leaves s)"
    and H: "tree_depth (length (spec_leaves s)) \<le> spec_height s" using r by (auto simp: refines_def)
  note ag = tree_of_agrees [OF known H, of lh]
  let ?t' = "t\<lparr>delta_nodes_map := fmupd q \<lparr>right_most_nodes = right_most ?L\<rparr> (delta_nodes_map t),
           root_to_tx_seq_map := (root_to_tx_seq_map t)(last ?L ! 0 \<mapsto> q)\<rparr>"
  let ?v = "(spec_height s, spec_leaves s)"
  have vt: "version_tree A lh ?v = ?L" by (simp add: version_tree_def)
  have "version_map A lh a (spec_versions s @ [?v]) (delta_nodes_map ?t')"
    using r q vt by (auto simp: refines_def version_map_def nth_append)
  then have "tree_refines lh a ?t' (spec_op a (Commit q) s)"
    using r H version_of_self [OF ag ne] vt by (simp add: refines_def spec_op_def sorted_wrt_append)
  then show ?thesis using amt_commit_layers [OF R ag ne, of q] by blast
qed

lemma version_map_revert:
  assumes vm: "version_map A lh a vers ds" and q: "a \<le> q" "q < a + length vers"
    and ds: "\<forall>p \<le> q. fmlookup ds' p = fmlookup ds p"
      "\<forall>p > q. fmlookup ds' p = None \<or> fmlookup ds' p = fmlookup ds p \<and>
         (\<exists>r. q < r \<and> r < p \<and> fmlookup ds r = None)"
  shows "version_map A lh a (take (q - a + 1) vers) ds'"
  unfolding version_map_def
proof
  fix p
  have look: "fmlookup ds p = (if a \<le> p \<and> p < a + length vers
      then Some \<lparr>right_most_nodes = right_most (version_tree A lh (vers ! (p - a)))\<rparr> else None)" for p
    using vm by (simp add: version_map_def)
  show "fmlookup ds' p = (if a \<le> p \<and> p < a + length (take (q - a + 1) vers)
      then Some \<lparr>right_most_nodes = right_most (version_tree A lh (take (q - a + 1) vers ! (p - a)))\<rparr> else None)"
  proof (cases "p \<le> q")
    case True
    then show ?thesis using ds(1) look [of p] q by auto
  next
    case False
    then have "fmlookup ds' p = None \<or> fmlookup ds' p = fmlookup ds p \<and>
        (\<exists>r. q < r \<and> r < p \<and> fmlookup ds r = None)" using ds(2) by simp
    then have "fmlookup ds' p = None"
    proof (elim disjE conjE exE)
      fix r assume e: "fmlookup ds' p = fmlookup ds p" and r: "q < r" "r < p" "fmlookup ds r = None"
      then have "\<not> r < a + length vers" using q look [of r] by (auto split: if_splits)
      then show ?thesis using e look [of p] r(2) by simp
    qed
    then show ?thesis using False q by auto
  qed
qed

lemma refines_revert:
  assumes r: "tree_refines lh a t s" and q: "a \<le> q" "q < a + length (spec_versions s)"
  shows "\<exists>t'. tree_op A C D (Revert_To q) t = Inr t' \<and> tree_refines lh a t' (spec_op a (Revert_To q) s)"
proof -
  let ?vers = "spec_versions s" and ?k = "q - a"
  define v where "v = ?vers ! ?k"
  let ?V = "version_tree A lh v"
  have k: "?k < length ?vers" using q by auto
  then have vs: "v \<in> set ?vers" by (simp add: v_def)
  then have ver: "version_of A lh (spec_leaves s) (tree_of A lh (spec_height s) (spec_leaves s)) (snd v) ?V"
    and Hd: "tree_depth (length (snd v)) \<le> fst v" using r by (auto simp: refines_def)
  have known: "alg_null A \<notin> set (snd v)" and ne: "snd v \<noteq> []" using ver by (auto simp: version_of_def agrees_def)
  have R: "represents (node_manager t) (tree_of A lh (spec_height s) (spec_leaves s)) False"
    and found: "fmlookup (delta_nodes_map t) q = Some \<lparr>right_most_nodes = right_most ?V\<rparr>"
    using r q by (auto simp: refines_def version_map_def v_def)
  obtain t' L' where rv: "revert_to C D q t = Inr (t', Inr ())" and R': "represents (node_manager t') L' False"
    and x: "extends A lh (snd v) ?V L'" and lh': "leaf_height t' = leaf_height t"
    and ds: "\<forall>p \<le> q. fmlookup (delta_nodes_map t') p = fmlookup (delta_nodes_map t) p"
      "\<forall>p > q. fmlookup (delta_nodes_map t') p = None \<or>
         fmlookup (delta_nodes_map t') p = fmlookup (delta_nodes_map t) p \<and>
         (\<exists>r. q < r \<and> r < p \<and> fmlookup (delta_nodes_map t) r = None)"
    using revert_to_layers [OF ver R found] by blast
  have L': "L' = ?V" using tree_of_known [OF known] by (intro extends_full [OF x]) (simp add: version_tree_def)
  have vm: "version_map A lh a (take (?k + 1) ?vers) (delta_nodes_map t')"
    using r by (intro version_map_revert [OF _ q ds]) (simp add: refines_def)
  have split: "take (?k + 1) ?vers = take ?k ?vers @ [v]" using k by (simp add: v_def take_Suc_conv_app_nth)
  have sorted: "sorted_wrt (\<lambda>w v. version_of A lh (snd v) (version_tree A lh v) (snd w) (version_tree A lh w)) (take (?k + 1) ?vers)"
    using r by (intro sorted_wrt_take) (simp add: refines_def)
  have "version_of A lh (snd v) ?V (snd w) (version_tree A lh w)" if "w \<in> set (take (?k + 1) ?vers)" for w
    using that sorted version_of_self [OF tree_of_agrees [OF known Hd] ne, of lh] unfolding split sorted_wrt_append
    by (auto simp: version_tree_def)
  moreover have "tree_depth (length (snd w)) \<le> fst w" if "w \<in> set (take (?k + 1) ?vers)" for w
    using r in_set_takeD [OF that] by (simp add: refines_def)
  ultimately have "tree_refines lh a t' (spec_op a (Revert_To q) s)"
    using r R' L' lh' known Hd vm sorted
    by (simp add: refines_def spec_op_def v_def [symmetric] version_tree_def)
  then show ?thesis using rv by (auto simp: tree_op_def)
qed

text \<open>Every valid operation, and so every valid sequence of them, is refined.\<close>

lemma refines_op:
  assumes r: "tree_refines lh a t s" and ok: "valid_op A a s op"
  shows "\<exists>t'. tree_op A C D op t = Inr t' \<and> tree_refines lh a t' (spec_op a op s)"
proof -
  have R: "represents (node_manager t) (tree_of A lh (spec_height s) (spec_leaves s)) False"
    and lh: "leaf_height t = lh" and known: "alg_null A \<notin> set (spec_leaves s)"
    and H: "tree_depth (length (spec_leaves s)) \<le> spec_height s" using r by (auto simp: refines_def)
  show ?thesis
  proof (cases op)
    case (Append x)
    then have x: "x \<noteq> alg_null A" using ok by (simp add: valid_op_def)
    then show ?thesis
      using refines_append [OF r, of "[x]"] append_full [OF R lh known H x] Append
      by (simp add: tree_op_def spec_op_def)
  next
    case (Append_List zs)
    then have zs: "zs \<noteq> []" "alg_null A \<notin> set zs" using ok by (simp_all add: valid_op_def)
    then show ?thesis
      using refines_append [OF r zs(2)] append_list_full [OF R lh known H zs] Append_List
      by (simp add: tree_op_def spec_op_def)
  next
    case (Update_Last x)
    then have x: "x \<noteq> alg_null A" using ok by (simp add: valid_op_def)
    show ?thesis
    proof (cases "spec_leaves s = []")
      case True
      have "update_last A C D x t = amt_append A C D x t"
        using R lh H x unfolding True by (intro update_last_empty) auto
      then show ?thesis
        using refines_append [OF r, of "[x]"] append_full [OF R lh known H x] x Update_Last True
        by (simp add: tree_op_def spec_op_def)
    next
      case False
      let ?ys = "(spec_leaves s)[length (spec_leaves s) - 1 := x]"
      obtain nm where u: "update_last A C D x t = Inr (t\<lparr>node_manager := nm\<rparr>)"
        and R': "represents nm (tree_of A lh (spec_height s) ?ys) False"
        using update_last_full [OF R lh known H False x] by (auto simp: becomes_def)
      have "tree_refines lh a (t\<lparr>node_manager := nm\<rparr>) (s\<lparr>spec_leaves := ?ys, spec_height := spec_height s\<rparr>)"
        using known_update [OF known x] H by (intro refines_nodes [OF r R']) auto
      then show ?thesis using u Update_Last False by (simp add: tree_op_def spec_op_def)
    qed
  next
    case (Commit q)
    then show ?thesis using refines_commit [OF r] ok by (simp add: tree_op_def valid_op_def)
  next
    case (Revert_To q)
    then show ?thesis using refines_revert [OF r] ok by (simp add: valid_op_def)
  qed
qed

lemma refines_ops:
  assumes "tree_refines lh a t s" "valid_ops A a s ops"
  shows "\<exists>t'. rfold (tree_op A C D) ops t = Inr t' \<and> tree_refines lh a t' (fold (spec_op a) ops s)"
  using assms
proof (induction ops arbitrary: t s)
  case (Cons op ops)
  then obtain t1 where "tree_op A C D op t = Inr t1" "tree_refines lh a t1 (spec_op a op s)"
    using refines_op by fastforce
  then show ?case using Cons.IH [of t1 "spec_op a op s"] Cons.prems(2) by simp
qed simp

end

section \<open>Fresh in-memory trees\<close>

text \<open>The abstract state of a tree that was built with its first version committed as \<open>a\<close>.\<close>

definition spec_new :: "nat \<Rightarrow> 'e list \<Rightarrow> 'e tree_spec" where
  "spec_new H ys = \<lparr>spec_leaves = ys, spec_height = H, spec_versions = [(H, ys)]\<rparr>"

context memory_tree
begin

lemma refines_first_commit:
  assumes R: "memory.represents nm (tree_of A lh H ys) False" and ys: "ys \<noteq> []" "alg_null A \<notin> set ys"
    and H: "tree_depth (length ys) \<le> H"
  shows "\<exists>t. amt_commit C mem_db (Some a) (empty_tree nm md lh) = Inr t \<and>
    refines A C mem_db (\<lambda>_. {}) lh a t (spec_new H ys)"
proof -
  have "refines A C mem_db (\<lambda>_. {}) lh a (empty_tree nm md lh)
      \<lparr>spec_leaves = ys, spec_height = H, spec_versions = []\<rparr>"
    using R ys H by (simp add: refines_def empty_tree_def version_map_def)
  from mem.refines_commit [OF this, of a] ys show ?thesis by (simp add: spec_op_def spec_new_def)
qed

lemma amt_new_refines:
  assumes ys: "ys \<noteq> []" "alg_null A \<notin> set ys"
  shows "\<exists>t. amt_new A C ys lh (Some a) = Inr t \<and>
    refines A C mem_db (\<lambda>_. {}) lh a t (spec_new (tree_depth (length ys)) ys)"
proof -
  obtain nm where "amt_new A C ys lh (Some a) = amt_commit C mem_db (Some a) (empty_tree nm None lh)"
    and "memory.represents nm (tree_of A lh (tree_depth (length ys)) ys) False"
    using amt_new_layers [OF ys(2), of lh "Some a"] ys(1) by auto
  then show ?thesis using refines_first_commit [OF _ ys] by auto
qed

lemma new_with_depth_refines:
  assumes ys: "ys \<noteq> []" "alg_null A \<notin> set ys" and d: "0 < depth"
  shows "\<exists>t. new_with_depth A C ys depth (Some a) = Inr t \<and>
    refines A C mem_db (\<lambda>_. {}) 0 a t (spec_new (max depth (tree_depth (length ys))) ys)"
proof -
  obtain nm where "new_with_depth A C ys depth (Some a) = amt_commit C mem_db (Some a) (empty_tree nm (Some depth) 0)"
    and "memory.represents nm (tree_of A 0 (max depth (tree_depth (length ys))) ys) False"
    using new_with_depth_layers [OF ys(2) d, of "Some a"] ys(1) by auto
  then show ?thesis using refines_first_commit [OF _ ys] by auto
qed

end

section \<open>What a refined tree returns\<close>

context append_tree
begin

lemma refines_reads:
  assumes r: "tree_refines lh a t s"
  shows "reads_tree A lh (spec_height s) (spec_leaves s) (amt_read A C D t)"
  using r by (intro amt_reads_tree) (auto simp: refines_def)

lemma refines_version_reads:
  assumes r: "tree_refines lh a t s" and q: "a \<le> q" "q < a + length (spec_versions s)"
    and v: "spec_versions s ! (q - a) = (H, vs)"
  shows "\<exists>h. at_version q t = Inr h \<and> reads_tree A lh H vs (history_read A C D h)"
proof -
  have "(H, vs) \<in> set (spec_versions s)" using q by (auto simp flip: v)
  then have d: "tree_depth (length vs) \<le> H"
    and ver: "version_of A lh (spec_leaves s) (tree_of A lh (spec_height s) (spec_leaves s)) vs (tree_of A lh H vs)"
    using r by (auto simp: refines_def version_tree_def)
  have "0 < H" using d tree_depth_pos [of "length vs"] by simp
  then have H: "right_most (tree_of A lh H vs) \<noteq> []" by (simp flip: length_greater_0_conv)
  have "at_version q t = Inr \<lparr>ht_node_manager = node_manager t,
      ht_delta_nodes = \<lparr>right_most_nodes = right_most (tree_of A lh H vs)\<rparr>, ht_leaf_height = lh\<rparr>"
    using r q v H by (simp add: refines_def version_map_def at_version_def delta_height_def version_tree_def)
  moreover have "nm_represents C D touched (node_manager t)
      (tree_of A lh (spec_height s) (spec_leaves s)) False" using r by (simp add: refines_def)
  ultimately show ?thesis using history_reads_tree [OF ver _ d] by blast
qed

end

text \<open>Generated proofs and range proofs are accepted by the validators.\<close>

context merkle_algorithm
begin

lemma generated_proof_validates:
  assumes T: "reads_tree A lh H ys T" and i: "i < length ys" and known: "alg_null A \<notin> set ys" and H: "H \<le> 64"
  shows "\<exists>p. gen_proof A T i = Inr p \<and> proof_root p = Inr (mnode A lh ys (H - 1) 0) \<and>
    proof_validate A p (ys ! i) i = Inr ()"
proof -
  have "i < 2 ^ (H - 1)" using reads_tree_top(2) [OF T i] by (simp add: div_eq_0_iff)
  then have "proof_validate A (tree_proof A lh (H - 1) ys i) (mnode A lh ys 0 i) i = Inr ()"
    using H by (intro tree_proof_validates) auto
  then show ?thesis using gen_proof_tree [OF T i known] i by simp
qed

lemma generated_range_validates:
  assumes T: "reads_tree A lh H ys T" and r: "l < r" "r \<le> length ys" and known: "alg_null A \<notin> set ys" and H: "H \<le> 64"
  shows "\<exists>rp. gen_range_proof A T l r = Inr rp \<and> range_root rp = Inr (mnode A lh ys (H - 1) 0) \<and>
    range_validate A rp (take (r - l) (drop l ys)) l = Inr ()"
proof -
  have i: "l < length ys" "r - 1 < length ys" using r by auto
  have b: "r - 1 < 2 ^ (H - 1)" using reads_tree_top(2) [OF T i(2)] by (simp add: div_eq_0_iff)
  have leaves: "take (r - l) (drop l ys) = map (mnode A lh ys 0) [l..<r - 1 + 1]"
    using r by (intro nth_equalityI) (auto simp: nth_append)
  have "range_validate A \<lparr>left_proof = tree_proof A lh (H - 1) ys l, right_proof = tree_proof A lh (H - 1) ys (r - 1)\<rparr>
      (take (r - l) (drop l ys)) l = Inr ()"
    using H r b by (intro tree_range_validates leaves) auto
  then show ?thesis
    using gen_proof_tree [OF T i(1) known] gen_proof_tree [OF T i(2) known] r
    by (simp add: gen_range_proof_def range_root_def)
qed

end

interpretation sha3_memory: memory_tree map_cache "sha3_optional keccak" for keccak ..

end
