(* ===== verification/Merkle_Properties.thy ===== *)
theory Merkle_Properties
  imports Tree_Refinement
begin

text \<open>
  The properties of the \<open>append_merkle\<close> crate, stated for its own hash algorithm
  \<open>sha3_optional keccak\<close> over any Keccak function, any cache that keeps what it is given
  (\<open>node_cache\<close>) and, where the tree has a database, any database that keeps the laws of
  \<open>node_store\<close>. Each property with a hypothesis is followed by its instance on concrete inputs.
\<close>

section \<open>Samples for the instances\<close>

text \<open>A total stand-in for Keccak-256 and a few leaves, to evaluate the model on concrete inputs.\<close>

definition sample_keccak :: "byte list \<Rightarrow> h256" where
  "sample_keccak bs = take 32 (bs @ replicate 32 0)"

definition sample_leaf :: "byte \<Rightarrow> optional_hash" where
  "sample_leaf b = Some (replicate 32 b)"

lemma sample_leaf_known [simp]: "sample_leaf b \<noteq> None" "None \<noteq> sample_leaf b"
  by (simp_all add: sample_leaf_def)

lemma sha3_null [simp]: "alg_null (sha3_optional keccak) = None"
  by (simp add: sha3_optional_def)

lemma append_tree_sha3: "node_store C D touched \<Longrightarrow> append_tree C D touched (sha3_optional keccak)"
  by (intro append_tree.intro sha3.merkle_algorithm_axioms)

lemma memory_tree_sha3: "node_cache C \<Longrightarrow> memory_tree C (sha3_optional keccak)"
  by (intro memory_tree.intro sha3.merkle_algorithm_axioms)

lemma memory_store: "node_cache C \<Longrightarrow> node_store C empty_node_database (\<lambda>_. {})"
  by (intro node_store.intro node_store_axioms.intro) (auto simp: empty_node_database_def)

section \<open>The life of a tree\<close>

text \<open>A tree built by \<open>new_with_depth\<close> with first version \<open>a\<close> and then changed by \<open>ops\<close>.\<close>

definition tree_life ::
    "('e, 'z) hash_alg_scheme \<Rightarrow> ('e, 'c) lru_ops \<Rightarrow> 'e list \<Rightarrow> nat \<Rightarrow> nat \<Rightarrow> 'e tree_op list \<Rightarrow>
     ('e, 'c, unit, unit) append_merkle_tree res" where
  "tree_life A C ys depth a ops =
     rbind (new_with_depth A C ys depth (Some a)) (rfold (tree_op A C empty_node_database) ops)"

definition spec_life :: "'e list \<Rightarrow> nat \<Rightarrow> nat \<Rightarrow> 'e tree_op list \<Rightarrow> 'e tree_spec" where
  "spec_life ys depth a ops = fold (spec_op a) ops (spec_new (max depth (tree_depth (length ys))) ys)"

lemma tree_life_refines:
  assumes C: "node_cache C" and ys: "ys \<noteq> []" "None \<notin> set ys" and d: "0 < depth"
    and ok: "valid_ops (sha3_optional keccak) a (spec_new (max depth (tree_depth (length ys))) ys) ops"
  shows "\<exists>t. tree_life (sha3_optional keccak) C ys depth a ops = Inr t \<and>
    refines (sha3_optional keccak) C empty_node_database (\<lambda>_. {}) 0 a t (spec_life ys depth a ops)"
proof -
  obtain t0 where n: "new_with_depth (sha3_optional keccak) C ys depth (Some a) = Inr t0"
    and r: "refines (sha3_optional keccak) C empty_node_database (\<lambda>_. {}) 0 a t0
      (spec_new (max depth (tree_depth (length ys))) ys)"
    using memory_tree.new_with_depth_refines [OF memory_tree_sha3 [OF C] ys(1) _ d] ys(2) by fastforce
  from append_tree.refines_ops [OF append_tree_sha3 [OF memory_store [OF C]] r ok]
  show ?thesis by (simp add: tree_life_def spec_life_def n)
qed



text \<open>C4: After any such sequence every committed version can still be read: \<open>at_version\<close> finds
  it, and the proof generated from it for any of its leaves has the root that version had and is
  accepted for that leaf at its position.\<close>

theorem version_proofs_validate:
  assumes C: "node_cache C" and ys: "ys \<noteq> []" "None \<notin> set ys" "0 < depth"
    and ops: "valid_ops (sha3_optional keccak) a (spec_new (max depth (tree_depth (length ys))) ys) ops"
    and q: "a \<le> q" "q < a + length (spec_versions (spec_life ys depth a ops))"
    and v: "spec_versions (spec_life ys depth a ops) ! (q - a) = (H, vs)" and i: "i < length vs" and H: "H \<le> 64"
  shows "\<exists>t h p. tree_life (sha3_optional keccak) C ys depth a ops = Inr t \<and> at_version q t = Inr h \<and>
    gen_proof (sha3_optional keccak) (history_read (sha3_optional keccak) C empty_node_database h) i = Inr p \<and>
    proof_root p = Inr (mnode (sha3_optional keccak) 0 vs (H - 1) 0) \<and>
    proof_validate (sha3_optional keccak) p (vs ! i) i = Inr ()"
proof -
  let ?A = "sha3_optional keccak"
  obtain t where t: "tree_life ?A C ys depth a ops = Inr t"
    and r: "refines ?A C empty_node_database (\<lambda>_. {}) 0 a t (spec_life ys depth a ops)"
    using tree_life_refines [OF C ys ops] by blast
  obtain h where h: "at_version q t = Inr h" and T: "reads_tree ?A 0 H vs (history_read ?A C empty_node_database h)"
    using append_tree.refines_version_reads [OF append_tree_sha3 [OF memory_store [OF C]] r q v] by blast
  have "(H, vs) \<in> set (spec_versions (spec_life ys depth a ops))" using q by (auto simp flip: v)
  then have "alg_null ?A \<notin> set vs" using r by (fastforce simp: refines_def version_of_def agrees_def)
  then show ?thesis using sha3.generated_proof_validates [OF T i _ H] t h by blast
qed

theorem version_proofs_validate_witness:
  "\<exists>t h p. tree_life (sha3_optional sample_keccak) map_cache [sample_leaf 1] 3 7
       [Append (sample_leaf 2), Commit 8, Update_Last (sample_leaf 3)] = Inr t \<and>
     at_version 8 t = Inr h \<and>
     gen_proof (sha3_optional sample_keccak)
       (history_read (sha3_optional sample_keccak) map_cache empty_node_database h) 1 = Inr p \<and>
     proof_validate (sha3_optional sample_keccak) p (sample_leaf 2) 1 = Inr ()"
  using version_proofs_validate [OF map_cache.node_cache_axioms, of "[sample_leaf 1]" 3 sample_keccak 7
     "[Append (sample_leaf 2), Commit 8, Update_Last (sample_leaf 3)]" 8 3 "[sample_leaf 1, sample_leaf 2]" 1]
  by (fastforce simp: valid_op_def spec_new_def spec_op_def spec_append_def spec_life_def tree_depth.simps)


text \<open>A tree with one empty layer and no version, as \<open>new_with_subtrees\<close> leaves it on a fresh database.\<close>

definition blank_tree :: "nat \<Rightarrow> (optional_hash, node_key \<rightharpoonup> optional_hash, unit, unit) append_merkle_tree" where
  "blank_tree lh = empty_tree \<lparr>nm_cache = Map.empty, nm_layer_size = [0], nm_db = (), nm_db_tx = None\<rparr> None lh"

lemma blank_tree_nodes:
  "nm_represents map_cache empty_node_database (\<lambda>_. {}) (node_manager (blank_tree lh)) [[]] False"
  by (simp add: blank_tree_def empty_tree_def nm_represents_def)

lemma blank_tree_refines:
  "refines (sha3_optional keccak) map_cache empty_node_database (\<lambda>_. {}) lh a (blank_tree lh)
     \<lparr>spec_leaves = [], spec_height = 1, spec_versions = []\<rparr>"
  using blank_tree_nodes [of lh]
  by (simp add: refines_def tree_of_def version_map_def tree_depth.simps) (simp add: blank_tree_def empty_tree_def)


section \<open>Trees known in part\<close>

context append_tree
begin

text \<open>The root of a tree that can be continued is known.\<close>

lemma tree_inv_root:
  assumes inv: "tree_inv A lh ys L" and ne: "ys \<noteq> []"
    and R: "represents (node_manager t) L tx"
  shows "amt_root C D t = Inr (mnode A lh ys (amt_height t - 1) 0)"
proof -
  let ?k = "length L - 1" and ?n = "length ys"
  have ag: "agrees A lh ys L" and fr: "frontier A ?n L" using inv by (auto simp: tree_inv_def)
  then have L: "0 < length L" "L \<noteq> []" and w: "width ?n ?k \<le> 1" by (auto simp: agrees_def)
  have len: "length (L ! ?k) = 1"
    using agrees_lengths [OF ag, of ?k] L w width_pos [of ?n ?k] ne by (auto simp: le_Suc_eq simp del: width_pos)
  have "(?n - 1) div 2 ^ ?k = 0" using w width_pred [of ?n ?k] ne by simp
  then have "?n - 1 < 2 ^ ?k" by (simp add: div_eq_0_iff)
  then have "?n div 2 ^ ?k = 0 \<or> ?n = 2 ^ ?k" by auto
  then have n: "?n div 2 ^ ?k = 0 \<or> ?n div 2 ^ ?k = 1" by auto
  have "frontier_at A ?n ?k (L ! ?k)" using fr L by (simp add: frontier_def)
  then have "L ! ?k ! 0 \<noteq> alg_null A" using n len by (auto simp: frontier_at_def)
  moreover have pos: "0 < length (L ! ?k)" using len by simp
  ultimately have "L ! ?k ! 0 = mnode A lh ys ?k 0" using agrees_known [OF ag, of ?k 0] L by simp
  then have "amt_node C D t ?k 0 = Inr (mnode A lh ys ?k 0)"
    using tree_reads(3) [OF R _ pos] L by simp
  then show ?thesis using tree_reads(1) [OF R] L(1) by (simp add: amt_root_def wsub_le Suc_le_eq)
qed

end


lemma blank_tree_inv: "tree_inv (sha3_optional keccak) lh [] [[]]"
  by (simp add: tree_inv_def agrees_def frontier_def frontier_at_def)

lemma blank_tree_leaf_height [simp]: "leaf_height (blank_tree lh) = lh"
  by (simp add: blank_tree_def empty_tree_def)


text \<open>C26: \<open>fill_leaf\<close> with the hash of a leaf that was unknown makes that leaf known and completes
  every node above it that now has two known children; known nodes keep their value and the new
  ones are nodes of the reference tree. Together with \<open>closed_except A {}\<close>: no node stays unknown
  whose children are known.\<close>

theorem fill_leaf_correct:
  assumes S: "node_store C D touched" and inv: "tree_inv (sha3_optional keccak) lh ys L"
    and cl: "closed_except (sha3_optional keccak) {} L"
    and R: "nm_represents C D touched (node_manager t) L False" and lh: "leaf_height t = lh" and i: "i < length ys"
  shows "\<exists>t' L'. fill_leaf (sha3_optional keccak) C D i (ys ! i) t = Inr t' \<and>
    nm_represents C D touched (node_manager t') L' False \<and>
    extends (sha3_optional keccak) lh ys L L' \<and> closed_except (sha3_optional keccak) {} L' \<and>
    tree_inv (sha3_optional keccak) lh ys L' \<and> amt_node C D t' 0 i = Inr (ys ! i)"
proof -
  note T = append_tree_sha3 [OF S, of keccak]
  obtain nm L' where f: "fill_leaf (sha3_optional keccak) C D i (ys ! i) t = Inr (t\<lparr>node_manager := nm\<rparr>)"
    and R': "nm_represents C D touched nm L' False"
    and x: "extends (sha3_optional keccak) lh ys L L'" "tree_inv (sha3_optional keccak) lh ys L'"
      "closed_except (sha3_optional keccak) {} L'" "L' ! 0 ! i = ys ! i"
    using append_tree.fill_leaf_layers [OF T inv cl R lh i] append_tree.becomes_def [OF T] by metis
  have "0 < length L'" "i < length (L' ! 0)" using x(2) i by (auto simp: tree_inv_def agrees_def)
  then have "amt_node C D (t\<lparr>node_manager := nm\<rparr>) 0 i = Inr (ys ! i)"
    using append_tree.tree_reads(3) [OF T, of "t\<lparr>node_manager := nm\<rparr>" L' False 0 i] R' x(4) by simp
  then show ?thesis using f R' x by (intro exI [of _ "t\<lparr>node_manager := nm\<rparr>"] exI [of _ L']) simp
qed

text \<open>A tree of two leaves whose first leaf is unknown.\<close>

definition half_known_layers :: "optional_hash list list" where
  "half_known_layers = [[None, sample_leaf 2],
     [alg_parent (sha3_optional sample_keccak) (sample_leaf 1) (sample_leaf 2)]]"

definition half_known_tree :: "(optional_hash, node_key \<rightharpoonup> optional_hash, unit, unit) append_merkle_tree" where
  "half_known_tree = empty_tree
     \<lparr>nm_cache = [(0, 0) \<mapsto> None, (0, 1) \<mapsto> sample_leaf 2,
        (1, 0) \<mapsto> alg_parent (sha3_optional sample_keccak) (sample_leaf 1) (sample_leaf 2)],
      nm_layer_size = [2, 1], nm_db = (), nm_db_tx = None\<rparr> None 0"

lemma half_known:
  "nm_represents map_cache empty_node_database (\<lambda>_. {}) (node_manager half_known_tree) half_known_layers False"
  "tree_inv (sha3_optional sample_keccak) 0 [sample_leaf 1, sample_leaf 2] half_known_layers"
  "closed_except (sha3_optional sample_keccak) {} half_known_layers"
proof -
  show "nm_represents map_cache empty_node_database (\<lambda>_. {}) (node_manager half_known_tree) half_known_layers False"
    by (auto simp: nm_represents_def half_known_tree_def half_known_layers_def empty_tree_def nm_get_node_def
        map_cache_def nth_Cons split: nat.splits)
  have "alg_parent (sha3_optional sample_keccak) (sample_leaf 1) (sample_leaf 2) \<noteq> None"
    using sha3.parent_known [of "sample_leaf 1" sample_keccak "sample_leaf 2"] by simp
  then show "tree_inv (sha3_optional sample_keccak) 0 [sample_leaf 1, sample_leaf 2] half_known_layers"
    by (auto simp: tree_inv_def agrees_def frontier_def frontier_at_def half_known_layers_def nth_Cons
        split: nat.splits)
  show "closed_except (sha3_optional sample_keccak) {} half_known_layers"
    by (auto simp: closed_except_def half_known_layers_def nth_Cons split: nat.splits)
qed

theorem fill_leaf_correct_witness:
  "\<exists>t' L'. fill_leaf (sha3_optional sample_keccak) map_cache empty_node_database 0 (sample_leaf 1) half_known_tree = Inr t' \<and>
     nm_represents map_cache empty_node_database (\<lambda>_. {}) (node_manager t') L' False \<and>
     extends (sha3_optional sample_keccak) 0 [sample_leaf 1, sample_leaf 2] half_known_layers L' \<and>
     amt_node map_cache empty_node_database t' 0 0 = Inr (sample_leaf 1)"
  using fill_leaf_correct [OF map_cache.memory.node_store_axioms half_known(2,3,1), of 0]
  by (auto simp: half_known_tree_def empty_tree_def)

section \<open>Proofs\<close>



text \<open>C6: Soundness of \<open>RangeProof::validate\<close>: an accepted range proof that ends in the root of a
  tree proves every leaf of the range at its position, unless a pair that the validator hashed
  collides with a node of the tree.\<close>

theorem range_validate_sound:
  assumes "length (path_of (left_proof rp)) \<le> 64" "range_validate (sha3_optional keccak) rp leaves start = Inr ()"
    and "range_root rp = Inr (mnode (sha3_optional keccak) lh xs (length (path_of (left_proof rp))) 0)"
  shows "(\<forall>j < length leaves. leaves ! j = mnode (sha3_optional keccak) lh xs 0 (start + j)) \<or>
    hash_clash (sha3_optional keccak) lh xs
      (range_pairs (sha3_optional keccak) rp 0 (length (path_of (left_proof rp))) leaves)"
  using range_validate_sound_aux [OF assms] by blast

theorem range_validate_sound_witness:
  "let A = sha3_optional sample_keccak; xs = [sample_leaf 1, sample_leaf 2, sample_leaf 3];
       rp = \<lparr>left_proof = tree_proof A 0 2 xs 1, right_proof = tree_proof A 0 2 xs 2\<rparr>;
       leaves = [sample_leaf 2, sample_leaf 3]
   in range_validate A rp leaves 1 = Inr () \<and>
      (leaves ! 1 = mnode A 0 xs 0 2 \<or> hash_clash A 0 xs (range_pairs A rp 0 2 leaves))"
proof -
  let ?A = "sha3_optional sample_keccak" and ?xs = "[sample_leaf 1, sample_leaf 2, sample_leaf 3]"
  let ?rp = "\<lparr>left_proof = tree_proof ?A 0 2 ?xs 1, right_proof = tree_proof ?A 0 2 ?xs 2\<rparr>"
  have v: "range_validate ?A ?rp [sample_leaf 2, sample_leaf 3] 1 = Inr ()"
    by (rule sha3.tree_range_validates) (simp_all add: numeral_2_eq_2)
  have "(\<forall>j < length [sample_leaf 2, sample_leaf 3].
        [sample_leaf 2, sample_leaf 3] ! j = mnode ?A 0 ?xs 0 (1 + j)) \<or>
      hash_clash ?A 0 ?xs (range_pairs ?A ?rp 0 (length (path_of (left_proof ?rp))) [sample_leaf 2, sample_leaf 3])"
    by (rule range_validate_sound [OF _ v]) (simp_all add: range_root_def del: mnode.simps)
  then have "[sample_leaf 2, sample_leaf 3] ! 1 = mnode ?A 0 ?xs 0 (1 + 1) \<or>
      hash_clash ?A 0 ?xs (range_pairs ?A ?rp 0 2 [sample_leaf 2, sample_leaf 3])"
    by (simp only: sha3.tree_proof_simps range_proof.simps) (metis One_nat_def length_Cons lessI list.size(3))
  then show ?thesis using v by (simp only: Let_def one_add_one)
qed

text \<open>C24: Completeness: from a tree whose leaves are all known and that has at most 64 layers,
  \<open>gen_range_proof\<close> gives a proof for every range of leaves whose root is the root of the tree and
  that \<open>RangeProof::validate\<close> accepts; for one leaf \<open>gen_proof\<close> and \<open>Proof::validate\<close> do.\<close>

theorem generated_proofs_validate:
  assumes S: "node_store C D touched" and r: "refines (sha3_optional keccak) C D touched lh a t s"
    and H: "spec_height s \<le> 64" and range: "l < r" "r \<le> length (spec_leaves s)"
  shows "(\<exists>p. gen_proof (sha3_optional keccak) (amt_read (sha3_optional keccak) C D t) l = Inr p \<and>
      proof_root p = Inr (mnode (sha3_optional keccak) lh (spec_leaves s) (spec_height s - 1) 0) \<and>
      proof_validate (sha3_optional keccak) p (spec_leaves s ! l) l = Inr ()) \<and>
    (\<exists>rp. gen_range_proof (sha3_optional keccak) (amt_read (sha3_optional keccak) C D t) l r = Inr rp \<and>
      range_root rp = Inr (mnode (sha3_optional keccak) lh (spec_leaves s) (spec_height s - 1) 0) \<and>
      range_validate (sha3_optional keccak) rp (take (r - l) (drop l (spec_leaves s))) l = Inr ())"
proof -
  have T: "reads_tree (sha3_optional keccak) lh (spec_height s) (spec_leaves s) (amt_read (sha3_optional keccak) C D t)"
    using append_tree.refines_reads [OF append_tree_sha3 [OF S] r] .
  have known: "alg_null (sha3_optional keccak) \<notin> set (spec_leaves s)" using r by (simp add: refines_def)
  have "l < length (spec_leaves s)" using range by simp
  then show ?thesis
    using sha3.generated_proof_validates [OF T _ known H] sha3.generated_range_validates [OF T range known H] by blast
qed

lemma sample_tree_refines:
  "\<exists>t. amt_new (sha3_optional sample_keccak) map_cache [sample_leaf 1, sample_leaf 2, sample_leaf 3] 0 (Some 0) = Inr t \<and>
     refines (sha3_optional sample_keccak) map_cache empty_node_database (\<lambda>_. {}) 0 0 t
       (spec_new 3 [sample_leaf 1, sample_leaf 2, sample_leaf 3])"
  using memory_tree.amt_new_refines [OF memory_tree_sha3 [OF map_cache.node_cache_axioms],
      of "[sample_leaf 1, sample_leaf 2, sample_leaf 3]" sample_keccak 0 0]
  by (simp add: tree_depth.simps numeral_3_eq_3)

theorem generated_proofs_validate_witness:
  "\<exists>t rp. amt_new (sha3_optional sample_keccak) map_cache [sample_leaf 1, sample_leaf 2, sample_leaf 3] 0 (Some 0) = Inr t \<and>
     gen_range_proof (sha3_optional sample_keccak) (amt_read (sha3_optional sample_keccak) map_cache empty_node_database t) 1 3 = Inr rp \<and>
     range_validate (sha3_optional sample_keccak) rp [sample_leaf 2, sample_leaf 3] 1 = Inr ()"
proof -
  obtain t where t: "amt_new (sha3_optional sample_keccak) map_cache [sample_leaf 1, sample_leaf 2, sample_leaf 3] 0 (Some 0) = Inr t"
    and r: "refines (sha3_optional sample_keccak) map_cache empty_node_database (\<lambda>_. {}) 0 0 t
       (spec_new 3 [sample_leaf 1, sample_leaf 2, sample_leaf 3])" using sample_tree_refines by blast
  show ?thesis
    using generated_proofs_validate [OF map_cache.memory.node_store_axioms r, of 1 3] t
    by (auto simp: spec_new_def)
qed

text \<open>C36: \<open>RangeProof::validate\<close> and \<open>Proof::validate\<close> index the path once per sibling without checking
  its length first: a proof with fewer path bits than siblings makes both panic instead of
  returning an error.\<close>

theorem short_path_panics:
  assumes "length (path_of p) + 2 < length (lemma_of p)"
  shows "proof_validate (sha3_optional keccak) p item position = Inl (Panic ''index out of bounds'') \<and>
    range_validate (sha3_optional keccak) \<lparr>left_proof = p, right_proof = q\<rparr> leaves start =
      Inl (Panic ''index out of bounds'')"
  using validate_integrity_short_path [OF assms, of "sha3_optional keccak"]
  by (simp add: proof_validate_def range_validate_def range_integrity_def)

theorem short_path_panics_witness:
  "proof_validate (sha3_optional sample_keccak)
     \<lparr>lemma_of = [sample_leaf 1, sample_leaf 2, sample_leaf 3], path_of = []\<rparr> (sample_leaf 1) 0 =
   Inl (Panic ''index out of bounds'')"
  by (rule conjunct1 [OF short_path_panics]) simp

text \<open>C37: \<open>Proof::validate\<close> takes the position from all path bits but hashes only as many of them as
  there are siblings: a proof accepted for an item at a position, extended by one more right turn,
  is accepted for the same item at a position beyond the tree.\<close>

theorem longer_path_moves_position:
  assumes "length (lemma_of p) = length (path_of p) + 2" "length (path_of p) < 64"
    and "proof_validate (sha3_optional keccak) p item position = Inr ()"
  shows "proof_validate (sha3_optional keccak) (p\<lparr>path_of := path_of p @ [False]\<rparr>) item
    (position + 2 ^ length (path_of p)) = Inr ()"
  using assms
  by (simp add: proof_validate_def validate_integrity_longer_path proof_position_eq path_pos_snoc proof_item_def
      split: list.splits)

theorem longer_path_moves_position_witness:
  "proof_validate (sha3_optional sample_keccak)
     (tree_proof (sha3_optional sample_keccak) 0 1 [sample_leaf 1, sample_leaf 2] 1
        \<lparr>path_of := path_of (tree_proof (sha3_optional sample_keccak) 0 1 [sample_leaf 1, sample_leaf 2] 1) @ [False]\<rparr>)
     (sample_leaf 2) 3 = Inr ()"
proof -
  let ?A = "sha3_optional sample_keccak" and ?xs = "[sample_leaf 1, sample_leaf 2]"
  have v: "proof_validate ?A (tree_proof ?A 0 1 ?xs 1) (mnode ?A 0 ?xs 0 1) 1 = Inr ()"
    by (rule sha3.tree_proof_validates) simp_all
  have "proof_validate ?A (tree_proof ?A 0 1 ?xs 1\<lparr>path_of := path_of (tree_proof ?A 0 1 ?xs 1) @ [False]\<rparr>)
      (mnode ?A 0 ?xs 0 1) (1 + 2 ^ length (path_of (tree_proof ?A 0 1 ?xs 1))) = Inr ()"
    by (rule longer_path_moves_position [OF _ _ v]) simp_all
  then show ?thesis by (simp add: numeral_3_eq_3)
qed

section \<open>Reverting\<close>

text \<open>C25: \<open>revert_to\<close> a recorded version of a tree known in part: the layers become those of the
  version, with at most nodes added that were learned since and that are nodes of the version's
  own tree; the versions up to it stay, and no later version stays that follows it without a gap.\<close>

theorem revert_to_version:
  assumes S: "node_store C D touched" and v: "version_of (sha3_optional keccak) lh ys L vs V"
    and R: "nm_represents C D touched (node_manager t) L False"
    and found: "fmlookup (delta_nodes_map t) seq = Some \<lparr>right_most_nodes = right_most V\<rparr>"
  shows "\<exists>t' L'. revert_to C D seq t = Inr (t', Inr ()) \<and>
    nm_represents C D touched (node_manager t') L' False \<and> extends (sha3_optional keccak) lh vs V L' \<and>
    leaf_height t' = leaf_height t \<and>
    (\<forall>q \<le> seq. fmlookup (delta_nodes_map t') q = fmlookup (delta_nodes_map t) q) \<and>
    (\<forall>q > seq. fmlookup (delta_nodes_map t') q = None \<or>
       fmlookup (delta_nodes_map t') q = fmlookup (delta_nodes_map t) q \<and>
       (\<exists>r. seq < r \<and> r < q \<and> fmlookup (delta_nodes_map t) r = None))"
  using append_tree.revert_to_layers [OF append_tree_sha3 [OF S] v R found] by blast

theorem revert_to_version_witness:
  "\<exists>t' L'. revert_to map_cache empty_node_database 5
       (half_known_tree\<lparr>delta_nodes_map := fmupd 5 \<lparr>right_most_nodes = right_most half_known_layers\<rparr> fmempty\<rparr>) =
       Inr (t', Inr ()) \<and>
     nm_represents map_cache empty_node_database (\<lambda>_. {}) (node_manager t') L' False \<and>
     extends (sha3_optional sample_keccak) 0 [sample_leaf 1, sample_leaf 2] half_known_layers L'"
proof -
  have v: "version_of (sha3_optional sample_keccak) 0 [sample_leaf 1, sample_leaf 2] half_known_layers
      [sample_leaf 1, sample_leaf 2] half_known_layers"
    using half_known(2) by (intro version_of_self) (simp_all add: tree_inv_def)
  show ?thesis
    using revert_to_version [OF map_cache.memory.node_store_axioms v,
        of "half_known_tree\<lparr>delta_nodes_map := fmupd 5 \<lparr>right_most_nodes = right_most half_known_layers\<rparr> fmempty\<rparr>" 5]
      half_known(1) by auto
qed

text \<open>C38: Reverting a non-empty tree to a version it does not have returns an error but leaves the
  transaction it opened: every later operation that opens one, such as \<open>append_list\<close>, panics.\<close>

theorem revert_to_unknown_poisons:
  assumes "node_store C D touched" "nm_represents C D touched (node_manager t) L False"
    and "L \<noteq> []" "L ! 0 \<noteq> []" "fmlookup (delta_nodes_map t) seq = None" "None \<notin> set zs"
  shows "\<exists>t'. revert_to C D seq t = Inr (t', Inl (Err ''tx_seq unavailable'')) \<and>
    append_list (sha3_optional keccak) C D zs t' = Inl (Panic ''start new tx before commit'') \<and>
    revert_to C D seq' t' = Inl (Panic ''start new tx before commit'')"
proof -
  note T = append_tree_sha3 [OF assms(1), of keccak]
  obtain nm where st: "start_transaction D t = Inr (t\<lparr>node_manager := nm\<rparr>)"
    and R: "nm_represents C D touched nm L True"
    using append_tree.start_transaction_yields [OF T assms(2)] append_tree.yields_def [OF T] by metis
  have n: "amt_layer_len (t\<lparr>node_manager := nm\<rparr>) 0 = Inr (length (L ! 0))" "amt_layer_len t 0 = Inr (length (L ! 0))"
    using append_tree.tree_reads(2) [OF T, of _ L] R assms(2,3) by auto
  have "nm_db_tx nm \<noteq> None" using R by (simp add: nm_represents_def)
  then have again: "start_transaction D (t\<lparr>node_manager := nm\<rparr>) = Inl (Panic ''start new tx before commit'')"
    by (simp add: start_transaction_def on_nodes_def nm_start_transaction_def)
  have nn: "\<not> list_ex (is_null (sha3_optional keccak)) zs" using assms(6) by (auto simp: list_ex_iff is_null_def)
  have "append_list (sha3_optional keccak) C D zs (t\<lparr>node_manager := nm\<rparr>) = Inl (Panic ''start new tx before commit'')"
    unfolding append_list_def again using nn by simp
  moreover have "revert_to C D seq' (t\<lparr>node_manager := nm\<rparr>) = Inl (Panic ''start new tx before commit'')"
    unfolding revert_to_def again n(1) using assms(4) by simp
  moreover have "revert_to C D seq t = Inr (t\<lparr>node_manager := nm\<rparr>, Inl (Err ''tx_seq unavailable''))"
    using st n assms(4,5) by (simp add: revert_to_def)
  ultimately show ?thesis by blast
qed

theorem revert_to_unknown_poisons_witness:
  "\<exists>t'. revert_to map_cache empty_node_database 3 half_known_tree = Inr (t', Inl (Err ''tx_seq unavailable'')) \<and>
     append_list (sha3_optional sample_keccak) map_cache empty_node_database [sample_leaf 1] t' =
       Inl (Panic ''start new tx before commit'')"
  using revert_to_unknown_poisons [OF map_cache.memory.node_store_axioms half_known(1), of 3 "[sample_leaf 1]" sample_keccak 0]
  by (auto simp: half_known_layers_def half_known_tree_def empty_tree_def)

section \<open>Hashes\<close>

text \<open>C32: The table of precomputed zero hashes is an optimisation only: with and without it,
  \<open>parent\<close> is the Keccak hash of the two children and \<open>leaf\<close> the hash of the data, and the padding
  of each layer is the parent of two paddings of the layer below.\<close>

theorem zero_hash_table_correct:
  "parent_h256 keccak l r = keccak (l @ r) \<and>
   parent_optional keccak (Some l) (Some r) = Some (keccak (l @ r)) \<and>
   leaf_h256 keccak data = keccak data \<and>
   ZERO_HASHES keccak (Suc h) = keccak (ZERO_HASHES keccak h @ ZERO_HASHES keccak h)"
  by (simp add: parent_h256_eq_raw leaf_h256_eq_raw parent_raw_def leaf_raw_def)

text \<open>C33: A hash written by \<open>ssz_append\<close> or \<open>as_bytes\<close> is read back by \<open>from_ssz_bytes\<close> and
  \<open>from_bytes\<close>; both encodings are the same 33 bytes.\<close>

theorem optional_hash_round_trip:
  assumes "wf_optional_hash oh"
  shows "from_ssz_bytes (ssz_append oh []) = Inr oh \<and> from_bytes (as_bytes oh) = Inr oh \<and>
    ssz_append oh buf = buf @ as_bytes oh \<and> length (as_bytes oh) = 33"
  by (intro conjI from_ssz_bytes_inverse from_bytes_as_bytes ssz_append_prefix length_as_bytes assms)

theorem optional_hash_round_trip_witness:
  "from_ssz_bytes (ssz_append (sample_leaf 9) []) = Inr (sample_leaf 9)"
  by (rule conjunct1 [OF optional_hash_round_trip]) (simp add: wf_optional_hash_def sample_leaf_def)

end
