(* ===== verification/Shard_Config.thy ===== *)
theory Shard_Config
  imports Zgs_Prelude
begin

text \<open>
  Shards of the flow: \<open>node/storage/src/config.rs\<close>. A node stores the segments whose index has a
  given residue modulo a power of two. The theory models \<open>ShardConfig\<close> with its parser and its
  checks, the successor segment, \<open>intersect\<close>, and the segment tree behind
  \<open>all_shards_available\<close>.
\<close>

section \<open>Shard configurations\<close>

record shard_config =
  shard_id :: nat
  num_shard :: nat

definition shard_default :: shard_config where
  "shard_default = \<lparr>shard_id = 0, num_shard = 1\<rparr>"

definition shard_validate :: "shard_config \<Rightarrow> unit res" where
  "shard_validate c =
     (if shard_id c \<ge> num_shard c then Inl (Err ''Incorrect shard_id'')
      else if num_shard c = 0 then Inl (Err ''Shard num is 0'')
      else if \<not> is_power_of_two (num_shard c) then Inl (Err ''Incorrect shard group bytes'')
      else Inr ())"

definition shard_new :: "nat \<Rightarrow> nat \<Rightarrow> shard_config res" where
  "shard_new sid num =
     (let config = \<lparr>shard_id = sid, num_shard = num\<rparr> in
      rbind (shard_validate config) (\<lambda>_. Inr config))"

text \<open>
  \<open>from_str\<close>: the text is split at \<open>/\<close>, the parts are trimmed and parsed as \<open>usize\<close>. Text is a
  list of bytes; \<open>trim\<close> removes the white space of ASCII.
\<close>

definition is_space :: "char \<Rightarrow> bool" where
  "is_space c \<longleftrightarrow> c \<in> {CHR '' '', CHR 0x09, CHR 0x0A, CHR 0x0B, CHR 0x0C, CHR 0x0D}"

definition trim :: "string \<Rightarrow> string" where
  "trim s = rev (dropWhile is_space (rev (dropWhile is_space s)))"

fun split_at :: "char \<Rightarrow> string \<Rightarrow> string list" where
  "split_at c [] = [[]]"
| "split_at c (x # xs) =
     (if x = c then [] # split_at c xs
      else case split_at c xs of p # ps \<Rightarrow> (x # p) # ps | [] \<Rightarrow> [[x]])"

definition digit :: "char \<Rightarrow> nat option" where
  "digit c = (let n = (of_char c :: nat) in if 48 \<le> n \<and> n \<le> 57 then Some (n - 48) else None)"

text \<open>\<open>parse::<usize>\<close>: an optional \<open>+\<close>, at least one digit, no overflow.\<close>

fun parse_digits :: "nat \<Rightarrow> string \<Rightarrow> nat option" where
  "parse_digits acc [] = Some acc"
| "parse_digits acc (c # cs) =
     (case digit c of
        None \<Rightarrow> None
      | Some d \<Rightarrow> if 10 * acc + d < 2 ^ 64 then parse_digits (10 * acc + d) cs else None)"

definition parse_usize :: "string \<Rightarrow> nat res" where
  "parse_usize s =
     (let ds = (case s of c # cs \<Rightarrow> if c = CHR ''+'' \<and> cs \<noteq> [] then cs else s | [] \<Rightarrow> s) in
      if ds = [] then Inl (Err ''Cannot parse shard position'')
      else ok_or (Err ''Cannot parse shard position'') (parse_digits 0 ds))"

definition shard_from_str :: "string \<Rightarrow> shard_config res" where
  "shard_from_str s =
     (let parts = map trim (split_at (CHR ''/'') (trim s)) in
      if length parts \<noteq> 2 then Inl (Err ''Incorrect format'')
      else
        rbind (parse_usize (parts ! 0)) (\<lambda>numerator.
        rbind (parse_usize (parts ! 1)) (\<lambda>denominator.
        shard_new numerator denominator)))"

definition shard_try_from :: "string option \<Rightarrow> shard_config res" where
  "shard_try_from v = (case v of Some position \<Rightarrow> shard_from_str position | None \<Rightarrow> Inr shard_default)"

text \<open>The mask is the complement of \<open>num_shard - 1\<close> in 64 bits.\<close>

definition miner_shard_mask :: "shard_config \<Rightarrow> 64 word" where
  "miner_shard_mask c = not (of_nat (wsub (num_shard c) 1))"

definition miner_shard_id :: "shard_config \<Rightarrow> 64 word" where
  "miner_shard_id c = of_nat (shard_id c)"

definition in_range :: "shard_config \<Rightarrow> nat \<Rightarrow> bool res" where
  "in_range c segment_index =
     (if num_shard c = 0 then Inl (Panic ''remainder with a divisor of zero'')
      else Inr (segment_index mod num_shard c = shard_id c))"

definition next_segment_index :: "shard_config \<Rightarrow> nat \<Rightarrow> nat \<Rightarrow> nat res" where
  "next_segment_index c current start_index =
     (if num_shard c = 0 then Inl (Panic ''remainder with a divisor of zero'')
      else
        let shift = wsub (start_index + current + num_shard c) (shard_id c) mod num_shard c
        in Inr (wsub (current + num_shard c) shift))"

text \<open>The loop of \<open>intersect\<close> halves the configuration with more shards until both have as many.\<close>

function intersect_loop :: "nat \<Rightarrow> nat \<Rightarrow> nat \<Rightarrow> nat \<Rightarrow> bool" where
  "intersect_loop left_num left_id right_num right_id =
     (if left_num \<noteq> right_num then
        (if left_num < right_num then intersect_loop left_num left_id (right_num div 2) (right_id div 2)
         else intersect_loop (left_num div 2) (left_id div 2) right_num right_id)
      else left_id = right_id)"
  by pat_completeness auto
termination
  by (relation "measure (\<lambda>(ln, li, rn, ri). ln + rn)") auto

declare intersect_loop.simps [simp del]

definition intersect :: "shard_config \<Rightarrow> shard_config \<Rightarrow> bool" where
  "intersect c d = intersect_loop (num_shard c) (shard_id c) (num_shard d) (shard_id d)"

section \<open>The segment tree\<close>

datatype shard_tree = Shard_Node (node_num: nat) (covered: bool) (childs: "(shard_tree \<times> shard_tree) option")

definition tree_new :: "nat \<Rightarrow> shard_tree" where
  "tree_new num = Shard_Node num False None"

definition push_down :: "shard_tree \<Rightarrow> shard_tree" where
  "push_down t =
     (case childs t of
        None \<Rightarrow> Shard_Node (node_num t) (covered t)
                  (Some (tree_new (node_num t * 2), tree_new (node_num t * 2)))
      | Some _ \<Rightarrow> t)"

definition tree_update :: "shard_tree \<Rightarrow> shard_tree" where
  "tree_update t =
     Shard_Node (node_num t) (case childs t of Some (l, r) \<Rightarrow> covered l \<and> covered r | None \<Rightarrow> True) (childs t)"

text \<open>
  \<open>insert\<close> descends one level per recursion; the node of level \<open>j\<close> has \<open>2 ^ j\<close> shards, so 65
  levels reach every power of two of \<open>usize\<close>. A number of shards that is not one is never met and
  the recursion of the source does not end.
\<close>

fun shard_insert :: "nat \<Rightarrow> nat \<Rightarrow> nat \<Rightarrow> shard_tree \<Rightarrow> shard_tree res" where
  "shard_insert 0 num sid t = Inl Diverge"
| "shard_insert (Suc fuel) num sid t =
     (if covered t then Inr t
      else if num = node_num t then Inr (Shard_Node (node_num t) True (childs t))
      else
        let t = push_down t in
        case childs t of
          None \<Rightarrow> Inr (tree_update t)
        | Some (l, r) \<Rightarrow>
            if sid mod 2 = 0 then
              rbind (shard_insert fuel num (sid div 2) l) (\<lambda>l.
              Inr (tree_update (Shard_Node (node_num t) (covered t) (Some (l, r)))))
            else
              rbind (shard_insert fuel num (sid div 2) r) (\<lambda>r.
              Inr (tree_update (Shard_Node (node_num t) (covered t) (Some (l, r))))))"

fun shards_loop :: "shard_config list \<Rightarrow> shard_tree \<Rightarrow> bool res" where
  "shards_loop [] root = Inr False"
| "shards_loop (c # cs) root =
     (if \<not> is_ok (shard_validate c) then shards_loop cs root
      else rbind (shard_insert 65 (num_shard c) (shard_id c) root) (\<lambda>root.
        if covered root then Inr True else shards_loop cs root))"

definition all_shards_available :: "shard_config list \<Rightarrow> bool res" where
  "all_shards_available cs = shards_loop cs (tree_new 1)"

section \<open>Validity and the next segment\<close>

lemma shard_validate_ok_iff:
  "shard_validate c = Inr () \<longleftrightarrow> shard_id c < num_shard c \<and> (\<exists>k. num_shard c = 2 ^ k)"
  by (auto simp: shard_validate_def is_power_of_two_iff)

lemma is_ok_validate: "is_ok (shard_validate c) \<longleftrightarrow> shard_validate c = Inr ()"
  by (cases "shard_validate c") auto

lemma next_segment_least:
  assumes v: "shard_validate c = Inr ()"
  shows "\<exists>r. next_segment_index c current start = Inr r \<and> current < r \<and> r \<le> current + num_shard c \<and>
    in_range c (start + r) = Inr True \<and>
    (\<forall>x. current < x \<longrightarrow> x < r \<longrightarrow> in_range c (start + x) = Inr False)"
proof -
  let ?n = "num_shard c" and ?i = "shard_id c" and ?T = "start + current"
  have i: "?i < ?n" using v by (simp add: shard_validate_ok_iff)
  define shift where "shift = (?T + ?n - ?i) mod ?n"
  have sh: "shift < ?n" using i by (simp add: shift_def)
  obtain q where q: "?T + ?n - ?i = q * ?n + shift" unfolding shift_def by (metis div_mult_mod_eq)
  then have total: "?T + ?n = q * ?n + shift + ?i" using i by simp
  let ?r = "current + ?n - shift"
  have r: "next_segment_index c current start = Inr ?r"
  proof -
    have "wsub (?T + ?n) ?i mod ?n = shift" using i by (simp add: shift_def)
    then show ?thesis using i sh by (simp add: next_segment_index_def Let_def)
  qed
  have "start + ?r = q * ?n + ?i" using total sh by simp
  then have hit: "in_range c (start + ?r) = Inr True" using i by (simp add: in_range_def)
  have "in_range c (start + x) = Inr False" if x: "current < x" "x < ?r" for x
  proof -
    have "(start + x) mod ?n \<noteq> ?i"
    proof
      assume m: "(start + x) mod ?n = ?i"
      then obtain p where p: "start + x = p * ?n + ?i" by (metis div_mult_mod_eq)
      have lt: "p * ?n + ?i < q * ?n + ?i" using p x \<open>start + ?r = q * ?n + ?i\<close> by linarith
      then have "p < q" by simp
      then have "p * ?n + ?n \<le> q * ?n" by (metis Suc_leI add.commute mult_Suc mult_le_mono1)
      then show False using p total sh x by linarith
    qed
    then show ?thesis using i by (simp add: in_range_def)
  qed
  then show ?thesis using r hit sh by (intro exI [of _ ?r]) auto
qed

section \<open>What the segment tree computes\<close>

text \<open>The indices, shifted to the level of a node, that the marked nodes below it cover.\<close>

primrec tree_covers :: "shard_tree \<Rightarrow> nat \<Rightarrow> bool" where
  "tree_covers (Shard_Node n c ch) i \<longleftrightarrow>
     c \<or> (case map_option (map_prod tree_covers tree_covers) ch of
            None \<Rightarrow> False | Some (l, r) \<Rightarrow> if even i then l (i div 2) else r (i div 2))"

text \<open>The flag of a node says that everything below it is covered; children have twice the shards.\<close>

primrec tree_ok :: "shard_tree \<Rightarrow> bool" where
  "tree_ok (Shard_Node n c ch) \<longleftrightarrow>
     (c \<or> (case map_option (map_prod (\<lambda>t. (covered t, node_num t)) (\<lambda>t. (covered t, node_num t))) ch of
             None \<Rightarrow> True | Some ((cl, nl), (cr, nr)) \<Rightarrow> \<not> (cl \<and> cr) \<and> nl = 2 * n \<and> nr = 2 * n)) \<and>
     (c \<or> (case map_option (map_prod tree_ok tree_ok) ch of None \<Rightarrow> True | Some (l, r) \<Rightarrow> l \<and> r))"

lemma tree_covers_children:
  "tree_covers (Shard_Node n c (Some (l, r))) i \<longleftrightarrow>
     c \<or> (if even i then tree_covers l (i div 2) else tree_covers r (i div 2))"
  "tree_covers (Shard_Node n c None) i \<longleftrightarrow> c"
  by auto

lemma tree_ok_children:
  "tree_ok (Shard_Node n c (Some (l, r))) \<longleftrightarrow>
     c \<or> \<not> (covered l \<and> covered r) \<and> node_num l = 2 * n \<and> node_num r = 2 * n \<and> tree_ok l \<and> tree_ok r"
  "tree_ok (Shard_Node n c None)"
  by auto

declare tree_covers.simps [simp del] tree_ok.simps [simp del]

lemma tree_covered_iff: "tree_ok t \<Longrightarrow> covered t \<longleftrightarrow> (\<forall>i. tree_covers t i)"
proof (induction t)
  case (Shard_Node n c ch)
  show ?case
  proof (cases ch)
    case None
    then show ?thesis by (simp add: tree_covers_children)
  next
    case (Some lr)
    obtain l r where lr: "lr = (l, r)" by fastforce
    show ?thesis
    proof (cases c)
      case False
      then have ok: "\<not> (covered l \<and> covered r)" "tree_ok l" "tree_ok r"
        using Shard_Node.prems unfolding Some lr tree_ok_children by auto
      then have "covered l \<longleftrightarrow> (\<forall>i. tree_covers l i)" "covered r \<longleftrightarrow> (\<forall>i. tree_covers r i)"
        using Shard_Node.IH [of lr l] Shard_Node.IH [of lr r] by (auto simp: Some lr)
      then obtain i where "\<not> tree_covers l i \<or> \<not> tree_covers r i" using ok(1) by blast
      then have "\<not> tree_covers (Shard_Node n c ch) (2 * i) \<or> \<not> tree_covers (Shard_Node n c ch) (2 * i + 1)"
        unfolding Some lr tree_covers_children using False by auto
      then show ?thesis using False by (metis shard_tree.sel(2))
    qed (simp add: tree_covers.simps)
  qed
qed

lemma mod_pow_split:
  "(i::nat) mod 2 ^ Suc m = s \<longleftrightarrow> i mod 2 = s mod 2 \<and> i div 2 mod 2 ^ m = s div 2" if "s < 2 ^ Suc m"
proof -
  have i: "i mod 2 ^ Suc m = 2 * (i div 2 mod 2 ^ m) + i mod 2" by (simp add: mod_mult2_eq)
  have s: "s = 2 * (s div 2) + s mod 2" by simp
  show ?thesis unfolding i by (metis (no_types) Suc_1 add.commute div_mult_self4 div_less mod_less_divisor
      mod_mult_self4 mod_mod_trivial add_0 mod_less_eq_dividend mult.commute s zero_less_Suc zero_neq_numeral)
qed

lemma shard_insert_covers:
  assumes "tree_ok t" "num = node_num t * 2 ^ m" "sid < 2 ^ m" "m < fuel" "0 < node_num t"
  shows "\<exists>t'. shard_insert fuel num sid t = Inr t' \<and> tree_ok t' \<and> node_num t' = node_num t \<and>
    (\<forall>i. tree_covers t' i \<longleftrightarrow> tree_covers t i \<or> i mod 2 ^ m = sid)"
  using assms
proof (induction m arbitrary: t sid fuel)
  case 0
  then obtain f where f: "fuel = Suc f" by (cases fuel) auto
  obtain n c ch where t: "t = Shard_Node n c ch" by (cases t)
  show ?case using 0 by (auto simp: f t tree_covers.simps tree_ok.simps)
next
  case (Suc m)
  then obtain f where f: "fuel = Suc f" by (cases fuel) auto
  obtain n c ch where t: "t = Shard_Node n c ch" by (cases t)
  show ?case
  proof (cases c)
    case True
    then show ?thesis using Suc.prems(1) by (auto simp: f t tree_covers.simps)
  next
    case False
    have ne: "num \<noteq> node_num t" using Suc.prems(2,5) by simp
    obtain l r where ch: "childs (push_down t) = Some (l, r)" and
      lr: "tree_ok l" "tree_ok r" "node_num l = 2 * n" "node_num r = 2 * n" and
      cov: "\<And>i. tree_covers t i \<longleftrightarrow> (if even i then tree_covers l (i div 2) else tree_covers r (i div 2))"
    proof (cases ch)
      case None
      then show ?thesis
        using that [of "tree_new (n * 2)" "tree_new (n * 2)"] False
        by (auto simp: push_down_def t tree_new_def tree_covers_children tree_ok_children)
    next
      case (Some lr)
      then obtain l r where "lr = (l, r)" by fastforce
      then show ?thesis
        using that [of l r] False Suc.prems(1) Some
        by (auto simp: push_down_def t tree_covers_children tree_ok_children)
    qed
    have pd: "node_num (push_down t) = n" "covered (push_down t) = c"
      by (auto simp: push_down_def t split: option.splits)
    have up: "tree_ok (tree_update (Shard_Node n c (Some (l', r')))) \<and>
        node_num (tree_update (Shard_Node n c (Some (l', r')))) = n \<and>
        (\<forall>i. tree_covers (tree_update (Shard_Node n c (Some (l', r')))) i \<longleftrightarrow>
           (if even i then tree_covers l' (i div 2) else tree_covers r' (i div 2)))"
      if "tree_ok l'" "tree_ok r'" "node_num l' = 2 * n" "node_num r' = 2 * n" for l' r'
      using that tree_covered_iff [of l'] tree_covered_iff [of r']
      by (auto simp: tree_update_def tree_covers_children tree_ok_children)
    have IH: "\<exists>t'. shard_insert f num (sid div 2) u = Inr t' \<and> tree_ok t' \<and> node_num t' = node_num u \<and>
        (\<forall>i. tree_covers t' i \<longleftrightarrow> tree_covers u i \<or> i mod 2 ^ m = sid div 2)"
      if "tree_ok u" "node_num u = 2 * n" for u
      using that Suc.prems by (intro Suc.IH) (auto simp: t f)
    have split: "i mod 2 ^ Suc m = sid \<longleftrightarrow> i mod 2 = sid mod 2 \<and> i div 2 mod 2 ^ m = sid div 2" for i
      using Suc.prems(3) by (rule mod_pow_split)
    show ?thesis
    proof (cases "even sid")
      case True
      obtain l' where l': "shard_insert f num (sid div 2) l = Inr l'" "tree_ok l'" "node_num l' = 2 * n"
        "\<And>i. tree_covers l' i \<longleftrightarrow> tree_covers l i \<or> i mod 2 ^ m = sid div 2"
        using IH [OF lr(1,3)] lr(3) by auto
      show ?thesis
        using up [OF l'(2) lr(2) l'(3) lr(4)] l' True False ne ch pd split cov
        by (auto simp: f t even_iff_mod_2_eq_zero)
    next
      case odd: False
      obtain r' where r': "shard_insert f num (sid div 2) r = Inr r'" "tree_ok r'" "node_num r' = 2 * n"
        "\<And>i. tree_covers r' i \<longleftrightarrow> tree_covers r i \<or> i mod 2 ^ m = sid div 2"
        using IH [OF lr(2,4)] lr(4) by auto
      show ?thesis
        using up [OF lr(1) r'(2) lr(3) r'(3)] r' odd False ne ch pd split cov
        by (auto simp: f t mod_2_eq_odd)
    qed
  qed
qed

lemma shards_loop_covers:
  assumes "tree_ok root" "node_num root = 1" "\<not> covered root" "\<And>c. c \<in> set cs \<Longrightarrow> num_shard c < 2 ^ 64"
  shows "shards_loop cs root = Inr (\<forall>i. tree_covers root i \<or>
    (\<exists>c \<in> set cs. shard_validate c = Inr () \<and> i mod num_shard c = shard_id c))"
  using assms
proof (induction cs arbitrary: root)
  case Nil
  then show ?case using tree_covered_iff [of root] by auto
next
  case (Cons c cs)
  show ?case
  proof (cases "shard_validate c = Inr ()")
    case False
    then have "shards_loop (c # cs) root = shards_loop cs root" by (simp add: is_ok_validate)
    also have "\<dots> = Inr (\<forall>i. tree_covers root i \<or>
        (\<exists>c \<in> set cs. shard_validate c = Inr () \<and> i mod num_shard c = shard_id c))"
      using Cons.prems by (intro Cons.IH) auto
    finally show ?thesis using False by simp
  next
    case True
    then obtain m where m: "num_shard c = 2 ^ m" "shard_id c < 2 ^ m"
      by (auto simp: shard_validate_ok_iff)
    have "(2::nat) ^ m < 2 ^ 64" using Cons.prems(4) [of c] m by simp
    then have "m < 64" by (rule power_less_imp_less_exp [rotated]) simp
    then obtain root' where ins: "shard_insert 65 (num_shard c) (shard_id c) root = Inr root'"
      and ok: "tree_ok root'" "node_num root' = 1"
      and cov: "\<And>i. tree_covers root' i \<longleftrightarrow> tree_covers root i \<or> i mod num_shard c = shard_id c"
      using shard_insert_covers [of root "num_shard c" m "shard_id c" 65] Cons.prems(1,2) m by auto
    show ?thesis
    proof (cases "covered root'")
      case full: True
      then have "\<forall>i. tree_covers root' i" using tree_covered_iff [OF ok(1)] by simp
      then show ?thesis using ins full True cov by (auto simp: is_ok_validate)
    next
      case False
      then have "shards_loop cs root' = Inr (\<forall>i. tree_covers root' i \<or>
          (\<exists>c \<in> set cs. shard_validate c = Inr () \<and> i mod num_shard c = shard_id c))"
        using Cons.prems ok by (intro Cons.IH) auto
      then show ?thesis using ins False True cov by (auto simp: is_ok_validate)
    qed
  qed
qed

lemma all_shards_available_covers:
  assumes "\<And>c. c \<in> set cs \<Longrightarrow> num_shard c < 2 ^ 64"
  shows "all_shards_available cs =
    Inr (\<forall>i. \<exists>c \<in> set cs. shard_validate c = Inr () \<and> in_range c i = Inr True)"
proof -
  have "all_shards_available cs = Inr (\<forall>i. tree_covers (tree_new 1) i \<or>
      (\<exists>c \<in> set cs. shard_validate c = Inr () \<and> i mod num_shard c = shard_id c))"
    unfolding all_shards_available_def using assms
    by (intro shards_loop_covers) (auto simp: tree_new_def tree_ok_children)
  moreover have "in_range c i = Inr True \<longleftrightarrow> i mod num_shard c = shard_id c" if "shard_validate c = Inr ()" for c i
    using that by (auto simp: in_range_def shard_validate_ok_iff)
  ultimately show ?thesis by (simp add: tree_new_def tree_covers_children cong: conj_cong)
qed

section \<open>What \<open>intersect\<close> computes\<close>

text \<open>It compares the high bits of the shard numbers, while the segments of a shard are given by the low bits.\<close>

lemma intersect_loop_right: "intersect_loop (2 ^ a) i (2 ^ (a + k)) j \<longleftrightarrow> i = j div 2 ^ k"
proof (induction k arbitrary: j)
  case 0
  then show ?case by (simp add: intersect_loop.simps)
next
  case (Suc k)
  have "(2::nat) ^ a < 2 ^ (a + Suc k)" by (rule power_strict_increasing) simp_all
  then have "intersect_loop (2 ^ a) i (2 ^ (a + Suc k)) j \<longleftrightarrow> intersect_loop (2 ^ a) i (2 ^ (a + k)) (j div 2)"
    by (subst intersect_loop.simps) simp
  also have "\<dots> \<longleftrightarrow> i = j div 2 ^ Suc k" using Suc by (simp add: div_mult2_eq)
  finally show ?case .
qed

lemma shared_segment_iff:
  assumes "num_shard c = 2 ^ a" "num_shard d = 2 ^ (a + k)" "shard_id c < 2 ^ a" "shard_id d < 2 ^ (a + k)"
  shows "(\<exists>x. in_range c x = Inr True \<and> in_range d x = Inr True) \<longleftrightarrow> shard_id c = shard_id d mod 2 ^ a"
proof
  assume "\<exists>x. in_range c x = Inr True \<and> in_range d x = Inr True"
  then obtain x where "x mod 2 ^ a = shard_id c" "x mod 2 ^ (a + k) = shard_id d"
    using assms by (auto simp: in_range_def)
  then show "shard_id c = shard_id d mod 2 ^ a" by (metis mod_mod_cancel le_imp_power_dvd le_add1)
next
  assume "shard_id c = shard_id d mod 2 ^ a"
  then show "\<exists>x. in_range c x = Inr True \<and> in_range d x = Inr True"
    using assms by (intro exI [of _ "shard_id d"]) (simp add: in_range_def)
qed

section \<open>Properties\<close>

definition shard_1_of_2 :: shard_config where
  "shard_1_of_2 = \<lparr>shard_id = 1, num_shard = 2\<rparr>"

definition shard_1_of_4 :: shard_config where
  "shard_1_of_4 = \<lparr>shard_id = 1, num_shard = 4\<rparr>"

lemma sample_shards_valid: "shard_validate shard_1_of_2 = Inr ()" "shard_validate shard_1_of_4 = Inr ()"
  by (code_simp, code_simp)



text \<open>C28: \<open>all_shards_available\<close> never fails and returns true exactly if every segment is stored by
  one of the valid shards in the list.\<close>

theorem all_shards_available_correct:
  assumes "\<forall>c \<in> set cs. num_shard c < 2 ^ 64"
  shows "all_shards_available cs =
    Inr (\<forall>i. \<exists>c \<in> set cs. shard_validate c = Inr () \<and> in_range c i = Inr True)"
  using assms by (intro all_shards_available_covers) blast

theorem all_shards_available_correct_witness:
  "all_shards_available [shard_1_of_2, shard_1_of_4] =
     Inr (\<forall>i. \<exists>c \<in> {shard_1_of_2, shard_1_of_4}. shard_validate c = Inr () \<and> in_range c i = Inr True)"
  using all_shards_available_correct [of "[shard_1_of_2, shard_1_of_4]"]
  by (simp add: shard_1_of_2_def shard_1_of_4_def)

text \<open>C39: \<open>intersect\<close> compares the high bits of the two shard numbers, but two shards store a common
  segment exactly if the low bits agree.\<close>

theorem intersect_high_bits:
  assumes "num_shard c = 2 ^ a" "num_shard d = 2 ^ (a + k)" "shard_id c < 2 ^ a" "shard_id d < 2 ^ (a + k)"
  shows "(intersect c d \<longleftrightarrow> shard_id c = shard_id d div 2 ^ k) \<and>
    ((\<exists>x. in_range c x = Inr True \<and> in_range d x = Inr True) \<longleftrightarrow> shard_id c = shard_id d mod 2 ^ a)"
  using intersect_loop_right [of a "shard_id c" k "shard_id d"] shared_segment_iff [OF assms] assms
  by (simp add: intersect_def)

theorem intersect_high_bits_witness:
  "\<not> intersect shard_1_of_2 shard_1_of_4 \<and>
   (\<exists>x. in_range shard_1_of_2 x = Inr True \<and> in_range shard_1_of_4 x = Inr True)"
  using intersect_high_bits [of shard_1_of_2 1 shard_1_of_4 1]
  by (simp add: shard_1_of_2_def shard_1_of_4_def)

end
