(* ===== verification/Merkle_Light.thy ===== *)
theory Merkle_Light
  imports Hash_Algorithm
begin

text \<open>
  The in-memory Merkle tree that files and segments use: \<open>common/merkle_light/src/merkle.rs\<close>
  (\<open>MerkleTree\<close>, \<open>next_pow2\<close>, \<open>log2_pow2\<close>), \<open>common/merkle_light/src/proof.rs\<close> (\<open>Proof\<close>) and
  the algorithm \<open>RawLeafSha3Algorithm\<close> of \<open>common/merkle_tree/src/lib.rs\<close>.

  The tree is one vector of layers. An odd layer is filled up with a null node; a parent that has
  only a left child is stored as a null node, and \<open>link_map\<close> says where the hash that it stands
  for is. The reference is the tree that splits a list at the largest power of two below its
  length (\<open>mtree\<close>, \<open>tsteps\<close>): \<open>build\<close> computes its root, and \<open>gen_proof\<close> its authentication paths.
\<close>

unbundle bit_operations_syntax

section \<open>Powers of two\<close>

definition next_pow2_word :: "64 word \<Rightarrow> 64 word" where
  "next_pow2_word n =
     (let n = n - 1;
          n = n OR drop_bit 1 n;
          n = n OR drop_bit 2 n;
          n = n OR drop_bit 4 n;
          n = n OR drop_bit 8 n;
          n = n OR drop_bit 16 n;
          n = n OR drop_bit 32 n
      in n + 1)"

definition next_pow2 :: "nat \<Rightarrow> nat" where
  "next_pow2 n = unat (next_pow2_word (of_nat n))"

text \<open>\<open>usize::trailing_zeros\<close>: 64 for zero.\<close>

definition log2_pow2 :: "nat \<Rightarrow> nat" where
  "log2_pow2 n = length (takeWhile (\<lambda>i. \<not> bit (of_nat n :: 64 word) i) [0..<64])"

lemma smear_bits:
  fixes v w :: "64 word"
  assumes "\<And>i. bit v i \<longleftrightarrow> (\<exists>e<d. bit w (i + e))"
  shows "bit (v OR drop_bit d v) i \<longleftrightarrow> (\<exists>e<2 * d. bit w (i + e))"
proof
  assume "bit (v OR drop_bit d v) i"
  then have "(\<exists>e<d. bit w (i + e)) \<or> (\<exists>e<d. bit w (i + d + e))"
    by (auto simp: bit_simps assms ac_simps)
  then show "\<exists>e<2 * d. bit w (i + e)"
  proof
    assume "\<exists>e<d. bit w (i + e)"
    then obtain e where "e < d" "bit w (i + e)" by blast
    then show ?thesis by (intro exI [of _ e]) simp
  next
    assume "\<exists>e<d. bit w (i + d + e)"
    then obtain e where "e < d" "bit w (i + d + e)" by blast
    then show ?thesis by (intro exI [of _ "d + e"]) (simp add: ac_simps)
  qed
next
  assume "\<exists>e<2 * d. bit w (i + e)"
  then obtain e where e: "e < 2 * d" "bit w (i + e)" by blast
  show "bit (v OR drop_bit d v) i"
  proof (cases "e < d")
    case True
    then show ?thesis using e by (auto simp: bit_simps assms)
  next
    case False
    then have "e - d < d" "bit w (d + i + (e - d))" using e by (simp_all add: ac_simps)
    then show ?thesis by (auto simp: bit_simps assms)
  qed
qed

lemma next_pow2_word_bits:
  fixes n :: "64 word"
  shows "\<exists>r. next_pow2_word n = r + 1 \<and> (\<forall>i. bit r i \<longleftrightarrow> (\<exists>j\<ge>i. bit (n - 1) j))"
proof -
  define w0 where "w0 = n - 1"
  define w1 where "w1 = w0 OR drop_bit 1 w0"
  define w2 where "w2 = w1 OR drop_bit 2 w1"
  define w3 where "w3 = w2 OR drop_bit 4 w2"
  define w4 where "w4 = w3 OR drop_bit 8 w3"
  define w5 where "w5 = w4 OR drop_bit 16 w4"
  define w6 where "w6 = w5 OR drop_bit 32 w5"
  have "bit w0 i \<longleftrightarrow> (\<exists>e<1. bit w0 (i + e))" for i by simp
  from smear_bits [OF this] have "bit w1 i \<longleftrightarrow> (\<exists>e<2. bit w0 (i + e))" for i
    unfolding w1_def by simp
  from smear_bits [OF this] have "bit w2 i \<longleftrightarrow> (\<exists>e<4. bit w0 (i + e))" for i
    unfolding w2_def by simp
  from smear_bits [OF this] have "bit w3 i \<longleftrightarrow> (\<exists>e<8. bit w0 (i + e))" for i
    unfolding w3_def by simp
  from smear_bits [OF this] have "bit w4 i \<longleftrightarrow> (\<exists>e<16. bit w0 (i + e))" for i
    unfolding w4_def by simp
  from smear_bits [OF this] have "bit w5 i \<longleftrightarrow> (\<exists>e<32. bit w0 (i + e))" for i
    unfolding w5_def by simp
  from smear_bits [OF this] have w6: "bit w6 i \<longleftrightarrow> (\<exists>e<64. bit w0 (i + e))" for i
    unfolding w6_def by simp
  have "bit w6 i \<longleftrightarrow> (\<exists>j\<ge>i. bit w0 j)" for i
  proof
    assume "bit w6 i"
    then show "\<exists>j\<ge>i. bit w0 j" unfolding w6 using le_add1 by blast
  next
    assume "\<exists>j\<ge>i. bit w0 j"
    then obtain j where j: "i \<le> j" "bit w0 j" by blast
    then have "j < 64" using bit_imp_le_length [of w0 j] by simp
    then show "bit w6 i" unfolding w6 using j by (intro exI [of _ "j - i"]) simp
  qed
  moreover have "next_pow2_word n = w6 + 1"
    unfolding next_pow2_word_def Let_def w0_def w1_def w2_def w3_def w4_def w5_def w6_def ..
  ultimately show ?thesis unfolding w0_def by blast
qed

lemma bit_of_range:
  fixes m :: "64 word"
  assumes "unat m < 2 ^ k"
  shows "bit m j \<Longrightarrow> j < k" and "0 < k \<Longrightarrow> 2 ^ (k - 1) \<le> unat m \<Longrightarrow> bit m (k - 1)"
proof -
  show "j < k" if "bit m j"
  proof (rule ccontr)
    assume "\<not> j < k"
    then have "(2::nat) ^ k \<le> 2 ^ j" by simp
    then have "unat m < 2 ^ j" using assms by linarith
    then have "\<not> bit (unat m) j" by (simp add: bit_iff_odd)
    then show False using that by (simp add: bit_unsigned_iff)
  qed
  show "bit m (k - 1)" if "0 < k" "2 ^ (k - 1) \<le> unat m"
  proof -
    have "unat m < 2 * 2 ^ (k - 1)" using assms that(1) by (simp add: power_eq_if)
    then have "unat m div 2 ^ (k - 1) = 1" using that(2) by (intro div_nat_eqI) simp_all
    then have "bit (unat m) (k - 1)" by (simp add: bit_iff_odd)
    then show ?thesis by (simp add: bit_unsigned_iff)
  qed
qed

lemma next_pow2_eq:
  assumes "0 < n" "n \<le> 2 ^ k" "k = 0 \<or> 2 ^ (k - 1) < n" "k \<le> 63"
  shows "next_pow2 n = 2 ^ k"
proof -
  define m :: "64 word" where "m = of_nat n - 1"
  have n63: "n \<le> 2 ^ 63" using assms(2,4) power_increasing [of k 63 "2::nat"] by simp
  have m: "m = of_nat (n - 1)" using assms(1) by (simp add: m_def of_nat_diff)
  have um: "unat m = n - 1" unfolding m unat_of_nat using n63 by simp
  obtain r where r: "next_pow2_word (of_nat n) = r + 1" "\<And>i. bit r i \<longleftrightarrow> (\<exists>j\<ge>i. bit m j)"
    using next_pow2_word_bits [of "of_nat n"] unfolding m_def by blast
  have lt: "unat m < 2 ^ k" using um assms(1,2) by simp
  have rk: "bit r i \<longleftrightarrow> i < k" for i
  proof
    assume "bit r i"
    then show "i < k" using r(2) bit_of_range(1) [OF lt] le_less_trans by blast
  next
    assume "i < k"
    then have k: "0 < k" "i \<le> k - 1" by simp_all
    then have "2 ^ (k - 1) \<le> unat m" using assms(3) um by auto
    with k(1) have "bit m (k - 1)" by (rule bit_of_range(2) [OF lt])
    then show "bit r i" using k(2) r(2) by blast
  qed
  have "r = mask k" by (rule bit_word_eqI) (simp add: bit_mask_iff rk)
  then have "next_pow2_word (of_nat n) = 2 ^ k" using r(1) by (simp add: mask_eq_exp_minus_1)
  moreover have "unat (of_nat (2 ^ k) :: 64 word) = 2 ^ k"
    using assms(4) power_strict_increasing [of k 64 "2::nat"] unfolding unat_of_nat by simp
  ultimately show ?thesis by (simp add: next_pow2_def)
qed

lemma log2_pow2_power: "k < 64 \<Longrightarrow> log2_pow2 (2 ^ k) = k"
proof -
  assume k: "k < 64"
  then have b: "bit (2 ^ k :: 64 word) i \<longleftrightarrow> i = k" if "i < 64" for i
    using that by (auto simp: bit_simps)
  have "[0..<64] = [0..<k] @ k # [Suc k..<64]" using k by (metis le0 less_imp_le_nat upt_conv_Cons upt_split)
  moreover have "takeWhile (\<lambda>i. \<not> bit (2 ^ k :: 64 word) i) ([0..<k] @ k # [Suc k..<64]) = [0..<k]"
    using k b by (subst takeWhile_append2) auto
  ultimately have "takeWhile (\<lambda>i. \<not> bit (2 ^ k :: 64 word) i) [0..<64] = [0..<k]" by simp
  then show ?thesis by (simp add: log2_pow2_def)
qed

section \<open>The tree\<close>

text \<open>The trait \<open>Algorithm\<close> of \<open>merkle_light\<close>; \<open>light_null\<close> is the default value of the hash type.\<close>

record 'e light_alg =
  light_leaf :: "'e \<Rightarrow> 'e"
  light_node :: "'e \<Rightarrow> 'e \<Rightarrow> 'e"
  light_null :: 'e

definition RawLeafSha3Algorithm :: "(byte list \<Rightarrow> h256) \<Rightarrow> h256 light_alg" where
  "RawLeafSha3Algorithm keccak =
     \<lparr>light_leaf = (\<lambda>leaf. leaf), light_node = (\<lambda>left right. keccak (left @ right)),
      light_null = zero_h256\<rparr>"

record 'e light_tree =
  mt_data :: "'e list"
  mt_leafs :: nat
  mt_height :: nat
  mt_link_map :: "nat \<rightharpoonup> nat"

text \<open>One iteration of the parallel map of \<open>build\<close>: the parent of the nodes \<open>i\<close> and \<open>i + 1\<close> and the
  update of \<open>link_map\<close> (insert from, to; remove).\<close>

definition build_node :: "'e light_alg \<Rightarrow> 'e list \<Rightarrow> (nat \<rightharpoonup> nat) \<Rightarrow> nat \<Rightarrow> nat \<Rightarrow> nat \<Rightarrow>
    ('e \<times> (nat \<times> nat \<times> nat option) option) res" where
  "build_node A data link_map layer_start layer_end i =
     rbind (index data (i + 1)) (\<lambda>right. rbind (index data i) (\<lambda>left.
       if right \<noteq> light_null A then Inr (light_node A left right, None)
       else
         let parent_index = (i - layer_start) div 2 + layer_end in
         if left = light_null A then
           rbind (ok_or (Panic ''called Option::unwrap() on a None value'') (link_map i)) (\<lambda>linked_to.
             Inr (light_null A, Some (parent_index, linked_to, Some i)))
         else
           case link_map (i + 1) of
             Some linked \<Rightarrow>
               rbind (index data linked) (\<lambda>target.
               rbind (ensure (target \<noteq> light_null A) (Panic ''assertion failed: link to a null node'')) (\<lambda>_.
                 Inr (light_node A left target, None)))
           | None \<Rightarrow> Inr (light_null A, Some (parent_index, i, None))))"

definition build_links :: "(nat \<times> nat \<times> nat option) option \<Rightarrow> (nat \<rightharpoonup> nat) \<Rightarrow> (nat \<rightharpoonup> nat)" where
  "build_links update link_map =
     (case update of
        None \<Rightarrow> link_map
      | Some (from, to, None) \<Rightarrow> link_map(from \<mapsto> to)
      | Some (from, to, Some remove) \<Rightarrow> (link_map(from \<mapsto> to))(remove := None))"

definition build_push ::
    "'e \<times> (nat \<times> nat \<times> nat option) option \<Rightarrow> 'e list \<times> (nat \<rightharpoonup> nat) \<Rightarrow> 'e list \<times> (nat \<rightharpoonup> nat)" where
  "build_push result st =
     (case result of (node, update) \<Rightarrow>
        (fst st @ [node], build_links update (snd st)))"

text \<open>\<open>(layer_start..layer_end).step_by(2)\<close>\<close>

definition step_by_two :: "nat \<Rightarrow> nat \<Rightarrow> nat list" where
  "step_by_two a b = map (\<lambda>k. a + 2 * k) [0..<(b - a + 1) div 2]"

function build_loop :: "'e light_alg \<Rightarrow> 'e list \<Rightarrow> (nat \<rightharpoonup> nat) \<Rightarrow> nat \<Rightarrow> nat \<Rightarrow> nat \<Rightarrow>
    ('e list \<times> (nat \<rightharpoonup> nat)) res" where
  "build_loop A data link_map wid layer_start layer_end =
     (if 1 < wid then
        let data1 = (if odd wid then data @ [light_null A] else data);
            wid1 = (if odd wid then wid + 1 else wid);
            layer_end1 = (if odd wid then layer_end + 1 else layer_end)
        in rbind (rmap (build_node A data1 link_map layer_start layer_end1)
                       (step_by_two layer_start layer_end1)) (\<lambda>layer.
             let st = fold build_push layer (data1, link_map)
             in build_loop A (fst st) (snd st) (wid1 div 2) layer_end1 (layer_end1 + wid1 div 2))
      else Inr (data, link_map))"
  by pat_completeness auto
termination
  by (relation "measure (\<lambda>(A, data, link_map, wid, layer_start, layer_end). wid)") (auto elim!: oddE)

declare build_loop.simps [simp del]

definition build :: "'e light_alg \<Rightarrow> 'e light_tree \<Rightarrow> 'e light_tree res" where
  "build A t =
     rbind (build_loop A (mt_data t) (mt_link_map t) (mt_leafs t) 0 (mt_leafs t)) (\<lambda>(data, link_map).
       Inr (t\<lparr>mt_data := data, mt_link_map := link_map\<rparr>))"

text \<open>
  \<open>FromIterator\<close> for an iterator over a vector, whose size hint is exact. The capacity is computed
  with wrap-around; \<open>Vec::with_capacity\<close> panics when the 32-byte nodes would not fit \<open>isize\<close>.
\<close>

definition tree_size :: "nat \<Rightarrow> nat" where
  "tree_size n = unat (2 * next_pow2_word (of_nat n) - 1)"

definition from_iter :: "'e light_alg \<Rightarrow> 'e list \<Rightarrow> 'e light_tree res" where
  "from_iter A items =
     rbind (ensure (32 * tree_size (length items) < 2 ^ 63) (Panic ''capacity overflow'')) (\<lambda>_.
       let data = map (light_leaf A) items; leafs = length data
       in build A \<lparr>mt_data = data, mt_leafs = leafs, mt_height = log2_pow2 (tree_size leafs + 1),
                   mt_link_map = Map.empty\<rparr>)"

definition light_root :: "'e light_tree \<Rightarrow> 'e res" where
  "light_root t = index (mt_data t) (wsub (length (mt_data t)) 1)"

section \<open>Proofs\<close>

record 'e light_proof =
  lp_lemma :: "'e list"
  lp_path :: "bool list"

definition light_proof_new :: "'e list \<Rightarrow> bool list \<Rightarrow> 'e light_proof res" where
  "light_proof_new hash path =
     (if 2 < length hash
      then rbind (ensure (length hash - 2 = length path) (Panic ''assertion failed: path length'')) (\<lambda>_.
        Inr \<lparr>lp_lemma = hash, lp_path = path\<rparr>)
      else rbind (ensure (length hash = 1) (Panic ''assertion failed: hash length'')) (\<lambda>_.
        rbind (ensure (path = []) (Panic ''assertion failed: path empty'')) (\<lambda>_.
        Inr \<lparr>lp_lemma = hash, lp_path = path\<rparr>)))"

definition light_item :: "'e light_proof \<Rightarrow> 'e res" where
  "light_item p = index (lp_lemma p) 0"

definition light_proof_root :: "'e light_proof \<Rightarrow> 'e res" where
  "light_proof_root p =
     (if lp_lemma p = [] then Inl (Panic ''called Option::unwrap() on a None value'')
      else Inr (last (lp_lemma p)))"

definition light_validate_step :: "'e light_alg \<Rightarrow> 'e light_proof \<Rightarrow> nat \<Rightarrow> 'e \<Rightarrow> 'e res" where
  "light_validate_step A p i h =
     rbind (index (lp_path p) (i - 1)) (\<lambda>is_left. rbind (index (lp_lemma p) i) (\<lambda>sibling.
       Inr (if is_left then light_node A h sibling else light_node A sibling h)))"

definition light_validate :: "'e light_alg \<Rightarrow> 'e light_proof \<Rightarrow> bool res" where
  "light_validate A p =
     (let size = length (lp_lemma p) in
      if size = 1 \<and> lp_path p = [] then Inr True
      else if size < 2 then Inr False
      else rbind (light_item p) (\<lambda>item.
        rbind (rfold (light_validate_step A p) [1..<size - 1] item) (\<lambda>h.
        rbind (light_proof_root p) (\<lambda>root. Inr (h = root)))))"

text \<open>The sibling that \<open>gen_proof\<close> takes at one layer: none for a null node without a link.\<close>

definition proof_hash_index :: "'e light_alg \<Rightarrow> 'e light_tree \<Rightarrow> nat \<Rightarrow> nat \<Rightarrow> nat option res" where
  "proof_hash_index A t base j =
     (if even j then
        let right_index = base + j + 1 in
        rbind (index (mt_data t) right_index) (\<lambda>right.
          if right = light_null A then
            case mt_link_map t right_index of
              Some linked \<Rightarrow>
                rbind (index (mt_data t) linked) (\<lambda>target.
                rbind (ensure (target \<noteq> light_null A) (Panic ''assertion failed: link to a null node'')) (\<lambda>_.
                  Inr (Some linked)))
            | None \<Rightarrow> Inr None
          else Inr (Some right_index))
      else Inr (Some (base + j - 1)))"

text \<open>The loop of \<open>gen_proof\<close>. \<open>base\<close> grows by at least one in a round, so the length of the tree
  is enough fuel.\<close>

primrec gen_proof_loop :: "nat \<Rightarrow> 'e light_alg \<Rightarrow> 'e light_tree \<Rightarrow> nat \<Rightarrow> nat \<Rightarrow> nat \<Rightarrow> 'e list \<Rightarrow> bool list \<Rightarrow>
    ('e list \<times> bool list) res" where
  "gen_proof_loop 0 A t base wid j lemmas path =
     (if base + 1 < length (mt_data t) then Inl Diverge else Inr (lemmas, path))"
| "gen_proof_loop (Suc fuel) A t base wid j lemmas path =
     (if base + 1 < length (mt_data t) then
        rbind (proof_hash_index A t base j) (\<lambda>found.
        rbind (case found of
                 None \<Rightarrow> Inr (lemmas, path)
               | Some i \<Rightarrow> rbind (index (mt_data t) i) (\<lambda>h. Inr (lemmas @ [h], path @ [even j]))) (\<lambda>(lemmas, path).
        let half = wid div 2
        in gen_proof_loop fuel A t (base + wid) (if odd half then half + 1 else half) (j div 2) lemmas path))
      else Inr (lemmas, path))"

definition light_gen_proof :: "'e light_alg \<Rightarrow> 'e light_tree \<Rightarrow> nat \<Rightarrow> 'e light_proof res" where
  "light_gen_proof A t i =
     (if mt_leafs t = 1 then
        rbind (ensure (i = 0) (Panic ''assertion failed: i == 0'')) (\<lambda>_.
        rbind (light_root t) (\<lambda>root. light_proof_new [root] []))
      else
        rbind (ensure (i < mt_leafs t) (Panic ''assertion failed: i < leafs'')) (\<lambda>_.
        rbind (index (mt_data t) i) (\<lambda>item.
        rbind (gen_proof_loop (length (mt_data t)) A t 0
                 (if odd (mt_leafs t) then mt_leafs t + 1 else mt_leafs t) i [item] []) (\<lambda>(lemmas, path).
        rbind (light_root t) (\<lambda>root. light_proof_new (lemmas @ [root]) path)))))"

end
