(* ===== verification/Shared_Types.thy ===== *)
theory Shared_Types
  imports Hash_Algorithm Merkle_Light
begin

text \<open>
  The types that the crates of the node share (\<open>node/shared_types/src/lib.rs\<close>): sizes in chunks and
  segments, transactions, and arrays of consecutive chunks of the log.
\<close>

section \<open>Sizes\<close>

definition CHUNK_SIZE :: nat where
  "CHUNK_SIZE = 256"

lemma CHUNK_SIZE_eq [simp]: "CHUNK_SIZE = 256"
  by (simp add: CHUNK_SIZE_def)

definition bytes_to_chunks :: "nat \<Rightarrow> nat" where
  "bytes_to_chunks size_bytes =
     (if size_bytes mod CHUNK_SIZE = 0 then size_bytes div CHUNK_SIZE else size_bytes div CHUNK_SIZE + 1)"

definition compute_padded_chunk_size :: "nat \<Rightarrow> nat \<times> nat" where
  "compute_padded_chunk_size size_bytes =
     (let chunk_len = bytes_to_chunks size_bytes;
          chunks_next_pow2 = next_pow2 chunk_len
      in if chunks_next_pow2 = chunk_len then (chunks_next_pow2, chunks_next_pow2)
         else
           let min_chunk = (if chunks_next_pow2 < 16 then 1 else chunks_next_pow2 div 2 ^ 4);
               padded_chunks = (wsub chunk_len 1 div min_chunk + 1) * min_chunk
           in (padded_chunks, chunks_next_pow2))"

definition compute_segment_size :: "nat \<Rightarrow> nat \<Rightarrow> (nat \<times> nat) res" where
  "compute_segment_size chunks chunks_per_segment =
     rbind (ensure (chunks_per_segment \<noteq> 0) (Panic ''attempt to calculate the remainder with a divisor of zero'')) (\<lambda>_.
       Inr (if chunks mod chunks_per_segment = 0
            then (chunks div chunks_per_segment, chunks_per_segment)
            else (chunks div chunks_per_segment + 1, chunks mod chunks_per_segment)))"

section \<open>Transactions\<close>

record transaction =
  stream_ids :: "nat list"
  tx_data :: "byte list"
  data_merkle_root :: h256
  merkle_nodes :: "(nat \<times> h256) list"
  start_entry_index :: nat
  tx_size :: nat
  tx_seq :: nat

definition num_entries_of_node :: "nat \<Rightarrow> nat" where
  "num_entries_of_node depth = shl1 (wsub depth 1)"

definition num_entries_of_list :: "(nat \<times> h256) list \<Rightarrow> nat" where
  "num_entries_of_list nodes = fold (\<lambda>(depth, _) size. (size + num_entries_of_node depth) mod 2 ^ 64) nodes 0"

definition num_entries :: "transaction \<Rightarrow> nat" where
  "num_entries tx = num_entries_of_list (merkle_nodes tx)"

section \<open>Arrays of chunks\<close>

record chunk_array =
  ca_data :: "byte list"
  ca_start_index :: nat

text \<open>The indices are \<open>u64\<close> that come from the network: the sums wrap.\<close>

definition ca_end :: "chunk_array \<Rightarrow> nat" where
  "ca_end c = (length (ca_data c) div CHUNK_SIZE + ca_start_index c) mod 2 ^ 64"

definition chunk_at :: "chunk_array \<Rightarrow> nat \<Rightarrow> byte list option res" where
  "chunk_at c i =
     (if i \<ge> ca_end c \<or> i < ca_start_index c then Inr None
      else
        let offset = (i - ca_start_index c) * CHUNK_SIZE
        in rbind (slice_range (ca_data c) offset (offset + CHUNK_SIZE)) (\<lambda>chunk. Inr (Some chunk)))"

definition first_chunk :: "chunk_array \<Rightarrow> byte list option res" where
  "first_chunk c = chunk_at c (ca_start_index c)"

definition last_chunk :: "chunk_array \<Rightarrow> byte list option res" where
  "last_chunk c = (if ca_end c = 0 then Inr None else chunk_at c (ca_end c - 1))"

definition sub_array :: "chunk_array \<Rightarrow> nat \<Rightarrow> nat \<Rightarrow> chunk_array option res" where
  "sub_array c s e =
     (if s \<ge> ca_end c \<or> s < ca_start_index c \<or> e > ca_end c \<or> e \<le> ca_start_index c \<or> e \<le> s then Inr None
      else
        let start_offset = (s - ca_start_index c) * CHUNK_SIZE;
            end_offset = (e - ca_start_index c) * CHUNK_SIZE
        in rbind (slice_range (ca_data c) start_offset end_offset) (\<lambda>d.
             Inr (Some \<lparr>ca_data = d, ca_start_index = s\<rparr>)))"

section \<open>What they compute\<close>

lemma bytes_to_chunks_bounds:
  "n \<le> bytes_to_chunks n * 256" "0 < n \<Longrightarrow> (bytes_to_chunks n - 1) * 256 < n" "0 < n \<Longrightarrow> 0 < bytes_to_chunks n"
proof -
  define q r where "q = n div 256" and "r = n mod 256"
  have n: "n = q * 256 + r" "r < 256" by (simp_all add: q_def r_def)
  have b: "bytes_to_chunks n = (if r = 0 then q else q + 1)" by (simp add: bytes_to_chunks_def q_def r_def)
  show "n \<le> bytes_to_chunks n * 256" "0 < n \<Longrightarrow> (bytes_to_chunks n - 1) * 256 < n" "0 < n \<Longrightarrow> 0 < bytes_to_chunks n"
    unfolding b using n by (cases q; simp)+
qed

text \<open>The exponent of the next power of two.\<close>

lemma next_pow2_exponent:
  assumes "0 < n" "n \<le> 2 ^ 63"
  obtains k where "k \<le> 63" "next_pow2 n = 2 ^ k" "n \<le> 2 ^ k" "k = 0 \<or> 2 ^ (k - 1) < n"
proof -
  define k where "k = (LEAST k. n \<le> 2 ^ k)"
  have k: "n \<le> 2 ^ k" unfolding k_def by (rule LeastI [of _ 63]) (rule assms(2))
  have k63: "k \<le> 63" unfolding k_def by (rule Least_le) (rule assms(2))
  have low: "k = 0 \<or> 2 ^ (k - 1) < n"
  proof (cases "k = 0")
    case False
    then have "\<not> n \<le> 2 ^ (k - 1)" unfolding k_def by (intro not_less_Least) (simp add: k_def [symmetric])
    then show ?thesis by simp
  qed simp
  show ?thesis using next_pow2_eq [OF assms(1) k low k63] k k63 low by (intro that) simp_all
qed

lemma round_up_bounds:
  fixes n m :: nat
  assumes "0 < n" "0 < m"
  shows "n \<le> ((n - 1) div m + 1) * m" "((n - 1) div m + 1) * m < n + m"
proof -
  define q where "q = (n - 1) div m * m"
  have "q + (n - 1) mod m = n - 1" unfolding q_def by (rule div_mult_mod_eq)
  moreover have "(n - 1) mod m < m" using assms(2) by simp
  moreover have "((n - 1) div m + 1) * m = q + m" by (simp add: q_def)
  ultimately show "n \<le> ((n - 1) div m + 1) * m" "((n - 1) div m + 1) * m < n + m"
    using assms(1) by linarith+
qed

lemma chunk_at_eq:
  assumes "length (ca_data c) div 256 + ca_start_index c < 2 ^ 64"
  shows "chunk_at c i = Inr
    (if ca_start_index c \<le> i \<and> i < ca_start_index c + length (ca_data c) div 256
     then Some (take 256 (drop ((i - ca_start_index c) * 256) (ca_data c))) else None)"
proof -
  have e: "ca_end c = ca_start_index c + length (ca_data c) div 256" using assms by (simp add: ca_end_def)
  have "(i - ca_start_index c) * 256 + 256 \<le> length (ca_data c)"
    if "ca_start_index c \<le> i" "i < ca_start_index c + length (ca_data c) div 256"
    using that by linarith
  then show ?thesis by (auto simp: chunk_at_def e slice_range_def)
qed

lemma sub_array_eq:
  assumes "length (ca_data c) div 256 + ca_start_index c < 2 ^ 64"
  shows "sub_array c s e = Inr
    (if ca_start_index c \<le> s \<and> s < e \<and> e \<le> ca_start_index c + length (ca_data c) div 256
     then Some \<lparr>ca_data = take ((e - s) * 256) (drop ((s - ca_start_index c) * 256) (ca_data c)),
                ca_start_index = s\<rparr>
     else None)"
proof -
  have e: "ca_end c = ca_start_index c + length (ca_data c) div 256" using assms by (simp add: ca_end_def)
  have "(e - ca_start_index c) * 256 \<le> length (ca_data c)"
    if "e \<le> ca_start_index c + length (ca_data c) div 256"
    using that by linarith
  moreover have "(e - ca_start_index c) * 256 - (s - ca_start_index c) * 256 = (e - s) * 256"
    if "ca_start_index c \<le> s" using that by (simp add: algebra_simps)
  ultimately show ?thesis by (auto simp: sub_array_def e slice_range_def Let_def diff_le_mono)
qed

end
