(* ===== verification/Log_Helpers.thy ===== *)
theory Log_Helpers
  imports Shared_Types
begin

text \<open>
  The constants and free functions of \<open>node/storage/src/log_store/log_manager.rs\<close>: columns of the
  databases, Merkle leaves and trees of raw data, the split of a file into the subtrees that are
  submitted to the log, padding.
\<close>

section \<open>Constants\<close>

definition ENTRY_SIZE :: nat where "ENTRY_SIZE = 256"

definition PORA_CHUNK_SIZE :: nat where "PORA_CHUNK_SIZE = 1024"

definition COL_TX :: nat where "COL_TX = 0"
definition COL_ENTRY_BATCH :: nat where "COL_ENTRY_BATCH = 1"
definition COL_TX_DATA_ROOT_INDEX :: nat where "COL_TX_DATA_ROOT_INDEX = 2"
definition COL_TX_COMPLETED :: nat where "COL_TX_COMPLETED = 3"
definition COL_MISC :: nat where "COL_MISC = 4"
definition COL_FLOW_MPT_NODES :: nat where "COL_FLOW_MPT_NODES = 5"
definition COL_BLOCK_PROGRESS :: nat where "COL_BLOCK_PROGRESS = 6"
definition COL_PAD_DATA_LIST :: nat where "COL_PAD_DATA_LIST = 7"
definition COL_PAD_DATA_SYNC_HEIGH :: nat where "COL_PAD_DATA_SYNC_HEIGH = 8"

definition PAD_MAX_SIZE :: nat where "PAD_MAX_SIZE = 2 ^ 20"

lemmas col_defs =
  COL_TX_def COL_ENTRY_BATCH_def COL_TX_DATA_ROOT_INDEX_def COL_TX_COMPLETED_def COL_MISC_def
  COL_FLOW_MPT_NODES_def COL_BLOCK_PROGRESS_def COL_PAD_DATA_LIST_def COL_PAD_DATA_SYNC_HEIGH_def

section \<open>Leaves and trees\<close>

text \<open>\<open>unwrap\<close> of a result: an error becomes a panic.\<close>

definition unwrap :: "'a res \<Rightarrow> 'a res" where
  "unwrap m = (case m of Inl (Err e) \<Rightarrow> Inl (Panic e) | _ \<Rightarrow> m)"

lemma unwrap_Inr [simp]: "unwrap (Inr x) = Inr x"
  by (simp add: unwrap_def)

definition data_to_merkle_leaves :: "(byte list \<Rightarrow> h256) \<Rightarrow> byte list \<Rightarrow> optional_hash list res" where
  "data_to_merkle_leaves keccak leaf_data =
     rbind (ensure (length leaf_data mod ENTRY_SIZE = 0) (Err ''merkle_tree: mismatched data size'')) (\<lambda>_.
     Inr (map (leaf_optional keccak) (chunks_exact ENTRY_SIZE leaf_data)))"

definition data_to_merkle_leaves_h256 :: "(byte list \<Rightarrow> h256) \<Rightarrow> byte list \<Rightarrow> h256 list res" where
  "data_to_merkle_leaves_h256 keccak leaf_data =
     rbind (data_to_merkle_leaves keccak leaf_data) (rmap (ok_or (Panic ''unwrap of null hash'')))"

definition sub_merkle_tree :: "(byte list \<Rightarrow> h256) \<Rightarrow> byte list \<Rightarrow> h256 light_tree res" where
  "sub_merkle_tree keccak leaf_data =
     rbind (data_to_merkle_leaves_h256 keccak leaf_data) (from_iter (RawLeafSha3Algorithm keccak))"

definition bytes_to_entries :: "nat \<Rightarrow> nat" where
  "bytes_to_entries size_bytes =
     (if size_bytes mod ENTRY_SIZE = 0 then size_bytes div ENTRY_SIZE else size_bytes div ENTRY_SIZE + 1)"

section \<open>Subtrees of a file\<close>

text \<open>
  The loop ends only if the chunks that are left fit below the current power of two; otherwise the power
  reaches zero and the body repeats without progress, which is the value \<open>None\<close>.
\<close>

partial_function (option) split_loop :: "nat \<Rightarrow> nat \<Rightarrow> nat list \<Rightarrow> nat list option" where
  "split_loop padded_chunks next_chunk_size nodes =
     (if 0 < padded_chunks then
        (if next_chunk_size \<le> padded_chunks
         then split_loop (padded_chunks - next_chunk_size) (next_chunk_size div 2) (nodes @ [next_chunk_size])
         else split_loop padded_chunks (next_chunk_size div 2) nodes)
      else Some nodes)"

definition split_nodes :: "nat \<Rightarrow> nat list res" where
  "split_nodes data_size =
     (let (padded_chunks, chunks_next_pow2) = compute_padded_chunk_size data_size
      in ok_or Diverge (split_loop padded_chunks chunks_next_pow2 []))"

definition subtree_root_step ::
    "(byte list \<Rightarrow> h256) \<Rightarrow> byte list \<Rightarrow> nat \<Rightarrow> nat \<times> (nat \<times> h256) list \<Rightarrow> (nat \<times> (nat \<times> h256) list) res" where
  "subtree_root_step keccak data subtree_size st =
     (case st of (start_index, root_list) \<Rightarrow>
        let end_index = start_index + subtree_size * ENTRY_SIZE;
            leaf_data =
              (if length data \<le> start_index then replicate (subtree_size * ENTRY_SIZE) 0
               else if length data < end_index then drop start_index data @ replicate (end_index - length data) 0
               else take (end_index - start_index) (drop start_index data))
        in rbind (unwrap (sub_merkle_tree keccak leaf_data)) (\<lambda>t.
           rbind (light_root t) (\<lambda>submerkle_root.
           Inr (end_index, root_list @ [(log2_pow2 subtree_size + 1, submerkle_root)]))))"

definition tx_subtree_root_list_padded :: "(byte list \<Rightarrow> h256) \<Rightarrow> byte list \<Rightarrow> (nat \<times> h256) list res" where
  "tx_subtree_root_list_padded keccak data =
     rbind (split_nodes (length data)) (\<lambda>nodes.
     rbind (rfold (subtree_root_step keccak data) nodes (0, [])) (\<lambda>(_, root_list).
     Inr root_list))"

section \<open>Padding and segments\<close>

definition padding_raw :: "nat \<Rightarrow> byte list" where
  "padding_raw len = replicate (len * ENTRY_SIZE) 0"

definition padding :: "nat \<Rightarrow> byte list list" where
  "padding len =
     (let remainder = len mod PAD_MAX_SIZE;
          iter = map (\<lambda>_. padding_raw PAD_MAX_SIZE) [0..<len div PAD_MAX_SIZE]
      in if remainder = 0 then iter else padding_raw remainder # iter)"

definition sector_to_segment :: "nat \<Rightarrow> nat" where
  "sector_to_segment sector_index = sector_index div PORA_CHUNK_SIZE"

definition segment_to_sector :: "nat \<Rightarrow> nat" where
  "segment_to_sector segment_index = segment_index * PORA_CHUNK_SIZE"

end
