(* ===== verification/Light_Tree.thy ===== *)
theory Light_Tree
  imports Merkle_Light
begin

text \<open>
  Correctness of \<open>MerkleTree::build\<close> and \<open>MerkleTree::gen_proof\<close> against the reference tree that
  splits its leaves at the largest power of two below their number. The code goes up layer by
  layer; \<open>pair_up\<close> is one such layer, and \<open>mtree_pair_up\<close>, \<open>tsteps_pair_up\<close> connect the two views.
\<close>

section \<open>The reference tree\<close>

text \<open>The root of a list of at most \<open>2 ^ k\<close> leaves, and the steps from leaf \<open>i\<close> to it: a sibling and
  whether the node is its left child.\<close>

primrec mtree :: "('e \<Rightarrow> 'e \<Rightarrow> 'e) \<Rightarrow> nat \<Rightarrow> 'e list \<Rightarrow> 'e" where
  "mtree f 0 xs = hd xs"
| "mtree f (Suc k) xs =
     (if length xs \<le> 2 ^ k then mtree f k xs
      else f (mtree f k (take (2 ^ k) xs)) (mtree f k (drop (2 ^ k) xs)))"

primrec tsteps :: "('e \<Rightarrow> 'e \<Rightarrow> 'e) \<Rightarrow> nat \<Rightarrow> 'e list \<Rightarrow> nat \<Rightarrow> ('e \<times> bool) list" where
  "tsteps f 0 xs i = []"
| "tsteps f (Suc k) xs i =
     (if length xs \<le> 2 ^ k then tsteps f k xs i
      else if i < 2 ^ k then tsteps f k (take (2 ^ k) xs) i @ [(mtree f k (drop (2 ^ k) xs), True)]
      else tsteps f k (drop (2 ^ k) xs) (i - 2 ^ k) @ [(mtree f k (take (2 ^ k) xs), False)])"

fun light_climb :: "('e \<Rightarrow> 'e \<Rightarrow> 'e) \<Rightarrow> ('e \<times> bool) list \<Rightarrow> 'e \<Rightarrow> 'e" where
  "light_climb f [] h = h"
| "light_climb f ((s, is_left) # rest) h = light_climb f rest (if is_left then f h s else f s h)"

lemma light_climb_append [simp]: "light_climb f (xs @ ys) h = light_climb f ys (light_climb f xs h)"
  by (induction f xs h rule: light_climb.induct) auto

lemma climb_tsteps:
  "i < length xs \<Longrightarrow> length xs \<le> 2 ^ k \<Longrightarrow> light_climb f (tsteps f k xs i) (xs ! i) = mtree f k xs"
proof (induction k arbitrary: xs i)
  case 0
  then show ?case by (cases xs) auto
next
  case (Suc k)
  consider "length xs \<le> 2 ^ k" | "\<not> length xs \<le> 2 ^ k" "i < 2 ^ k" | "\<not> length xs \<le> 2 ^ k" "2 ^ k \<le> i"
    by linarith
  then show ?case
  proof cases
    case 1
    then show ?thesis using Suc by simp
  next
    case 2
    then show ?thesis using Suc.IH [of i "take (2 ^ k) xs"] by simp
  next
    case 3
    then show ?thesis using Suc.IH [of "i - 2 ^ k" "drop (2 ^ k) xs"] Suc.prems by (simp add: add.commute)
  qed
qed

lemma mtree_stable: "xs \<noteq> [] \<Longrightarrow> length xs \<le> 2 ^ k \<Longrightarrow> mtree f (k + d) xs = mtree f k xs"
proof (induction d)
  case (Suc d)
  have "(2::nat) ^ k \<le> 2 ^ (k + d)" by simp
  then have "length xs \<le> 2 ^ (k + d)" using Suc.prems(2) by linarith
  then show ?case using Suc by simp
qed simp

lemma tsteps_stable: "length xs \<le> 2 ^ k \<Longrightarrow> tsteps f (k + d) xs i = tsteps f k xs i"
proof (induction d)
  case (Suc d)
  have "(2::nat) ^ k \<le> 2 ^ (k + d)" by simp
  then have "length xs \<le> 2 ^ (k + d)" using Suc.prems by linarith
  then show ?case using Suc by simp
qed simp

section \<open>One layer up\<close>

fun pair_up :: "('e \<Rightarrow> 'e \<Rightarrow> 'e) \<Rightarrow> 'e list \<Rightarrow> 'e list" where
  "pair_up f (a # b # rest) = f a b # pair_up f rest"
| "pair_up f [a] = [a]"
| "pair_up f [] = []"

lemma length_pair_up [simp]: "length (pair_up f xs) = (length xs + 1) div 2"
  by (induction f xs rule: pair_up.induct) auto

lemma pair_up_eq_Nil [simp]: "pair_up f xs = [] \<longleftrightarrow> xs = []"
  by (cases "(f, xs)" rule: pair_up.cases) auto

lemma nth_pair_up:
  "k < length (pair_up f xs) \<Longrightarrow>
   pair_up f xs ! k = (if 2 * k + 1 < length xs then f (xs ! (2 * k)) (xs ! (2 * k + 1)) else xs ! (2 * k))"
proof (induction f xs arbitrary: k rule: pair_up.induct)
  case (1 f a b rest)
  then show ?case by (cases k) auto
qed auto

lemma take_pair_up: "pair_up f (take (2 * m) xs) = take m (pair_up f xs)"
proof (induction f xs arbitrary: m rule: pair_up.induct)
  case (1 f a b rest)
  then show ?case by (cases m) auto
next
  case (2 f a)
  then show ?case by (cases m) auto
qed auto

lemma drop_pair_up: "pair_up f (drop (2 * m) xs) = drop m (pair_up f xs)"
proof (induction f xs arbitrary: m rule: pair_up.induct)
  case (1 f a b rest)
  then show ?case by (cases m) auto
next
  case (2 f a)
  then show ?case by (cases m) auto
qed auto

lemma half_le: "(n + 1) div 2 \<le> (2::nat) ^ k \<longleftrightarrow> n \<le> 2 ^ Suc k"
  by auto

lemma mtree_pair_up:
  "xs \<noteq> [] \<Longrightarrow> length xs \<le> 2 ^ Suc k \<Longrightarrow> mtree f (Suc k) xs = mtree f k (pair_up f xs)"
proof (induction k arbitrary: xs)
  case 0
  then obtain a ys where "xs = a # ys" by (cases xs) auto
  with 0 show ?case by (cases ys) auto
next
  case (Suc k)
  show ?case
  proof (cases "length xs \<le> 2 ^ Suc k")
    case True
    then have "length (pair_up f xs) \<le> 2 ^ k" using half_le by simp
    then show ?thesis using True Suc.IH [OF Suc.prems(1) True] by simp
  next
    case False
    then have F: "\<not> length (pair_up f xs) \<le> 2 ^ k" using half_le [of "length xs" k] by simp
    have e: "(2::nat) ^ Suc k = 2 * 2 ^ k" by simp
    have "mtree f (Suc k) (take (2 ^ Suc k) xs) = mtree f k (take (2 ^ k) (pair_up f xs))"
      unfolding e take_pair_up [symmetric] using Suc.prems by (intro Suc.IH) auto
    moreover have "mtree f (Suc k) (drop (2 ^ Suc k) xs) = mtree f k (drop (2 ^ k) (pair_up f xs))"
      unfolding e drop_pair_up [symmetric] using Suc.prems False by (intro Suc.IH) auto
    ultimately show ?thesis using False F by (simp only: mtree.simps if_False)
  qed
qed

text \<open>The sibling of position \<open>i\<close> in a layer, if it has one.\<close>

definition sibling :: "'e list \<Rightarrow> nat \<Rightarrow> ('e \<times> bool) list" where
  "sibling xs i =
     (if odd i then [(xs ! (i - 1), False)] else if i + 1 < length xs then [(xs ! (i + 1), True)] else [])"

lemma sibling_take:
  assumes "i < 2 * m" "2 * m \<le> length xs"
  shows "sibling (take (2 * m) xs) i = sibling xs i"
proof -
  have "even i \<Longrightarrow> i + 1 < 2 * m" using assms(1) by (auto elim!: evenE)
  then show ?thesis using assms by (auto simp: sibling_def)
qed

lemma sibling_drop: "2 * m \<le> i \<Longrightarrow> i < length xs \<Longrightarrow> sibling (drop (2 * m) xs) (i - 2 * m) = sibling xs i"
  by (auto simp: sibling_def elim!: oddE)

lemma tsteps_pair_up:
  "i < length xs \<Longrightarrow> length xs \<le> 2 ^ Suc k \<Longrightarrow>
   tsteps f (Suc k) xs i = sibling xs i @ tsteps f k (pair_up f xs) (i div 2)"
proof (induction k arbitrary: xs i)
  case 0
  then consider "length xs = 1" "i = 0" | "length xs = 2" "i = 0" | "length xs = 2" "i = 1" by force
  then show ?case
    by cases (auto simp: sibling_def length_Suc_conv numeral_2_eq_2)
next
  case (Suc k)
  have e: "(2::nat) ^ Suc k = 2 * 2 ^ k" by simp
  consider "length xs \<le> 2 ^ Suc k" | "\<not> length xs \<le> 2 ^ Suc k" "i < 2 ^ Suc k"
    | "\<not> length xs \<le> 2 ^ Suc k" "2 ^ Suc k \<le> i" by linarith
  then show ?case
  proof cases
    case 1
    then have "length (pair_up f xs) \<le> 2 ^ k" using half_le by simp
    then show ?thesis using 1 Suc.IH [OF Suc.prems(1) 1] by simp
  next
    case 2
    then have F: "\<not> length (pair_up f xs) \<le> 2 ^ k" "i div 2 < 2 ^ k"
      using half_le [of "length xs" k] by auto
    have "mtree f (Suc k) (drop (2 ^ Suc k) xs) = mtree f k (drop (2 ^ k) (pair_up f xs))"
      unfolding e drop_pair_up [symmetric] using Suc.prems 2 by (intro mtree_pair_up) auto
    moreover have "tsteps f (Suc k) (take (2 ^ Suc k) xs) i =
        sibling xs i @ tsteps f k (take (2 ^ k) (pair_up f xs)) (i div 2)"
      using Suc.IH [of i "take (2 ^ Suc k) xs"] 2 sibling_take [of i "2 ^ k" xs]
      unfolding e take_pair_up by simp
    ultimately show ?thesis using 2 F by (simp only: tsteps.simps if_False if_True append_assoc)
  next
    case 3
    then have F: "\<not> length (pair_up f xs) \<le> 2 ^ k" "\<not> i div 2 < 2 ^ k" "\<not> i < 2 ^ Suc k"
      using half_le [of "length xs" k] by auto
    have d: "(i - 2 * 2 ^ k) div 2 = i div 2 - 2 ^ k" by simp
    have "mtree f (Suc k) (take (2 ^ Suc k) xs) = mtree f k (take (2 ^ k) (pair_up f xs))"
      unfolding e take_pair_up [symmetric] using Suc.prems by (intro mtree_pair_up) auto
    moreover have "tsteps f (Suc k) (drop (2 ^ Suc k) xs) (i - 2 ^ Suc k) =
        sibling xs i @ tsteps f k (drop (2 ^ k) (pair_up f xs)) (i div 2 - 2 ^ k)"
      using Suc.IH [of "i - 2 ^ Suc k" "drop (2 ^ Suc k) xs"] 3 Suc.prems sibling_drop [of "2 ^ k" i xs]
      unfolding e drop_pair_up d by simp
    ultimately show ?thesis using 3 F by (simp only: tsteps.simps if_False append_assoc)
  qed
qed

section \<open>Building a layer\<close>

text \<open>A layer that starts at \<open>s\<close> and stands for the hashes \<open>vals\<close>: as it is at the head of the loop,
  where only its last node may be a link, and as it stays in the finished tree.\<close>

definition holds_hash :: "'e light_alg \<Rightarrow> 'e list \<Rightarrow> (nat \<rightharpoonup> nat) \<Rightarrow> nat \<Rightarrow> 'e \<Rightarrow> bool" where
  "holds_hash A data links i v \<longleftrightarrow>
     data ! i = v \<or> data ! i = light_null A \<and> (\<exists>t<length data. links i = Some t \<and> data ! t = v)"

definition layer_head :: "'e light_alg \<Rightarrow> 'e list \<Rightarrow> (nat \<rightharpoonup> nat) \<Rightarrow> nat \<Rightarrow> 'e list \<Rightarrow> bool" where
  "layer_head A data links s vals \<longleftrightarrow>
     vals \<noteq> [] \<and> length data = s + length vals \<and>
     (\<forall>j. j + 1 < length vals \<longrightarrow> data ! (s + j) = vals ! j) \<and>
     (length vals = 1 \<longrightarrow> data ! s = vals ! 0) \<and>
     holds_hash A data links (s + (length vals - 1)) (vals ! (length vals - 1)) \<and>
     (\<forall>x\<ge>s + length vals. links x = None)"

definition padded :: "nat \<Rightarrow> nat" where
  "padded w = (if odd w then w + 1 else w)"

lemma padded_half [simp]: "padded w div 2 = (w + 1) div 2" "(padded w + 1) div 2 = (w + 1) div 2"
  "Suc (padded w) div 2 = Suc w div 2"
  by (auto simp: padded_def elim!: oddE)

definition layer_view :: "'e light_alg \<Rightarrow> 'e list \<Rightarrow> (nat \<rightharpoonup> nat) \<Rightarrow> nat \<Rightarrow> 'e list \<Rightarrow> bool" where
  "layer_view A data links s vals \<longleftrightarrow>
     s + padded (length vals) \<le> length data \<and>
     (\<forall>k. 2 * k + 1 < length vals \<longrightarrow>
        data ! (s + 2 * k) = vals ! (2 * k) \<and> holds_hash A data links (s + 2 * k + 1) (vals ! (2 * k + 1))) \<and>
     (odd (length vals) \<longrightarrow>
        data ! (s + length vals) = light_null A \<and> links (s + length vals) = None)"

lemma fold_build_push:
  "fold build_push rs (data, links) = (data @ map fst rs, fold build_links (map snd rs) links)"
  by (induction rs arbitrary: data links) (auto simp: build_push_def)

lemma fold_build_links_None: "set us \<subseteq> {None} \<Longrightarrow> fold build_links us links = links"
  by (induction us) (auto simp: build_links_def)

lemma holds_hash_append: "i < length data \<Longrightarrow> holds_hash A data links i v \<Longrightarrow> holds_hash A (data @ ext) links i v"
  by (fastforce simp: holds_hash_def nth_append)

text \<open>What one parent becomes.\<close>

lemma build_node_pair:
  assumes h: "holds_hash A data links (i + 1) r" and i: "i + 1 < length data"
    and n: "data ! i \<noteq> light_null A" "r \<noteq> light_null A"
  shows "build_node A data links s e i = Inr (light_node A (data ! i) r, None)"
proof (cases "data ! (i + 1) = light_null A")
  case True
  with h n(2) obtain t where "t < length data" "links (i + 1) = Some t" "data ! t = r"
    by (auto simp: holds_hash_def)
  then show ?thesis using i n True by (simp add: build_node_def)
next
  case False
  then have "data ! (i + 1) = r" using h by (simp add: holds_hash_def)
  then show ?thesis using i n False by (simp add: build_node_def)
qed

lemma build_node_single:
  assumes h: "holds_hash A data links i v" and i: "i + 1 < length data" and v: "v \<noteq> light_null A"
    and r: "data ! (i + 1) = light_null A" "links (i + 1) = None"
  shows "\<exists>t rem. build_node A data links s e i = Inr (light_null A, Some ((i - s) div 2 + e, t, rem)) \<and>
    t < length data \<and> data ! t = v \<and> (rem = None \<or> rem = Some i)"
proof (cases "data ! i = light_null A")
  case True
  with h v obtain t where "t < length data" "links i = Some t" "data ! t = v"
    by (auto simp: holds_hash_def)
  then show ?thesis using i r True by (simp add: build_node_def)
next
  case False
  then have "data ! i = v" using h by (simp add: holds_hash_def)
  then show ?thesis using i r False by (auto simp: build_node_def)
qed

text \<open>A layer of even length: every parent is the hash of its two children.\<close>

lemma build_layer_even:
  assumes h: "layer_head A data links s vals" and w: "even (length vals)"
    and n: "\<forall>v\<in>set vals. v \<noteq> light_null A"
  defines "news \<equiv> pair_up (light_node A) vals"
  shows "rmap (build_node A data links s (s + length vals)) (step_by_two s (s + length vals)) =
      Inr (map (\<lambda>v. (v, None)) news)"
    and "layer_head A (data @ news) links (s + length vals) news"
    and "layer_view A (data @ news) links s vals"
proof -
  have len: "length data = s + length vals" and ne: "vals \<noteq> []"
    and low: "\<And>j. j + 1 < length vals \<Longrightarrow> data ! (s + j) = vals ! j"
    and top: "holds_hash A data links (s + (length vals - 1)) (vals ! (length vals - 1))"
    and up: "\<And>x. s + length vals \<le> x \<Longrightarrow> links x = None"
    using h by (auto simp: layer_head_def)
  have right: "holds_hash A data links (s + (2 * k + 1)) (vals ! (2 * k + 1))" if "2 * k + 1 < length vals" for k
  proof (cases "2 * k + 1 = length vals - 1")
    case True
    then show ?thesis using top by metis
  next
    case False
    then have "2 * k + 1 + 1 < length vals" using that by simp
    then show ?thesis using low [of "2 * k + 1"] by (simp add: holds_hash_def)
  qed
  have "build_node A data links s (s + length vals) (s + 2 * k) = Inr (news ! k, None)"
    if "k < length vals div 2" for k
  proof -
    have k: "2 * k + 1 < length vals" using that w by (auto elim!: evenE)
    have l: "data ! (s + 2 * k) = vals ! (2 * k)" using low [of "2 * k"] k by simp
    have "data ! (s + 2 * k) \<noteq> light_null A" "vals ! (2 * k + 1) \<noteq> light_null A"
      using l k n by simp_all
    then have "build_node A data links s (s + length vals) (s + 2 * k) =
        Inr (light_node A (data ! (s + 2 * k)) (vals ! (2 * k + 1)), None)"
      using right [OF k] k len by (intro build_node_pair) (simp_all add: ac_simps)
    moreover have "news ! k = light_node A (vals ! (2 * k)) (vals ! (2 * k + 1))"
      unfolding news_def using k that by (subst nth_pair_up) auto
    ultimately show ?thesis using l by simp
  qed
  then have "rmap (build_node A data links s (s + length vals)) (step_by_two s (s + length vals)) =
      Inr (map (\<lambda>i. (news ! ((i - s) div 2), None)) (step_by_two s (s + length vals)))"
    using w by (intro rmap_Inr) (auto simp: step_by_two_def)
  moreover have "map (\<lambda>i. (news ! ((i - s) div 2), None)) (step_by_two s (s + length vals)) =
      map (\<lambda>v. (v, None)) news"
    by (rule nth_equalityI) (auto simp: step_by_two_def news_def)
  ultimately show "rmap (build_node A data links s (s + length vals)) (step_by_two s (s + length vals)) =
      Inr (map (\<lambda>v. (v, None)) news)" by simp
  show "layer_head A (data @ news) links (s + length vals) news"
    using ne len up by (auto simp: layer_head_def news_def holds_hash_def nth_append)
  show "layer_view A (data @ news) links s vals"
    unfolding layer_view_def
  proof (intro conjI allI impI)
    fix k assume k: "2 * k + 1 < length vals"
    show "(data @ news) ! (s + 2 * k) = vals ! (2 * k)" using low [of "2 * k"] k len by (simp add: nth_append)
    show "holds_hash A (data @ news) links (s + 2 * k + 1) (vals ! (2 * k + 1))"
      using right [OF k] k len by (intro holds_hash_append) (simp_all add: ac_simps)
  qed (use w len in \<open>simp_all add: padded_def\<close>)
qed

text \<open>A layer of odd length, filled up with a null node: its last parent becomes a link.\<close>

lemma build_layer_odd:
  assumes h: "layer_head A data links s vals" and w: "odd (length vals)" "1 < length vals"
    and n: "\<forall>v\<in>set vals. v \<noteq> light_null A"
  defines "d1 \<equiv> data @ [light_null A]" and "e \<equiv> s + length vals + 1"
    and "m \<equiv> length vals div 2" and "news \<equiv> take (length vals div 2) (pair_up (light_node A) vals)"
  shows "\<exists>t rem. rmap (build_node A d1 links s e) (step_by_two s e) =
      Inr (map (\<lambda>v. (v, None)) news @ [(light_null A, Some (e + m, t, rem))]) \<and>
      t < length d1 \<and> d1 ! t = vals ! (2 * m) \<and> (rem = None \<or> rem = Some (s + 2 * m))"
proof -
  have len: "length data = s + length vals"
    and low: "\<And>j. j + 1 < length vals \<Longrightarrow> data ! (s + j) = vals ! j"
    and top: "holds_hash A data links (s + (length vals - 1)) (vals ! (length vals - 1))"
    and up: "\<And>x. s + length vals \<le> x \<Longrightarrow> links x = None"
    using h by (auto simp: layer_head_def)
  have lv: "length vals = 2 * m + 1" using w by (auto simp: m_def elim!: oddE)
  have "build_node A d1 links s e (s + 2 * k) = Inr (news ! k, None)" if "k < m" for k
  proof -
    have k: "2 * k + 1 + 1 < length vals" using that lv by simp
    have l: "d1 ! (s + 2 * k) = vals ! (2 * k)" "d1 ! (s + 2 * k + 1) = vals ! (2 * k + 1)"
      using low [of "2 * k"] low [of "2 * k + 1"] k len by (simp_all add: d1_def nth_append)
    have "build_node A d1 links s e (s + 2 * k) =
        Inr (light_node A (d1 ! (s + 2 * k)) (vals ! (2 * k + 1)), None)"
      using l k n len by (intro build_node_pair) (simp_all add: holds_hash_def d1_def)
    moreover have "news ! k = light_node A (vals ! (2 * k)) (vals ! (2 * k + 1))"
      unfolding news_def using k that by (subst nth_take, simp add: m_def) (subst nth_pair_up, auto)
    ultimately show ?thesis using l by simp
  qed
  then have "rmap (build_node A d1 links s e) (map (\<lambda>k. s + 2 * k) [0..<m]) =
      Inr (map (\<lambda>i. (news ! ((i - s) div 2), None)) (map (\<lambda>k. s + 2 * k) [0..<m]))"
    by (intro rmap_Inr) auto
  moreover have "map (\<lambda>i. (news ! ((i - s) div 2), None)) (map (\<lambda>k. s + 2 * k) [0..<m]) =
      map (\<lambda>v. (v, None)) news"
    using lv by (intro nth_equalityI) (auto simp: news_def)
  ultimately have first: "rmap (build_node A d1 links s e) (map (\<lambda>k. s + 2 * k) [0..<m]) =
      Inr (map (\<lambda>v. (v, None)) news)" by simp
  have "holds_hash A d1 links (s + 2 * m) (vals ! (2 * m))"
    unfolding d1_def using top lv len by (intro holds_hash_append) simp_all
  then have "\<exists>t rem. build_node A d1 links s e (s + 2 * m) =
        Inr (light_null A, Some ((s + 2 * m - s) div 2 + e, t, rem)) \<and>
      t < length d1 \<and> d1 ! t = vals ! (2 * m) \<and> (rem = None \<or> rem = Some (s + 2 * m))"
    using lv len up n by (intro build_node_single) (simp_all add: d1_def nth_append)
  then obtain t rem where l: "build_node A d1 links s e (s + 2 * m) = Inr (light_null A, Some (e + m, t, rem))"
    "t < length d1" "d1 ! t = vals ! (2 * m)" "rem = None \<or> rem = Some (s + 2 * m)"
    by (auto simp: add.commute)
  have "step_by_two s e = map (\<lambda>k. s + 2 * k) [0..<m] @ [s + 2 * m]"
    using lv by (simp add: step_by_two_def e_def)
  then have "rmap (build_node A d1 links s e) (step_by_two s e) =
      Inr (map (\<lambda>v. (v, None)) news @ [(light_null A, Some (e + m, t, rem))])"
    using first l(1) by (simp add: rmap_append)
  then show ?thesis using l by blast
qed

lemma layer_after_odd:
  assumes h: "layer_head A data links s vals" and lv: "length vals = 2 * m + 1" and m: "0 < m"
    and t: "t < length data + 1" "(data @ [light_null A]) ! t = vals ! (2 * m)"
    and links': "links' = links(s + length vals + 1 + m \<mapsto> t) \<or>
                 links' = (links(s + length vals + 1 + m \<mapsto> t))(s + 2 * m := None)"
  defines "data' \<equiv> data @ [light_null A] @ take m (pair_up (light_node A) vals) @ [light_null A]"
  shows "layer_head A data' links' (s + length vals + 1) (pair_up (light_node A) vals)"
    and "layer_view A data' links' s vals" and "\<And>x. x < s \<Longrightarrow> links' x = links x"
proof -
  have len: "length data = s + length vals"
    and low: "\<And>j. j + 1 < length vals \<Longrightarrow> data ! (s + j) = vals ! j"
    and up: "\<And>x. s + length vals \<le> x \<Longrightarrow> links x = None"
    using h by (auto simp: layer_head_def)
  let ?e = "s + length vals + 1" and ?ps = "pair_up (light_node A) vals"
  have lp: "length ?ps = m + 1" using lv by simp
  have lt: "length (take m ?ps) = m" using lp by simp
  have d_low: "data' ! x = data ! x" if "x < s + length vals" for x
    using that len by (simp add: data'_def nth_append)
  have d_pad: "data' ! (s + length vals) = light_null A" using len by (simp add: data'_def nth_append)
  have d_new: "data' ! (?e + j) = ?ps ! j" if "j < m" for j
    using that len lt by (simp add: data'_def nth_append)
  have d_last: "data' ! (?e + m) = light_null A" using len lt by (simp add: data'_def nth_append)
  have d_t: "data' ! t = vals ! (2 * m)"
  proof (cases "t < length data")
    case True
    then show ?thesis using t len d_low [of t] by (simp add: nth_append)
  next
    case False
    then have "t = s + length vals" using t(1) len by simp
    then show ?thesis using t(2) len d_pad by (simp add: nth_append)
  qed
  have l_e: "links' (?e + m) = Some t" using links' lv by auto
  have l_up: "links' x = None" if "?e + m < x" for x using that links' up by auto
  have len': "length data' = ?e + (m + 1)" using len lp by (simp add: data'_def)
  have p_last: "?ps ! m = vals ! (2 * m)" using lv by (subst nth_pair_up) simp_all
  have "holds_hash A data' links' (?e + m) (?ps ! m)"
    unfolding holds_hash_def p_last using d_last l_e d_t t(1) len' len by auto
  then show "layer_head A data' links' ?e ?ps"
    unfolding layer_head_def lp using len' d_new l_up m lv by (auto simp del: length_pair_up)
  show "layer_view A data' links' s vals"
    unfolding layer_view_def
  proof (intro conjI allI impI)
    fix k assume k: "2 * k + 1 < length vals"
    then have k': "2 * k + 1 + 1 < length vals" using lv by presburger
    show "data' ! (s + 2 * k) = vals ! (2 * k)"
      using low [of "2 * k"] d_low [of "s + 2 * k"] k' by simp
    show "holds_hash A data' links' (s + 2 * k + 1) (vals ! (2 * k + 1))"
      using low [of "2 * k + 1"] d_low [of "s + 2 * k + 1"] k' by (simp add: holds_hash_def)
  next
    show "s + padded (length vals) \<le> length data'" using len' by (simp add: padded_def)
    show "data' ! (s + length vals) = light_null A" by (rule d_pad)
    show "links' (s + length vals) = None" using links' up by auto
  qed
  show "links' x = links x" if "x < s" for x using that links' by auto
qed

lemma build_layer:
  assumes h: "layer_head A data links s vals" and w: "1 < length vals"
    and n: "\<forall>v\<in>set vals. v \<noteq> light_null A"
  defines "d1 \<equiv> if odd (length vals) then data @ [light_null A] else data"
    and "e \<equiv> if odd (length vals) then s + length vals + 1 else s + length vals"
  shows "\<exists>layer ext links'. rmap (build_node A d1 links s e) (step_by_two s e) = Inr layer \<and>
      fold build_push layer (d1, links) = (data @ ext, links') \<and>
      layer_head A (data @ ext) links' e (pair_up (light_node A) vals) \<and>
      layer_view A (data @ ext) links' s vals \<and> (\<forall>x < s. links' x = links x)"
proof (cases "odd (length vals)")
  case False
  let ?news = "pair_up (light_node A) vals"
  have "fold build_push (map (\<lambda>v. (v, None)) ?news) (data, links) = (data @ ?news, links)"
    by (simp add: fold_build_push comp_def) (rule fold_build_links_None, auto)
  then show ?thesis
    using build_layer_even [OF h _ n] False by (auto simp: d1_def e_def)
next
  case True
  define m where "m = length vals div 2"
  have lv: "length vals = 2 * m + 1" "0 < m" using True w by (auto simp: m_def elim!: oddE)
  let ?news = "take m (pair_up (light_node A) vals)"
  from build_layer_odd [OF h True w n] obtain t rem where
    r: "rmap (build_node A d1 links s e) (step_by_two s e) =
        Inr (map (\<lambda>v. (v, None)) ?news @ [(light_null A, Some (e + m, t, rem))])"
    and t: "t < length data + 1" "(data @ [light_null A]) ! t = vals ! (2 * m)"
    and rem: "rem = None \<or> rem = Some (s + 2 * m)"
    using True by (auto simp: d1_def e_def m_def)
  define links' where "links' = build_links (Some (e + m, t, rem)) links"
  have f: "fold build_push (map (\<lambda>v. (v, None)) ?news @ [(light_null A, Some (e + m, t, rem))]) (d1, links) =
      (data @ [light_null A] @ ?news @ [light_null A], links')"
    using True fold_build_links_None [of "map (\<lambda>v. None) ?news" links]
    by (simp add: fold_build_push build_push_def comp_def d1_def links'_def image_subset_iff)
  have l: "links' = links(s + length vals + 1 + m \<mapsto> t) \<or>
      links' = (links(s + length vals + 1 + m \<mapsto> t))(s + 2 * m := None)"
    using rem True by (auto simp: links'_def build_links_def e_def)
  have "e = s + length vals + 1" using True by (simp add: e_def)
  then show ?thesis
    using r f layer_after_odd [OF h lv t l] by blast
qed

section \<open>The finished tree\<close>

primrec null_free :: "'e light_alg \<Rightarrow> nat \<Rightarrow> 'e list \<Rightarrow> bool" where
  "null_free A 0 vals \<longleftrightarrow> (\<forall>v\<in>set vals. v \<noteq> light_null A)"
| "null_free A (Suc k) vals \<longleftrightarrow>
     (\<forall>v\<in>set vals. v \<noteq> light_null A) \<and> null_free A k (pair_up (light_node A) vals)"

primrec stored :: "'e light_alg \<Rightarrow> nat \<Rightarrow> 'e list \<Rightarrow> (nat \<rightharpoonup> nat) \<Rightarrow> nat \<Rightarrow> 'e list \<Rightarrow> bool" where
  "stored A 0 data links s vals \<longleftrightarrow> length data = s + 1 \<and> vals = [data ! s]"
| "stored A (Suc k) data links s vals \<longleftrightarrow>
     (if length vals \<le> 1 then length data = s + 1 \<and> vals = [data ! s]
      else layer_view A data links s vals \<and>
        stored A k data links (s + padded (length vals)) (pair_up (light_node A) vals))"

lemma layer_view_mono:
  assumes "layer_view A data links s vals" and "\<And>x. x < s + padded (length vals) \<Longrightarrow> links' x = links x"
  shows "layer_view A (data @ ext) links' s vals"
proof -
  have "s + padded (length vals) \<le> length data" using assms(1) by (simp add: layer_view_def)
  moreover have "length vals \<le> padded (length vals)" "odd (length vals) \<Longrightarrow> length vals < padded (length vals)"
    by (auto simp: padded_def)
  ultimately show ?thesis using assms
    by (fastforce simp: layer_view_def holds_hash_def nth_append)
qed

lemma null_free_vals: "null_free A k vals \<Longrightarrow> \<forall>v\<in>set vals. v \<noteq> light_null A"
  by (cases k) auto

lemma build_loop_correct:
  "layer_head A data links s vals \<Longrightarrow> length vals \<le> 2 ^ k \<Longrightarrow> null_free A k vals \<Longrightarrow>
   \<exists>ext links'. build_loop A data links (length vals) s (s + length vals) = Inr (data @ ext, links') \<and>
     (\<forall>x < s. links' x = links x) \<and> stored A k (data @ ext) links' s vals"
proof (induction k arbitrary: data links s vals)
  case 0
  then have "length vals = 1" by (cases vals) (auto simp: layer_head_def)
  then obtain v where "vals = [v]" by (auto simp: length_Suc_conv)
  then show ?case using 0 by (auto simp: layer_head_def build_loop.simps holds_hash_def nth_append)
next
  case (Suc k)
  note n = null_free_vals [OF Suc.prems(3)]
  show ?case
  proof (cases "1 < length vals")
    case False
    then have "length vals = 1" using Suc.prems(1) by (cases vals) (auto simp: layer_head_def)
    then obtain v where v: "vals = [v]" by (auto simp: length_Suc_conv)
    then show ?thesis
      using Suc.prems n by (auto simp: layer_head_def build_loop.simps holds_hash_def nth_append)
  next
    case True
    let ?d1 = "if odd (length vals) then data @ [light_null A] else data"
    let ?e = "if odd (length vals) then s + length vals + 1 else s + length vals"
    let ?ps = "pair_up (light_node A) vals"
    have e: "?e = s + padded (length vals)" by (simp add: padded_def)
    from build_layer [OF Suc.prems(1) True n] obtain layer ext links' where
      l: "rmap (build_node A ?d1 links s ?e) (step_by_two s ?e) = Inr layer"
      "fold build_push layer (?d1, links) = (data @ ext, links')"
      "layer_head A (data @ ext) links' ?e ?ps"
      "layer_view A (data @ ext) links' s vals" "\<forall>x < s. links' x = links x" by blast
    have "length ?ps \<le> 2 ^ k" using Suc.prems(2) half_le by simp
    from Suc.IH [OF l(3) this] Suc.prems(3) obtain ext2 links2 where
      r: "build_loop A (data @ ext) links' (length ?ps) ?e (?e + length ?ps) = Inr ((data @ ext) @ ext2, links2)"
      "\<forall>x < ?e. links2 x = links' x" "stored A k ((data @ ext) @ ext2) links2 ?e ?ps" by auto
    have "build_loop A data links (length vals) s (s + length vals) = Inr (data @ ext @ ext2, links2)"
      using l(1,2) r(1) True unfolding build_loop.simps [of A data links "length vals"] Let_def
      by (cases "odd (length vals)") simp_all
    moreover have "layer_view A (data @ ext @ ext2) links2 s vals"
      using layer_view_mono [OF l(4), of links2 ext2] r(2) e by simp
    moreover have "\<forall>x < s. links2 x = links x" using r(2) l(5) by auto
    ultimately show ?thesis using r(3) True e by auto
  qed
qed

lemma mtree_single [simp]: "mtree f k [x] = x"
  by (induction k) auto

lemma tsteps_single: "length xs \<le> 1 \<Longrightarrow> tsteps f k xs i = []"
proof (induction k)
  case (Suc k)
  then have "length xs \<le> 2 ^ k" using one_le_power [of "2::nat" k] by linarith
  then show ?case using Suc by simp
qed simp

lemma tsteps_nonempty: "1 < length xs \<Longrightarrow> length xs \<le> 2 ^ k \<Longrightarrow> tsteps f k xs i \<noteq> []"
  by (induction k arbitrary: xs i) auto

lemma stored_root:
  "stored A k data links s vals \<Longrightarrow> length vals \<le> 2 ^ k \<Longrightarrow> vals \<noteq> [] \<Longrightarrow>
   s < length data \<and> data ! (length data - 1) = mtree (light_node A) k vals"
proof (induction k arbitrary: s vals)
  case 0
  then show ?case by auto
next
  case (Suc k)
  show ?case
  proof (cases "length vals \<le> 1")
    case True
    then have "length data = s + 1" "vals = [data ! s]" using Suc.prems(1) by auto
    then show ?thesis using mtree_single [of "light_node A" "Suc k"] by (metis add_diff_cancel_right' less_add_one)
  next
    case False
    let ?ps = "pair_up (light_node A) vals"
    have st: "stored A k data links (s + padded (length vals)) ?ps" using Suc.prems(1) False by simp
    have "length ?ps \<le> 2 ^ k" using Suc.prems(2) half_le by simp
    from Suc.IH [OF st this] show ?thesis
      using Suc.prems mtree_pair_up [of vals k] by (simp del: mtree.simps)
  qed
qed

lemma proof_hash_step:
  assumes v: "layer_view A (mt_data t) (mt_link_map t) base vals" and j: "j < length vals"
    and n: "\<forall>v\<in>set vals. v \<noteq> light_null A"
  shows "\<exists>found. proof_hash_index A t base j = Inr found \<and>
    (case found of None \<Rightarrow> sibling vals j = []
     | Some i \<Rightarrow> i < length (mt_data t) \<and> sibling vals j = [(mt_data t ! i, even j)])"
proof -
  have len: "base + padded (length vals) \<le> length (mt_data t)"
    and view: "\<And>k. 2 * k + 1 < length vals \<Longrightarrow> mt_data t ! (base + 2 * k) = vals ! (2 * k) \<and>
        holds_hash A (mt_data t) (mt_link_map t) (base + 2 * k + 1) (vals ! (2 * k + 1))"
    and pad: "odd (length vals) \<Longrightarrow> mt_data t ! (base + length vals) = light_null A \<and>
        mt_link_map t (base + length vals) = None"
    using v by (auto simp: layer_view_def)
  consider k where "j = 2 * k + 1" | k where "j = 2 * k" "2 * k + 1 < length vals"
    | k where "j = 2 * k" "length vals = 2 * k + 1"
    using j by (metis Suc_eq_plus1 Suc_lessI evenE oddE)
  then show ?thesis
  proof cases
    case (1 k)
    then have "length vals \<le> padded (length vals)" by (simp add: padded_def)
    then show ?thesis using 1 j view [of k] len by (auto simp: proof_hash_index_def sibling_def)
  next
    case (2 k)
    let ?r = "base + 2 * k + 1"
    have r: "?r < length (mt_data t)" using 2 len by (auto simp: padded_def split: if_splits)
    have nr: "vals ! (2 * k + 1) \<noteq> light_null A" using n 2 by simp
    have h: "holds_hash A (mt_data t) (mt_link_map t) ?r (vals ! (2 * k + 1))" using view 2 by blast
    show ?thesis
    proof (cases "mt_data t ! ?r = light_null A")
      case True
      with h nr obtain i where "i < length (mt_data t)" "mt_link_map t ?r = Some i"
        "mt_data t ! i = vals ! (2 * k + 1)" by (auto simp: holds_hash_def)
      then show ?thesis using True nr r 2 by (auto simp: proof_hash_index_def sibling_def)
    next
      case False
      then have "mt_data t ! ?r = vals ! (2 * k + 1)" using h by (simp add: holds_hash_def)
      then show ?thesis using False r 2 by (auto simp: proof_hash_index_def sibling_def)
    qed
  next
    case (3 k)
    then have "base + length vals < length (mt_data t)" using len by (auto simp: padded_def)
    then show ?thesis using 3 pad by (auto simp: proof_hash_index_def sibling_def)
  qed
qed

lemma gen_proof_loop_correct:
  "stored A k (mt_data t) (mt_link_map t) base vals \<Longrightarrow> null_free A k vals \<Longrightarrow> length vals \<le> 2 ^ k \<Longrightarrow>
   j < length vals \<Longrightarrow> length (mt_data t) \<le> fuel + base + 1 \<Longrightarrow>
   gen_proof_loop fuel A t base (padded (length vals)) j ls ps =
     Inr (ls @ map fst (tsteps (light_node A) k vals j), ps @ map snd (tsteps (light_node A) k vals j))"
proof (induction k arbitrary: base vals j ls ps fuel)
  case 0
  then show ?case by (cases fuel) auto
next
  case (Suc k)
  show ?case
  proof (cases "length vals \<le> 1")
    case True
    then show ?thesis using Suc.prems(1)
      by (cases fuel) (auto simp: tsteps_single simp del: tsteps.simps)
  next
    case False
    let ?qs = "pair_up (light_node A) vals"
    have v: "layer_view A (mt_data t) (mt_link_map t) base vals"
      and st: "stored A k (mt_data t) (mt_link_map t) (base + padded (length vals)) ?qs"
      using Suc.prems(1) False by simp_all
    have q: "length ?qs \<le> 2 ^ k" "j div 2 < length ?qs" "null_free A k ?qs"
      using Suc.prems half_le by auto
    have len: "base + 1 < length (mt_data t)" and p: "2 \<le> padded (length vals)"
      using v False by (auto simp: layer_view_def padded_def split: if_splits)
    then obtain f where f: "fuel = Suc f" using Suc.prems(5) by (cases fuel) auto
    have w: "(let half = padded (length vals) div 2 in if odd half then half + 1 else half) = padded (length ?qs)"
      by (simp add: Let_def padded_def [of "Suc _ div 2"])
    obtain found where g: "proof_hash_index A t base j = Inr found"
      "case found of None \<Rightarrow> sibling vals j = []
       | Some i \<Rightarrow> i < length (mt_data t) \<and> sibling vals j = [(mt_data t ! i, even j)]"
      using proof_hash_step [OF v Suc.prems(4) null_free_vals [OF Suc.prems(2)]] by blast
    have fuel: "length (mt_data t) \<le> f + (base + padded (length vals)) + 1" using Suc.prems(5) f p by simp
    note IH = Suc.IH [OF st q(3,1,2) fuel]
    have ts: "tsteps (light_node A) (Suc k) vals j = sibling vals j @ tsteps (light_node A) k ?qs (j div 2)"
      by (rule tsteps_pair_up [OF Suc.prems(4,3)])
    show ?thesis unfolding ts f
      using g len w IH by (cases found) (simp_all add: Let_def)
  qed
qed

section \<open>Trees and proofs of a list of leaves\<close>

lemma tree_size_bound:
  assumes "0 < n" "n \<le> 2 ^ 57"
  shows "32 * tree_size n < 2 ^ 63"
proof -
  define k where "k = (LEAST k. n \<le> 2 ^ k)"
  have k: "n \<le> 2 ^ k" unfolding k_def by (rule LeastI [of _ 57]) (rule assms(2))
  have "k \<le> 57" unfolding k_def by (rule Least_le) (rule assms(2))
  have "k = 0 \<or> 2 ^ (k - 1) < n" unfolding k_def using not_less_Least [of "k - 1" "\<lambda>k. n \<le> 2 ^ k"]
    by (metis diff_less k_def less_one linorder_not_less neq0_conv)
  then have "next_pow2 n = 2 ^ k" using assms(1) k \<open>k \<le> 57\<close> by (intro next_pow2_eq) simp_all
  moreover have p: "(2::nat) ^ k \<le> 2 ^ 57" using \<open>k \<le> 57\<close> by (rule power_increasing) simp
  ultimately have w: "next_pow2_word (of_nat n) = of_nat (2 ^ k)"
    unfolding next_pow2_def word_unat_eq_iff unat_of_nat by simp
  have "tree_size n = unat (of_nat (2 * 2 ^ k - 1) :: 64 word)"
    unfolding tree_size_def w by (simp add: of_nat_diff)
  then have "tree_size n = 2 * 2 ^ k - 1" using p unfolding unat_of_nat by simp
  then show ?thesis using p by simp
qed

lemma from_iter_stored:
  assumes leaf: "\<And>x. light_leaf A x = x" and xs: "xs \<noteq> []" "length xs \<le> 2 ^ k" "k \<le> 57"
    and n: "null_free A k xs"
  obtains t where "from_iter A xs = Inr t" "mt_leafs t = length xs" "take (length xs) (mt_data t) = xs"
    "stored A k (mt_data t) (mt_link_map t) 0 xs"
proof -
  have "layer_head A xs Map.empty 0 xs"
    using xs by (auto simp: layer_head_def holds_hash_def)
  from build_loop_correct [OF this xs(2) n] obtain ext links where
    b: "build_loop A xs Map.empty (length xs) 0 (length xs) = Inr (xs @ ext, links)"
    "stored A k (xs @ ext) links 0 xs" by auto
  have "length xs \<le> 2 ^ 57" using xs(2,3) power_increasing [of k 57 "2::nat"] by linarith
  then have "32 * tree_size (length xs) < 2 ^ 63" using xs(1) by (intro tree_size_bound) simp_all
  moreover have "light_leaf A = (\<lambda>x. x)" using leaf by auto
  ultimately have "from_iter A xs = Inr \<lparr>mt_data = xs @ ext, mt_leafs = length xs,
      mt_height = log2_pow2 (tree_size (length xs) + 1), mt_link_map = links\<rparr>"
    using b(1) by (simp add: from_iter_def build_def Let_def)
  then show ?thesis by (rule that) (use b in simp_all)
qed

definition reference_proof :: "('e \<Rightarrow> 'e \<Rightarrow> 'e) \<Rightarrow> nat \<Rightarrow> 'e list \<Rightarrow> nat \<Rightarrow> 'e light_proof" where
  "reference_proof f k xs i =
     \<lparr>lp_lemma = (if length xs = 1 then xs
                  else xs ! i # map fst (tsteps f k xs i) @ [mtree f k xs]),
      lp_path = map snd (tsteps f k xs i)\<rparr>"

lemma light_root_stored:
  assumes "stored A k (mt_data t) (mt_link_map t) 0 xs" "xs \<noteq> []" "length xs \<le> 2 ^ k"
  shows "light_root t = Inr (mtree (light_node A) k xs)"
proof -
  have "0 < length (mt_data t)" and r: "mt_data t ! (length (mt_data t) - 1) = mtree (light_node A) k xs"
    using stored_root [OF assms(1,3,2)] by simp_all
  then have "wsub (length (mt_data t)) 1 = length (mt_data t) - 1" "length (mt_data t) - 1 < length (mt_data t)"
    by (simp_all add: wsub_def Suc_le_eq)
  then show ?thesis using r by (simp only: light_root_def index_in)
qed

lemma light_gen_proof_stored:
  assumes st: "stored A k (mt_data t) (mt_link_map t) 0 xs" and xs: "xs \<noteq> []" "length xs \<le> 2 ^ k"
    and n: "null_free A k xs" and t: "mt_leafs t = length xs" "take (length xs) (mt_data t) = xs"
    and i: "i < length xs"
  shows "light_gen_proof A t i = Inr (reference_proof (light_node A) k xs i)"
proof (cases "length xs = 1")
  case True
  then obtain x where x: "xs = [x]" by (auto simp: length_Suc_conv)
  show ?thesis
    using True i t light_root_stored [OF st xs] x
    by (simp add: light_gen_proof_def light_proof_new_def reference_proof_def tsteps_single)
next
  case False
  let ?ts = "tsteps (light_node A) k xs i"
  have "min (length (mt_data t)) (length xs) = length xs" using arg_cong [OF t(2), of length] by simp
  then have d: "i < length (mt_data t)" using i by simp
  have di: "mt_data t ! i = xs ! i" using nth_take [OF i, of "mt_data t"] t(2) by simp
  have "1 < length xs" using xs(1) False by (cases xs) auto
  then have "?ts \<noteq> []" using tsteps_nonempty xs(2) by blast
  then have "0 < length ?ts" by simp
  then have new: "light_proof_new (xs ! i # map fst ?ts @ [mtree (light_node A) k xs]) (map snd ?ts) =
      Inr (reference_proof (light_node A) k xs i)"
    using False by (simp add: light_proof_new_def reference_proof_def)
  have "gen_proof_loop (length (mt_data t)) A t 0 (padded (length xs)) i [xs ! i] [] =
      Inr ([xs ! i] @ map fst ?ts, [] @ map snd ?ts)"
    by (rule gen_proof_loop_correct [OF st n xs(2) i]) simp
  then show ?thesis
    using False i t d di light_root_stored [OF st xs] new
    by (simp add: light_gen_proof_def padded_def split: if_splits)
qed

text \<open>The validator climbs the steps of a proof.\<close>

lemma validate_steps:
  assumes "lp_lemma p = pre @ map fst ts @ post" "lp_path p = ppre @ map snd ts @ ppost"
    and "length pre = Suc (length ppre)"
  shows "rfold (light_validate_step A p) [length pre..<length pre + length ts] h = Inr (light_climb (light_node A) ts h)"
  using assms
proof (induction ts arbitrary: pre ppre h)
  case (Cons st ts)
  obtain s l where st: "st = (s, l)" by (cases st)
  have "[length pre..<length pre + length (st # ts)] =
      length pre # [length (pre @ [s])..<length (pre @ [s]) + length ts]"
    by (simp add: upt_conv_Cons del: upt_Suc)
  moreover have "light_validate_step A p (length pre) h =
      Inr (if l then light_node A h s else light_node A s h)"
    using Cons.prems st by (simp add: light_validate_step_def nth_append)
  moreover have "rfold (light_validate_step A p)
        [length (pre @ [s])..<length (pre @ [s]) + length ts] h' = Inr (light_climb (light_node A) ts h')" for h'
    using Cons.prems st by (intro Cons.IH [of "pre @ [s]" "ppre @ [l]"]) simp_all
  ultimately show ?case using st by simp
qed simp

lemma light_validate_climb:
  assumes "lp_lemma p = x # map fst ts @ [r]" "lp_path p = map snd ts"
  shows "light_validate A p = Inr (light_climb (light_node A) ts x = r)"
  using assms validate_steps [of p "[x]" ts "[r]" "[]" "[]" A x]
  by (simp add: light_validate_def light_item_def light_proof_root_def)

lemma reference_proof_validates:
  assumes "i < length xs" "length xs \<le> 2 ^ k"
  shows "light_validate A (reference_proof (light_node A) k xs i) = Inr True"
proof (cases "length xs = 1")
  case True
  then show ?thesis by (simp add: light_validate_def reference_proof_def tsteps_single)
next
  case False
  then show ?thesis
    using climb_tsteps [OF assms, of "light_node A"]
      light_validate_climb [of "reference_proof (light_node A) k xs i"]
    by (simp add: reference_proof_def)
qed

end
