(* ===== verification/File_Proof.thy ===== *)
theory File_Proof
  imports Light_Tree Merkle_Proof Shared_Types
begin

text \<open>
  Proofs of inclusion in a file (\<open>FileProof\<close> of \<open>node/shared_types/src/lib.rs\<close>) over the trees of
  \<open>merkle_light\<close>: what \<open>gen_proof\<close> produces is accepted, and what is accepted is in the tree.
\<close>

section \<open>Operations\<close>

record file_proof =
  fp_lemma :: "h256 list"
  fp_path :: "bool list"

definition file_proof_new :: "h256 list \<Rightarrow> bool list \<Rightarrow> file_proof" where
  "file_proof_new lemmas path =
     \<lparr>fp_lemma = (if path = [] then take 1 lemmas else lemmas), fp_path = path\<rparr>"

text \<open>The loop of \<open>position\<close> over the reversed path: the leaves left, and the position so far.\<close>

definition position_step :: "bool \<Rightarrow> nat \<times> nat \<Rightarrow> (nat \<times> nat) res" where
  "position_step is_left st =
     (case st of (left_chunk_count, pos) \<Rightarrow>
        if left_chunk_count \<le> 1 then Inl (Err ''Proof path too long for a tree size'')
        else
          let subtree_size = next_pow2 left_chunk_count div 2 in
          if \<not> is_left then Inr (left_chunk_count - subtree_size, pos + subtree_size)
          else Inr (subtree_size, pos))"

definition file_proof_position :: "bool list \<Rightarrow> nat \<Rightarrow> nat res" where
  "file_proof_position path total_chunk_count =
     rbind (rfold position_step (rev path) (total_chunk_count, 0)) (\<lambda>(left_chunk_count, pos).
     rbind (ensure (left_chunk_count = 1) (Err ''Proof path too short for a tree size'')) (\<lambda>_.
     Inr pos))"

definition file_proof_try_into :: "file_proof \<Rightarrow> h256 light_proof res" where
  "file_proof_try_into p =
     (if length (fp_lemma p) = 1 \<and> fp_path p = [] \<or>
         2 < length (fp_lemma p) \<and> length (fp_lemma p) = length (fp_path p) + 2
      then light_proof_new (fp_lemma p) (fp_path p)
      else Inl (Err ''Invalid proof''))"

definition file_proof_validate ::
    "(byte list \<Rightarrow> h256) \<Rightarrow> file_proof \<Rightarrow> h256 \<Rightarrow> h256 \<Rightarrow> nat \<Rightarrow> nat \<Rightarrow> bool res" where
  "file_proof_validate keccak p leaf_hash root position leaf_count =
     rbind (file_proof_position (fp_path p) leaf_count) (\<lambda>pos.
     rbind (ensure (pos = position) (Err ''wrong position'')) (\<lambda>_.
     rbind (file_proof_try_into p) (\<lambda>raw.
     rbind (light_validate (RawLeafSha3Algorithm keccak) raw) (\<lambda>ok.
     if \<not> ok then Inr False
     else
       rbind (light_proof_root raw) (\<lambda>claimed_root.
       rbind (ensure (claimed_root = root) (Err ''root mismatch'')) (\<lambda>_.
       rbind (light_item raw) (\<lambda>item.
       rbind (ensure (item = leaf_hash) (Err ''data hash mismatch'')) (\<lambda>_.
       Inr True))))))))"

definition file_to_flow_proof :: "file_proof \<Rightarrow> h256 merkle_proof res" where
  "file_to_flow_proof p =
     rbind (if fp_path p = []
            then (case fp_lemma p of [] \<Rightarrow> Inl (Err ''empty file proof'') | h # _ \<Rightarrow> Inr (fp_lemma p @ [h]))
            else Inr (fp_lemma p)) (\<lambda>lemmas.
     if length lemmas \<noteq> length (fp_path p) + 2 then Inl (Err ''invalid file proof'')
     else proof_new lemmas (fp_path p))"

definition ZERO_HASH :: h256 where
  "ZERO_HASH =
     [0xd3, 0x97, 0xb3, 0xb0, 0x43, 0xd8, 0x7f, 0xcd, 0x6f, 0xad, 0x12, 0x91, 0xff, 0xb, 0xfd, 0x16,
      0x40, 0x1c, 0x27, 0x48, 0x96, 0xd8, 0xc6, 0x3a, 0x92, 0x37, 0x27, 0xf0, 0x77, 0xb8, 0xe0, 0xb5]"

definition segment_leaves :: "(byte list \<Rightarrow> h256) \<Rightarrow> byte list \<Rightarrow> nat \<Rightarrow> h256 list" where
  "segment_leaves keccak data segment_chunks =
     (let hashes = map keccak (chunks_exact CHUNK_SIZE data);
          num_chunks = length data div CHUNK_SIZE
      in if num_chunks < segment_chunks then hashes @ replicate (segment_chunks - num_chunks) ZERO_HASH else hashes)"

definition compute_segment_merkle_root :: "(byte list \<Rightarrow> h256) \<Rightarrow> byte list \<Rightarrow> nat \<Rightarrow> h256 res" where
  "compute_segment_merkle_root keccak data segment_chunks =
     rbind (from_iter (RawLeafSha3Algorithm keccak) (segment_leaves keccak data segment_chunks)) light_root"

section \<open>Positions\<close>

lemma raw_leaf_simps [simp]:
  "light_leaf (RawLeafSha3Algorithm keccak) x = x"
  "light_node (RawLeafSha3Algorithm keccak) = parent_raw keccak"
  "light_null (RawLeafSha3Algorithm keccak) = zero_h256"
  by (auto simp: RawLeafSha3Algorithm_def parent_raw_def fun_eq_iff)

text \<open>The path of a leaf determines its position, and only paths of leaves have one.\<close>

primrec tpath :: "nat \<Rightarrow> nat \<Rightarrow> nat \<Rightarrow> bool list" where
  "tpath 0 n i = []"
| "tpath (Suc k) n i =
     (if n \<le> 2 ^ k then tpath k n i
      else if i < 2 ^ k then tpath k (2 ^ k) i @ [True]
      else tpath k (n - 2 ^ k) (i - 2 ^ k) @ [False])"

lemma map_snd_tsteps: "map snd (tsteps f k xs i) = tpath k (length xs) i"
  by (induction k arbitrary: xs i) (auto simp: min_def)

lemma next_pow2_half:
  assumes "2 ^ k < n" "n \<le> 2 ^ Suc k" "k < 63"
  shows "next_pow2 n div 2 = 2 ^ k"
proof -
  have "next_pow2 n = 2 ^ Suc k" using assms by (intro next_pow2_eq) auto
  then show ?thesis by simp
qed

lemma position_step_eq:
  "1 < n \<Longrightarrow> next_pow2 n div 2 = m \<Longrightarrow>
   position_step l (n, p) = Inr (if l then (m, p) else (n - m, p + m))"
  by (simp add: position_step_def Let_def)

lemma position_tpath:
  "i < n \<Longrightarrow> n \<le> 2 ^ k \<Longrightarrow> k \<le> 63 \<Longrightarrow>
   rfold position_step (rev (tpath k n i)) (n, p) = Inr (1, p + i)"
proof (induction k arbitrary: n i p)
  case 0
  then show ?case by simp
next
  case (Suc k)
  consider "n \<le> 2 ^ k" | "2 ^ k < n" "i < 2 ^ k" | "2 ^ k < n" "2 ^ k \<le> i" by linarith
  then show ?case
  proof cases
    case 1
    then show ?thesis using Suc by simp
  next
    case 2
    have "next_pow2 n div 2 = 2 ^ k" using 2 Suc.prems by (intro next_pow2_half) simp_all
    moreover have "1 < n" using 2 by (metis le_less_trans one_le_numeral one_le_power)
    ultimately have "position_step True (n, p) = Inr (2 ^ k, p)" by (simp add: position_step_eq)
    then show ?thesis using 2 Suc.IH [of i "2 ^ k" p] Suc.prems by simp
  next
    case 3
    have "next_pow2 n div 2 = 2 ^ k" using 3 Suc.prems by (intro next_pow2_half) simp_all
    moreover have "1 < n" using 3 by (metis le_less_trans one_le_numeral one_le_power)
    ultimately have "position_step False (n, p) = Inr (n - 2 ^ k, p + 2 ^ k)" by (simp add: position_step_eq)
    then show ?thesis using 3 Suc.IH [of "i - 2 ^ k" "n - 2 ^ k" "p + 2 ^ k"] Suc.prems by simp
  qed
qed

lemma file_proof_position_tpath:
  "i < n \<Longrightarrow> n \<le> 2 ^ k \<Longrightarrow> k \<le> 63 \<Longrightarrow> file_proof_position (tpath k n i) n = Inr i"
  by (simp add: file_proof_position_def position_tpath)

lemma position_unique:
  "rfold position_step (rev path) (n, p) = Inr (1, q) \<Longrightarrow> 0 < n \<Longrightarrow> n \<le> 2 ^ k \<Longrightarrow> k \<le> 63 \<Longrightarrow>
   p \<le> q \<and> q - p < n \<and> path = tpath k n (q - p)"
proof (induction k arbitrary: path n p)
  case 0
  then have "n = 1" by simp
  with 0 show ?case by (cases path rule: rev_cases) (auto simp: position_step_def)
next
  case (Suc k)
  show ?case
  proof (cases "n \<le> 2 ^ k")
    case True
    then show ?thesis using Suc by simp
  next
    case False
    then have n: "2 ^ k < n" "1 < n" by (simp, metis False le_less_trans not_le one_le_numeral one_le_power)
    have h: "next_pow2 n div 2 = 2 ^ k" using n Suc.prems by (intro next_pow2_half) simp_all
    from Suc.prems(1) n obtain l rest where r: "rev path = l # rest" by (cases "rev path") auto
    then have path: "path = rev rest @ [l]" by (metis rev.simps(2) rev_rev_ident)
    show ?thesis
    proof (cases l)
      case True
      then have "rfold position_step (rev (rev rest)) (2 ^ k, p) = Inr (1, q)"
        using Suc.prems(1) r n h by (simp add: position_step_eq)
      from Suc.IH [OF this] Suc.prems n True path show ?thesis by auto
    next
      case False
      then have "rfold position_step (rev (rev rest)) (n - 2 ^ k, p + 2 ^ k) = Inr (1, q)"
        using Suc.prems(1) r n h by (simp add: position_step_eq)
      from Suc.IH [OF this] Suc.prems(3,4) n
      have IH: "p + 2 ^ k \<le> q" "q - (p + 2 ^ k) < n - 2 ^ k" "rev rest = tpath k (n - 2 ^ k) (q - (p + 2 ^ k))"
        by simp_all
      then have "p \<le> q" "q - p < n" "\<not> q - p < 2 ^ k" "q - (p + 2 ^ k) = q - p - 2 ^ k" by linarith+
      then show ?thesis using IH(3) n False path by simp
    qed
  qed
qed

lemma file_proof_position_unique:
  assumes "file_proof_position path n = Inr i" "0 < n" "n \<le> 2 ^ k" "k \<le> 63"
  shows "i < n" "path = tpath k n i"
  using assms position_unique [of path n 0 i k] by (auto simp: file_proof_position_def)

section \<open>Completeness and soundness\<close>

definition to_file_proof :: "h256 light_proof \<Rightarrow> file_proof" where
  "to_file_proof p = \<lparr>fp_lemma = lp_lemma p, fp_path = lp_path p\<rparr>"

lemma try_into_reference:
  assumes "i < length xs" "length xs \<le> 2 ^ k"
  shows "file_proof_try_into (to_file_proof (reference_proof f k xs i)) = Inr (reference_proof f k xs i)"
proof (cases "length xs = 1")
  case True
  then show ?thesis
    by (simp add: file_proof_try_into_def to_file_proof_def reference_proof_def light_proof_new_def tsteps_single)
next
  case False
  then have "0 < length (tsteps f k xs i)" using assms tsteps_nonempty [of xs k f i] by (cases xs) auto
  then show ?thesis
    using False by (simp add: file_proof_try_into_def to_file_proof_def reference_proof_def light_proof_new_def)
qed

lemma reference_proof_ends:
  assumes "i < length xs" "length xs \<le> 2 ^ k"
  shows "light_item (reference_proof f k xs i) = Inr (xs ! i)"
    "light_proof_root (reference_proof f k xs i) = Inr (mtree f k xs)"
proof -
  show "light_item (reference_proof f k xs i) = Inr (xs ! i)"
    using assms by (auto simp: light_item_def reference_proof_def)
  show "light_proof_root (reference_proof f k xs i) = Inr (mtree f k xs)"
  proof (cases "length xs = 1")
    case True
    then obtain x where "xs = [x]" by (auto simp: length_Suc_conv)
    then show ?thesis by (simp add: light_proof_root_def reference_proof_def)
  next
    case False
    then show ?thesis by (simp add: light_proof_root_def reference_proof_def)
  qed
qed

lemma reference_file_proof_validates:
  assumes "i < length xs" "length xs \<le> 2 ^ k" "k \<le> 63"
  shows "file_proof_validate keccak (to_file_proof (reference_proof (parent_raw keccak) k xs i))
    (xs ! i) (mtree (parent_raw keccak) k xs) i (length xs) = Inr True"
proof -
  let ?p = "reference_proof (parent_raw keccak) k xs i"
  have "fp_path (to_file_proof ?p) = tpath k (length xs) i"
    by (simp add: to_file_proof_def reference_proof_def map_snd_tsteps)
  moreover have "light_validate (RawLeafSha3Algorithm keccak) ?p = Inr True"
    using reference_proof_validates [OF assms(1,2), of "RawLeafSha3Algorithm keccak"] by simp
  ultimately show ?thesis
    unfolding file_proof_validate_def
    using file_proof_position_tpath [OF assms] try_into_reference [OF assms(1,2)] reference_proof_ends [OF assms(1,2)]
    by simp
qed

text \<open>The pairs that are hashed on the way up, and a clash between two such ways.\<close>

fun climb_hashes :: "('e \<Rightarrow> 'e \<Rightarrow> 'e) \<Rightarrow> ('e \<times> bool) list \<Rightarrow> 'e \<Rightarrow> ('e \<times> 'e) list" where
  "climb_hashes f [] h = []"
| "climb_hashes f ((s, is_left) # rest) h =
     (if is_left then (h, s) # climb_hashes f rest (f h s) else (s, h) # climb_hashes f rest (f s h))"

definition pair_clash :: "('e \<Rightarrow> 'e \<Rightarrow> 'e) \<Rightarrow> ('e \<times> 'e) list \<Rightarrow> ('e \<times> 'e) list \<Rightarrow> bool" where
  "pair_clash f ps qs \<longleftrightarrow>
     (\<exists>(a, b) \<in> set ps. \<exists>(c, d) \<in> set qs. (a, b) \<noteq> (c, d) \<and> f a b = f c d)"

lemma climb_hashes_append:
  "climb_hashes f (xs @ ys) h = climb_hashes f xs h @ climb_hashes f ys (light_climb f xs h)"
  by (induction f xs h rule: climb_hashes.induct) auto

lemma climb_snoc: "light_climb f (ts @ [(s, l)]) h = (if l then f (light_climb f ts h) s else f s (light_climb f ts h))"
  by simp

lemma climb_inject:
  "map snd ts = map snd us \<Longrightarrow> light_climb f ts x = light_climb f us y \<Longrightarrow>
   x = y \<or> pair_clash f (climb_hashes f ts x) (climb_hashes f us y)"
proof (induction ts arbitrary: us rule: rev_induct)
  case Nil
  then show ?case by simp
next
  case (snoc t ts)
  obtain s l where t: "t = (s, l)" by (cases t)
  from snoc.prems(1) t obtain vs s' where us: "us = vs @ [(s', l)]" and m: "map snd ts = map snd vs"
    by (cases us rule: rev_cases) auto
  let ?a = "light_climb f ts x" and ?b = "light_climb f vs y"
  have e: "(if l then f ?a s else f s ?a) = (if l then f ?b s' else f s' ?b)"
    using snoc.prems(2) t us by (simp only: climb_snoc)
  show ?case
  proof (cases "?a = ?b")
    case True
    from snoc.IH [OF m True] show ?thesis
      unfolding t us climb_hashes_append pair_clash_def by auto
  next
    case False
    then show ?thesis
      using e unfolding t us climb_hashes_append pair_clash_def by (cases l) auto
  qed
qed

lemma file_proof_validate_steps:
  assumes "file_proof_validate keccak p leaf root i n = Inr True" "0 < n" "n \<le> 2 ^ k" "k \<le> 63"
  shows "i < n \<and> fp_path p = tpath k n i \<and>
    light_climb (parent_raw keccak) (zip (tl (fp_lemma p)) (fp_path p)) leaf = root"
proof -
  from assms(1) obtain raw where
    pos: "file_proof_position (fp_path p) n = Inr i"
    and raw: "file_proof_try_into p = Inr raw"
    and v: "light_validate (RawLeafSha3Algorithm keccak) raw = Inr True"
    and root: "light_proof_root raw = Inr root" and item: "light_item raw = Inr leaf"
    by (auto simp: file_proof_validate_def split: if_splits)
  have rp: "raw = \<lparr>lp_lemma = fp_lemma p, lp_path = fp_path p\<rparr>"
    using raw by (auto simp: file_proof_try_into_def light_proof_new_def split: if_splits)
  consider "length (fp_lemma p) = 1" "fp_path p = []"
    | "2 < length (fp_lemma p)" "length (fp_lemma p) = length (fp_path p) + 2"
    using raw by (auto simp: file_proof_try_into_def split: if_splits)
  then have "light_climb (parent_raw keccak) (zip (tl (fp_lemma p)) (fp_path p)) leaf = root"
  proof cases
    case 1
    then obtain h where "fp_lemma p = [h]" by (auto simp: length_Suc_conv)
    then show ?thesis using 1 root item rp by (simp add: light_proof_root_def light_item_def)
  next
    case 2
    define ts where "ts = zip (tl (fp_lemma p)) (fp_path p)"
    have ne: "fp_lemma p \<noteq> []" using 2(1) by auto
    have l: "leaf = hd (fp_lemma p)" "root = last (fp_lemma p)"
      using item root rp ne by (simp_all add: light_item_def light_proof_root_def hd_conv_nth)
    have s: "map snd ts = fp_path p" using 2(2) by (simp add: ts_def map_snd_zip_take)
    have "map fst ts = butlast (tl (fp_lemma p))"
      using 2(2) by (simp add: ts_def butlast_conv_take map_fst_zip_take)
    then have "tl (fp_lemma p) = map fst ts @ [root]"
      using 2 l(2) by (metis Nil_tl append_butlast_last_id last_tl length_tl list.size(3) zero_less_diff less_trans one_less_numeral_iff semiring_norm(76) not_less_zero)
    then have "fp_lemma p = leaf # map fst ts @ [root]" using ne l(1) by (metis list.collapse)
    then show ?thesis
      using v rp s light_validate_climb [of raw leaf ts root "RawLeafSha3Algorithm keccak"] ts_def by simp
  qed
  then show ?thesis using file_proof_position_unique [OF pos assms(2,3,4)] by blast
qed

section \<open>A small file\<close>

lemma null_free_if_nodes:
  "(\<And>a b. light_node A a b \<noteq> light_null A) \<Longrightarrow> \<forall>v\<in>set vals. v \<noteq> light_null A \<Longrightarrow> null_free A k vals"
proof (induction k arbitrary: vals)
  case (Suc k)
  have "\<forall>v\<in>set (pair_up (light_node A) vals). v \<noteq> light_null A"
    using Suc.prems(2)
    by (induction "light_node A" vals rule: pair_up.induct) (auto simp: Suc.prems(1))
  then show ?case using Suc by simp
qed simp

definition light_keccak :: "byte list \<Rightarrow> h256" where
  "light_keccak bs = 1 # rev (take 31 (rev bs))"

definition three_leaves :: "h256 list" where
  "three_leaves = [light_keccak [1], light_keccak [2], light_keccak [3]]"

lemma light_keccak_not_null: "light_keccak bs \<noteq> zero_h256"
  by (simp add: light_keccak_def zero_h256_def numeral_eq_Suc)

lemma three_leaves_null_free: "null_free (RawLeafSha3Algorithm light_keccak) k three_leaves"
  by (rule null_free_if_nodes) (auto simp: three_leaves_def light_keccak_not_null parent_raw_def)

section \<open>Properties\<close>

text \<open>C30: \<open>next_pow2\<close> on 64-bit words returns the least power of two that is not below its argument, for
  every argument in \<open>1..=2^63\<close>; \<open>log2_pow2\<close> returns its exponent.\<close>

theorem next_pow2_least:
  assumes "0 < n" "n \<le> 2 ^ 63"
  shows "next_pow2 n = (LEAST p. n \<le> p \<and> (\<exists>k. p = 2 ^ k)) \<and> next_pow2 n = 2 ^ log2_pow2 (next_pow2 n)"
proof -
  obtain k where k: "k \<le> 63" "next_pow2 n = 2 ^ k" "n \<le> 2 ^ k" "k = 0 \<or> 2 ^ (k - 1) < n"
    using next_pow2_exponent [OF assms] .
  have "(LEAST p. n \<le> p \<and> (\<exists>k. p = 2 ^ k)) = 2 ^ k"
  proof (rule Least_equality)
    fix p :: nat assume "n \<le> p \<and> (\<exists>j. p = 2 ^ j)"
    then obtain j where j: "p = 2 ^ j" "n \<le> 2 ^ j" by blast
    show "2 ^ k \<le> p"
    proof (rule ccontr)
      assume "\<not> 2 ^ k \<le> p"
      then have "j < k" using j(1) by (metis not_le one_le_numeral power_increasing)
      then have "(2::nat) ^ j \<le> 2 ^ (k - 1)" by (intro power_increasing) simp_all
      then show False using k(4) j(2) \<open>j < k\<close> by linarith
    qed
  qed (use k in blast)
  then show ?thesis using k by (simp add: log2_pow2_power)
qed

theorem next_pow2_least_witness:
  "next_pow2 5 = (LEAST p. 5 \<le> p \<and> (\<exists>k. p = 2 ^ k)) \<and> next_pow2 5 = 2 ^ log2_pow2 (next_pow2 5)"
  by (rule next_pow2_least) simp_all



text \<open>C9: Soundness of \<open>FileProof::validate\<close>: a proof that is accepted for a leaf at a position under the root
  of the tree of a file with this many leaves proves that the position is in the file and that the file
  has this leaf there, unless a pair that the validator hashed collides with a node of the tree.\<close>

theorem file_proof_validate_sound:
  assumes "file_proof_validate keccak p leaf (mtree (parent_raw keccak) k xs) i (length xs) = Inr True"
    and "xs \<noteq> []" "length xs \<le> 2 ^ k" "k \<le> 63"
  shows "i < length xs \<and> (leaf = xs ! i \<or>
    pair_clash (parent_raw keccak) (climb_hashes (parent_raw keccak) (zip (tl (fp_lemma p)) (fp_path p)) leaf)
      (climb_hashes (parent_raw keccak) (tsteps (parent_raw keccak) k xs i) (xs ! i)))"
proof -
  let ?f = "parent_raw keccak" and ?ts = "zip (tl (fp_lemma p)) (fp_path p)"
  have r: "i < length xs" "fp_path p = tpath k (length xs) i" "light_climb ?f ?ts leaf = mtree ?f k xs"
    using file_proof_validate_steps [OF assms(1) _ assms(3,4)] assms(2) length_greater_0_conv by blast+
  have "length (fp_path p) \<le> length (tl (fp_lemma p))"
    using assms(1) by (auto simp: file_proof_validate_def file_proof_try_into_def split: if_splits)
  then have "map snd ?ts = fp_path p" by (simp add: map_snd_zip_take)
  then have "map snd ?ts = map snd (tsteps ?f k xs i)" using r(2) by (simp add: map_snd_tsteps)
  moreover have "light_climb ?f ?ts leaf = light_climb ?f (tsteps ?f k xs i) (xs ! i)"
    using r(3) climb_tsteps [OF r(1) assms(3), of ?f] by simp
  ultimately have "leaf = xs ! i \<or> pair_clash ?f (climb_hashes ?f ?ts leaf) (climb_hashes ?f (tsteps ?f k xs i) (xs ! i))"
    by (rule climb_inject)
  with r(1) show ?thesis by (rule conjI)
qed

theorem file_proof_validate_sound_witness:
  "let f = parent_raw light_keccak; p = to_file_proof (reference_proof f 2 three_leaves 2) in
   2 < length three_leaves \<and> (light_keccak [3] = three_leaves ! 2 \<or>
     pair_clash f (climb_hashes f (zip (tl (fp_lemma p)) (fp_path p)) (light_keccak [3]))
       (climb_hashes f (tsteps f 2 three_leaves 2) (three_leaves ! 2)))"
proof -
  have "file_proof_validate light_keccak (to_file_proof (reference_proof (parent_raw light_keccak) 2 three_leaves 2))
      (three_leaves ! 2) (mtree (parent_raw light_keccak) 2 three_leaves) 2 (length three_leaves) = Inr True"
    by (rule reference_file_proof_validates) (simp_all add: three_leaves_def)
  moreover have "three_leaves ! 2 = light_keccak [3]" by (simp add: three_leaves_def)
  ultimately show ?thesis
    using file_proof_validate_sound [of light_keccak _ "light_keccak [3]" 2 three_leaves 2]
    by (simp add: Let_def three_leaves_def del: mtree.simps tsteps.simps)
qed

lemma sixteenth_dvd: "(if (2::nat) ^ k < 16 then 1 else 2 ^ k div 16 :: nat) dvd 2 ^ k"
proof (cases "k < 4")
  case True
  then have "(2::nat) ^ k < 2 ^ 4" by (rule power_strict_increasing) simp
  then show ?thesis by simp
next
  case False
  then have "(2::nat) ^ k = 2 ^ (k - 4) * 2 ^ 4" unfolding power_add [symmetric] by simp
  then show ?thesis by simp
qed

lemma round_up_le:
  fixes n m p :: nat
  assumes "0 < n" "0 < m" "m dvd p" "n \<le> p"
  shows "((n - 1) div m + 1) * m \<le> p"
proof -
  define b where "b = (n - 1) div m + 1"
  obtain a where a: "p = m * a" using assms(3) by (elim dvdE)
  have "b * m < n + m" unfolding b_def by (rule round_up_bounds(2) [OF assms(1,2)])
  then have "m * b < m * (a + 1)" using assms(4) a by (simp add: algebra_simps)
  then have "b < a + 1" by (rule mult_left_less_imp_less) simp
  then have "m * b \<le> m * a" by simp
  then show ?thesis unfolding a b_def by (simp add: mult.commute)
qed

lemma compute_padded_chunk_size_bounds:
  assumes "0 < n_bytes" "n_bytes \<le> 2 ^ 62"
  shows "case compute_padded_chunk_size n_bytes of (padded_chunks, chunks_next_pow2) \<Rightarrow>
    n_bytes \<le> padded_chunks * CHUNK_SIZE \<and> padded_chunks \<le> chunks_next_pow2 \<and>
    chunks_next_pow2 < 2 * bytes_to_chunks n_bytes \<and>
    padded_chunks < bytes_to_chunks n_bytes + max 1 (chunks_next_pow2 div 16) \<and>
    max 1 (chunks_next_pow2 div 16) dvd padded_chunks"
proof -
  let ?n = "bytes_to_chunks n_bytes"
  have n: "0 < ?n" "n_bytes \<le> ?n * 256" "?n \<le> 2 ^ 63"
    using assms bytes_to_chunks_bounds [of n_bytes] by simp_all
  obtain k where k: "k \<le> 63" "next_pow2 ?n = 2 ^ k" "?n \<le> 2 ^ k" "k = 0 \<or> 2 ^ (k - 1) < ?n"
    using next_pow2_exponent [OF n(1,3)] .
  have low: "2 ^ k < 2 * ?n" using k(4) n(1) by (cases k) auto
  define m :: nat where "m = (if (2::nat) ^ k < 16 then 1 else 2 ^ k div 16)"
  have m: "m = max 1 (2 ^ k div 16)" "0 < m" by (auto simp: m_def)
  have md: "m dvd 2 ^ k" unfolding m_def by (rule sixteenth_dvd)
  show ?thesis
  proof (cases "2 ^ k = ?n")
    case True
    then have "compute_padded_chunk_size n_bytes = (?n, ?n)"
      using k(2) by (simp add: compute_padded_chunk_size_def Let_def)
    then show ?thesis using True m md n low by auto
  next
    case False
    define q where "q = ((?n - 1) div m + 1) * m"
    have q: "?n \<le> q" "q < ?n + m" using round_up_bounds [OF n(1) m(2)] by (simp_all add: q_def)
    have dq: "m dvd q" by (simp add: q_def)
    have "q \<le> 2 ^ k" unfolding q_def by (rule round_up_le [OF n(1) m(2) md k(3)])
    moreover have "compute_padded_chunk_size n_bytes = (q, 2 ^ k)"
      using False k(2) n(1) by (simp add: compute_padded_chunk_size_def Let_def q_def m_def)
    ultimately show ?thesis using q dq low m n(2) by auto
  qed
qed

text \<open>C31: Padding of a file: for every size up to \<open>2^62\<close> bytes, the padded number of chunks holds the file, is
  at most the next power of two of its number of chunks, which is less than twice that number, and pads
  by less than a sixteenth of it; the padding is a multiple of that sixteenth.\<close>

theorem padded_chunk_size_bounds:
  assumes "0 < n_bytes" "n_bytes \<le> 2 ^ 62"
  shows "case compute_padded_chunk_size n_bytes of (padded_chunks, chunks_next_pow2) \<Rightarrow>
    n_bytes \<le> padded_chunks * CHUNK_SIZE \<and> padded_chunks \<le> chunks_next_pow2 \<and>
    chunks_next_pow2 < 2 * bytes_to_chunks n_bytes \<and>
    padded_chunks < bytes_to_chunks n_bytes + max 1 (chunks_next_pow2 div 16) \<and>
    max 1 (chunks_next_pow2 div 16) dvd padded_chunks"
  using assms by (rule compute_padded_chunk_size_bounds)

theorem padded_chunk_size_bounds_witness:
  "case compute_padded_chunk_size 9000 of (padded_chunks, chunks_next_pow2) \<Rightarrow>
    9000 \<le> padded_chunks * CHUNK_SIZE \<and> padded_chunks \<le> chunks_next_pow2 \<and>
    chunks_next_pow2 < 2 * bytes_to_chunks 9000 \<and>
    padded_chunks < bytes_to_chunks 9000 + max 1 (chunks_next_pow2 div 16) \<and>
    max 1 (chunks_next_pow2 div 16) dvd padded_chunks"
  by (rule padded_chunk_size_bounds) simp_all

end
