(* ===== verification/Segment_Proof.thy ===== *)
theory Segment_Proof
  imports File_Proof
begin

text \<open>
  Proofs of segments of a submitted file (\<open>node/shared_types/src/proof.rs\<close>). A transaction commits to
  a file by the roots of subtrees of decreasing size; \<open>compute_segment_proof\<close> joins the siblings inside
  a subtree, taken from the proof in the flow, with the path from the subtree to the root of the file.
\<close>

section \<open>Operations\<close>

record chunk_array_with_proof =
  cp_chunks :: chunk_array
  cp_proof :: "h256 range_proof"

datatype node_proof_leaf = Full (node_depth: nat) | Partial

record node_proof =
  np_proof :: file_proof
  np_leaf :: node_proof_leaf

fun merkle_root_loop :: "(byte list \<Rightarrow> h256) \<Rightarrow> nat \<Rightarrow> (nat \<times> h256) list \<Rightarrow> h256 \<Rightarrow> h256" where
  "merkle_root_loop keccak max_depth_exclusive [] root = root"
| "merkle_root_loop keccak max_depth_exclusive ((depth, node_root) # rest) root =
     (if depth \<ge> max_depth_exclusive then root
      else merkle_root_loop keccak max_depth_exclusive rest (parent_h256 keccak node_root root))"

definition compute_merkle_root :: "(byte list \<Rightarrow> h256) \<Rightarrow> transaction \<Rightarrow> nat \<Rightarrow> h256 option" where
  "compute_merkle_root keccak tx max_depth_exclusive =
     (case rev (merkle_nodes tx) of
        [] \<Rightarrow> None
      | (depth, root) # rest \<Rightarrow>
          if depth \<ge> max_depth_exclusive then None
          else Some (merkle_root_loop keccak max_depth_exclusive rest root))"

text \<open>The search of \<open>compute_node_proof\<close> for the subtree that holds the segment.\<close>

fun node_loop :: "nat \<Rightarrow> nat \<Rightarrow> (nat \<times> h256) list \<Rightarrow> nat \<Rightarrow> h256 list \<Rightarrow> bool list \<Rightarrow>
    (nat \<times> h256) option \<times> h256 list \<times> bool list" where
  "node_loop chunk_start_index chunks_per_segment [] total_chunks lemmas path = (None, lemmas, path)"
| "node_loop chunk_start_index chunks_per_segment ((depth, root) # rest) total_chunks lemmas path =
     (let node_chunks = num_entries_of_node depth in
      if node_chunks < chunks_per_segment then (None, lemmas, path)
      else
        let total_chunks = (total_chunks + node_chunks) mod 2 ^ 64 in
        if chunk_start_index < total_chunks then (Some (depth, root), lemmas, path)
        else node_loop chunk_start_index chunks_per_segment rest total_chunks (lemmas @ [root]) (path @ [False]))"

definition compute_node_proof :: "(byte list \<Rightarrow> h256) \<Rightarrow> transaction \<Rightarrow> nat \<Rightarrow> nat \<Rightarrow> node_proof res" where
  "compute_node_proof keccak tx chunk_start_index chunks_per_segment =
     (case node_loop chunk_start_index chunks_per_segment (merkle_nodes tx) 0 [data_merkle_root tx] [] of
        (Some (depth, root), lemmas, path) \<Rightarrow>
          (case compute_merkle_root keccak tx depth of
             Some right_root \<Rightarrow>
               Inr \<lparr>np_proof = file_proof_new (rev (lemmas @ [right_root] @ [root])) (rev (path @ [True])),
                    np_leaf = Full depth\<rparr>
           | None \<Rightarrow>
               Inr \<lparr>np_proof = file_proof_new (rev (lemmas @ [root])) (rev path), np_leaf = Full depth\<rparr>)
      | (None, lemmas, path) \<Rightarrow>
          let segment_depth = log2_pow2 chunks_per_segment + 1 in
          rbind (ok_or (Panic ''merkle root should be exists'') (compute_merkle_root keccak tx segment_depth)) (\<lambda>right_root.
          Inr \<lparr>np_proof = file_proof_new (rev (lemmas @ [right_root])) (rev path), np_leaf = Partial\<rparr>))"

definition copy_flow_step ::
    "h256 merkle_proof \<Rightarrow> nat \<Rightarrow> h256 list \<times> bool list \<Rightarrow> (h256 list \<times> bool list) res" where
  "copy_flow_step flow i st =
     rbind (index (lemma_of flow) (i + 1)) (\<lambda>h.
     rbind (index (path_of flow) i) (\<lambda>b.
     Inr (fst st @ [h], snd st @ [b])))"

definition compute_segment_proof_full ::
    "(byte list \<Rightarrow> h256) \<Rightarrow> file_proof \<Rightarrow> nat \<Rightarrow> chunk_array_with_proof \<Rightarrow> nat \<Rightarrow> file_proof res" where
  "compute_segment_proof_full keccak p depth segment chunks_per_segment =
     (let segment_depth = log2_pow2 chunks_per_segment; left = left_proof (cp_proof segment) in
      if depth = segment_depth then Inr p
      else
        rbind (ensure (segment_depth < depth) (Panic ''assertion failed: node_depth > segment_depth'')) (\<lambda>_.
        rbind (ensure (\<not> length (path_of left) < depth) (Err ''flow proof path too small'')) (\<lambda>_.
        rbind (compute_segment_merkle_root keccak (ca_data (cp_chunks segment)) chunks_per_segment) (\<lambda>segment_root.
        rbind (rfold (copy_flow_step left) [segment_depth..<depth] ([segment_root], [])) (\<lambda>(lemmas, path).
        if fp_path p = [] then
          rbind (index (fp_lemma p) 0) (\<lambda>root. Inr (file_proof_new (lemmas @ [root]) path))
        else
          rbind (slice_from (fp_lemma p) 1) (\<lambda>rest.
          Inr (file_proof_new (lemmas @ rest) (path @ fp_path p))))))))"

definition node_segment_proof ::
    "(byte list \<Rightarrow> h256) \<Rightarrow> node_proof \<Rightarrow> chunk_array_with_proof \<Rightarrow> nat \<Rightarrow> file_proof res" where
  "node_segment_proof keccak np segment chunks_per_segment =
     (case np_leaf np of
        Partial \<Rightarrow> Inr (np_proof np)
      | Full depth \<Rightarrow> compute_segment_proof_full keccak (np_proof np) (wsub depth 1) segment chunks_per_segment)"

definition compute_segment_proof ::
    "(byte list \<Rightarrow> h256) \<Rightarrow> transaction \<Rightarrow> chunk_array_with_proof \<Rightarrow> nat \<Rightarrow> file_proof res" where
  "compute_segment_proof keccak tx segment chunks_per_segment =
     (let chunk_start_index = ca_start_index (cp_chunks segment) in
      rbind (ensure (chunks_per_segment \<noteq> 0) (Panic ''attempt to calculate the remainder with a divisor of zero'')) (\<lambda>_.
      rbind (ensure (chunk_start_index mod chunks_per_segment = 0) (Err ''start index not aligned'')) (\<lambda>_.
      let total_entries = num_entries tx in
      rbind (ensure (chunk_start_index < total_entries) (Err ''start index out of bound'')) (\<lambda>_.
      let data_len = length (ca_data (cp_chunks segment)) in
      rbind (ensure ((chunk_start_index + data_len div CHUNK_SIZE) mod 2 ^ 64 \<le> total_entries)
               (Err ''end index out of bound'')) (\<lambda>_.
      rbind (compute_node_proof keccak tx chunk_start_index chunks_per_segment) (\<lambda>np.
      node_segment_proof keccak np segment chunks_per_segment))))))"

section \<open>Segments of a tree\<close>

text \<open>Going up \<open>c\<close> layers turns the leaves of a tree into the roots of its segments of \<open>2 ^ c\<close> leaves.\<close>

definition seg_roots :: "('e \<Rightarrow> 'e \<Rightarrow> 'e) \<Rightarrow> nat \<Rightarrow> 'e list \<Rightarrow> 'e list" where
  "seg_roots f c xs = (pair_up f ^^ c) xs"

lemma seg_roots_Suc: "seg_roots f (Suc c) xs = seg_roots f c (pair_up f xs)"
  by (simp add: seg_roots_def funpow_swap1)

lemma seg_roots_0 [simp]: "seg_roots f 0 xs = xs"
  by (simp add: seg_roots_def)

lemma length_seg_roots: "length (seg_roots f c xs) = (length xs + 2 ^ c - 1) div 2 ^ c"
proof (induction c arbitrary: xs)
  case (Suc c)
  define d where "d = (2::nat) ^ c - 1"
  have d: "(2::nat) ^ c = d + 1" by (simp add: d_def)
  have "((length xs + 1) div 2 + 2 ^ c - 1) div 2 ^ c = (length xs + 2 * d + 1) div 2 div (d + 1)"
  proof -
    have "(length xs + 2 * d + 1) div 2 = (length xs + 1) div 2 + d" by presburger
    then show ?thesis unfolding d by simp
  qed
  also have "\<dots> = (length xs + 2 ^ Suc c - 1) div 2 ^ Suc c"
    unfolding power_Suc d by (simp add: div_mult2_eq [symmetric])
  finally show ?case using Suc by (simp add: seg_roots_Suc)
qed simp

definition segment_of :: "nat \<Rightarrow> 'e list \<Rightarrow> nat \<Rightarrow> 'e list" where
  "segment_of c xs q = take (2 ^ c) (drop (q * 2 ^ c) xs)"

lemma pair_up_segment: "pair_up f (segment_of (Suc c) xs q) = segment_of c (pair_up f xs) q"
  using take_pair_up [of f "2 ^ c"] drop_pair_up [of f "q * 2 ^ c"]
  by (simp add: segment_of_def mult.assoc mult.left_commute)

lemma tsteps_segment:
  "i < length xs \<Longrightarrow> length xs \<le> 2 ^ (c + K) \<Longrightarrow>
   tsteps f (c + K) xs i =
     tsteps f c (segment_of c xs (i div 2 ^ c)) (i mod 2 ^ c) @ tsteps f K (seg_roots f c xs) (i div 2 ^ c)"
proof (induction c arbitrary: xs i)
  case 0
  then show ?case by simp
next
  case (Suc c)
  let ?q = "i div 2 ^ Suc c" and ?r = "i mod 2 ^ Suc c"
  let ?seg = "segment_of (Suc c) xs ?q"
  have i: "i = ?q * 2 ^ Suc c + ?r" by (rule div_mult_mod_eq [symmetric])
  have rl: "?r < length ?seg" "length ?seg \<le> 2 ^ Suc c"
  proof -
    have "?q * 2 ^ Suc c + ?r < length xs" using i Suc.prems(1) by simp
    moreover have "?r < 2 ^ Suc c" by simp
    ultimately show "?r < length ?seg" "length ?seg \<le> 2 ^ Suc c" by (auto simp: segment_of_def)
  qed
  have s: "sibling ?seg ?r = sibling xs i"
  proof -
    let ?d = "drop (2 * (?q * 2 ^ c)) xs"
    have e: "?seg = take (2 * 2 ^ c) ?d" by (simp add: segment_of_def mult.left_commute)
    have r: "?r = i - 2 * (?q * 2 ^ c)" "2 * (?q * 2 ^ c) \<le> i" using i by (simp_all add: mult.left_commute)
    have d: "sibling ?d ?r = sibling xs i" unfolding r(1) by (rule sibling_drop [OF r(2) Suc.prems(1)])
    show ?thesis
    proof (cases "2 * 2 ^ c \<le> length ?d")
      case True
      then show ?thesis unfolding e d [symmetric] by (intro sibling_take) simp_all
    next
      case False
      then show ?thesis unfolding e d [symmetric] by simp
    qed
  qed
  have q: "i div 2 div 2 ^ c = ?q" "i div 2 mod 2 ^ c = ?r div 2" by (simp_all add: div_mult2_eq mod_mult2_eq)
  have "tsteps f (Suc c + K) xs i = sibling xs i @ tsteps f (c + K) (pair_up f xs) (i div 2)"
    using tsteps_pair_up [OF Suc.prems(1), of "c + K" f] Suc.prems(2) by simp
  also have "tsteps f (c + K) (pair_up f xs) (i div 2) =
      tsteps f c (segment_of c (pair_up f xs) ?q) (?r div 2) @ tsteps f K (seg_roots f (Suc c) xs) ?q"
    using Suc.IH [of "i div 2" "pair_up f xs"] Suc.prems unfolding q seg_roots_Suc by auto
  also have "tsteps f (Suc c) ?seg ?r = sibling xs i @ tsteps f c (segment_of c (pair_up f xs) ?q) (?r div 2)"
    using tsteps_pair_up [OF rl, of f] s by (simp only: pair_up_segment)
  ultimately show ?case by (simp only: append_assoc)
qed

lemma mtree_seg_roots:
  "xs \<noteq> [] \<Longrightarrow> length xs \<le> 2 ^ (c + K) \<Longrightarrow> mtree f (c + K) xs = mtree f K (seg_roots f c xs)"
proof (induction c arbitrary: xs)
  case (Suc c)
  have "mtree f (Suc (c + K)) xs = mtree f (c + K) (pair_up f xs)"
    using Suc.prems by (intro mtree_pair_up) simp_all
  also have "\<dots> = mtree f K (seg_roots f c (pair_up f xs))"
    using Suc.prems by (intro Suc.IH) auto
  finally show ?case by (simp only: seg_roots_Suc add_Suc)
qed simp

lemma nth_seg_roots:
  "q < length (seg_roots f c xs) \<Longrightarrow> seg_roots f c xs ! q = mtree f c (segment_of c xs q)"
proof (induction c arbitrary: xs)
  case 0
  then show ?case by (simp add: segment_of_def hd_drop_conv_nth hd_take)
next
  case (Suc c)
  have q: "q < length (seg_roots f c (pair_up f xs))" using Suc.prems by (simp add: seg_roots_Suc)
  have "segment_of (Suc c) xs q \<noteq> []"
  proof
    assume "segment_of (Suc c) xs q = []"
    moreover define m where "m = (2::nat) ^ Suc c"
    ultimately have le: "length xs \<le> m * q" by (simp add: segment_of_def mult.commute)
    have "0 < m" by (simp add: m_def)
    then have "length xs + m - 1 < m * q + m" using le by linarith
    then have "length xs + m - 1 < m * Suc q" by simp
    then have "(length xs + m - 1) div m < Suc q" using \<open>0 < m\<close> by (simp add: less_mult_imp_div_less mult.commute)
    then show False using Suc.prems by (simp add: length_seg_roots m_def)
  qed
  moreover have "length (segment_of (Suc c) xs q) \<le> 2 ^ Suc c" by (simp add: segment_of_def)
  ultimately have "mtree f (Suc c) (segment_of (Suc c) xs q) = mtree f c (segment_of c (pair_up f xs) q)"
    using mtree_pair_up pair_up_segment by metis
  then show ?case using Suc.IH [OF q] by (simp only: seg_roots_Suc)
qed

section \<open>A file as subtrees of decreasing size\<close>

type_synonym 'e blocks = "(nat \<times> 'e list) list"

definition blocks_ok :: "'e blocks \<Rightarrow> bool" where
  "blocks_ok bs \<longleftrightarrow> (\<forall>(d, b) \<in> set bs. length b = 2 ^ d) \<and> sorted_wrt (\<lambda>x y. fst y < fst x) bs"

definition block_leaves :: "'e blocks \<Rightarrow> 'e list" where
  "block_leaves bs = concat (map snd bs)"

fun block_root :: "('e \<Rightarrow> 'e \<Rightarrow> 'e) \<Rightarrow> 'e blocks \<Rightarrow> 'e" where
  "block_root f [] = undefined"
| "block_root f [(d, b)] = mtree f d b"
| "block_root f ((d, b) # bs) = f (mtree f d b) (block_root f bs)"

definition block_steps :: "('e \<Rightarrow> 'e \<Rightarrow> 'e) \<Rightarrow> 'e blocks \<Rightarrow> nat \<Rightarrow> ('e \<times> bool) list" where
  "block_steps f bs j =
     (if j + 1 < length bs then [(block_root f (drop (j + 1) bs), True)] else []) @
     rev (map (\<lambda>(d, b). (mtree f d b, False)) (take j bs))"

lemma block_leaves_simps [simp]:
  "block_leaves [] = []" "block_leaves ((d, b) # bs) = b @ block_leaves bs"
  "block_leaves (bs @ cs) = block_leaves bs @ block_leaves cs"
  by (simp_all add: block_leaves_def)

lemma blocks_ok_Cons:
  "blocks_ok ((d, b) # bs) \<longleftrightarrow> length b = 2 ^ d \<and> (\<forall>x\<in>set bs. fst x < d) \<and> blocks_ok bs"
  by (auto simp: blocks_ok_def)

lemma block_total: "blocks_ok bs \<Longrightarrow> \<forall>x\<in>set bs. fst x < D \<Longrightarrow> length (block_leaves bs) < 2 ^ D"
proof (induction bs arbitrary: D)
  case (Cons x bs)
  obtain d b where x: "x = (d, b)" by (cases x)
  have "length (block_leaves bs) < 2 ^ d" using Cons x by (auto simp: blocks_ok_Cons)
  moreover have "(2::nat) ^ Suc d \<le> 2 ^ D" using Cons.prems(2) x by (intro power_increasing) auto
  ultimately show ?case using Cons.prems(1) x by (simp add: blocks_ok_Cons)
qed simp

lemma block_leaves_Nil: "blocks_ok bs \<Longrightarrow> block_leaves bs = [] \<longleftrightarrow> bs = []"
  by (cases bs) (auto simp: blocks_ok_Cons)

lemma exponent_le: "(2::nat) ^ d \<le> n \<Longrightarrow> n \<le> 2 ^ K \<Longrightarrow> d \<le> K"
  by (meson le_trans one_less_numeral_iff power_le_imp_le_exp semiring_norm(76))

lemma mtree_blocks:
  "blocks_ok bs \<Longrightarrow> bs \<noteq> [] \<Longrightarrow> length (block_leaves bs) \<le> 2 ^ K \<Longrightarrow>
   mtree f K (block_leaves bs) = block_root f bs"
proof (induction f bs arbitrary: K rule: block_root.induct)
  case (2 f d b)
  then have b: "length b = 2 ^ d" "length b \<le> 2 ^ K" by (simp_all add: blocks_ok_Cons)
  then obtain e where "K = d + e" using exponent_le [of d "length b" K] by (auto simp: le_iff_add)
  moreover have "b \<noteq> []" using b by auto
  ultimately show ?case using b mtree_stable [of b d f e] by simp
next
  case (3 f d b y ys)
  let ?r = "block_leaves (y # ys)"
  have ok: "length b = 2 ^ d" "blocks_ok (y # ys)" "\<forall>x\<in>set (y # ys). fst x < d"
    using "3.prems"(1) by (auto simp: blocks_ok_Cons)
  have r: "length ?r < 2 ^ d" using ok by (intro block_total) simp_all
  have ne: "?r \<noteq> []" using block_leaves_Nil [OF ok(2)] by simp
  have len: "2 ^ d < length (b @ ?r)" "length (b @ ?r) \<le> 2 ^ Suc d" using ok(1) r ne by simp_all
  then have "(2::nat) ^ d < 2 ^ K" using "3.prems"(3) by (metis block_leaves_simps(2) less_le_trans)
  then have "Suc d \<le> K" by (simp add: Suc_le_eq)
  then obtain e where K: "K = Suc d + e" by (auto simp: le_iff_add)
  have "mtree f K (b @ ?r) = mtree f (Suc d) (b @ ?r)"
    unfolding K using len(2) ne by (intro mtree_stable) simp_all
  also have "\<dots> = f (mtree f d b) (mtree f d ?r)" using len(1) ok(1) by (simp del: block_leaves_simps(2))
  also have "mtree f d ?r = block_root f (y # ys)" using "3.IH" [OF ok(2)] r by simp
  finally show ?case by simp
qed simp

lemma tsteps_blocks:
  "blocks_ok bs \<Longrightarrow> length (block_leaves bs) \<le> 2 ^ K \<Longrightarrow> j < length bs \<Longrightarrow> bs ! j = (d, b) \<Longrightarrow> i < 2 ^ d \<Longrightarrow>
   tsteps f K (block_leaves bs) (length (block_leaves (take j bs)) + i) = tsteps f d b i @ block_steps f bs j"
proof (induction bs arbitrary: j K)
  case (Cons x bs)
  obtain e c where x: "x = (e, c)" by (cases x)
  have ok: "length c = 2 ^ e" "blocks_ok bs" "\<forall>x\<in>set bs. fst x < e"
    using Cons.prems(1) x by (auto simp: blocks_ok_Cons)
  have r: "length (block_leaves bs) < 2 ^ e" using ok by (intro block_total) simp_all
  show ?case
  proof (cases "bs = []")
    case True
    then have jj: "j = 0" "e = d" "c = b" using Cons.prems(3,4) x by auto
    obtain m where "K = d + m"
      using exponent_le [of d "length b" K] Cons.prems(2) ok(1) jj x True by (auto simp: le_iff_add)
    then show ?thesis using jj x True ok(1) tsteps_stable [of b d f m i] by (simp add: block_steps_def)
  next
    case False
    then have ne: "block_leaves bs \<noteq> []" using block_leaves_Nil [OF ok(2)] by simp
    let ?all = "c @ block_leaves bs"
    have len: "2 ^ e < length ?all" "length ?all \<le> 2 ^ Suc e" using ok(1) r ne by simp_all
    then have "(2::nat) ^ e < 2 ^ K" using Cons.prems(2) x by (metis block_leaves_simps(2) less_le_trans)
    then have "Suc e \<le> K" by (simp add: Suc_le_eq)
    then obtain m where K: "K = Suc e + m" by (auto simp: le_iff_add)
    have S: "tsteps f K ?all p = tsteps f (Suc e) ?all p" for p unfolding K using len(2) by (rule tsteps_stable)
    show ?thesis
    proof (cases j)
      case 0
      then have jj: "e = d" "c = b" using Cons.prems(4) x by auto
      have "mtree f e (block_leaves bs) = block_root f bs"
        using mtree_blocks [OF ok(2) False, of e f] r by simp
      then show ?thesis using 0 x S [of i] len(1) ok(1) jj Cons.prems(5) False
        by (simp add: block_steps_def)
    next
      case (Suc j')
      let ?o = "length (block_leaves (take j' bs))"
      have j': "j' < length bs" "bs ! j' = (d, b)" using Cons.prems(3,4) Suc x by auto
      have "tsteps f (Suc e) ?all (2 ^ e + ?o + i) =
          tsteps f e (block_leaves bs) (?o + i) @ [(mtree f e c, False)]"
        using len(1) ok(1) by (simp add: add.assoc)
      also have "tsteps f e (block_leaves bs) (?o + i) = tsteps f d b i @ block_steps f bs j'"
        using r by (intro Cons.IH [OF ok(2) _ j' Cons.prems(5)]) simp
      finally show ?thesis using S x Suc ok(1) by (simp add: block_steps_def)
    qed
  qed
qed simp

text \<open>The block of a position.\<close>

lemma block_of_position:
  "i < length (block_leaves bs) \<Longrightarrow> \<exists>j<length bs. length (block_leaves (take j bs)) \<le> i \<and>
     i < length (block_leaves (take j bs)) + length (snd (bs ! j))"
proof (induction bs arbitrary: i)
  case (Cons x bs)
  obtain d b where x: "x = (d, b)" by (cases x)
  show ?case
  proof (cases "i < length b")
    case True
    then show ?thesis using x by (intro exI [of _ 0]) simp
  next
    case False
    then have "i - length b < length (block_leaves bs)" using Cons.prems x by simp
    from Cons.IH [OF this] obtain j where "j < length bs" "length (block_leaves (take j bs)) \<le> i - length b"
      "i - length b < length (block_leaves (take j bs)) + length (snd (bs ! j))" by blast
    then show ?thesis using x False by (intro exI [of _ "Suc j"]) (simp, linarith)
  qed
qed simp

section \<open>The operations on an honest transaction\<close>

definition block_node :: "('e \<Rightarrow> 'e \<Rightarrow> 'e) \<Rightarrow> nat \<times> 'e list \<Rightarrow> nat \<times> 'e" where
  "block_node f x = (fst x + 1, mtree f (fst x) (snd x))"

lemma num_entries_of_node_Suc [simp]: "d < 64 \<Longrightarrow> num_entries_of_node (Suc d) = 2 ^ d"
  by (simp add: num_entries_of_node_def shl1_def)

lemma num_entries_blocks:
  assumes "blocks_ok bs" "\<forall>x\<in>set bs. fst x < 63"
  shows "num_entries_of_list (map (block_node f) bs) = length (block_leaves bs)"
proof -
  have "fold (\<lambda>(depth, _) size. (size + num_entries_of_node depth) mod 2 ^ 64) (map (block_node f) cs) n =
      n + length (block_leaves cs)" if "blocks_ok cs" "\<forall>x\<in>set cs. fst x < 63" "n + length (block_leaves cs) < 2 ^ 64" for n cs
    using that
  proof (induction cs arbitrary: n)
    case (Cons x cs)
    obtain d b where x: "x = (d, b)" by (cases x)
    then have d: "length b = 2 ^ d" "d < 63" using Cons.prems by (auto simp: blocks_ok_Cons)
    moreover have "(n + 2 ^ d) mod 2 ^ 64 = n + 2 ^ d" using Cons.prems(3) x d by simp
    ultimately show ?case using Cons x by (simp add: block_node_def blocks_ok_Cons add.assoc)
  qed simp
  from this [of bs 0] show ?thesis
    using assms block_total [OF assms(1), of 63] by (simp add: num_entries_of_list_def)
qed

lemma block_root_snoc: "block_root f (bs @ [(d, b)]) = foldr (\<lambda>x acc. f (mtree f (fst x) (snd x)) acc) bs (mtree f d b)"
proof (induction bs)
  case (Cons x bs)
  obtain e c where x: "x = (e, c)" by (cases x)
  obtain y ys where "bs @ [(d, b)] = y # ys" by (cases "bs @ [(d, b)]") auto
  then show ?case using Cons x by simp
qed simp

lemma merkle_root_loop_blocks:
  assumes "\<forall>x\<in>set big. max_depth \<le> fst x + 1" "\<forall>x\<in>set small. fst x + 1 < max_depth"
  shows "merkle_root_loop keccak max_depth (rev (map (block_node (parent_raw keccak)) (big @ small))) root =
    foldr (\<lambda>x acc. parent_raw keccak (mtree (parent_raw keccak) (fst x) (snd x)) acc) small root"
  using assms(2)
proof (induction small arbitrary: root rule: rev_induct)
  case Nil
  show ?case
    using assms(1) by (cases big rule: rev_cases) (auto simp: block_node_def)
next
  case (snoc x small)
  then show ?case by (simp add: block_node_def parent_h256_eq_raw)
qed

lemma compute_merkle_root_blocks:
  assumes "merkle_nodes tx = map (block_node (parent_raw keccak)) (big @ small)" "big @ small \<noteq> []"
    and "\<forall>x\<in>set big. max_depth \<le> fst x + 1" "\<forall>x\<in>set small. fst x + 1 < max_depth"
  shows "compute_merkle_root keccak tx max_depth =
    (if small = [] then None else Some (block_root (parent_raw keccak) small))"
proof (cases small rule: rev_cases)
  case Nil
  then obtain big' x where "big = big' @ [x]" using assms(2) by (cases big rule: rev_cases) auto
  then show ?thesis using Nil assms(1,3) by (simp add: compute_merkle_root_def block_node_def)
next
  case (snoc small' x)
  obtain d b where x: "x = (d, b)" by (cases x)
  have "merkle_root_loop keccak max_depth (rev (map (block_node (parent_raw keccak)) (big @ small'))) root =
      foldr (\<lambda>x acc. parent_raw keccak (mtree (parent_raw keccak) (fst x) (snd x)) acc) small' root" for root
    using assms(3,4) snoc by (intro merkle_root_loop_blocks) auto
  then show ?thesis
    using snoc x assms(1,4) by (simp add: compute_merkle_root_def block_node_def block_root_snoc)
qed

text \<open>The search passes over the larger blocks before the segment.\<close>

lemma node_loop_skip:
  "\<forall>x\<in>set big. c \<le> fst x \<and> fst x < 63 \<and> length (snd x) = 2 ^ fst x \<Longrightarrow>
   t + length (block_leaves big) \<le> start \<Longrightarrow> start < 2 ^ 64 \<Longrightarrow>
   node_loop start (2 ^ c) (map (block_node f) big @ rest) t ls ps =
   node_loop start (2 ^ c) rest (t + length (block_leaves big))
     (ls @ map (\<lambda>x. mtree f (fst x) (snd x)) big) (ps @ replicate (length big) False)"
proof (induction big arbitrary: t ls ps)
  case (Cons x big)
  obtain d b where x: "x = (d, b)" by (cases x)
  have d: "c \<le> d" "d < 63" "length b = 2 ^ d" using Cons.prems(1) x by auto
  have t: "t + 2 ^ d + length (block_leaves big) \<le> start" using Cons.prems(2) x d(3) by simp
  have m: "(t + 2 ^ d) mod 2 ^ 64 = t + 2 ^ d" using t Cons.prems(3) by simp
  have "num_entries_of_node (d + 1) = 2 ^ d" using d(2) by simp
  moreover have "\<not> (2::nat) ^ d < 2 ^ c" using d(1) by simp
  ultimately have "node_loop start (2 ^ c) (map (block_node f) (x # big) @ rest) t ls ps =
      node_loop start (2 ^ c) (map (block_node f) big @ rest) (t + 2 ^ d) (ls @ [mtree f d b]) (ps @ [False])"
    using m t x by (simp add: block_node_def Let_def)
  also have "\<dots> = node_loop start (2 ^ c) rest (t + 2 ^ d + length (block_leaves big))
      ((ls @ [mtree f d b]) @ map (\<lambda>x. mtree f (fst x) (snd x)) big) ((ps @ [False]) @ replicate (length big) False)"
    using Cons.prems t by (intro Cons.IH) simp_all
  finally show ?case using x d(3) by (simp add: add.assoc)
qed simp

section \<open>Where a segment lies\<close>

lemma length_tsteps_full: "length xs = 2 ^ k \<Longrightarrow> i < 2 ^ k \<Longrightarrow> length (tsteps f k xs i) = k"
  by (induction k arbitrary: xs i) auto

lemma dvd_block_leaves:
  "\<forall>x\<in>set bs. c \<le> fst x \<and> length (snd x) = 2 ^ fst x \<Longrightarrow> 2 ^ c dvd length (block_leaves bs)"
proof (induction bs)
  case (Cons x bs)
  then show ?case by (cases x) (auto intro!: dvd_add le_imp_power_dvd)
qed simp

lemma next_multiple:
  fixes a b m :: nat
  assumes "m dvd a" "m dvd b" "a < b"
  shows "a + m \<le> b"
proof -
  obtain x y where "a = m * x" "b = m * y" using assms by (elim dvdE)
  then have "x < y" using assms(3) by simp
  then have "m * (x + 1) \<le> m * y" by (intro mult_le_mono2) simp
  then show ?thesis using \<open>a = m * x\<close> \<open>b = m * y\<close> by simp
qed

lemma blocks_ok_nth: "blocks_ok bs \<Longrightarrow> j < length bs \<Longrightarrow> length (snd (bs ! j)) = 2 ^ fst (bs ! j)"
  by (metis (mono_tags, lifting) blocks_ok_def case_prod_unfold nth_mem)

lemma blocks_ok_order: "blocks_ok bs \<Longrightarrow> i < j \<Longrightarrow> j < length bs \<Longrightarrow> fst (bs ! j) < fst (bs ! i)"
  by (simp add: blocks_ok_def sorted_wrt_iff_nth_less)

lemma blocks_ok_take_drop: "blocks_ok bs \<Longrightarrow> blocks_ok (take j bs)" "blocks_ok bs \<Longrightarrow> blocks_ok (drop j bs)"
  by (auto simp: blocks_ok_def sorted_wrt_take sorted_wrt_drop dest: in_set_takeD in_set_dropD)

lemma block_leaves_split:
  assumes "j < length bs"
  shows "block_leaves bs = block_leaves (take j bs) @ snd (bs ! j) @ block_leaves (drop (Suc j) bs)"
proof -
  have "bs = take j bs @ bs ! j # drop (Suc j) bs" using assms by (rule id_take_nth_drop)
  then have "block_leaves bs = block_leaves (take j bs @ bs ! j # drop (Suc j) bs)" by simp
  then show ?thesis by (cases "bs ! j") simp
qed

text \<open>A segment inside one subtree.\<close>

lemma segment_in_block:
  assumes ok: "blocks_ok bs" and len: "length (block_leaves bs) \<le> 2 ^ (c + K)"
    and j: "j < length bs" "bs ! j = (d, b)" and c: "c \<le> d"
    and q: "length (block_leaves (take j bs)) \<le> q * 2 ^ c" "q * 2 ^ c < length (block_leaves (take j bs)) + 2 ^ d"
  defines "o' \<equiv> q * 2 ^ c - length (block_leaves (take j bs))"
  shows "length (segment_of c (block_leaves bs) q) = 2 ^ c"
    and "tsteps f K (seg_roots f c (block_leaves bs)) q = drop c (tsteps f d b o') @ block_steps f bs j"
    and "c = d \<Longrightarrow> segment_of c (block_leaves bs) q = b"
proof -
  let ?X = "block_leaves bs" and ?L = "length (block_leaves (take j bs))"
  have lb: "length b = 2 ^ d" using blocks_ok_nth [OF ok j(1)] j(2) by simp
  have X: "?X = block_leaves (take j bs) @ b @ block_leaves (drop (Suc j) bs)"
    using block_leaves_split [OF j(1)] j(2) by simp
  have big: "c \<le> fst x \<and> length (snd x) = 2 ^ fst x" if x: "x \<in> set (take j bs)" for x
  proof -
    obtain i where "i < j" "x = bs ! i" using x j(1) by (auto simp: in_set_conv_nth)
    then show ?thesis using blocks_ok_order [OF ok _ j(1), of i] blocks_ok_nth [OF ok, of i] j c by auto
  qed
  then have dv: "2 ^ c dvd ?L" by (intro dvd_block_leaves) blast
  then have dv2: "2 ^ c dvd ?L + 2 ^ d" using c by (intro dvd_add) (simp_all add: le_imp_power_dvd)
  have e: "q * 2 ^ c + 2 ^ c \<le> ?L + 2 ^ d" using q(2) dv2 by (intro next_multiple) simp_all
  have ls: "q * 2 ^ c + 2 ^ c \<le> length ?X" using e lb by (simp add: X)
  show seg: "length (segment_of c ?X q) = 2 ^ c" using ls by (simp add: segment_of_def)
  have i: "q * 2 ^ c < length ?X" using ls by (metis add_lessD1 le_neq_implies_less less_add_same_cancel1 zero_less_numeral zero_less_power)
  have o': "o' < 2 ^ d" "?L + o' = q * 2 ^ c" using q by (simp_all add: o'_def)
  have "tsteps f (c + K) ?X (q * 2 ^ c) = tsteps f c (segment_of c ?X q) 0 @ tsteps f K (seg_roots f c ?X) q"
    using tsteps_segment [OF i len, of f] by simp
  moreover have "tsteps f (c + K) ?X (q * 2 ^ c) = tsteps f d b o' @ block_steps f bs j"
    using tsteps_blocks [OF ok len j o'(1), of f] o'(2) by simp
  moreover have "length (tsteps f c (segment_of c ?X q) 0) = c" using seg by (rule length_tsteps_full) simp
  moreover have "length (tsteps f d b o') = d" using lb o'(1) by (rule length_tsteps_full)
  ultimately show "tsteps f K (seg_roots f c ?X) q = drop c (tsteps f d b o') @ block_steps f bs j"
    using c by (metis append_eq_conv_conj drop_append diff_is_0_eq drop0)
  show "segment_of c ?X q = b" if "c = d"
  proof -
    have "?L = q * 2 ^ c" using e q unfolding that by linarith
    then have "drop (q * 2 ^ c) ?X = b @ block_leaves (drop (Suc j) bs)" using X by simp
    then show ?thesis using lb that by (simp add: segment_of_def)
  qed
qed

text \<open>The last segment, made up of all the smaller subtrees.\<close>

lemma segment_of_small_blocks:
  assumes ok: "blocks_ok (big @ small)" and len: "length (block_leaves (big @ small)) \<le> 2 ^ (c + K)"
    and big: "\<forall>x\<in>set big. c \<le> fst x" and small: "\<forall>x\<in>set small. fst x < c" "small \<noteq> []"
    and q: "length (block_leaves big) \<le> q * 2 ^ c" "q * 2 ^ c < length (block_leaves (big @ small))"
  shows "q * 2 ^ c = length (block_leaves big)"
    and "segment_of c (block_leaves (big @ small)) q = block_leaves small"
    and "tsteps f K (seg_roots f c (block_leaves (big @ small))) q =
      rev (map (\<lambda>x. (mtree f (fst x) (snd x), False)) big)"
proof -
  let ?X = "block_leaves (big @ small)"
  have okb: "blocks_ok big" "blocks_ok small" using ok by (auto simp: blocks_ok_def sorted_wrt_append)
  have ls: "length (block_leaves small) < 2 ^ c" using okb small by (intro block_total) simp_all
  have "2 ^ c dvd length (block_leaves big)"
    using big okb by (intro dvd_block_leaves) (auto simp: blocks_ok_def)
  then show L: "q * 2 ^ c = length (block_leaves big)"
    using next_multiple [of "2 ^ c" "length (block_leaves big)" "q * 2 ^ c"] q ls by fastforce
  then show seg: "segment_of c ?X q = block_leaves small" using ls by (simp add: segment_of_def)
  obtain d b small' where s: "small = (d, b) # small'" using small(2) by (cases small) auto
  have "tsteps f (c + K) ?X (q * 2 ^ c) = tsteps f c (block_leaves small) 0 @ tsteps f K (seg_roots f c ?X) q"
    using tsteps_segment [OF q(2) len, of f] seg by simp
  moreover have "tsteps f (c + K) ?X (q * 2 ^ c) = tsteps f d b 0 @ block_steps f (big @ small) (length big)"
    using tsteps_blocks [OF ok len, of "length big" d b 0 f] L s by simp
  moreover have "tsteps f c (block_leaves small) 0 = tsteps f d b 0 @ block_steps f small 0"
    using tsteps_blocks [OF okb(2), of c 0 d b 0 f] ls s by simp
  moreover have "block_steps f (big @ small) (length big) =
      block_steps f small 0 @ rev (map (\<lambda>x. (mtree f (fst x) (snd x), False)) big)"
    by (simp add: block_steps_def case_prod_unfold)
  ultimately show "tsteps f K (seg_roots f c ?X) q = rev (map (\<lambda>x. (mtree f (fst x) (snd x), False)) big)"
    by simp
qed

end
