(* ===== verification/Segment_Properties.thy ===== *)
theory Segment_Properties
  imports Segment_Proof
begin

text \<open>
  What \<open>Transaction::compute_segment_proof\<close> returns for an honest transaction and segment: the proof of the
  segment in the tree of the segment roots of the file, which \<open>FileProof::validate\<close> accepts.
\<close>

section \<open>Segment proofs\<close>

lemma file_proof_new_reference:
  assumes "q < length ys" "length ys \<le> 2 ^ K"
  shows "file_proof_new (ys ! q # map fst (tsteps f K ys q) @ [mtree f K ys]) (map snd (tsteps f K ys q)) =
    to_file_proof (reference_proof f K ys q)"
proof (cases "length ys = 1")
  case True
  then show ?thesis
    using assms(1) by (auto simp: file_proof_new_def to_file_proof_def reference_proof_def tsteps_single length_Suc_conv)
next
  case False
  then have "tsteps f K ys q \<noteq> []" using assms tsteps_nonempty [of ys K f q] by (cases ys) auto
  then show ?thesis using False by (simp add: file_proof_new_def to_file_proof_def reference_proof_def)
qed

lemma segment_root:
  assumes "segment_leaves keccak data (2 ^ c) = seg" "length seg = 2 ^ c" "c \<le> 57"
    and "null_free (RawLeafSha3Algorithm keccak) c seg"
  shows "compute_segment_merkle_root keccak data (2 ^ c) = Inr (mtree (parent_raw keccak) c seg)"
proof -
  have ne: "seg \<noteq> []" "length seg \<le> 2 ^ c" using assms(2) by auto
  obtain t where "from_iter (RawLeafSha3Algorithm keccak) seg = Inr t"
    "stored (RawLeafSha3Algorithm keccak) c (mt_data t) (mt_link_map t) 0 seg"
    by (rule from_iter_stored [OF raw_leaf_simps(1) ne assms(3,4)])
  then show ?thesis
    using assms(1) light_root_stored ne by (fastforce simp: compute_segment_merkle_root_def)
qed

lemma copy_flow_steps:
  assumes "take d (zip (tl (lemma_of flow)) (path_of flow)) = ts" "length ts = d" "c \<le> d"
  shows "rfold (copy_flow_step flow) [c..<d] (ls, ps) =
    Inr (ls @ map fst (drop c ts), ps @ map snd (drop c ts))"
proof -
  have nth: "copy_flow_step flow i (ls', ps') = Inr (ls' @ [fst (ts ! i)], ps' @ [snd (ts ! i)])"
    if "i < d" for i ls' ps'
  proof -
    have "length ts \<le> length (zip (tl (lemma_of flow)) (path_of flow))" using assms(1) by auto
    then have "i < length (tl (lemma_of flow))" "i < length (path_of flow)" using that assms(2) by auto
    moreover from this have "ts ! i = (tl (lemma_of flow) ! i, path_of flow ! i)"
      using that assms(1) by auto
    ultimately show ?thesis by (simp add: copy_flow_step_def nth_tl)
  qed
  have "rfold (copy_flow_step flow) [i..<d] (ls', ps') =
      Inr (ls' @ map fst (drop i ts), ps' @ map snd (drop i ts))" if "i \<le> d" for i ls' ps'
    using that
  proof (induction "d - i" arbitrary: i ls' ps')
    case 0
    then show ?case using assms(2) by simp
  next
    case (Suc n)
    then have "i < d" by simp
    moreover from this have "[i..<d] = i # [Suc i..<d]" by (rule upt_conv_Cons)
    moreover have "drop i ts = ts ! i # drop (Suc i) ts"
      using \<open>i < d\<close> assms(2) by (simp add: Cons_nth_drop_Suc)
    moreover note Suc.hyps(1) [of "Suc i"]
    ultimately show ?case using nth [of i] Suc.hyps(2) by simp
  qed
  then show ?thesis using assms(3) .
qed

definition commits_to :: "(byte list \<Rightarrow> h256) \<Rightarrow> transaction \<Rightarrow> h256 blocks \<Rightarrow> bool" where
  "commits_to keccak tx bs \<longleftrightarrow>
     bs \<noteq> [] \<and> blocks_ok bs \<and> (\<forall>x\<in>set bs. fst x < 57) \<and>
     merkle_nodes tx = map (block_node (parent_raw keccak)) bs \<and>
     data_merkle_root tx = block_root (parent_raw keccak) bs"

text \<open>What the segment must bring along when it lies inside a larger subtree: its chunks, and the proof of
  its first chunk in the flow, whose lower part stays inside the subtree.\<close>

definition honest_segment :: "(byte list \<Rightarrow> h256) \<Rightarrow> h256 blocks \<Rightarrow> nat \<Rightarrow> nat \<Rightarrow> chunk_array_with_proof \<Rightarrow> bool" where
  "honest_segment keccak bs c q segment \<longleftrightarrow>
     (\<forall>j d b. j < length bs \<longrightarrow> bs ! j = (d, b) \<longrightarrow> c < d \<longrightarrow>
        length (block_leaves (take j bs)) \<le> q * 2 ^ c \<longrightarrow> q * 2 ^ c < length (block_leaves (take j bs)) + 2 ^ d \<longrightarrow>
        segment_leaves keccak (ca_data (cp_chunks segment)) (2 ^ c) = segment_of c (block_leaves bs) q \<and>
        take d (zip (tl (lemma_of (left_proof (cp_proof segment)))) (path_of (left_proof (cp_proof segment)))) =
          tsteps (parent_raw keccak) d b (q * 2 ^ c - length (block_leaves (take j bs))))"

lemma blocks_ok_at:
  assumes "blocks_ok bs" "j < length bs" "bs ! j = (d, b)"
  shows "x \<in> set (take j bs) \<Longrightarrow> d < fst x" "x \<in> set (drop (Suc j) bs) \<Longrightarrow> fst x < d"
    "x \<in> set bs \<Longrightarrow> length (snd x) = 2 ^ fst x"
proof -
  have "blocks_ok (take j bs @ bs ! j # drop (Suc j) bs)"
    using assms(1) unfolding id_take_nth_drop [OF assms(2), symmetric] .
  then show "x \<in> set (take j bs) \<Longrightarrow> d < fst x" "x \<in> set (drop (Suc j) bs) \<Longrightarrow> fst x < d"
    using assms(3) by (auto simp: blocks_ok_def sorted_wrt_append)
  show "x \<in> set bs \<Longrightarrow> length (snd x) = 2 ^ fst x" using assms(1) by (auto simp: blocks_ok_def)
qed

lemma node_proof_in_block:
  assumes "commits_to keccak tx bs" "j < length bs" "bs ! j = (d, b)" "c \<le> d"
    and "length (block_leaves (take j bs)) \<le> start" "start < length (block_leaves (take j bs)) + 2 ^ d"
  shows "compute_node_proof keccak tx start (2 ^ c) = Inr
    \<lparr>np_proof = file_proof_new
       (mtree (parent_raw keccak) d b # map fst (block_steps (parent_raw keccak) bs j) @ [data_merkle_root tx])
       (map snd (block_steps (parent_raw keccak) bs j)),
     np_leaf = Full (d + 1)\<rparr>"
proof -
  let ?f = "parent_raw keccak" and ?L = "length (block_leaves (take j bs))"
  have ok: "blocks_ok bs" and small: "\<forall>x\<in>set bs. fst x < 57"
    and nodes: "merkle_nodes tx = map (block_node ?f) bs"
    using assms(1) by (simp_all add: commits_to_def)
  have d: "d < 57" using small assms(2,3) by (metis fst_conv nth_mem)
  have parts: "take j bs @ (d, b) # drop (Suc j) bs = bs" using id_take_nth_drop [OF assms(2)] assms(3) by simp
  have big: "c \<le> fst x \<and> fst x < 63 \<and> length (snd x) = 2 ^ fst x \<and> d < fst x" if x: "x \<in> set (take j bs)" for x
  proof -
    have "x \<in> set bs" using x by (rule in_set_takeD)
    then have "fst x < 57" "length (snd x) = 2 ^ fst x" using small blocks_ok_at(3) [OF ok assms(2,3)] by blast+
    then show ?thesis using blocks_ok_at(1) [OF ok assms(2,3) x] assms(4) by simp
  qed
  note small' = blocks_ok_at(2) [OF ok assms(2,3)]
  have "length (block_leaves bs) < 2 ^ 57" by (rule block_total [OF ok small])
  then have "?L + 2 ^ d < 2 ^ 57"
    using block_leaves_split [OF assms(2)] blocks_ok_nth [OF ok assms(2)] assms(3) by simp
  then have st: "start < 2 ^ 64" "(?L + 2 ^ d) mod 2 ^ 64 = ?L + 2 ^ d" using assms(6) by simp_all
  have "node_loop start (2 ^ c) (map (block_node ?f) (take j bs) @ map (block_node ?f) ((d, b) # drop (Suc j) bs))
        0 [data_merkle_root tx] [] =
      (Some (d + 1, mtree ?f d b),
       [data_merkle_root tx] @ map (\<lambda>x. mtree ?f (fst x) (snd x)) (take j bs), [] @ replicate (length (take j bs)) False)"
    using node_loop_skip [of "take j bs" c 0 start ?f _ "[data_merkle_root tx]" "[]"] big assms(4,5,6) st d
    by (auto simp: block_node_def Let_def)
  then have loop: "node_loop start (2 ^ c) (merkle_nodes tx) 0 [data_merkle_root tx] [] =
      (Some (d + 1, mtree ?f d b),
       [data_merkle_root tx] @ map (\<lambda>x. mtree ?f (fst x) (snd x)) (take j bs), replicate j False)"
    unfolding nodes map_append [symmetric] parts using assms(2) by simp
  have "compute_merkle_root keccak tx (d + 1) =
      (if drop (Suc j) bs = [] then None else Some (block_root ?f (drop (Suc j) bs)))"
  proof (rule compute_merkle_root_blocks)
    show "merkle_nodes tx = map (block_node ?f) (take (Suc j) bs @ drop (Suc j) bs)" using nodes by simp
    show "\<forall>x\<in>set (take (Suc j) bs). d + 1 \<le> fst x + 1"
      using blocks_ok_at(1) [OF ok assms(2,3)] assms(2,3)
      by (auto simp: take_Suc_conv_app_nth intro: less_imp_le)
  qed (use small' assms(2) in auto)
  moreover have "replicate j False = map (\<lambda>x. False) (take j bs)" using assms(2) by (simp add: map_replicate_const)
  ultimately show ?thesis
    using loop by (simp add: compute_node_proof_def block_steps_def rev_map case_prod_unfold comp_def Suc_le_eq)
qed

lemma segment_proof_in_block:
  assumes tx: "commits_to keccak tx bs" and h: "honest_segment keccak bs c q segment" and c: "c \<le> 57" "c \<le> d"
    and j: "j < length bs" "bs ! j = (d, b)" and len: "length (block_leaves bs) \<le> 2 ^ (c + K)"
    and q: "length (block_leaves (take j bs)) \<le> q * 2 ^ c" "q * 2 ^ c < length (block_leaves (take j bs)) + 2 ^ d"
    and n: "null_free (RawLeafSha3Algorithm keccak) c (segment_of c (block_leaves bs) q)"
  defines "f \<equiv> parent_raw keccak"
  shows "rbind (compute_node_proof keccak tx (q * 2 ^ c) (2 ^ c)) (\<lambda>np. node_segment_proof keccak np segment (2 ^ c)) =
    Inr (file_proof_new
      (mtree f c (segment_of c (block_leaves bs) q) #
         map fst (tsteps f K (seg_roots f c (block_leaves bs)) q) @ [data_merkle_root tx])
      (map snd (tsteps f K (seg_roots f c (block_leaves bs)) q)))"
proof -
  let ?seg = "segment_of c (block_leaves bs) q" and ?bst = "block_steps f bs j"
  define ts where "ts = tsteps f d b (q * 2 ^ c - length (block_leaves (take j bs)))"
  have ok: "blocks_ok bs" and root: "data_merkle_root tx = block_root f bs"
    using tx by (simp_all add: commits_to_def f_def)
  note S = segment_in_block [OF ok len j c(2) q]
  note S2 = S(2) [of f, folded ts_def]
  have lc: "log2_pow2 (2 ^ c) = c" using c(1) by (intro log2_pow2_power) simp
  have lb: "length b = 2 ^ d" using blocks_ok_at(3) [OF ok j, of "(d, b)"] j by (metis nth_mem fst_conv snd_conv)
  have lt: "length ts = d" unfolding ts_def using lb q by (intro length_tsteps_full) simp_all
  define p where "p = file_proof_new (mtree f d b # map fst ?bst @ [data_merkle_root tx]) (map snd ?bst)"
  have np: "compute_node_proof keccak tx (q * 2 ^ c) (2 ^ c) = Inr \<lparr>np_proof = p, np_leaf = Full (d + 1)\<rparr>"
    unfolding p_def f_def by (rule node_proof_in_block [OF tx j c(2) q])
  show ?thesis
  proof (cases "d = c")
    case True
    then have "mtree f c ?seg = mtree f d b" "drop c ts = []" using S(3) lt by simp_all
    then show ?thesis
      using np True lc S2 by (simp add: node_segment_proof_def compute_segment_proof_full_def p_def)
  next
    case False
    then have cd: "c < d" using c(2) by simp
    have H: "segment_leaves keccak (ca_data (cp_chunks segment)) (2 ^ c) = ?seg"
      "take d (zip (tl (lemma_of (left_proof (cp_proof segment)))) (path_of (left_proof (cp_proof segment)))) = ts"
      using h j cd q by (simp_all add: honest_segment_def ts_def f_def)
    have pl: "\<not> length (path_of (left_proof (cp_proof segment))) < d"
      using arg_cong [OF H(2), of length] lt by auto
    have ne: "drop c ts \<noteq> []" using lt cd by simp
    have copy: "rfold (copy_flow_step (left_proof (cp_proof segment))) [c..<d] ([mtree f c ?seg], []) =
        Inr ([mtree f c ?seg] @ map fst (drop c ts), [] @ map snd (drop c ts))"
      by (rule copy_flow_steps [OF H(2) lt c(2)])
    have root1: "?bst = [] \<Longrightarrow> data_merkle_root tx = mtree f d b"
    proof -
      assume "?bst = []"
      then have "\<not> j + 1 < length bs" "take j bs = []" by (simp_all add: block_steps_def split: if_splits)
      then have "bs = [(d, b)]" using j by (cases bs) auto
      then show ?thesis using root by simp
    qed
    show ?thesis
      using np lc cd pl segment_root [OF H(1) S(1) c(1) n] copy ne S2 root1
      by (cases "?bst = []")
        (simp_all add: node_segment_proof_def compute_segment_proof_full_def Let_def f_def p_def file_proof_new_def slice_from_def)
  qed
qed

lemma segment_proof_of_small_blocks:
  assumes tx: "commits_to keccak tx (big @ small)" and c: "c \<le> 57"
    and len: "length (block_leaves (big @ small)) \<le> 2 ^ (c + K)"
    and big: "\<forall>x\<in>set big. c \<le> fst x" and small: "\<forall>x\<in>set small. fst x < c" "small \<noteq> []"
    and q: "length (block_leaves big) \<le> q * 2 ^ c" "q * 2 ^ c < length (block_leaves (big @ small))"
  defines "f \<equiv> parent_raw keccak" and "X \<equiv> block_leaves (big @ small)"
  shows "rbind (compute_node_proof keccak tx (q * 2 ^ c) (2 ^ c)) (\<lambda>np. node_segment_proof keccak np segment (2 ^ c)) =
    Inr (file_proof_new
      (mtree f c (segment_of c X q) # map fst (tsteps f K (seg_roots f c X) q) @ [data_merkle_root tx])
      (map snd (tsteps f K (seg_roots f c X) q)))"
proof -
  have ok: "blocks_ok (big @ small)" and lim: "\<forall>x\<in>set (big @ small). fst x < 57"
    and nodes: "merkle_nodes tx = map (block_node f) (big @ small)"
    using tx by (simp_all add: commits_to_def f_def)
  have oks: "blocks_ok small" using ok by (auto simp: blocks_ok_def sorted_wrt_append)
  note S = segment_of_small_blocks [OF ok len big small q]
  obtain d b small' where s: "small = (d, b) # small'" using small(2) by (cases small) auto
  have d: "d < c" "d < 57" using small(1) lim s by auto
  have "length (block_leaves (big @ small)) < 2 ^ 57" by (rule block_total [OF ok lim])
  then have st: "q * 2 ^ c < 2 ^ 64" using q(2) by simp
  have bigs: "\<forall>x\<in>set big. c \<le> fst x \<and> fst x < 63 \<and> length (snd x) = 2 ^ fst x"
  proof
    fix x assume x: "x \<in> set big"
    then have "fst x < 57" "c \<le> fst x" using lim big by simp_all
    moreover have "length (snd x) = 2 ^ fst x" using ok x by (auto simp: blocks_ok_def)
    ultimately show "c \<le> fst x \<and> fst x < 63 \<and> length (snd x) = 2 ^ fst x" by simp
  qed
  have "node_loop (q * 2 ^ c) (2 ^ c) (map (block_node f) big @ map (block_node f) small) 0 [data_merkle_root tx] [] =
      node_loop (q * 2 ^ c) (2 ^ c) (map (block_node f) small) (0 + length (block_leaves big))
        ([data_merkle_root tx] @ map (\<lambda>x. mtree f (fst x) (snd x)) big) ([] @ replicate (length big) False)"
    using q(1) by (intro node_loop_skip [OF bigs _ st]) simp
  then have loop: "node_loop (q * 2 ^ c) (2 ^ c) (merkle_nodes tx) 0 [data_merkle_root tx] [] =
      (None, data_merkle_root tx # map (\<lambda>x. mtree f (fst x) (snd x)) big, replicate (length big) False)"
    using s d unfolding nodes map_append by (simp add: block_node_def Let_def)
  have "log2_pow2 (2 ^ c) = c" using c by (intro log2_pow2_power) simp
  moreover have "compute_merkle_root keccak tx (c + 1) = Some (block_root f small)"
    using compute_merkle_root_blocks [OF nodes [unfolded f_def], of "c + 1"] big small unfolding f_def by simp
  moreover have "length (block_leaves small) \<le> 2 ^ c" using block_total [OF oks small(1)] by simp
  then have "block_root f small = mtree f c (segment_of c X q)"
    unfolding X_def S(2) using mtree_blocks [OF oks small(2)] by metis
  ultimately show ?thesis
    using loop S(3) [of f] unfolding X_def
    by (simp add: compute_node_proof_def node_segment_proof_def rev_map comp_def map_replicate_const)
qed

lemma split_blocks: "blocks_ok bs \<Longrightarrow> bs = filter (\<lambda>x. c \<le> fst x) bs @ filter (\<lambda>x. fst x < c) bs"
proof (induction bs)
  case (Cons x bs)
  obtain d b where x: "x = (d, b)" by (cases x)
  have "filter (\<lambda>x. c \<le> fst x) bs = []" if "d < c"
    using Cons.prems x that by (auto simp: blocks_ok_Cons filter_empty_conv)
  then show ?case using Cons x by (cases "d < c") (auto simp: blocks_ok_Cons)
qed simp

lemma node_segment_proof_correct:
  assumes tx: "commits_to keccak tx bs" and h: "honest_segment keccak bs c q segment"
    and start: "q * 2 ^ c < length (block_leaves bs)" and c: "c \<le> 57"
    and n: "null_free (RawLeafSha3Algorithm keccak) c (segment_of c (block_leaves bs) q)"
    and len: "length (block_leaves bs) \<le> 2 ^ (c + K)"
  shows "rbind (compute_node_proof keccak tx (q * 2 ^ c) (2 ^ c)) (\<lambda>np. node_segment_proof keccak np segment (2 ^ c)) =
    Inr (file_proof_new
      (mtree (parent_raw keccak) c (segment_of c (block_leaves bs) q) # map fst (tsteps (parent_raw keccak) K (seg_roots (parent_raw keccak) c (block_leaves bs)) q) @ [data_merkle_root tx])
      (map snd (tsteps (parent_raw keccak) K (seg_roots (parent_raw keccak) c (block_leaves bs)) q)))"
proof -
  have ok: "blocks_ok bs" using tx by (simp add: commits_to_def)
  define big where "big = filter (\<lambda>x. c \<le> fst x) bs"
  define small where "small = filter (\<lambda>x. fst x < c) bs"
  have bs: "bs = big @ small" unfolding big_def small_def by (rule split_blocks [OF ok])
  show ?thesis
  proof (cases "q * 2 ^ c < length (block_leaves big)")
    case True
    obtain j where j: "j < length big" "length (block_leaves (take j big)) \<le> q * 2 ^ c"
      "q * 2 ^ c < length (block_leaves (take j big)) + length (snd (big ! j))"
      using block_of_position [OF True] by blast
    obtain d b where b: "big ! j = (d, b)" by (cases "big ! j")
    have jb: "j < length bs" "bs ! j = (d, b)" "take j bs = take j big" using j(1) b bs by (simp_all add: nth_append)
    have "big ! j \<in> set big" using j(1) by simp
    then have cd: "c \<le> d" using b by (simp add: big_def)
    have "length b = 2 ^ d" using blocks_ok_nth [OF ok jb(1)] jb(2) by simp
    then show ?thesis
      using j(2,3) b jb(3) by (intro segment_proof_in_block [OF tx h c cd jb(1,2) len _ _ n]) simp_all
  next
    case False
    have "\<forall>x\<in>set big. c \<le> fst x" "\<forall>x\<in>set small. fst x < c" by (simp_all add: big_def small_def)
    moreover have "small \<noteq> []" using False start bs by auto
    ultimately show ?thesis
      using tx len start False unfolding bs by (intro segment_proof_of_small_blocks [OF _ c]) simp_all
  qed
qed

text \<open>C7: Segment proofs: for a transaction that commits to a file by subtrees of decreasing size, and a segment
  of it at an aligned index, \<open>compute_segment_proof\<close> returns a proof that \<open>FileProof::validate\<close> accepts for the
  root of the segment, at the index of the segment among the segments of the file, under the root of the
  file; also when the segment is the last one and made up of several small subtrees.\<close>

theorem segment_proof_validates:
  assumes tx: "commits_to keccak tx bs" and h: "honest_segment keccak bs c q segment"
    and start: "ca_start_index (cp_chunks segment) = q * 2 ^ c" "q * 2 ^ c < length (block_leaves bs)"
    and size: "q * 2 ^ c + length (ca_data (cp_chunks segment)) div 256 \<le> length (block_leaves bs)"
    and c: "c \<le> 57" and n: "null_free (RawLeafSha3Algorithm keccak) c (segment_of c (block_leaves bs) q)"
  shows "\<exists>p. compute_segment_proof keccak tx segment (2 ^ c) = Inr p \<and>
    file_proof_validate keccak p (mtree (parent_raw keccak) c (segment_of c (block_leaves bs) q))
      (data_merkle_root tx) q (length (seg_roots (parent_raw keccak) c (block_leaves bs))) = Inr True"
proof -
  let ?f = "parent_raw keccak" and ?X = "block_leaves bs"
  let ?ys = "seg_roots ?f c ?X" and ?K = "58 :: nat"
  have ok: "blocks_ok bs" "bs \<noteq> []" and lim: "\<forall>x\<in>set bs. fst x < 57"
    and nodes: "merkle_nodes tx = map (block_node ?f) bs" and root: "data_merkle_root tx = block_root ?f bs"
    using tx by (simp_all add: commits_to_def)
  have X57: "length ?X < 2 ^ 57" by (rule block_total [OF ok(1) lim])
  have "(2::nat) ^ 57 \<le> 2 ^ (c + ?K)" by (rule power_increasing) simp_all
  then have len: "length ?X \<le> 2 ^ (c + ?K)" using X57 by linarith
  have lys: "length ?ys \<le> 2 ^ ?K"
  proof -
    have "length ?X + 2 ^ c - 1 \<le> 2 ^ 58"
      using X57 power_increasing [of c 57 "2::nat"] c by simp
    then show ?thesis unfolding length_seg_roots by (meson div_le_dividend le_trans)
  qed
  have qys: "q < length ?ys"
  proof -
    have "(q * 2 ^ c + 2 ^ c) div 2 ^ c \<le> (length ?X + 2 ^ c - 1) div 2 ^ c" using start(2) by (intro div_le_mono) simp
    then show ?thesis by (simp add: length_seg_roots)
  qed
  have mroot: "data_merkle_root tx = mtree ?f ?K ?ys"
    using mtree_blocks [OF ok len, of ?f] mtree_seg_roots [OF _ len, of ?f] root start(2) by force
  have leaf: "mtree ?f c (segment_of c ?X q) = ?ys ! q" by (rule nth_seg_roots [OF qys, symmetric])
  note node_segment_proof_correct [OF tx h start(2) c n len]
  moreover have "num_entries tx = length ?X"
    unfolding num_entries_def nodes
  proof (rule num_entries_blocks [OF ok(1)])
    show "\<forall>x\<in>set bs. fst x < 63" using lim by force
  qed
  ultimately have "compute_segment_proof keccak tx segment (2 ^ c) =
      Inr (to_file_proof (reference_proof ?f ?K ?ys q))"
    using start size X57 file_proof_new_reference [OF qys lys, of ?f]
    unfolding leaf mroot by (simp add: compute_segment_proof_def Let_def)
  then show ?thesis
    using reference_file_proof_validates [OF qys lys, of keccak] unfolding leaf mroot by simp
qed

definition sample_data :: "byte list" where
  "sample_data = replicate 256 5"

definition sample_blocks :: "h256 blocks" where
  "sample_blocks = [(1, [light_keccak sample_data, light_keccak [2]]), (0, [light_keccak [3]])]"

definition sample_flow_proof :: "h256 merkle_proof" where
  "sample_flow_proof =
     \<lparr>lemma_of = [light_keccak sample_data, light_keccak [2], parent_raw light_keccak (light_keccak sample_data) (light_keccak [2])],
      path_of = [True]\<rparr>"

definition sample_segment :: chunk_array_with_proof where
  "sample_segment =
     \<lparr>cp_chunks = \<lparr>ca_data = sample_data, ca_start_index = 0\<rparr>,
      cp_proof = \<lparr>left_proof = sample_flow_proof, right_proof = sample_flow_proof\<rparr>\<rparr>"

definition sample_tx :: transaction where
  "sample_tx =
     \<lparr>stream_ids = [], tx_data = [], data_merkle_root = block_root (parent_raw light_keccak) sample_blocks,
      merkle_nodes = map (block_node (parent_raw light_keccak)) sample_blocks,
      start_entry_index = 4, tx_size = 768, tx_seq = 0\<rparr>"

lemma sample_honest:
  "commits_to light_keccak sample_tx sample_blocks" "honest_segment light_keccak sample_blocks 0 0 sample_segment"
proof -
  show "commits_to light_keccak sample_tx sample_blocks"
    by (auto simp: commits_to_def sample_tx_def sample_blocks_def blocks_ok_def)
  have "segment_leaves light_keccak sample_data 1 = [light_keccak sample_data]"
    by (simp add: segment_leaves_def chunks_exact_def sample_data_def)
  then show "honest_segment light_keccak sample_blocks 0 0 sample_segment"
    by (auto simp: honest_segment_def sample_blocks_def sample_segment_def sample_flow_proof_def segment_of_def
        less_Suc_eq)
qed

theorem segment_proof_validates_witness:
  "\<exists>p. compute_segment_proof light_keccak sample_tx sample_segment (2 ^ 0) = Inr p \<and>
    file_proof_validate light_keccak p (mtree (parent_raw light_keccak) 0 (segment_of 0 (block_leaves sample_blocks) 0))
      (data_merkle_root sample_tx) 0 (length (seg_roots (parent_raw light_keccak) 0 (block_leaves sample_blocks))) = Inr True"
proof (rule segment_proof_validates [OF sample_honest])
  show "null_free (RawLeafSha3Algorithm light_keccak) 0 (segment_of 0 (block_leaves sample_blocks) 0)"
    by (simp add: sample_blocks_def segment_of_def light_keccak_not_null)
qed (simp_all add: sample_segment_def sample_blocks_def sample_data_def)

end
