(* ===== verification/File_Merkle.thy ===== *)
theory File_Merkle
  imports Log_Helpers Segment_Properties
begin

text \<open>
  The subtrees under which a file is submitted to the log: \<open>split_nodes\<close> ends and cuts the padded size into
  falling powers of two, and \<open>tx_subtree_root_list_padded\<close> lists the roots of the blocks of the padded file,
  which are what the segment proofs of a transaction rely on (\<open>commits_to\<close>).
\<close>

section \<open>Splitting\<close>

lemma split_loop_powers:
  "n < 2 * 2 ^ k \<Longrightarrow> \<exists>ds. split_loop n (2 ^ k) acc = Some (acc @ map (\<lambda>d. 2 ^ d) ds) \<and>
     sorted_wrt (>) ds \<and> (\<forall>d\<in>set ds. d \<le> k) \<and> sum_list (map (\<lambda>d. 2 ^ d) ds) = n"
proof (induction k arbitrary: n acc)
  case 0
  then consider "n = 0" | "n = 1" by fastforce
  then show ?case
  proof cases
    case 1
    then show ?thesis by (intro exI [of _ "[]"]) (simp add: split_loop.simps)
  next
    case 2
    then show ?thesis by (intro exI [of _ "[0]"]) (simp add: split_loop.simps)
  qed
next
  case (Suc k)
  consider "n = 0" | "0 < n" "n < 2 ^ Suc k" | "2 ^ Suc k \<le> n" by linarith
  then show ?case
  proof cases
    case 1
    then show ?thesis by (intro exI [of _ "[]"]) (simp add: split_loop.simps)
  next
    case 2
    then have "split_loop n (2 ^ Suc k) acc = split_loop n (2 ^ k) acc" by (subst split_loop.simps) simp
    moreover have "n < 2 * 2 ^ k" using 2 by simp
    moreover note Suc.IH [OF this, of acc]
    ultimately show ?thesis using le_SucI by metis
  next
    case 3
    then have "0 < n" by (metis gr0I not_less_zero power_eq_0_iff le_zero_eq zero_neq_numeral)
    then have "split_loop n (2 ^ Suc k) acc = split_loop (n - 2 ^ Suc k) (2 ^ k) (acc @ [2 ^ Suc k])"
      using 3 by (subst split_loop.simps) simp
    moreover have "n - 2 ^ Suc k < 2 * 2 ^ k" using 3 Suc.prems by simp
    from Suc.IH [OF this, of "acc @ [2 ^ Suc k]"] obtain ds where
      "split_loop (n - 2 ^ Suc k) (2 ^ k) (acc @ [2 ^ Suc k]) = Some ((acc @ [2 ^ Suc k]) @ map (\<lambda>d. 2 ^ d) ds)"
      "sorted_wrt (>) ds" "\<forall>d\<in>set ds. d \<le> k" "sum_list (map (\<lambda>d. 2 ^ d) ds) = n - 2 ^ Suc k" by blast
    ultimately show ?thesis using 3 by (intro exI [of _ "Suc k # ds"]) (auto intro: less_Suc_eq_le [THEN iffD2] le_SucI)
  qed
qed

lemma split_nodes_powers:
  assumes "0 < n" "n \<le> 2 ^ 62"
  obtains ds where "split_nodes n = Inr (map (\<lambda>d. 2 ^ d) ds)" "sorted_wrt (>) ds" "\<forall>d\<in>set ds. d < 57"
    "sum_list (map (\<lambda>d. 2 ^ d) ds) = fst (compute_padded_chunk_size n)"
proof -
  let ?n = "bytes_to_chunks n"
  have c: "0 < ?n" "(?n - 1) * 256 < n" using assms bytes_to_chunks_bounds [of n] by simp_all
  then have s: "?n \<le> 2 ^ 54" using assms(2) by simp
  then have "?n \<le> 2 ^ 63" by simp
  then obtain k where k: "k \<le> 63" "next_pow2 ?n = 2 ^ k" "?n \<le> 2 ^ k" "k = 0 \<or> 2 ^ (k - 1) < ?n"
    using next_pow2_exponent [OF c(1)] by blast
  have "k \<le> 54"
  proof (rule ccontr)
    assume "\<not> k \<le> 54"
    then have "(2::nat) ^ 54 \<le> 2 ^ (k - 1)" by (intro power_increasing) simp_all
    then show False using k(4) s \<open>\<not> k \<le> 54\<close> by simp
  qed
  obtain p where p: "compute_padded_chunk_size n = (p, 2 ^ k)" "p \<le> 2 ^ k"
    using compute_padded_chunk_size_bounds [OF assms] k(2)
    by (auto simp: compute_padded_chunk_size_def Let_def split: if_splits)
  then have "p < 2 * 2 ^ k" by (simp add: le_less_trans)
  from split_loop_powers [OF this, of "[]"] obtain ds where
    "split_loop p (2 ^ k) [] = Some (map (\<lambda>d. 2 ^ d) ds)" "sorted_wrt (>) ds" "\<forall>d\<in>set ds. d \<le> k"
    "sum_list (map (\<lambda>d. 2 ^ d) ds) = p" by auto
  then show ?thesis using \<open>k \<le> 54\<close> p(1) by (intro that [of ds]) (auto simp: split_nodes_def)
qed

section \<open>Leaves of the padded file\<close>

definition pad_file :: "byte list \<Rightarrow> byte list" where
  "pad_file data = data @ replicate (fst (compute_padded_chunk_size (length data)) * 256 - length data) 0"

definition padded_leaves :: "(byte list \<Rightarrow> h256) \<Rightarrow> byte list \<Rightarrow> h256 list" where
  "padded_leaves keccak data = map keccak (chunks_exact 256 (pad_file data))"

lemma length_chunks_exact [simp]: "length (chunks_exact k xs) = length xs div k"
  by (simp add: chunks_exact_def)

lemma chunks_exact_part:
  "s + n \<le> length xs div k \<Longrightarrow> chunks_exact k (take (n * k) (drop (s * k) xs)) = take n (drop s (chunks_exact k xs))"
proof (cases "k = 0")
  case False
  assume le: "s + n \<le> length xs div k"
  then have "(s + n) * k \<le> length xs" using False by (meson div_times_less_eq_dividend le_trans mult_le_mono1)
  then have "length (take (n * k) (drop (s * k) xs)) = n * k" by (simp add: add_mult_distrib)
  then have len: "length (take (n * k) (drop (s * k) xs)) div k = n" using False by simp
  show ?thesis
  proof (rule nth_equalityI)
    show "length (chunks_exact k (take (n * k) (drop (s * k) xs))) = length (take n (drop s (chunks_exact k xs)))"
      using le len by simp
    fix i assume "i < length (chunks_exact k (take (n * k) (drop (s * k) xs)))"
    then have i: "i < n" using len by simp
    then have "Suc i * k \<le> n * k" by (intro mult_le_mono1) simp
    then show "chunks_exact k (take (n * k) (drop (s * k) xs)) ! i = take n (drop s (chunks_exact k xs)) ! i"
      using i le len by (simp add: chunks_exact_def drop_take add_mult_distrib add.commute)
  qed
qed (simp add: chunks_exact_def)

lemma leaves_h256: "length d mod 256 = 0 \<Longrightarrow> data_to_merkle_leaves_h256 keccak d = Inr (map keccak (chunks_exact 256 d))"
proof -
  assume "length d mod 256 = 0"
  moreover have "rmap (ok_or e) (map (leaf_optional keccak) cs) = Inr (map keccak cs)" for e cs
    by (induction cs) (auto simp: leaf_optional_def leaf_h256_def leaf_raw_def)
  ultimately show ?thesis by (simp add: data_to_merkle_leaves_h256_def data_to_merkle_leaves_def ENTRY_SIZE_def)
qed

lemma sub_merkle_root:
  assumes "length d mod 256 = 0" "map keccak (chunks_exact 256 d) = xs" "xs \<noteq> []" "length xs \<le> 2 ^ k" "k \<le> 57"
    and "null_free (RawLeafSha3Algorithm keccak) k xs"
  obtains t where "sub_merkle_tree keccak d = Inr t" "light_root t = Inr (mtree (parent_raw keccak) k xs)"
proof -
  obtain t where t: "from_iter (RawLeafSha3Algorithm keccak) xs = Inr t"
    "stored (RawLeafSha3Algorithm keccak) k (mt_data t) (mt_link_map t) 0 xs"
    by (rule from_iter_stored [OF raw_leaf_simps(1) assms(3-6)])
  show ?thesis
    using t light_root_stored [OF t(2) assms(3,4)] assms(1,2)
    by (intro that [of t]) (simp_all add: sub_merkle_tree_def leaves_h256)
qed

lemma null_free_block:
  "null_free A k xs \<Longrightarrow> d \<le> k \<Longrightarrow> 2 ^ d dvd s \<Longrightarrow> null_free A d (take (2 ^ d) (drop s xs))"
proof (induction d arbitrary: k xs s)
  case 0
  then show ?case using null_free_vals [OF "0.prems"(1)] by (auto dest!: in_set_takeD in_set_dropD)
next
  case (Suc d)
  then obtain k' where k: "k = Suc k'" by (cases k) auto
  obtain s' where s: "s = 2 * s'" "2 ^ d dvd s'" using Suc.prems(3) by (auto elim!: dvdE)
  have "pair_up (light_node A) (take (2 ^ Suc d) (drop s xs)) = take (2 ^ d) (drop s' (pair_up (light_node A) xs))"
    using take_pair_up [of "light_node A" "2 ^ d" "drop s xs"] drop_pair_up [of "light_node A" s' xs] s(1) by simp
  moreover have "null_free A d (take (2 ^ d) (drop s' (pair_up (light_node A) xs)))"
    using Suc k s(2) by (intro Suc.IH [of k']) simp_all
  moreover have "\<forall>v\<in>set (take (2 ^ Suc d) (drop s xs)). v \<noteq> light_null A"
    using null_free_vals [OF Suc.prems(1)] by (auto dest!: in_set_takeD in_set_dropD)
  ultimately show ?case by simp
qed

section \<open>The subtree roots\<close>

fun cut_blocks :: "nat list \<Rightarrow> 'e list \<Rightarrow> 'e blocks" where
  "cut_blocks [] xs = []"
| "cut_blocks (d # ds) xs = (d, take (2 ^ d) xs) # cut_blocks ds (drop (2 ^ d) xs)"

lemma cut_blocks_correct:
  "sum_list (map (\<lambda>d. 2 ^ d) ds) = length xs \<Longrightarrow> sorted_wrt (>) ds \<Longrightarrow>
     blocks_ok (cut_blocks ds xs) \<and> block_leaves (cut_blocks ds xs) = xs \<and> map fst (cut_blocks ds xs) = ds"
proof (induction ds arbitrary: xs)
  case Nil
  then show ?case by (simp add: blocks_ok_def)
next
  case (Cons d ds)
  have ih: "blocks_ok (cut_blocks ds (drop (2 ^ d) xs)) \<and> block_leaves (cut_blocks ds (drop (2 ^ d) xs)) = drop (2 ^ d) xs \<and>
      map fst (cut_blocks ds (drop (2 ^ d) xs)) = ds" using Cons.prems by (intro Cons.IH) auto
  then have "fst ` set (cut_blocks ds (drop (2 ^ d) xs)) = set ds" by (metis list.set_map)
  then show ?case using ih Cons.prems by (force simp: blocks_ok_Cons)
qed

text \<open>The three ways in which the source collects the bytes of a subtree.\<close>

lemma subtree_bytes:
  assumes "start + n \<le> length (data @ replicate z 0)"
  shows "(if length data \<le> start then replicate n 0
          else if length data < start + n then drop start data @ replicate (start + n - length data) 0
          else take (start + n - start) (drop start data)) =
    take n (drop start (data @ replicate z 0))"
  using assms by auto

lemma subtree_root_steps:
  assumes L: "padded_leaves keccak data = L" and n: "null_free (RawLeafSha3Algorithm keccak) 57 L"
    and len: "length (pad_file data) = length L * 256"
  shows "s + sum_list (map (\<lambda>d. 2 ^ d) ds) = length L \<Longrightarrow> \<forall>d\<in>set ds. d < 57 \<and> 2 ^ d dvd s \<Longrightarrow> sorted_wrt (>) ds \<Longrightarrow>
    rfold (subtree_root_step keccak data) (map (\<lambda>d. 2 ^ d) ds) (s * 256, acc) =
      Inr (length L * 256, acc @ map (block_node (parent_raw keccak)) (cut_blocks ds (drop s L)))"
proof (induction ds arbitrary: s acc)
  case (Cons d ds)
  define bytes where "bytes = take (2 ^ d * 256) (drop (s * 256) (pad_file data))"
  have le: "s + 2 ^ d \<le> length L" using Cons.prems(1) by simp
  then have le256: "s * 256 + 2 ^ d * 256 \<le> length (pad_file data)" unfolding len by simp
  have "s + 2 ^ d \<le> length (pad_file data) div 256" using le len by simp
  then have xs: "map keccak (chunks_exact 256 bytes) = take (2 ^ d) (drop s L)"
    unfolding bytes_def L [symmetric] padded_leaves_def by (simp add: chunks_exact_part take_map drop_map)
  obtain t where t: "sub_merkle_tree keccak bytes = Inr t"
    "light_root t = Inr (mtree (parent_raw keccak) d (take (2 ^ d) (drop s L)))"
  proof (rule sub_merkle_root [OF _ xs])
    have "length bytes = 2 ^ d * 256" using le256 by (simp add: bytes_def)
    then show "length bytes mod 256 = 0" by simp
    have "length (take (2 ^ d) (drop s L)) = 2 ^ d" using le by simp
    then show "take (2 ^ d) (drop s L) \<noteq> []" by (metis list.size(3) power_eq_0_iff zero_neq_numeral)
    show "length (take (2 ^ d) (drop s L)) \<le> 2 ^ d" "d \<le> 57" using Cons.prems(2) by simp_all
    show "null_free (RawLeafSha3Algorithm keccak) d (take (2 ^ d) (drop s L))"
      using Cons.prems(2) by (intro null_free_block [OF n]) simp_all
  qed
  have lg: "log2_pow2 (2 ^ d) = d" using Cons.prems(2) by (intro log2_pow2_power) simp
  have b: "(if length data \<le> s * 256 then replicate (2 ^ d * 256) 0
          else if length data < s * 256 + 2 ^ d * 256 then drop (s * 256) data @ replicate (s * 256 + 2 ^ d * 256 - length data) 0
          else take (s * 256 + 2 ^ d * 256 - s * 256) (drop (s * 256) data)) = bytes"
    unfolding bytes_def pad_file_def by (rule subtree_bytes) (use le256 in \<open>simp add: pad_file_def\<close>)
  have step: "subtree_root_step keccak data (2 ^ d) (s * 256, acc) =
      Inr ((s + 2 ^ d) * 256, acc @ [block_node (parent_raw keccak) (d, take (2 ^ d) (drop s L))])"
    unfolding subtree_root_step_def ENTRY_SIZE_def Let_def prod.case b lg
    using t by (simp add: block_node_def add_mult_distrib)
  have "\<forall>d'\<in>set ds. d' < 57 \<and> 2 ^ d' dvd s + 2 ^ d"
    using Cons.prems(2,3) by (auto intro!: dvd_add le_imp_power_dvd less_imp_le)
  then have "rfold (subtree_root_step keccak data) (map (\<lambda>d. 2 ^ d) ds)
      ((s + 2 ^ d) * 256, acc @ [block_node (parent_raw keccak) (d, take (2 ^ d) (drop s L))]) =
    Inr (length L * 256, (acc @ [block_node (parent_raw keccak) (d, take (2 ^ d) (drop s L))]) @
      map (block_node (parent_raw keccak)) (cut_blocks ds (drop (s + 2 ^ d) L)))"
    using Cons.prems by (intro Cons.IH) simp_all
  then show ?case by (simp add: step add.commute)
qed simp

text \<open>C14: \<open>split_nodes\<close> returns for every file size up to \<open>2 ^ 62\<close> bytes: its loop, which would spin on a zero
  power if some chunks were left over, ends with a list of falling powers of two that add up to the padded
  number of chunks.\<close>

theorem split_nodes_terminates:
  assumes "0 < data_size" "data_size \<le> 2 ^ 62"
  shows "\<exists>nodes. split_nodes data_size = Inr nodes \<and> sorted_wrt (>) nodes \<and> (\<forall>m\<in>set nodes. is_power_of_two m) \<and>
    sum_list nodes = fst (compute_padded_chunk_size data_size)"
proof -
  obtain ds where ds: "split_nodes data_size = Inr (map (\<lambda>d. 2 ^ d) ds)" "sorted_wrt (>) ds"
    "sum_list (map (\<lambda>d. 2 ^ d) ds) = fst (compute_padded_chunk_size data_size)"
    by (rule split_nodes_powers [OF assms])
  then have "sorted_wrt (>) (map (\<lambda>d. (2::nat) ^ d) ds)" by (simp add: sorted_wrt_map)
  then show ?thesis using ds by (auto simp: is_power_of_two_iff)
qed

theorem split_nodes_terminates_witness:
  "\<exists>nodes. split_nodes 9000 = Inr nodes \<and> sorted_wrt (>) nodes \<and> (\<forall>m\<in>set nodes. is_power_of_two m) \<and>
    sum_list nodes = fst (compute_padded_chunk_size 9000)"
  by (rule split_nodes_terminates) simp_all

lemma length_pad_file:
  assumes "0 < length data" "length data \<le> 2 ^ 62"
  shows "length (pad_file data) = fst (compute_padded_chunk_size (length data)) * 256"
    "length (padded_leaves keccak data) = fst (compute_padded_chunk_size (length data))"
    "0 < fst (compute_padded_chunk_size (length data))"
proof -
  have "length data \<le> fst (compute_padded_chunk_size (length data)) * 256"
    using compute_padded_chunk_size_bounds [OF assms] by (auto split: prod.splits)
  then show "length (pad_file data) = fst (compute_padded_chunk_size (length data)) * 256"
    "0 < fst (compute_padded_chunk_size (length data))"
    using assms(1) by (auto simp: pad_file_def intro!: gr0I)
  then show "length (padded_leaves keccak data) = fst (compute_padded_chunk_size (length data))"
    by (simp add: padded_leaves_def)
qed

text \<open>C13: The subtree roots that \<open>tx_subtree_root_list_padded\<close> computes for a file are the roots of consecutive
  blocks of the leaves of the zero-padded file, of falling powers of two; a transaction that carries them, with
  the root of the \<open>merkle_light\<close> tree over the padded file as its data root, commits to these blocks, which is what
  the segment proofs of \<open>compute_segment_proof\<close> need.\<close>

theorem tx_subtree_roots_commit:
  assumes "0 < length data" "length data \<le> 2 ^ 62"
    and n: "null_free (RawLeafSha3Algorithm keccak) 57 (padded_leaves keccak data)"
  shows "\<exists>nodes t root bs. tx_subtree_root_list_padded keccak data = Inr nodes \<and>
    sub_merkle_tree keccak (pad_file data) = Inr t \<and> light_root t = Inr root \<and>
    block_leaves bs = padded_leaves keccak data \<and>
    commits_to keccak (tx\<lparr>merkle_nodes := nodes, data_merkle_root := root\<rparr>) bs"
proof -
  let ?L = "padded_leaves keccak data" and ?f = "parent_raw keccak"
  obtain ds where ds: "split_nodes (length data) = Inr (map (\<lambda>d. 2 ^ d) ds)" "sorted_wrt (>) ds" "\<forall>d\<in>set ds. d < 57"
    "sum_list (map (\<lambda>d. 2 ^ d) ds) = fst (compute_padded_chunk_size (length data))"
    by (rule split_nodes_powers [OF assms(1,2)])
  note len = length_pad_file [OF assms(1,2)]
  let ?bs = "cut_blocks ds ?L"
  have bs: "blocks_ok ?bs" "block_leaves ?bs = ?L" "map fst ?bs = ds"
    using cut_blocks_correct [of ds ?L] ds len(2) by simp_all
  have "fst ` set ?bs = set ds" using bs(3) by (metis list.set_map)
  then have lim: "\<forall>x\<in>set ?bs. fst x < 57" using ds(3) by blast
  have "?L \<noteq> []" using len(2,3) by (metis list.size(3) less_irrefl)
  then have ne: "?bs \<noteq> []" using bs(2) by force
  have "rfold (subtree_root_step keccak data) (map (\<lambda>d. 2 ^ d) ds) (0 * 256, []) =
      Inr (length ?L * 256, [] @ map (block_node ?f) (cut_blocks ds (drop 0 ?L)))"
    using ds len by (intro subtree_root_steps [OF refl n]) simp_all
  then have nodes: "tx_subtree_root_list_padded keccak data = Inr (map (block_node ?f) ?bs)"
    using ds(1) by (simp add: tx_subtree_root_list_padded_def)
  have l57: "length ?L \<le> 2 ^ 57" using block_total [OF bs(1) lim] bs(2) by simp
  obtain t where t: "sub_merkle_tree keccak (pad_file data) = Inr t" "light_root t = Inr (mtree ?f 57 ?L)"
    by (rule sub_merkle_root [OF _ _ \<open>?L \<noteq> []\<close> l57 _ n]) (simp_all add: len padded_leaves_def)
  have "mtree ?f 57 ?L = block_root ?f ?bs" using mtree_blocks [OF bs(1) ne, of 57 ?f] bs(2) l57 by simp
  then show ?thesis using t nodes bs(1,2) ne lim by (auto simp: commits_to_def)
qed

theorem tx_subtree_roots_commit_witness:
  "\<exists>nodes t root bs. tx_subtree_root_list_padded light_keccak [7] = Inr nodes \<and>
    sub_merkle_tree light_keccak (pad_file [7]) = Inr t \<and> light_root t = Inr root \<and>
    block_leaves bs = padded_leaves light_keccak [7] \<and>
    commits_to light_keccak (sample_tx\<lparr>merkle_nodes := nodes, data_merkle_root := root\<rparr>) bs"
proof (rule tx_subtree_roots_commit)
  show "null_free (RawLeafSha3Algorithm light_keccak) 57 (padded_leaves light_keccak [7])"
    by (rule null_free_if_nodes) (auto simp: padded_leaves_def light_keccak_not_null parent_raw_def)
qed simp_all

end
