(* ===== verification/Kv_Store.thy ===== *)
theory Kv_Store
  imports Zgs_Prelude
begin

text \<open>
  The key-value database below the stores (\<open>node/storage/src/lib.rs\<close>). The database itself is the crate
  \<open>kvdb\<close> (RocksDB or in memory), a record of operations \<open>kv_ops\<close> that the stores take as a parameter;
  the locale \<open>key_value_db\<close> holds its documented behaviour: a column is a map from keys to values, a
  transaction is applied at once, an iteration visits the keys in order.

  An operation of a store that changes it has the type \<open>('s, 'a) io\<close>: it returns a result and the state
  of the store after it, also when it fails.
\<close>

section \<open>State and failure\<close>

type_synonym ('s, 'a) io = "'s \<Rightarrow> 'a res \<times> 's"

definition io_return :: "'a \<Rightarrow> ('s, 'a) io" where
  "io_return x s = (Inr x, s)"

definition io_lift :: "'a res \<Rightarrow> ('s, 'a) io" where
  "io_lift r s = (r, s)"

definition io_bind :: "('s, 'a) io \<Rightarrow> ('a \<Rightarrow> ('s, 'b) io) \<Rightarrow> ('s, 'b) io" where
  "io_bind m f s = (case m s of (Inl e, s') \<Rightarrow> (Inl e, s') | (Inr x, s') \<Rightarrow> f x s')"

definition io_gets :: "('s \<Rightarrow> 'a) \<Rightarrow> ('s, 'a) io" where
  "io_gets f s = (Inr (f s), s)"

definition io_modify :: "('s \<Rightarrow> 's) \<Rightarrow> ('s, unit) io" where
  "io_modify f s = (Inr (), f s)"

text \<open>A computation that only reads the state.\<close>

definition io_read :: "('s \<Rightarrow> 'a res) \<Rightarrow> ('s, 'a) io" where
  "io_read f s = (f s, s)"

lemma io_simps [simp]:
  "io_return x s = (Inr x, s)" "io_lift r s = (r, s)" "io_gets g s = (Inr (g s), s)"
  "io_modify h s = (Inr (), h s)" "io_read k s = (k s, s)"
  by (simp_all add: io_return_def io_lift_def io_gets_def io_modify_def io_read_def)

lemma io_bind_Inr [simp]: "m s = (Inr x, s') \<Longrightarrow> io_bind m f s = f x s'"
  by (simp add: io_bind_def)

lemma io_bind_Inl [simp]: "m s = (Inl e, s') \<Longrightarrow> io_bind m f s = (Inl e, s')"
  by (simp add: io_bind_def)

lemma io_bind_eq_Inr:
  "io_bind m f s = (Inr y, s'') \<longleftrightarrow> (\<exists>x s'. m s = (Inr x, s') \<and> f x s' = (Inr y, s''))"
  by (auto simp: io_bind_def split: prod.splits sum.splits)

primrec io_fold :: "('a \<Rightarrow> 'b \<Rightarrow> ('s, 'b) io) \<Rightarrow> 'a list \<Rightarrow> 'b \<Rightarrow> ('s, 'b) io" where
  "io_fold f [] b = io_return b"
| "io_fold f (x # xs) b = io_bind (f x b) (io_fold f xs)"

section \<open>The database\<close>

datatype db_op = Insert nat "byte list" "byte list" | Delete nat "byte list"

record 'd kv_ops =
  kv_get :: "'d \<Rightarrow> nat \<Rightarrow> byte list \<Rightarrow> byte list option res"
  kv_write :: "'d \<Rightarrow> db_op list \<Rightarrow> 'd res"
  kv_iter :: "'d \<Rightarrow> nat \<Rightarrow> (byte list \<times> byte list) res list"
  kv_num_keys :: "'d \<Rightarrow> nat \<Rightarrow> nat res"

definition kv_put :: "'d kv_ops \<Rightarrow> 'd \<Rightarrow> nat \<Rightarrow> byte list \<Rightarrow> byte list \<Rightarrow> 'd res" where
  "kv_put D db col key value = kv_write D db [Insert col key value]"

definition kv_puts :: "'d kv_ops \<Rightarrow> 'd \<Rightarrow> (nat \<times> byte list \<times> byte list) list \<Rightarrow> 'd res" where
  "kv_puts D db items = kv_write D db (map (\<lambda>(col, key, value). Insert col key value) items)"

definition kv_delete :: "'d kv_ops \<Rightarrow> 'd \<Rightarrow> nat \<Rightarrow> byte list \<Rightarrow> 'd res" where
  "kv_delete D db col key = kv_write D db [Delete col key]"

text \<open>Keys are ordered as byte strings.\<close>

fun bytes_less :: "byte list \<Rightarrow> byte list \<Rightarrow> bool" where
  "bytes_less _ [] = False"
| "bytes_less [] (y # ys) = True"
| "bytes_less (x # xs) (y # ys) = (x < y \<or> x = y \<and> bytes_less xs ys)"

type_synonym contents = "nat \<Rightarrow> byte list \<Rightarrow> byte list option"

fun apply_op :: "db_op \<Rightarrow> contents \<Rightarrow> contents" where
  "apply_op (Insert col key value) m = m(col := (m col)(key \<mapsto> value))"
| "apply_op (Delete col key) m = m(col := (m col)(key := None))"

locale key_value_db =
  fixes D :: "'d kv_ops" and contents :: "'d \<Rightarrow> contents"
  assumes get: "kv_get D db col key = Inr (contents db col key)"
    and write_ex: "\<exists>db'. kv_write D db ops = Inr db' \<and> contents db' = fold apply_op ops (contents db)"
    and iter_ex: "\<exists>kvs. kv_iter D db col = map Inr kvs \<and> map_of kvs = contents db col \<and>
      sorted_wrt bytes_less (map fst kvs)"
begin

lemma written:
  obtains db' where "kv_write D db ops = Inr db'" "contents db' = fold apply_op ops (contents db)"
  using write_ex by blast

lemma put:
  obtains db' where "kv_put D db col key value = Inr db'"
    "contents db' = (contents db)(col := (contents db col)(key \<mapsto> value))"
  using written [of db "[Insert col key value]"] by (auto simp: kv_put_def)

lemma delete:
  obtains db' where "kv_delete D db col key = Inr db'"
    "contents db' = (contents db)(col := (contents db col)(key := None))"
  using written [of db "[Delete col key]"] by (auto simp: kv_delete_def)

end

section \<open>Keys\<close>

lemma bytes_less_irrefl [simp]: "\<not> bytes_less xs xs"
  by (induction xs) auto

lemma bytes_less_trans: "bytes_less xs ys \<Longrightarrow> bytes_less ys zs \<Longrightarrow> bytes_less xs zs"
proof (induction xs ys arbitrary: zs rule: bytes_less.induct)
  case (2 y ys)
  then show ?case by (cases zs) auto
next
  case (3 x xs y ys)
  then show ?case by (cases zs) auto
qed simp

lemma bytes_less_linear: "length xs = length ys \<Longrightarrow> bytes_less xs ys \<or> xs = ys \<or> bytes_less ys xs"
  by (induction xs ys rule: list_induct2) auto

lemma bytes_less_total: "bytes_less xs ys \<or> xs = ys \<or> bytes_less ys xs"
proof (induction xs ys rule: bytes_less.induct)
  case (1 xs)
  then show ?case by (cases xs) auto
qed auto

text \<open>The big-endian keys of the stores are ordered as the numbers they encode.\<close>

lemma bytes_less_append:
  "length xs = length ys \<Longrightarrow> bytes_less (xs @ [x]) (ys @ [y]) \<longleftrightarrow> bytes_less xs ys \<or> xs = ys \<and> x < y"
  by (induction xs ys rule: list_induct2) auto

lemma bytes_less_be_bytes:
  "a < 256 ^ n \<Longrightarrow> b < 256 ^ n \<Longrightarrow> bytes_less (be_bytes n a) (be_bytes n b) \<longleftrightarrow> a < b"
proof (induction n arbitrary: a b)
  case (Suc n)
  have d: "a div 256 < 256 ^ n" "b div 256 < 256 ^ n"
    using Suc.prems by (simp_all add: less_mult_imp_div_less mult.commute)
  have e: "be_bytes n (a div 256) = be_bytes n (b div 256) \<longleftrightarrow> a div 256 = b div 256"
    using be_bytes_inject [OF d] by auto
  have w: "(of_nat a :: byte) < of_nat b \<longleftrightarrow> a mod 256 < b mod 256"
    by (simp add: word_less_nat_alt unat_of_nat_byte)
  have ab: "a = a div 256 * 256 + a mod 256" "b = b div 256 * 256 + b mod 256"
    "a mod 256 < 256" "b mod 256 < 256" by simp_all
  have "a < b \<longleftrightarrow> a div 256 < b div 256 \<or> a div 256 = b div 256 \<and> a mod 256 < b mod 256"
    using ab by linarith
  then show ?case using Suc.IH [OF d] e w by (simp add: bytes_less_append)
qed simp

lemma be_bytes_eq_iff: "a < 256 ^ n \<Longrightarrow> b < 256 ^ n \<Longrightarrow> be_bytes n a = be_bytes n b \<longleftrightarrow> a = b"
  using be_bytes_inject by blast

section \<open>A map in memory\<close>

text \<open>
  An instance of the database: a column is the list of its insertions, the latest one first, and an
  iteration sorts it.
\<close>

type_synonym memory_db = "nat \<Rightarrow> (byte list \<times> byte list) list"

fun kv_insert :: "byte list \<Rightarrow> byte list \<Rightarrow> (byte list \<times> byte list) list \<Rightarrow> (byte list \<times> byte list) list" where
  "kv_insert k v [] = [(k, v)]"
| "kv_insert k v ((k', v') # kvs) =
     (if bytes_less k k' then (k, v) # (k', v') # kvs
      else if k = k' then (k, v) # kvs
      else (k', v') # kv_insert k v kvs)"

fun memory_op :: "db_op \<Rightarrow> memory_db \<Rightarrow> memory_db" where
  "memory_op (Insert col key value) m = m(col := (key, value) # m col)"
| "memory_op (Delete col key) m = m(col := filter (\<lambda>kv. fst kv \<noteq> key) (m col))"

definition memory_sorted :: "memory_db \<Rightarrow> nat \<Rightarrow> (byte list \<times> byte list) list" where
  "memory_sorted m col = foldr (\<lambda>(k, v). kv_insert k v) (m col) []"

definition memory_ops :: "memory_db kv_ops" where
  "memory_ops = \<lparr>kv_get = (\<lambda>m col key. Inr (map_of (m col) key)),
     kv_write = (\<lambda>m ops. Inr (fold memory_op ops m)),
     kv_iter = (\<lambda>m col. map Inr (memory_sorted m col)),
     kv_num_keys = (\<lambda>m col. Inr (length (memory_sorted m col)))\<rparr>"

definition memory_contents :: "memory_db \<Rightarrow> contents" where
  "memory_contents m col = map_of (m col)"

lemma map_of_kv_insert: "map_of (kv_insert k v kvs) = (map_of kvs)(k \<mapsto> v)"
  by (induction k v kvs rule: kv_insert.induct) (auto simp: fun_eq_iff)

lemma set_kv_insert: "fst ` set (kv_insert k v kvs) = insert k (fst ` set kvs)"
  by (induction k v kvs rule: kv_insert.induct) auto

lemma sorted_kv_insert:
  "sorted_wrt bytes_less (map fst kvs) \<Longrightarrow> sorted_wrt bytes_less (map fst (kv_insert k v kvs))"
proof (induction k v kvs rule: kv_insert.induct)
  case (2 k v k' v' kvs)
  then show ?case
    using set_kv_insert [of k v kvs] bytes_less_total [of k k'] by (auto intro: bytes_less_trans)
qed simp

lemma memory_sorted:
  "map_of (memory_sorted m col) = map_of (m col)" "sorted_wrt bytes_less (map fst (memory_sorted m col))"
proof -
  have "map_of (foldr (\<lambda>(k, v). kv_insert k v) kvs []) = map_of kvs \<and>
    sorted_wrt bytes_less (map fst (foldr (\<lambda>(k, v). kv_insert k v) kvs []))" for kvs
    by (induction kvs) (auto simp: map_of_kv_insert sorted_kv_insert)
  then show "map_of (memory_sorted m col) = map_of (m col)" "sorted_wrt bytes_less (map fst (memory_sorted m col))"
    by (simp_all add: memory_sorted_def)
qed

lemma map_of_filter_key: "map_of (filter (\<lambda>kv. fst kv \<noteq> key) kvs) = (map_of kvs)(key := None)"
  by (induction kvs) auto

lemma memory_contents_op: "memory_contents (memory_op p m) = apply_op p (memory_contents m)"
  by (cases p) (auto simp: memory_contents_def map_of_filter_key fun_eq_iff)

interpretation memory: key_value_db memory_ops memory_contents
proof
  fix db :: memory_db and ops col
  have "memory_contents (fold memory_op ops db) = fold apply_op ops (memory_contents db)"
    by (induction ops arbitrary: db) (auto simp: memory_contents_op)
  then show "\<exists>db'. kv_write memory_ops db ops = Inr db' \<and> memory_contents db' = fold apply_op ops (memory_contents db)"
    by (simp add: memory_ops_def)
  show "\<exists>kvs. kv_iter memory_ops db col = map Inr kvs \<and> map_of kvs = memory_contents db col \<and>
      sorted_wrt bytes_less (map fst kvs)"
    using memory_sorted by (force simp: memory_ops_def memory_contents_def)
qed (simp add: memory_ops_def memory_contents_def)

end
