(* ===== verification/Ssz.thy ===== *)
theory Ssz
  imports Zgs_Prelude
begin

text \<open>
  The SSZ codec of \<open>version-meld/eth2_ssz\<close>: the offset arithmetic of containers and lists, as encoder
  (\<open>encode.rs\<close>, \<open>encode/impls.rs\<close>) and decoder (\<open>decode.rs\<close>, \<open>decode/impls.rs\<close>). The traits \<open>Encode\<close> and
  \<open>Decode\<close> are the record \<open>ssz\<close> of their functions; a \<open>DecodeError\<close> is an \<open>Err\<close> with the name of its variant.
\<close>

section \<open>Offsets\<close>

definition BYTES_PER_LENGTH_OFFSET :: nat where
  "BYTES_PER_LENGTH_OFFSET = 4"

definition MAX_UNION_SELECTOR :: nat where
  "MAX_UNION_SELECTOR = 127"

lemma ssz_constants [simp]: "BYTES_PER_LENGTH_OFFSET = 4" "MAX_UNION_SELECTOR = 127"
  by (simp_all add: BYTES_PER_LENGTH_OFFSET_def MAX_UNION_SELECTOR_def)

text \<open>\<open>to_le_bytes\<close> and \<open>from_le_bytes\<close>.\<close>

primrec le_bytes :: "nat \<Rightarrow> nat \<Rightarrow> byte list" where
  "le_bytes 0 x = []"
| "le_bytes (Suc n) x = of_nat x # le_bytes n (x div 256)"

primrec of_le_bytes :: "byte list \<Rightarrow> nat" where
  "of_le_bytes [] = 0"
| "of_le_bytes (b # bs) = unat b + 256 * of_le_bytes bs"

definition encode_length :: "nat \<Rightarrow> byte list" where
  "encode_length len = take BYTES_PER_LENGTH_OFFSET (le_bytes 8 len)"

definition decode_offset :: "byte list \<Rightarrow> nat res" where
  "decode_offset bytes =
     rbind (ensure (length bytes = BYTES_PER_LENGTH_OFFSET) (Err ''InvalidLengthPrefix'')) (\<lambda>_. Inr (of_le_bytes bytes))"

definition read_offset :: "byte list \<Rightarrow> nat res" where
  "read_offset bytes =
     rbind (ensure (BYTES_PER_LENGTH_OFFSET \<le> length bytes) (Err ''InvalidLengthPrefix'')) (\<lambda>_.
     decode_offset (take BYTES_PER_LENGTH_OFFSET bytes))"

definition sanitize_offset :: "nat \<Rightarrow> nat option \<Rightarrow> nat \<Rightarrow> nat option \<Rightarrow> nat res" where
  "sanitize_offset off previous_offset num_bytes num_fixed_bytes =
     (if (case num_fixed_bytes of Some f \<Rightarrow> off < f | None \<Rightarrow> False) then Inl (Err ''OffsetIntoFixedPortion'')
      else if previous_offset = None \<and> (case num_fixed_bytes of Some f \<Rightarrow> off \<noteq> f | None \<Rightarrow> False)
      then Inl (Err ''OffsetSkipsVariableBytes'')
      else if num_bytes < off then Inl (Err ''OffsetOutOfBounds'')
      else if (case previous_offset of Some p \<Rightarrow> off < p | None \<Rightarrow> False) then Inl (Err ''OffsetsAreDecreasing'')
      else Inr off)"

definition union_selector_new :: "byte \<Rightarrow> byte res" where
  "union_selector_new selector =
     (if unat selector \<le> MAX_UNION_SELECTOR then Inr selector else Inl (Err ''UnionSelectorInvalid''))"

definition split_union_bytes :: "byte list \<Rightarrow> (byte \<times> byte list) res" where
  "split_union_bytes bytes =
     (case bytes of
        [] \<Rightarrow> Inl (Err ''OutOfBoundsByte'')
      | b # body \<Rightarrow> rbind (union_selector_new b) (\<lambda>selector. Inr (selector, body)))"

section \<open>Encoder\<close>

record ssz_encoder =
  enc_offset :: nat
  enc_buf :: "byte list"
  enc_variable_bytes :: "byte list"

definition encoder_container :: "byte list \<Rightarrow> nat \<Rightarrow> ssz_encoder" where
  "encoder_container buf num_fixed_bytes = \<lparr>enc_offset = num_fixed_bytes, enc_buf = buf, enc_variable_bytes = []\<rparr>"

definition append_parameterized :: "bool \<Rightarrow> (byte list \<Rightarrow> byte list) \<Rightarrow> ssz_encoder \<Rightarrow> ssz_encoder" where
  "append_parameterized is_ssz_fixed_len put e =
     (if is_ssz_fixed_len then e\<lparr>enc_buf := put (enc_buf e)\<rparr>
      else e\<lparr>enc_buf := enc_buf e @ encode_length (enc_offset e + length (enc_variable_bytes e)),
             enc_variable_bytes := put (enc_variable_bytes e)\<rparr>)"

definition encoder_finalize :: "ssz_encoder \<Rightarrow> byte list" where
  "encoder_finalize e = enc_buf e @ enc_variable_bytes e"

section \<open>Decoder\<close>

record ssz_decoder_builder =
  db_bytes :: "byte list"
  db_items :: "byte list list"
  db_offsets :: "(nat \<times> nat) list"
  db_items_index :: nat

definition builder_new :: "byte list \<Rightarrow> ssz_decoder_builder" where
  "builder_new bytes = \<lparr>db_bytes = bytes, db_items = [], db_offsets = [], db_items_index = 0\<rparr>"

definition register_type_parameterized :: "bool \<times> nat \<Rightarrow> ssz_decoder_builder \<Rightarrow> ssz_decoder_builder res" where
  "register_type_parameterized = (\<lambda>(is_ssz_fixed_len, fixed_len) b.
     if is_ssz_fixed_len then
       let start = db_items_index b; items_index = start + fixed_len
       in if items_index \<le> length (db_bytes b)
          then Inr (b\<lparr>db_items_index := items_index, db_items := db_items b @ [take fixed_len (drop start (db_bytes b))]\<rparr>)
          else Inl (Err ''InvalidByteLength'')
     else
       rbind (slice_from (db_bytes b) (db_items_index b)) (\<lambda>rest.
       rbind (read_offset rest) (\<lambda>off.
       rbind (sanitize_offset off (if db_offsets b = [] then None else Some (snd (last (db_offsets b)))) (length (db_bytes b)) None) (\<lambda>off.
       Inr (b\<lparr>db_offsets := db_offsets b @ [(length (db_items b), off)], db_items := db_items b @ [[]],
              db_items_index := db_items_index b + BYTES_PER_LENGTH_OFFSET\<rparr>)))))"

definition set_item :: "nat \<Rightarrow> 'a \<Rightarrow> 'a list \<Rightarrow> 'a list res" where
  "set_item p x items = (if p < length items then Inr (items[p := x]) else Inl (Panic ''index out of bounds''))"

text \<open>The loop over \<open>windows(2)\<close> of the offsets, and the last offset.\<close>

fun fill_items :: "byte list \<Rightarrow> (nat \<times> nat) list \<Rightarrow> byte list list \<Rightarrow> byte list list res" where
  "fill_items bytes (a # b # rest) items =
     rbind (slice_range bytes (snd a) (snd b)) (\<lambda>s.
     rbind (set_item (fst a) s items) (fill_items bytes (b # rest)))"
| "fill_items bytes [a] items = rbind (slice_from bytes (snd a)) (\<lambda>s. set_item (fst a) s items)"
| "fill_items bytes [] items = Inr items"

definition builder_finalize :: "ssz_decoder_builder \<Rightarrow> byte list list res" where
  "builder_finalize b =
     (case db_offsets b of
        first # _ \<Rightarrow>
          if snd first < db_items_index b then Inl (Err ''OffsetIntoFixedPortion'')
          else if db_items_index b < snd first then Inl (Err ''OffsetSkipsVariableBytes'')
          else fill_items (db_bytes b) (db_offsets b) (db_items b)
      | [] \<Rightarrow>
          if db_items_index b \<noteq> length (db_bytes b) then Inl (Err ''InvalidByteLength'') else Inr (db_items b))"

text \<open>\<open>build\<close>, and \<open>decode_next_with\<close>, which removes the first item.\<close>

definition builder_build :: "ssz_decoder_builder \<Rightarrow> byte list list res" where
  "builder_build b = builder_finalize b"

definition decode_next_with :: "(byte list \<Rightarrow> 'a res) \<Rightarrow> byte list list \<Rightarrow> ('a \<times> byte list list) res" where
  "decode_next_with f items =
     (case items of
        [] \<Rightarrow> Inl (Panic ''removal index out of bounds'')
      | i # is \<Rightarrow> rbind (f i) (\<lambda>x. Inr (x, is)))"

section \<open>Values\<close>

record 'a ssz =
  ssz_is_fixed :: bool
  ssz_fixed_len :: nat
  ssz_put :: "'a \<Rightarrow> byte list \<Rightarrow> byte list"
  ssz_bytes_len :: "'a \<Rightarrow> nat"
  ssz_get :: "byte list \<Rightarrow> 'a res"

definition as_ssz_bytes :: "'a ssz \<Rightarrow> 'a \<Rightarrow> byte list" where
  "as_ssz_bytes c x = ssz_put c x []"

text \<open>Unsigned integers of \<open>n\<close> bytes, booleans and byte arrays of a fixed length.\<close>

definition ssz_uint :: "nat \<Rightarrow> nat ssz" where
  "ssz_uint n = \<lparr>ssz_is_fixed = True, ssz_fixed_len = n, ssz_put = (\<lambda>x buf. buf @ le_bytes n x), ssz_bytes_len = (\<lambda>x. n),
     ssz_get = (\<lambda>bytes. rbind (ensure (length bytes = n) (Err ''InvalidByteLength'')) (\<lambda>_. Inr (of_le_bytes bytes)))\<rparr>"

definition ssz_bool :: "bool ssz" where
  "ssz_bool = \<lparr>ssz_is_fixed = True, ssz_fixed_len = 1, ssz_put = (\<lambda>x buf. buf @ [if x then 1 else 0]), ssz_bytes_len = (\<lambda>x. 1),
     ssz_get = (\<lambda>bytes. rbind (ensure (length bytes = 1) (Err ''InvalidByteLength'')) (\<lambda>_.
       if bytes ! 0 = 0 then Inr False else if bytes ! 0 = 1 then Inr True else Inl (Err ''BytesInvalid'')))\<rparr>"

definition ssz_byte_array :: "nat \<Rightarrow> byte list ssz" where
  "ssz_byte_array n = \<lparr>ssz_is_fixed = True, ssz_fixed_len = n, ssz_put = (\<lambda>x buf. buf @ x), ssz_bytes_len = (\<lambda>x. n),
     ssz_get = (\<lambda>bytes. rbind (ensure (length bytes = n) (Err ''InvalidByteLength'')) (\<lambda>_. Inr bytes))\<rparr>"

definition ssz_non_zero_usize :: "nat ssz" where
  "ssz_non_zero_usize = (ssz_uint 8)\<lparr>ssz_get := (\<lambda>bytes. rbind (ssz_get (ssz_uint 8) bytes) (\<lambda>x.
     if x = 0 then Inl (Err ''BytesInvalid'') else Inr x))\<rparr>"

section \<open>Lists\<close>

text \<open>\<open>chunks\<close>: the last chunk may be shorter; a chunk size of zero panics.\<close>

function chunks_of :: "nat \<Rightarrow> 'a list \<Rightarrow> 'a list list" where
  "chunks_of k xs = (if k = 0 \<or> xs = [] then [] else take k xs # chunks_of k (drop k xs))"
  by pat_completeness auto
termination
  by (relation "measure (\<lambda>(k, xs). length xs)") auto

declare chunks_of.simps [simp del]

definition decode_list_step ::
    "(byte list \<Rightarrow> 'a res) \<Rightarrow> byte list \<Rightarrow> nat \<Rightarrow> nat \<Rightarrow> nat \<Rightarrow> nat \<times> 'a list \<Rightarrow> (nat \<times> 'a list) res" where
  "decode_list_step get bytes first_offset num_items i = (\<lambda>(off, values).
     rbind (if i = num_items then Inr (off, if off \<le> length bytes then Some (drop off bytes) else None)
            else rbind (slice_from bytes (i * BYTES_PER_LENGTH_OFFSET)) (\<lambda>rest.
                 rbind (read_offset rest) (\<lambda>next_offset.
                 rbind (sanitize_offset next_offset (Some off) (length bytes) (Some first_offset)) (\<lambda>next.
                 Inr (next, if off \<le> next \<and> next \<le> length bytes then Some (take (next - off) (drop off bytes)) else None)))))
       (\<lambda>(off, slice_option).
     rbind (ok_or (Err ''OutOfBoundsByte'') slice_option) (\<lambda>slice.
     rbind (get slice) (\<lambda>v. Inr (off, values @ [v])))))"

definition decode_list_of_variable_length_items :: "(byte list \<Rightarrow> 'a res) \<Rightarrow> byte list \<Rightarrow> nat option \<Rightarrow> 'a list res" where
  "decode_list_of_variable_length_items get bytes max_len =
     (if bytes = [] then Inr []
      else
        rbind (read_offset bytes) (\<lambda>first_offset.
        rbind (sanitize_offset first_offset None (length bytes) (Some first_offset)) (\<lambda>_.
        rbind (ensure (first_offset mod BYTES_PER_LENGTH_OFFSET = 0 \<and> BYTES_PER_LENGTH_OFFSET \<le> first_offset)
                 (Err ''InvalidListFixedBytesLen'')) (\<lambda>_.
        let num_items = first_offset div BYTES_PER_LENGTH_OFFSET in
        rbind (ensure (case max_len of Some m \<Rightarrow> num_items \<le> m | None \<Rightarrow> True) (Err ''BytesInvalid'')) (\<lambda>_.
        rbind (rfold (decode_list_step get bytes first_offset num_items) [1..<num_items + 1] (first_offset, [])) (\<lambda>(_, values).
        Inr values))))))"

definition ssz_vec :: "'a ssz \<Rightarrow> nat option \<Rightarrow> 'a list ssz" where
  "ssz_vec c max_len =
     \<lparr>ssz_is_fixed = False, ssz_fixed_len = BYTES_PER_LENGTH_OFFSET,
      ssz_put = (\<lambda>xs buf.
        if ssz_is_fixed c then fold (ssz_put c) xs buf
        else encoder_finalize (fold (\<lambda>x. append_parameterized False (ssz_put c x)) xs
               (encoder_container buf (length xs * BYTES_PER_LENGTH_OFFSET)))),
      ssz_bytes_len = (\<lambda>xs.
        if ssz_is_fixed c then ssz_fixed_len c * length xs
        else sum_list (map (ssz_bytes_len c) xs) + BYTES_PER_LENGTH_OFFSET * length xs),
      ssz_get = (\<lambda>bytes.
        if bytes = [] then Inr []
        else if ssz_is_fixed c then
          rbind (ensure (0 < ssz_fixed_len c) (Panic ''chunk size must be non-zero'')) (\<lambda>_.
          rmap (ssz_get c) (chunks_of (ssz_fixed_len c) bytes))
        else decode_list_of_variable_length_items (ssz_get c) bytes max_len)\<rparr>"

definition ssz_option :: "'a ssz \<Rightarrow> 'a option ssz" where
  "ssz_option c =
     \<lparr>ssz_is_fixed = False, ssz_fixed_len = BYTES_PER_LENGTH_OFFSET,
      ssz_put = (\<lambda>x buf. case x of None \<Rightarrow> buf @ [0] | Some y \<Rightarrow> ssz_put c y (buf @ [1])),
      ssz_bytes_len = (\<lambda>x. case x of None \<Rightarrow> 1 | Some y \<Rightarrow> ssz_bytes_len c y + 1),
      ssz_get = (\<lambda>bytes.
        rbind (split_union_bytes bytes) (\<lambda>(selector, body).
        if selector = 0 then Inr None
        else if selector = 1 then rbind (ssz_get c body) (\<lambda>x. Inr (Some x))
        else Inl (Err ''UnionSelectorInvalid'')))\<rparr>"

section \<open>Tuples\<close>

text \<open>
  The implementations for tuples: every field registers with its kind and length, and is encoded in order.
  Structs with derived implementations are encoded like the tuple of their fields.
\<close>

definition fields_fixed :: "(bool \<times> nat) list \<Rightarrow> bool" where
  "fields_fixed ts = list_all fst ts"

definition fields_len :: "(bool \<times> nat) list \<Rightarrow> nat" where
  "fields_len ts = (if fields_fixed ts then sum_list (map snd ts) else BYTES_PER_LENGTH_OFFSET)"

definition fields_put :: "((bool \<times> nat) \<times> (byte list \<Rightarrow> byte list)) list \<Rightarrow> byte list \<Rightarrow> byte list" where
  "fields_put fs buf =
     encoder_finalize (fold (\<lambda>(t, put). append_parameterized (fst t) put) fs
       (encoder_container buf (sum_list (map (snd \<circ> fst) fs))))"

definition fields_bytes_len :: "((bool \<times> nat) \<times> nat) list \<Rightarrow> nat" where
  "fields_bytes_len fs =
     (if fields_fixed (map fst fs) then fields_len (map fst fs)
      else sum_list (map (\<lambda>(t, n). if fst t then snd t else BYTES_PER_LENGTH_OFFSET + n) fs))"

definition fields_items :: "(bool \<times> nat) list \<Rightarrow> byte list \<Rightarrow> byte list list res" where
  "fields_items ts bytes = rbind (rfold register_type_parameterized ts (builder_new bytes)) builder_build"

definition ssz_kind :: "'a ssz \<Rightarrow> bool \<times> nat" where
  "ssz_kind c = (ssz_is_fixed c, ssz_fixed_len c)"

text \<open>
  The macros for tuples expand one field after the other: \<open>ssz_fields\<close> is what they collect for the fields
  of a tuple, \<open>ssz_container\<close> the codec that they generate from it.
\<close>

record 'a ssz_fields =
  sf_kinds :: "(bool \<times> nat) list"
  sf_puts :: "'a \<Rightarrow> ((bool \<times> nat) \<times> (byte list \<Rightarrow> byte list)) list"
  sf_lens :: "'a \<Rightarrow> ((bool \<times> nat) \<times> nat) list"
  sf_gets :: "byte list list \<Rightarrow> ('a \<times> byte list list) res"

definition last_field :: "'a ssz \<Rightarrow> 'a ssz_fields" where
  "last_field c =
     \<lparr>sf_kinds = [ssz_kind c], sf_puts = (\<lambda>x. [(ssz_kind c, ssz_put c x)]),
      sf_lens = (\<lambda>x. [(ssz_kind c, ssz_bytes_len c x)]), sf_gets = decode_next_with (ssz_get c)\<rparr>"

definition add_field :: "'a ssz \<Rightarrow> 'b ssz_fields \<Rightarrow> ('a \<times> 'b) ssz_fields" where
  "add_field c f =
     \<lparr>sf_kinds = ssz_kind c # sf_kinds f,
      sf_puts = (\<lambda>(x, y). (ssz_kind c, ssz_put c x) # sf_puts f y),
      sf_lens = (\<lambda>(x, y). (ssz_kind c, ssz_bytes_len c x) # sf_lens f y),
      sf_gets = (\<lambda>items.
        rbind (decode_next_with (ssz_get c) items) (\<lambda>(x, items).
        rbind (sf_gets f items) (\<lambda>(y, items). Inr ((x, y), items))))\<rparr>"

definition ssz_container :: "'a ssz_fields \<Rightarrow> 'a ssz" where
  "ssz_container f =
     \<lparr>ssz_is_fixed = fields_fixed (sf_kinds f), ssz_fixed_len = fields_len (sf_kinds f),
      ssz_put = (\<lambda>v. fields_put (sf_puts f v)),
      ssz_bytes_len = (\<lambda>v. fields_bytes_len (sf_lens f v)),
      ssz_get = (\<lambda>bytes.
        rbind (fields_items (sf_kinds f) bytes) (\<lambda>items.
        rbind (sf_gets f items) (\<lambda>(v, items). Inr v)))\<rparr>"

definition ssz_tuple2 :: "'a ssz \<Rightarrow> 'b ssz \<Rightarrow> ('a \<times> 'b) ssz" where
  "ssz_tuple2 a b = ssz_container (add_field a (last_field b))"

definition ssz_tuple3 :: "'a ssz \<Rightarrow> 'b ssz \<Rightarrow> 'c ssz \<Rightarrow> ('a \<times> 'b \<times> 'c) ssz" where
  "ssz_tuple3 a b c = ssz_container (add_field a (add_field b (last_field c)))"

definition ssz_tuple4 :: "'a ssz \<Rightarrow> 'b ssz \<Rightarrow> 'c ssz \<Rightarrow> 'd ssz \<Rightarrow> ('a \<times> 'b \<times> 'c \<times> 'd) ssz" where
  "ssz_tuple4 a b c d = ssz_container (add_field a (add_field b (add_field c (last_field d))))"

definition ssz_tuple7 :: "'a ssz \<Rightarrow> 'b ssz \<Rightarrow> 'c ssz \<Rightarrow> 'd ssz \<Rightarrow> 'e ssz \<Rightarrow> 'f ssz \<Rightarrow> 'g ssz \<Rightarrow>
    ('a \<times> 'b \<times> 'c \<times> 'd \<times> 'e \<times> 'f \<times> 'g) ssz" where
  "ssz_tuple7 a b c d e f g =
     ssz_container (add_field a (add_field b (add_field c (add_field d (add_field e (add_field f (last_field g)))))))"

lemmas ssz_tuple_defs =
  ssz_tuple2_def ssz_tuple3_def ssz_tuple4_def ssz_tuple7_def ssz_container_def add_field_def last_field_def

text \<open>The codec of a struct, derived as the tuple of its fields.\<close>

definition ssz_struct :: "('r \<Rightarrow> 'a) \<Rightarrow> ('a \<Rightarrow> 'r) \<Rightarrow> 'a ssz \<Rightarrow> 'r ssz" where
  "ssz_struct flds mk c =
     \<lparr>ssz_is_fixed = ssz_is_fixed c, ssz_fixed_len = ssz_fixed_len c, ssz_put = (\<lambda>x. ssz_put c (flds x)),
      ssz_bytes_len = (\<lambda>x. ssz_bytes_len c (flds x)), ssz_get = (\<lambda>bytes. rbind (ssz_get c bytes) (\<lambda>y. Inr (mk y)))\<rparr>"

end
