(* ===== verification/Ssz_Laws.thy ===== *)
theory Ssz_Laws
  imports Ssz
begin

text \<open>
  Laws of the SSZ codec: what a lawful codec is (locale \<open>ssz_codec\<close>), that containers and lists of lawful
  codecs are lawful, and that decoding never panics, whatever the bytes.
\<close>

section \<open>Little-endian numbers and offsets\<close>

lemma length_le_bytes [simp]: "length (le_bytes n x) = n"
  by (induction n arbitrary: x) auto

lemma of_le_bytes_le_bytes: "of_le_bytes (le_bytes n x) = x mod 256 ^ n"
proof (induction n arbitrary: x)
  case (Suc n)
  then show ?case by (simp add: unat_of_nat_byte mod_mult2_eq)
qed simp

lemma take_le_bytes: "k \<le> n \<Longrightarrow> take k (le_bytes n x) = le_bytes k x"
proof (induction k arbitrary: n x)
  case (Suc k)
  then show ?case by (cases n) auto
qed simp

lemma le_bytes_of_le_bytes: "le_bytes (length bs) (of_le_bytes bs) = bs"
proof (induction bs)
  case (Cons b bs)
  have "unat b < 256" using unsigned_less [of b] by simp
  then have "(unat b + 256 * of_le_bytes bs) div 256 = of_le_bytes bs" by simp
  moreover have "(256 :: byte) = 0" by simp
  then have "(of_nat (unat b + 256 * of_le_bytes bs) :: byte) = b" by (simp only: of_nat_add of_nat_mult of_nat_numeral) simp
  ultimately show ?case using Cons by simp
qed simp

lemma encode_length_eq: "encode_length n = le_bytes 4 n"
  by (simp add: encode_length_def take_le_bytes)

lemma read_encoded_offset [simp]: "n < 2 ^ 32 \<Longrightarrow> read_offset (encode_length n @ bs) = Inr n"
  by (simp add: read_offset_def decode_offset_def encode_length_eq of_le_bytes_le_bytes)

section \<open>Containers\<close>

text \<open>
  The encoding of a container whose fields have the given kinds and encodings: the head has the fixed fields
  and the offsets of the others, the tail the others.
\<close>

fun enc_head :: "nat \<Rightarrow> (bool \<times> byte list) list \<Rightarrow> byte list" where
  "enc_head off [] = []"
| "enc_head off ((f, bs) # fs) = (if f then bs else encode_length off) @ enc_head (if f then off else off + length bs) fs"

fun enc_tail :: "(bool \<times> byte list) list \<Rightarrow> byte list" where
  "enc_tail [] = []"
| "enc_tail ((f, bs) # fs) = (if f then [] else bs) @ enc_tail fs"

fun enc_offsets :: "nat \<Rightarrow> nat \<Rightarrow> (bool \<times> byte list) list \<Rightarrow> (nat \<times> nat) list" where
  "enc_offsets pos off [] = []"
| "enc_offsets pos off ((f, bs) # fs) =
     (if f then [] else [(pos, off)]) @ enc_offsets (pos + 1) (if f then off else off + length bs) fs"

abbreviation field_kind :: "bool \<times> byte list \<Rightarrow> bool \<times> nat" where
  "field_kind \<equiv> \<lambda>(f, bs). (f, if f then length bs else 4)"

abbreviation fixed_part :: "bool \<times> byte list \<Rightarrow> byte list" where
  "fixed_part \<equiv> \<lambda>(f, bs). if f then bs else []"

lemma fold_append_parameterized:
  "fold (\<lambda>(f, bs). append_parameterized f (\<lambda>buf. buf @ bs)) fs e =
     e\<lparr>enc_buf := enc_buf e @ enc_head (enc_offset e + length (enc_variable_bytes e)) fs,
       enc_variable_bytes := enc_variable_bytes e @ enc_tail fs\<rparr>"
  by (induction fs arbitrary: e) (auto simp: append_parameterized_def add.assoc)

lemma length_enc_head [simp]: "length (enc_head off fs) = sum_list (map (snd \<circ> field_kind) fs)"
  by (induction off fs rule: enc_head.induct) (auto simp: encode_length_eq)

lemma enc_offsets_head: "enc_offsets pos off fs = (p, k) # r \<Longrightarrow> k = off"
  by (induction pos off fs rule: enc_offsets.induct) (auto split: if_splits)

lemma enc_offsets_Nil: "enc_offsets pos off fs = [] \<Longrightarrow> enc_tail fs = [] \<and> map fixed_part fs = map snd fs"
  by (induction pos off fs rule: enc_offsets.induct) (auto split: if_splits)

lemma enc_offsets_fixed: "list_all fst fs \<Longrightarrow> enc_offsets pos off fs = []"
  by (induction pos off fs rule: enc_offsets.induct) auto

lemma register_fields:
  assumes "db_bytes b = pre @ enc_head off fs @ post" "db_items_index b = length pre"
    and "off + length (enc_tail fs) \<le> length (db_bytes b)" "length (db_bytes b) < 2 ^ 32"
    and "db_offsets b = [] \<or> snd (last (db_offsets b)) \<le> off"
  shows "rfold register_type_parameterized (map field_kind fs) b =
    Inr (b\<lparr>db_items := db_items b @ map fixed_part fs, db_offsets := db_offsets b @ enc_offsets (length (db_items b)) off fs,
           db_items_index := length pre + length (enc_head off fs)\<rparr>)"
  using assms
proof (induction fs arbitrary: b pre off)
  case (Cons field fs)
  obtain f bs where field: "field = (f, bs)" by (cases field)
  show ?case
  proof (cases f)
    case True
    let ?b = "b\<lparr>db_items_index := length pre + length bs, db_items := db_items b @ [bs]\<rparr>"
    have "register_type_parameterized (field_kind field) b = Inr ?b"
      using Cons.prems True by (simp add: register_type_parameterized_def field)
    moreover have "rfold register_type_parameterized (map field_kind fs) ?b =
      Inr (?b\<lparr>db_items := db_items ?b @ map fixed_part fs, db_offsets := db_offsets ?b @ enc_offsets (length (db_items ?b)) off fs,
           db_items_index := length (pre @ bs) + length (enc_head off fs)\<rparr>)"
      using Cons.prems True by (intro Cons.IH) (auto simp: field)
    ultimately show ?thesis using True by (simp add: field)
  next
    case False
    let ?b = "b\<lparr>db_offsets := db_offsets b @ [(length (db_items b), off)], db_items := db_items b @ [[]], db_items_index := length pre + 4\<rparr>"
    have "register_type_parameterized (field_kind field) b = Inr ?b"
      using Cons.prems False by (auto simp: register_type_parameterized_def field slice_from_def sanitize_offset_def split: option.split)
    moreover have "rfold register_type_parameterized (map field_kind fs) ?b =
      Inr (?b\<lparr>db_items := db_items ?b @ map fixed_part fs,
           db_offsets := db_offsets ?b @ enc_offsets (length (db_items ?b)) (off + length bs) fs,
           db_items_index := length (pre @ encode_length off) + length (enc_head (off + length bs) fs)\<rparr>)"
      using Cons.prems False by (intro Cons.IH) (auto simp: field encode_length_eq)
    ultimately show ?thesis using False by (simp add: field encode_length_eq)
  qed
qed simp

lemma fill_fields:
  assumes "drop off bytes = enc_tail fs" "off \<le> length bytes"
  shows "fill_items bytes (enc_offsets (length items) off fs) (items @ map fixed_part fs) = Inr (items @ map snd fs)"
  using assms
proof (induction fs arbitrary: off items)
  case (Cons field fs)
  obtain f bs where field: "field = (f, bs)" by (cases field)
  show ?case
  proof (cases f)
    case True
    then show ?thesis using Cons.IH [of off "items @ [bs]"] Cons.prems by (simp add: field)
  next
    case False
    have d: "drop off bytes = bs @ enc_tail fs" using Cons.prems(1) False by (simp add: field)
    have len: "length bytes - off = length bs + length (enc_tail fs)" using arg_cong [OF d, of length] by simp
    have "drop (length bs) (drop off bytes) = enc_tail fs" unfolding d by simp
    then have d': "drop (off + length bs) bytes = enc_tail fs" by (simp add: add.commute)
    have le: "off + length bs \<le> length bytes" using len Cons.prems(2) by linarith
    have IH: "fill_items bytes (enc_offsets (Suc (length items)) (off + length bs) fs) (items @ bs # map fixed_part fs) = Inr (items @ bs # map snd fs)"
      using Cons.IH [OF d' le, of "items @ [bs]"] by simp
    show ?thesis
    proof (cases "enc_offsets (Suc (length items)) (off + length bs) fs")
      case Nil
      then show ?thesis using False enc_offsets_Nil [OF Nil] Cons.prems(2) d
        by (simp add: field slice_from_def set_item_def list_update_append)
    next
      case (Cons a r)
      have "snd a = off + length bs" using enc_offsets_head Cons by (cases a) auto
      then show ?thesis using False IH le d unfolding Cons
        by (simp add: field slice_range_def set_item_def list_update_append Cons)
    qed
  qed
qed (simp add: fill_items.simps)

lemma fields_items_encoded:
  assumes "length (enc_head n fs @ enc_tail fs) < 2 ^ 32" "n = length (enc_head n fs)"
  shows "fields_items (map field_kind fs) (enc_head n fs @ enc_tail fs) = Inr (map snd fs)"
proof -
  let ?bytes = "enc_head n fs @ enc_tail fs"
  have total: "n + length (enc_tail fs) = length ?bytes" using assms(2) by simp
  have reg: "rfold register_type_parameterized (map field_kind fs) (builder_new ?bytes) =
      Inr \<lparr>db_bytes = ?bytes, db_items = map fixed_part fs, db_offsets = enc_offsets 0 n fs, db_items_index = n\<rparr>"
    using register_fields [of "builder_new ?bytes" "[]" n fs "enc_tail fs"] assms total by (simp add: builder_new_def)
  have fill: "fill_items ?bytes (enc_offsets 0 n fs) (map fixed_part fs) = Inr (map snd fs)"
    using fill_fields [of n ?bytes fs "[]"] assms(2) by simp
  show ?thesis
  proof (cases "enc_offsets 0 n fs")
    case Nil
    then show ?thesis using reg enc_offsets_Nil [OF Nil] total by (simp add: fields_items_def builder_build_def builder_finalize_def)
  next
    case (Cons a r)
    then have "snd a = n" using enc_offsets_head by (cases a) auto
    then show ?thesis using reg fill Cons by (simp add: fields_items_def builder_build_def builder_finalize_def)
  qed
qed

section \<open>Lawful codecs\<close>

text \<open>
  A codec is lawful for the values \<open>V\<close> when encoding appends to the buffer, a fixed length is kept and
  positive, a variable one takes an offset in its container, and decoding undoes encoding.
\<close>

locale ssz_codec =
  fixes c :: "'a ssz" and V :: "'a \<Rightarrow> bool"
  assumes put_append: "ssz_put c x buf = buf @ as_ssz_bytes c x"
    and fixed_length: "ssz_is_fixed c \<Longrightarrow> V x \<Longrightarrow> length (as_ssz_bytes c x) = ssz_fixed_len c"
    and variable_length: "\<not> ssz_is_fixed c \<Longrightarrow> ssz_fixed_len c = 4"
    and positive_length: "0 < ssz_fixed_len c"
    and round_trip: "V x \<Longrightarrow> ssz_get c (as_ssz_bytes c x) = Inr x"
begin

abbreviation field :: "'a \<Rightarrow> bool \<times> byte list" where
  "field x \<equiv> (ssz_is_fixed c, as_ssz_bytes c x)"

lemma kind_field: "V x \<Longrightarrow> ssz_kind c = field_kind (field x)"
  by (simp add: ssz_kind_def fixed_length variable_length)

lemma put_field: "ssz_put c x = (\<lambda>buf. buf @ as_ssz_bytes c x)"
  by (rule ext) (rule put_append)

end

lemma ssz_uint_codec: "0 < n \<Longrightarrow> ssz_codec (ssz_uint n) (\<lambda>x. x < 256 ^ n)"
  by unfold_locales (auto simp: ssz_uint_def as_ssz_bytes_def of_le_bytes_le_bytes)

lemma ssz_bool_codec: "ssz_codec ssz_bool (\<lambda>_. True)"
  by unfold_locales (auto simp: ssz_bool_def as_ssz_bytes_def)

lemma ssz_byte_array_codec: "0 < n \<Longrightarrow> ssz_codec (ssz_byte_array n) (\<lambda>x. length x = n)"
  by unfold_locales (auto simp: ssz_byte_array_def as_ssz_bytes_def)

lemma ssz_non_zero_usize_codec: "ssz_codec ssz_non_zero_usize (\<lambda>x. 0 < x \<and> x < 256 ^ 8)"
  by unfold_locales (auto simp: ssz_non_zero_usize_def ssz_uint_def as_ssz_bytes_def of_le_bytes_le_bytes)

interpretation u64: ssz_codec "ssz_uint 8" "\<lambda>x. x < 256 ^ 8"
  by (rule ssz_uint_codec) simp

interpretation u16: ssz_codec "ssz_uint 2" "\<lambda>x. x < 256 ^ 2"
  by (rule ssz_uint_codec) simp

interpretation h256: ssz_codec "ssz_byte_array 32" "\<lambda>x. length x = 32"
  by (rule ssz_byte_array_codec) simp

text \<open>Options of a lawful codec.\<close>

lemma ssz_option_codec:
  assumes "ssz_codec c V"
  shows "ssz_codec (ssz_option c) (\<lambda>x. case x of None \<Rightarrow> True | Some y \<Rightarrow> V y)"
proof -
  note put = ssz_codec.put_append [OF assms] and rt = ssz_codec.round_trip [OF assms]
  show ?thesis
  proof
    show "ssz_put (ssz_option c) x buf = buf @ as_ssz_bytes (ssz_option c) x" for x buf
      unfolding as_ssz_bytes_def ssz_option_def by (cases x) (auto simp: put)
    show "ssz_get (ssz_option c) (as_ssz_bytes (ssz_option c) x) = Inr x" if "case x of None \<Rightarrow> True | Some y \<Rightarrow> V y" for x
      using that unfolding as_ssz_bytes_def ssz_option_def
      by (cases x) (auto simp: put rt split_union_bytes_def union_selector_new_def)
  qed (simp_all add: ssz_option_def)
qed

section \<open>Tuples\<close>

lemma fields_put_eq:
  assumes "\<forall>(t, put) \<in> set fs. \<exists>bs. put = (\<lambda>buf. buf @ bs)"
  shows "fields_put fs buf = buf @ enc_head (sum_list (map (snd \<circ> fst) fs)) (map (\<lambda>(t, put). (fst t, put [])) fs) @
    enc_tail (map (\<lambda>(t, put). (fst t, put [])) fs)"
proof -
  have "fold (\<lambda>(t, put). append_parameterized (fst t) put) fs e =
      fold (\<lambda>(f, bs). append_parameterized f (\<lambda>buf. buf @ bs)) (map (\<lambda>(t, put). (fst t, put [])) fs) e" for e
    using assms by (induction fs arbitrary: e) auto
  then show ?thesis by (simp add: fields_put_def encoder_finalize_def encoder_container_def fold_append_parameterized)
qed

text \<open>The bytes of a container, and reading its items back.\<close>

definition container_bytes :: "(bool \<times> byte list) list \<Rightarrow> byte list" where
  "container_bytes fs = enc_head (sum_list (map (snd \<circ> field_kind) fs)) fs @ enc_tail fs"

lemma fields_items_container:
  "length (container_bytes fs) < 2 ^ 32 \<Longrightarrow> fields_items (map field_kind fs) (container_bytes fs) = Inr (map snd fs)"
  unfolding container_bytes_def by (rule fields_items_encoded) simp_all

lemma length_container_fixed:
  "list_all fst fs \<Longrightarrow> length (container_bytes fs) = sum_list (map (snd \<circ> field_kind) fs)"
proof -
  assume "list_all fst fs"
  then have "enc_tail fs = []" using enc_offsets_Nil enc_offsets_fixed by blast
  then show ?thesis by (simp add: container_bytes_def)
qed

lemma fields_put_append:
  assumes "\<forall>(t, put) \<in> set fs. \<exists>bs. put = (\<lambda>buf. buf @ bs)"
  shows "fields_put fs buf = buf @ fields_put fs []"
  using fields_put_eq [OF assms, of buf] fields_put_eq [OF assms, of "[]"] by simp

lemma enc_field_le: "(b, bs) \<in> set fs \<Longrightarrow> length bs \<le> length (enc_head n fs @ enc_tail fs)"
  by (induction n fs rule: enc_head.induct) fastforce+

text \<open>Lawful fields: each is appended as its bytes, and they are read back one after the other.\<close>

abbreviation encs :: "'a ssz_fields \<Rightarrow> 'a \<Rightarrow> (bool \<times> byte list) list" where
  "encs f v \<equiv> map (\<lambda>(t, put). (fst t, put [])) (sf_puts f v)"

locale ssz_fields_codec =
  fixes f :: "'a ssz_fields" and V :: "'a \<Rightarrow> bool"
  assumes puts: "\<forall>(t, put) \<in> set (sf_puts f v). \<exists>bs. put = (\<lambda>buf. buf @ bs)"
    and kinds: "map fst (sf_puts f v) = sf_kinds f"
    and field_kinds: "V v \<Longrightarrow> sf_kinds f = map field_kind (encs f v)"
    and gets: "V v \<Longrightarrow> sf_gets f (map snd (encs f v) @ rest) = Inr (v, rest)"
    and first_kind: "\<exists>k ks. sf_kinds f = k # ks \<and> 0 < snd k"
begin

lemma container_put: "ssz_put (ssz_container f) v buf = buf @ as_ssz_bytes (ssz_container f) v"
  unfolding ssz_container_def as_ssz_bytes_def by (simp add: fields_put_append [OF puts, of v buf])

text \<open>A field is not longer than its container.\<close>

lemma field_le: "put \<in> snd ` set (sf_puts f v) \<Longrightarrow> length (put []) \<le> length (as_ssz_bytes (ssz_container f) v)"
proof -
  assume "put \<in> snd ` set (sf_puts f v)"
  then obtain t where "(t, put) \<in> set (sf_puts f v)" by force
  then have "(fst t, put []) \<in> set (encs f v)" by force
  from enc_field_le [OF this] show ?thesis
    unfolding as_ssz_bytes_def ssz_container_def by (simp add: fields_put_eq [OF puts])
qed

lemma container_encoding: "V v \<Longrightarrow> as_ssz_bytes (ssz_container f) v = container_bytes (encs f v)"
proof -
  assume V: "V v"
  have "map (snd \<circ> fst) (sf_puts f v) = map snd (sf_kinds f)" unfolding kinds [of v, symmetric] by simp
  also have "\<dots> = map (snd \<circ> field_kind) (encs f v)" unfolding field_kinds [OF V] by simp
  finally have "sum_list (map (snd \<circ> fst) (sf_puts f v)) = sum_list (map (snd \<circ> field_kind) (encs f v))"
    by (rule arg_cong [of _ _ sum_list])
  then show ?thesis
    unfolding as_ssz_bytes_def ssz_container_def container_bytes_def by (simp add: fields_put_eq [OF puts] comp_def)
qed

lemma container_codec:
  "ssz_codec (ssz_container f) (\<lambda>v. V v \<and> length (as_ssz_bytes (ssz_container f) v) < 2 ^ 32)"
proof
  fix v assume v: "V v \<and> length (as_ssz_bytes (ssz_container f) v) < 2 ^ 32"
  then have V: "V v" by simp
  have len: "length (container_bytes (encs f v)) < 2 ^ 32" using v container_encoding [OF V] by simp
  show "ssz_get (ssz_container f) (as_ssz_bytes (ssz_container f) v) = Inr v"
    unfolding container_encoding [OF V] using fields_items_container [OF len, folded field_kinds [OF V]] gets [OF V, of "[]"]
    by (simp add: ssz_container_def)
  show "length (as_ssz_bytes (ssz_container f) v) = ssz_fixed_len (ssz_container f)" if "ssz_is_fixed (ssz_container f)"
  proof -
    have fx: "fields_fixed (sf_kinds f)" using that by (simp add: ssz_container_def)
    then have "list_all fst (encs f v)" unfolding field_kinds [OF V] by (simp add: fields_fixed_def list_all_iff case_prod_unfold)
    then show ?thesis
      unfolding container_encoding [OF V] using length_container_fixed fx field_kinds [OF V]
      by (simp add: ssz_container_def fields_len_def comp_def)
  qed
qed (use first_kind container_put in \<open>auto simp: ssz_container_def fields_len_def\<close>)

end

lemma last_field_codec:
  assumes "ssz_codec c V"
  shows "ssz_fields_codec (last_field c) V"
proof -
  note c = ssz_codec.put_field [OF assms] ssz_codec.kind_field [OF assms] ssz_codec.round_trip [OF assms]
    ssz_codec.positive_length [OF assms]
  show ?thesis by unfold_locales (auto simp: last_field_def decode_next_with_def ssz_kind_def c dest: ssz_codec.kind_field [OF assms])
qed

lemma add_field_codec:
  assumes "ssz_codec c V" "ssz_fields_codec f W"
  shows "ssz_fields_codec (add_field c f) (\<lambda>(x, y). V x \<and> W y)"
proof -
  note c = ssz_codec.put_field [OF assms(1)] ssz_codec.kind_field [OF assms(1)] ssz_codec.round_trip [OF assms(1)]
    ssz_codec.positive_length [OF assms(1)]
  note f = ssz_fields_codec.puts [OF assms(2)] ssz_fields_codec.kinds [OF assms(2)] ssz_fields_codec.field_kinds [OF assms(2)]
    ssz_fields_codec.gets [OF assms(2)]
  show ?thesis
  proof
    show "\<forall>(t, put) \<in> set (sf_puts (add_field c f) v). \<exists>bs. put = (\<lambda>buf. buf @ bs)" for v
      using f(1) by (cases v) (auto simp: add_field_def c(1))
    show "map fst (sf_puts (add_field c f) v) = sf_kinds (add_field c f)" for v
      by (cases v) (simp add: add_field_def f(2))
    show "\<exists>k ks. sf_kinds (add_field c f) = k # ks \<and> 0 < snd k"
      using c(4) by (simp add: add_field_def ssz_kind_def)
    fix v assume v: "case v of (x, y) \<Rightarrow> V x \<and> W y"
    show "sf_kinds (add_field c f) = map field_kind (encs (add_field c f) v)"
      using v f(3) by (cases v) (auto simp: add_field_def c)
    show "sf_gets (add_field c f) (map snd (encs (add_field c f) v) @ rest) = Inr (v, rest)" for rest
      using v f(4) by (cases v) (auto simp: add_field_def c decode_next_with_def)
  qed
qed

lemma ssz_codec_mono: "ssz_codec c V \<Longrightarrow> (\<And>x. W x \<Longrightarrow> V x) \<Longrightarrow> ssz_codec c W"
  by (simp add: ssz_codec_def)

lemma ssz_tuple2_codec:
  assumes "ssz_codec a V1" "ssz_codec b V2"
  shows "ssz_codec (ssz_tuple2 a b) (\<lambda>(x, y). V1 x \<and> V2 y \<and> length (as_ssz_bytes (ssz_tuple2 a b) (x, y)) < 2 ^ 32)"
  unfolding ssz_tuple2_def
  by (rule ssz_codec_mono [OF ssz_fields_codec.container_codec [OF add_field_codec [OF assms(1) last_field_codec [OF assms(2)]]]])
    auto

interpretation progress_fields: ssz_fields_codec "add_field (ssz_uint 8) (last_field (ssz_byte_array 32))"
  "\<lambda>(x, y). x < 256 ^ 8 \<and> length y = 32"
  by (rule add_field_codec [OF u64.ssz_codec_axioms last_field_codec [OF h256.ssz_codec_axioms]])

lemma ssz_tuple3_codec:
  assumes "ssz_codec a V1" "ssz_codec b V2" "ssz_codec c V3"
  shows "ssz_codec (ssz_tuple3 a b c) (\<lambda>(x, y, z). V1 x \<and> V2 y \<and> V3 z \<and> length (as_ssz_bytes (ssz_tuple3 a b c) (x, y, z)) < 2 ^ 32)"
  unfolding ssz_tuple3_def
  by (rule ssz_codec_mono [OF ssz_fields_codec.container_codec
        [OF add_field_codec [OF assms(1) add_field_codec [OF assms(2) last_field_codec [OF assms(3)]]]]])
    auto

lemma ssz_tuple4_codec:
  assumes "ssz_codec a V1" "ssz_codec b V2" "ssz_codec c V3" "ssz_codec d V4"
  shows "ssz_codec (ssz_tuple4 a b c d) (\<lambda>(x, y, z, w). V1 x \<and> V2 y \<and> V3 z \<and> V4 w \<and> length (as_ssz_bytes (ssz_tuple4 a b c d) (x, y, z, w)) < 2 ^ 32)"
  unfolding ssz_tuple4_def
  by (rule ssz_codec_mono [OF ssz_fields_codec.container_codec
        [OF add_field_codec [OF assms(1) add_field_codec [OF assms(2) add_field_codec [OF assms(3) last_field_codec [OF assms(4)]]]]]])
    auto

lemma ssz_tuple7_codec:
  assumes "ssz_codec a V1" "ssz_codec b V2" "ssz_codec c V3" "ssz_codec d V4" "ssz_codec e V5" "ssz_codec f V6" "ssz_codec g V7"
  shows "ssz_codec (ssz_tuple7 a b c d e f g)
    (\<lambda>(x1, x2, x3, x4, x5, x6, x7). V1 x1 \<and> V2 x2 \<and> V3 x3 \<and> V4 x4 \<and> V5 x5 \<and> V6 x6 \<and> V7 x7 \<and>
       length (as_ssz_bytes (ssz_tuple7 a b c d e f g) (x1, x2, x3, x4, x5, x6, x7)) < 2 ^ 32)"
  unfolding ssz_tuple7_def
  by (rule ssz_codec_mono [OF ssz_fields_codec.container_codec
        [OF add_field_codec [OF assms(1) add_field_codec [OF assms(2) add_field_codec [OF assms(3) add_field_codec
          [OF assms(4) add_field_codec [OF assms(5) add_field_codec [OF assms(6) last_field_codec [OF assms(7)]]]]]]]]])
    auto

lemma ssz_struct_sel [simp]:
  "ssz_is_fixed (ssz_struct flds mk c) = ssz_is_fixed c" "ssz_fixed_len (ssz_struct flds mk c) = ssz_fixed_len c"
  "ssz_put (ssz_struct flds mk c) x = ssz_put c (flds x)" "as_ssz_bytes (ssz_struct flds mk c) x = as_ssz_bytes c (flds x)"
  "ssz_get (ssz_struct flds mk c) bytes = rbind (ssz_get c bytes) (\<lambda>y. Inr (mk y))"
  by (simp_all add: ssz_struct_def as_ssz_bytes_def)

lemma ssz_struct_codec:
  assumes "ssz_codec c V" "\<And>x. mk (flds x) = x"
  shows "ssz_codec (ssz_struct flds mk c) (\<lambda>x. V (flds x))"
  by unfold_locales
    (simp_all add: assms(2) ssz_codec.put_append [OF assms(1)] ssz_codec.variable_length [OF assms(1)]
      ssz_codec.positive_length [OF assms(1)] ssz_codec.round_trip [OF assms(1)] ssz_codec.fixed_length [OF assms(1)])

section \<open>Lists\<close>

lemma chunks_of_concat:
  assumes "0 < k" "\<forall>bs \<in> set bss. length bs = k"
  shows "chunks_of k (concat bss) = bss"
  using assms(2)
proof (induction bss)
  case (Cons bs bss)
  then show ?case using assms(1) by (subst chunks_of.simps) auto
qed (simp add: chunks_of.simps)

lemma enc_tail_variable [simp]: "enc_tail (map (\<lambda>x. (False, f x)) xs) = concat (map f xs)"
  by (induction xs) auto

context ssz_codec
begin

abbreviation items :: "'a list \<Rightarrow> (bool \<times> byte list) list" where
  "items xs \<equiv> map (\<lambda>x. (False, as_ssz_bytes c x)) xs"

lemma vec_put:
  "ssz_put (ssz_vec c m) xs buf =
     buf @ (if ssz_is_fixed c then concat (map (as_ssz_bytes c) xs) else enc_head (4 * length xs) (items xs) @ enc_tail (items xs))"
proof -
  have "fold (ssz_put c) xs buf = buf @ concat (map (as_ssz_bytes c) xs)" for buf
    by (induction xs arbitrary: buf) (simp_all add: put_append)
  moreover have "fold (\<lambda>x. append_parameterized False (ssz_put c x)) xs e =
      fold (\<lambda>(f, bs). append_parameterized f (\<lambda>buf. buf @ bs)) (items xs) e" for e
    by (induction xs arbitrary: e) (simp_all add: put_field)
  ultimately show ?thesis
    by (simp add: ssz_vec_def encoder_finalize_def encoder_container_def fold_append_parameterized mult.commute)
qed

text \<open>The loop of the list decoder, from the items \<open>ys\<close> that it has on.\<close>

lemma decode_list_loop:
  assumes "zs \<noteq> []" "\<forall>z \<in> set zs. V z" "n = length ys + length zs"
    and "drop (4 * length ys) bytes = enc_head off (items zs) @ post" "drop off bytes = enc_tail (items zs)"
    and "off \<le> length bytes" "length bytes < 2 ^ 32" "first \<le> off"
  shows "\<exists>k. rfold (decode_list_step (ssz_get c) bytes first n) [length ys + 1..<n + 1] (off, ys) = Inr (k, ys @ zs)"
  using assms
proof (induction zs arbitrary: ys off)
  case (Cons z zs)
  let ?b = "as_ssz_bytes c z"
  have z: "ssz_get c ?b = Inr z" using Cons.prems(2) by (simp add: round_trip)
  have upt: "[length ys + 1..<n + 1] = (length ys + 1) # [length (ys @ [z]) + 1..<n + 1]"
    using Cons.prems(3) by (simp add: upt_conv_Cons del: upt_Suc)
  show ?case
  proof (cases "zs = []")
    case True
    then have "decode_list_step (ssz_get c) bytes first n (length ys + 1) (off, ys) = Inr (off, ys @ [z])"
      using Cons.prems z by (simp add: decode_list_step_def)
    then show ?thesis unfolding upt using True Cons.prems(3) by simp
  next
    case False
    have tail: "drop (off + length ?b) bytes = enc_tail (items zs)"
      using arg_cong [OF Cons.prems(5), of "drop (length ?b)"] by (simp add: add.commute)
    have len: "off + length ?b \<le> length bytes" using arg_cong [OF Cons.prems(5), of length] Cons.prems(6) by simp
    have head: "drop (4 * length (ys @ [z])) bytes = enc_head (off + length ?b) (items zs) @ post"
      using arg_cong [OF Cons.prems(4), of "drop 4"] by (simp add: encode_length_eq add.commute)
    obtain w ws where zs: "zs = w # ws" using False by (cases zs) auto
    have four: "4 * length ys + 4 \<le> length bytes"
      using arg_cong [OF head, of length] unfolding zs by (simp add: encode_length_eq)
    have "read_offset (drop (4 * length (ys @ [z])) bytes) = Inr (off + length ?b)"
      unfolding head zs using len Cons.prems(7) by simp
    then have "decode_list_step (ssz_get c) bytes first n (length ys + 1) (off, ys) = Inr (off + length ?b, ys @ [z])"
      using Cons.prems(3,5,8) len four z False
      by (simp add: decode_list_step_def slice_from_def sanitize_offset_def mult.commute)
    moreover have "\<exists>k. rfold (decode_list_step (ssz_get c) bytes first n) [length (ys @ [z]) + 1..<n + 1] (off + length ?b, ys @ [z]) =
        Inr (k, (ys @ [z]) @ zs)"
      using Cons.prems False by (intro Cons.IH [OF _ _ _ head tail len]) auto
    ultimately show ?thesis unfolding upt by simp
  qed
qed simp

lemma decode_encoded_list:
  assumes V: "\<forall>x \<in> set xs. V x" and len: "length (enc_head (4 * length xs) (items xs) @ enc_tail (items xs)) < 2 ^ 32"
    and m: "case m of None \<Rightarrow> True | Some k \<Rightarrow> length xs \<le> k"
  shows "decode_list_of_variable_length_items (ssz_get c) (enc_head (4 * length xs) (items xs) @ enc_tail (items xs)) m = Inr xs"
proof (cases xs)
  case Nil
  then show ?thesis by (simp add: decode_list_of_variable_length_items_def)
next
  case (Cons y ys)
  let ?n = "length xs" and ?bytes = "enc_head (4 * length xs) (items xs) @ enc_tail (items xs)"
  have n: "0 < ?n" using Cons by simp
  have hl: "length (enc_head (4 * ?n) (items xs)) = 4 * ?n" by (simp add: comp_def sum_list_triv)
  have "read_offset ?bytes = Inr (4 * ?n)"
    using len hl unfolding Cons by (simp add: comp_def sum_list_triv)
  moreover have "?bytes \<noteq> []" using hl n by (metis append_is_Nil_conv length_0_conv mult_is_0 not_gr0 zero_neq_numeral)
  moreover obtain k where "rfold (decode_list_step (ssz_get c) ?bytes (4 * ?n) ?n) [1..<?n + 1] (4 * ?n, []) = Inr (k, xs)"
    using decode_list_loop [of xs ?n "[]" ?bytes "4 * ?n" "enc_tail (items xs)" "4 * ?n"] n V len hl by auto
  ultimately show ?thesis
    using m hl n by (cases m) (simp_all add: decode_list_of_variable_length_items_def sanitize_offset_def Let_def ensure_def Suc_le_eq del: upt_Suc)
qed

text \<open>A list of items of a fixed length has no offsets, so its length is not limited.\<close>

lemma vec_fixed_round_trip:
  assumes "ssz_is_fixed c" and xs: "\<forall>x \<in> set xs. V x"
  shows "ssz_get (ssz_vec c m) (as_ssz_bytes (ssz_vec c m) xs) = Inr xs"
proof -
  have bytes: "as_ssz_bytes (ssz_vec c m) xs = concat (map (as_ssz_bytes c) xs)"
    unfolding as_ssz_bytes_def [of "ssz_vec c m"] vec_put using assms(1) by simp
  have "chunks_of (ssz_fixed_len c) (concat (map (as_ssz_bytes c) xs)) = map (as_ssz_bytes c) xs"
    using assms by (intro chunks_of_concat positive_length) (auto simp: fixed_length)
  moreover have "rmap (ssz_get c) (map (as_ssz_bytes c) ys) = Inr ys" if "\<forall>y \<in> set ys. V y" for ys
    using that by (induction ys) (auto simp: round_trip)
  moreover have "concat (map (as_ssz_bytes c) xs) = [] \<Longrightarrow> xs = []"
    using assms fixed_length positive_length by (cases xs) fastforce+
  ultimately show ?thesis unfolding bytes using assms positive_length by (auto simp: ssz_vec_def)
qed

lemma vec_codec:
  "ssz_codec (ssz_vec c m) (\<lambda>xs. (\<forall>x \<in> set xs. V x) \<and> length (as_ssz_bytes (ssz_vec c m) xs) < 2 ^ 32 \<and>
     (case m of None \<Rightarrow> True | Some k \<Rightarrow> length xs \<le> k))"
proof
  show "ssz_put (ssz_vec c m) xs buf = buf @ as_ssz_bytes (ssz_vec c m) xs" for xs buf
    unfolding as_ssz_bytes_def [of "ssz_vec c m"] vec_put by simp
  fix xs
  assume xs: "(\<forall>x \<in> set xs. V x) \<and> length (as_ssz_bytes (ssz_vec c m) xs) < 2 ^ 32 \<and>
     (case m of None \<Rightarrow> True | Some k \<Rightarrow> length xs \<le> k)"
  show "ssz_get (ssz_vec c m) (as_ssz_bytes (ssz_vec c m) xs) = Inr xs"
  proof (cases "ssz_is_fixed c")
    case True
    then show ?thesis using xs by (intro vec_fixed_round_trip) auto
  next
    case False
    have bytes: "as_ssz_bytes (ssz_vec c m) xs = enc_head (4 * length xs) (items xs) @ enc_tail (items xs)"
      unfolding as_ssz_bytes_def [of "ssz_vec c m"] vec_put using False by simp
    have "decode_list_of_variable_length_items (ssz_get c) (as_ssz_bytes (ssz_vec c m) xs) m = Inr xs"
      unfolding bytes using xs unfolding bytes by (intro decode_encoded_list) auto
    then show ?thesis using False by (auto simp: ssz_vec_def decode_list_of_variable_length_items_def split: if_splits)
  qed
qed (simp_all add: ssz_vec_def)

end
end
