(* ===== verification/Tx_Codec.thy ===== *)
theory Tx_Codec
  imports Shared_Types Ssz_Laws
begin

text \<open>
  The stored and hashed form of a transaction: the SSZ codec derived for \<open>Transaction\<close> of
  \<open>node/shared_types/src/lib.rs\<close>, and \<open>Transaction::hash\<close>, \<open>Transaction::id\<close> over it.
\<close>

section \<open>Codec\<close>

definition ssz_u8 :: "byte ssz" where
  "ssz_u8 = ssz_struct unat of_nat (ssz_uint 1)"

definition ssz_transaction :: "transaction ssz" where
  "ssz_transaction =
     ssz_struct
       (\<lambda>tx. (stream_ids tx, tx_data tx, data_merkle_root tx, merkle_nodes tx, start_entry_index tx, tx_size tx, tx_seq tx))
       (\<lambda>(ids, d, r, nodes, start, size, seq).
          \<lparr>stream_ids = ids, tx_data = d, data_merkle_root = r, merkle_nodes = nodes, start_entry_index = start,
           tx_size = size, tx_seq = seq\<rparr>)
       (ssz_tuple7 (ssz_vec (ssz_uint 32) None) (ssz_vec ssz_u8 None) (ssz_byte_array 32)
          (ssz_vec (ssz_tuple2 (ssz_uint 8) (ssz_byte_array 32)) None) (ssz_uint 8) (ssz_uint 8) (ssz_uint 8))"

record tx_id =
  id_seq :: nat
  id_hash :: h256

definition transaction_hash :: "(byte list \<Rightarrow> h256) \<Rightarrow> transaction \<Rightarrow> h256" where
  "transaction_hash keccak tx = keccak (as_ssz_bytes ssz_transaction tx)"

definition transaction_id :: "(byte list \<Rightarrow> h256) \<Rightarrow> transaction \<Rightarrow> tx_id" where
  "transaction_id keccak tx = \<lparr>id_seq = tx_seq tx, id_hash = transaction_hash keccak tx\<rparr>"

section \<open>Laws\<close>

text \<open>The values of the Rust type whose encoding fits the 32-bit offsets of the format.\<close>

definition wf_transaction :: "transaction \<Rightarrow> bool" where
  "wf_transaction tx \<longleftrightarrow>
     (\<forall>i \<in> set (stream_ids tx). i < 256 ^ 32) \<and> length (data_merkle_root tx) = 32 \<and>
     (\<forall>(d, r) \<in> set (merkle_nodes tx). d < 256 ^ 8 \<and> length r = 32) \<and>
     start_entry_index tx < 256 ^ 8 \<and> tx_size tx < 256 ^ 8 \<and> tx_seq tx < 256 ^ 8 \<and>
     length (as_ssz_bytes ssz_transaction tx) < 2 ^ 32"

lemma ssz_u8_codec: "ssz_codec ssz_u8 (\<lambda>_. True)"
proof -
  have "unat w < 256 ^ 1" for w :: byte using unsigned_less [of w] by simp
  then have "ssz_codec ssz_u8 (\<lambda>w. unat w < 256 ^ 1)"
    unfolding ssz_u8_def by (intro ssz_struct_codec ssz_uint_codec) simp_all
  then show ?thesis using \<open>\<And>w. unat w < 256 ^ 1\<close> by (rule ssz_codec_mono)
qed

interpretation tx_byte: ssz_codec ssz_u8 "\<lambda>_. True"
  by (rule ssz_u8_codec)

interpretation u256: ssz_codec "ssz_uint 32" "\<lambda>x. x < 256 ^ 32"
  by (rule ssz_uint_codec) simp

interpretation tx_node: ssz_codec "ssz_tuple2 (ssz_uint 8) (ssz_byte_array 32)" "\<lambda>(d, r). d < 256 ^ 8 \<and> length r = 32"
proof -
  have "length (as_ssz_bytes (ssz_tuple2 (ssz_uint 8) (ssz_byte_array 32)) (d, r)) < 2 ^ 32"
    if "d < 256 ^ 8" "length r = 32" for d r
    using that by (simp add: as_ssz_bytes_def ssz_tuple_defs fields_put_def encoder_finalize_def encoder_container_def
        append_parameterized_def ssz_kind_def ssz_uint_def ssz_byte_array_def)
  then show "ssz_codec (ssz_tuple2 (ssz_uint 8) (ssz_byte_array 32)) (\<lambda>(d, r). d < 256 ^ 8 \<and> length r = 32)"
    by (intro ssz_codec_mono [OF ssz_tuple2_codec [OF u64.ssz_codec_axioms h256.ssz_codec_axioms]]) auto
qed

text \<open>The lists of a transaction are not longer than its encoding.\<close>

lemma transaction_field_le:
  shows "length (as_ssz_bytes (ssz_vec (ssz_uint 32) None) (stream_ids tx)) \<le> length (as_ssz_bytes ssz_transaction tx)"
    and "length (as_ssz_bytes (ssz_vec ssz_u8 None) (tx_data tx)) \<le> length (as_ssz_bytes ssz_transaction tx)"
    and "length (as_ssz_bytes (ssz_vec (ssz_tuple2 (ssz_uint 8) (ssz_byte_array 32)) None) (merkle_nodes tx)) \<le>
      length (as_ssz_bytes ssz_transaction tx)"
  unfolding as_ssz_bytes_def [of "ssz_vec _ _"] ssz_transaction_def ssz_struct_sel ssz_tuple7_def
  by (rule ssz_fields_codec.field_le [OF add_field_codec [OF u256.vec_codec add_field_codec [OF tx_byte.vec_codec add_field_codec
        [OF h256.ssz_codec_axioms add_field_codec [OF tx_node.vec_codec add_field_codec [OF u64.ssz_codec_axioms add_field_codec
        [OF u64.ssz_codec_axioms last_field_codec [OF u64.ssz_codec_axioms]]]]]]]], simp add: add_field_def last_field_def)+

interpretation tx_codec: ssz_codec ssz_transaction wf_transaction
proof -
  note tuple = ssz_tuple7_codec [OF u256.vec_codec [of None] tx_byte.vec_codec [of None] h256.ssz_codec_axioms
      tx_node.vec_codec [of None] u64.ssz_codec_axioms u64.ssz_codec_axioms u64.ssz_codec_axioms]
  have le: "length (as_ssz_bytes (ssz_vec (ssz_uint 32) None) (stream_ids tx)) < 2 ^ 32"
    "length (as_ssz_bytes (ssz_vec ssz_u8 None) (tx_data tx)) < 2 ^ 32"
    "length (as_ssz_bytes (ssz_vec (ssz_tuple2 (ssz_uint 8) (ssz_byte_array 32)) None) (merkle_nodes tx)) < 2 ^ 32"
    if "wf_transaction tx" for tx
    using that transaction_field_le [of tx] by (auto simp: wf_transaction_def intro: le_less_trans)
  show "ssz_codec ssz_transaction wf_transaction"
    unfolding ssz_transaction_def
  proof (rule ssz_codec_mono [OF ssz_struct_codec [OF tuple]], goal_cases)
    case (2 tx)
    then show ?case using le [OF 2] by (auto simp: wf_transaction_def ssz_transaction_def)
  qed auto
qed

end
