(* ===== verification/Tx_Store.thy ===== *)
theory Tx_Store
  imports Kv_Store Tx_Codec Log_Helpers "HOL-Library.AList"
begin

text \<open>
  The store of transactions, \<open>node/storage/src/log_store/tx_store.rs\<close>, over the two databases \<open>flow_kvdb\<close> and
  \<open>data_kvdb\<close>. The keys are the big-endian sequence and block numbers, the values SSZ encodings. A
  \<open>HashMap\<close> is the list of its entries in the order of insertion.
\<close>

section \<open>State and keys\<close>

record 'd tx_store =
  flow_kvdb :: 'd
  data_kvdb :: 'd
  next_tx_seq :: nat

definition str_bytes :: "string \<Rightarrow> byte list" where
  "str_bytes s = map of_char s"

definition LOG_SYNC_PROGRESS_KEY :: "byte list" where
  "LOG_SYNC_PROGRESS_KEY = str_bytes ''log_sync_progress''"

definition NEXT_TX_KEY :: "byte list" where
  "NEXT_TX_KEY = str_bytes ''next_tx_seq''"

definition LOG_LATEST_BLOCK_NUMBER_KEY :: "byte list" where
  "LOG_LATEST_BLOCK_NUMBER_KEY = str_bytes ''log_latest_block_number_key''"

datatype tx_status = Finalized | Pruned

fun tx_status_to_u8 :: "tx_status \<Rightarrow> byte" where
  "tx_status_to_u8 Finalized = 0"
| "tx_status_to_u8 Pruned = 1"

definition tx_status_try_from :: "byte \<Rightarrow> tx_status res" where
  "tx_status_try_from b =
     (if b = 0 then Inr Finalized else if b = 1 then Inr Pruned else Inl (Err ''invalid value for tx status''))"

record block_hash_and_submission_index =
  block_hash :: h256
  first_submission_index :: "nat option"

text \<open>\<open>u64::from_be_bytes\<close> of a slice that must have eight bytes.\<close>

definition decode_tx_seq :: "byte list \<Rightarrow> nat res" where
  "decode_tx_seq data =
     rbind (ensure (length data = 8) (Err ''could not convert slice to array'')) (\<lambda>_. Inr (of_be_bytes data))"

abbreviation seq_key :: "nat \<Rightarrow> byte list" where
  "seq_key \<equiv> be_bytes 8"

abbreviation ssz_seq_list :: "nat list ssz" where
  "ssz_seq_list \<equiv> ssz_vec (ssz_uint 8) None"

abbreviation ssz_progress :: "(nat \<times> h256) ssz" where
  "ssz_progress \<equiv> ssz_tuple2 (ssz_uint 8) (ssz_byte_array 32)"

abbreviation ssz_block :: "(h256 \<times> nat option) ssz" where
  "ssz_block \<equiv> ssz_tuple2 (ssz_byte_array 32) (ssz_option (ssz_uint 8))"

definition flow_write :: "'d kv_ops \<Rightarrow> db_op list \<Rightarrow> ('d tx_store, unit) io" where
  "flow_write D ops s =
     (case kv_write D (flow_kvdb s) ops of
        Inl e \<Rightarrow> (Inl e, s)
      | Inr db \<Rightarrow> (Inr (), s\<lparr>flow_kvdb := db\<rparr>))"

definition data_write :: "'d kv_ops \<Rightarrow> db_op list \<Rightarrow> ('d tx_store, unit) io" where
  "data_write D ops s =
     (case kv_write D (data_kvdb s) ops of
        Inl e \<Rightarrow> (Inl e, s)
      | Inr db \<Rightarrow> (Inr (), s\<lparr>data_kvdb := db\<rparr>))"

definition store_next_tx_seq :: "nat \<Rightarrow> ('d tx_store, unit) io" where
  "store_next_tx_seq n = io_modify (\<lambda>s. s\<lparr>next_tx_seq := n mod 2 ^ 64\<rparr>)"

section \<open>Transactions\<close>

definition tx_store_new :: "'d kv_ops \<Rightarrow> 'd \<Rightarrow> 'd \<Rightarrow> 'd tx_store res" where
  "tx_store_new D flow data =
     rbind (kv_get D flow COL_TX NEXT_TX_KEY) (\<lambda>v.
     rbind (case v of Some a \<Rightarrow> decode_tx_seq a | None \<Rightarrow> Inr 0) (\<lambda>n.
     Inr \<lparr>flow_kvdb = flow, data_kvdb = data, next_tx_seq = n\<rparr>))"

definition get_tx_seq_list_by_data_root :: "'d kv_ops \<Rightarrow> h256 \<Rightarrow> 'd tx_store \<Rightarrow> nat list res" where
  "get_tx_seq_list_by_data_root D data_root s =
     rbind (kv_get D (flow_kvdb s) COL_TX_DATA_ROOT_INDEX data_root) (\<lambda>v.
     case v of Some value \<Rightarrow> ssz_get ssz_seq_list value | None \<Rightarrow> Inr [])"

text \<open>The root of data that comes with the transaction.\<close>

definition in_place_tx :: "(byte list \<Rightarrow> h256) \<Rightarrow> transaction \<Rightarrow> transaction res" where
  "in_place_tx keccak tx =
     (if tx_data tx \<noteq> [] then
        let extra = length (tx_data tx) mod ENTRY_SIZE;
            padded_data = (if extra \<noteq> 0 then tx_data tx @ replicate (ENTRY_SIZE - extra) 0 else tx_data tx)
        in rbind (sub_merkle_tree keccak padded_data) (\<lambda>t.
           rbind (light_root t) (\<lambda>data_root.
           Inr (tx\<lparr>tx_size := length (tx_data tx), data_merkle_root := data_root\<rparr>)))
      else Inr tx)"

definition put_tx :: "(byte list \<Rightarrow> h256) \<Rightarrow> 'd kv_ops \<Rightarrow> transaction \<Rightarrow> ('d tx_store, nat list) io" where
  "put_tx keccak D tx =
     io_bind (io_read (get_tx_seq_list_by_data_root D (data_merkle_root tx))) (\<lambda>old_tx_seq_list.
     if old_tx_seq_list \<noteq> [] \<and> last old_tx_seq_list = tx_seq tx then
       io_bind (store_next_tx_seq (tx_seq tx + 1)) (\<lambda>_. io_return old_tx_seq_list)
     else
       io_bind (io_lift (in_place_tx keccak tx)) (\<lambda>tx.
       io_bind (io_lift (ensure (old_tx_seq_list \<noteq> [] \<longrightarrow> last old_tx_seq_list < tx_seq tx) (Panic ''assertion failed''))) (\<lambda>_.
       let new_tx_seq_list = old_tx_seq_list @ [tx_seq tx];
           db_tx =
             [Insert COL_TX (seq_key (tx_seq tx)) (as_ssz_bytes ssz_transaction tx),
              Insert COL_TX NEXT_TX_KEY (seq_key (tx_seq tx + 1)),
              Insert COL_TX_DATA_ROOT_INDEX (data_merkle_root tx) (as_ssz_bytes ssz_seq_list new_tx_seq_list)]
       in
       io_bind (store_next_tx_seq (tx_seq tx + 1)) (\<lambda>_.
       io_bind (flow_write D db_tx) (\<lambda>_.
       io_return old_tx_seq_list)))))"

definition get_tx_by_seq_number :: "'d kv_ops \<Rightarrow> nat \<Rightarrow> 'd tx_store \<Rightarrow> transaction option res" where
  "get_tx_by_seq_number D seq s =
     (if next_tx_seq s \<le> seq then Inr None
      else robind (kv_get D (flow_kvdb s) COL_TX (seq_key seq)) (\<lambda>value.
        rbind (ssz_get ssz_transaction value) (\<lambda>tx. Inr (Some tx))))"

record remove_state =
  removed_txs :: "transaction list"
  rm_flow_ops :: "db_op list"
  rm_data_ops :: "db_op list"
  modified_merkle_root_map :: "(h256 \<times> nat list) list"

fun remove_loop :: "'d kv_ops \<Rightarrow> 'd tx_store \<Rightarrow> nat list \<Rightarrow> remove_state \<Rightarrow> remove_state res" where
  "remove_loop D s [] st = Inr st"
| "remove_loop D s (seq # seqs) st =
     rbind (get_tx_by_seq_number D seq s) (\<lambda>found.
     case found of
       None \<Rightarrow> Inr st
     | Some tx \<Rightarrow>
         let root = data_merkle_root tx in
         rbind (case map_of (modified_merkle_root_map st) root of
                  Some l \<Rightarrow> Inr l
                | None \<Rightarrow> get_tx_seq_list_by_data_root D root s) (\<lambda>tx_seq_list.
         remove_loop D s seqs
           \<lparr>removed_txs = removed_txs st @ [tx],
            rm_flow_ops = rm_flow_ops st @ [Delete COL_TX (seq_key seq)],
            rm_data_ops = rm_data_ops st @ [Delete COL_TX_COMPLETED (seq_key seq)],
            modified_merkle_root_map =
              AList.update root (filter (\<lambda>e. e < seq) tx_seq_list) (modified_merkle_root_map st)\<rparr>))"

definition index_op :: "h256 \<Rightarrow> nat list \<Rightarrow> db_op" where
  "index_op root tx_seq_list =
     (if tx_seq_list = [] then Delete COL_TX_DATA_ROOT_INDEX root
      else Insert COL_TX_DATA_ROOT_INDEX root (as_ssz_bytes ssz_seq_list tx_seq_list))"

definition remove_tx_after :: "'d kv_ops \<Rightarrow> nat \<Rightarrow> ('d tx_store, transaction list) io" where
  "remove_tx_after D min_seq =
     io_bind (io_gets next_tx_seq) (\<lambda>max_seq.
     io_bind (io_read (\<lambda>s. remove_loop D s [min_seq..<max_seq]
       \<lparr>removed_txs = [], rm_flow_ops = [], rm_data_ops = [], modified_merkle_root_map = []\<rparr>)) (\<lambda>st.
     let flow_db_tx = rm_flow_ops st @ map (\<lambda>(root, l). index_op root l) (modified_merkle_root_map st) @
           [Insert COL_TX NEXT_TX_KEY (seq_key min_seq)]
     in
     io_bind (store_next_tx_seq min_seq) (\<lambda>_.
     io_bind (data_write D (rm_data_ops st)) (\<lambda>_.
     io_bind (flow_write D flow_db_tx) (\<lambda>_.
     io_return (removed_txs st))))))"

section \<open>Status\<close>

definition tx_store_finalize_tx :: "'d kv_ops \<Rightarrow> nat \<Rightarrow> ('d tx_store, unit) io" where
  "tx_store_finalize_tx D seq = data_write D [Insert COL_TX_COMPLETED (seq_key seq) [tx_status_to_u8 Finalized]]"

definition tx_store_prune_tx :: "'d kv_ops \<Rightarrow> nat \<Rightarrow> ('d tx_store, unit) io" where
  "tx_store_prune_tx D seq =
     io_bind (io_read (get_tx_by_seq_number D seq)) (\<lambda>found.
     io_bind (io_lift (ok_or (Err ''prune_tx with tx missing'') found)) (\<lambda>tx.
     io_bind (io_read (get_tx_seq_list_by_data_root D (data_merkle_root tx))) (\<lambda>tx_seq_list.
     let tx_seq_list = filter (\<lambda>e. e \<noteq> seq) tx_seq_list in
     io_bind (data_write D [Insert COL_TX_COMPLETED (seq_key seq) [tx_status_to_u8 Pruned]]) (\<lambda>_.
     flow_write D [index_op (data_merkle_root tx) tx_seq_list]))))"

definition tx_store_status :: "'d kv_ops \<Rightarrow> nat \<Rightarrow> 'd tx_store \<Rightarrow> tx_status option res" where
  "tx_store_status D seq s =
     robind (kv_get D (data_kvdb s) COL_TX_COMPLETED (seq_key seq)) (\<lambda>value.
     case value of
       v # _ \<Rightarrow> rbind (tx_status_try_from v) (\<lambda>st. Inr (Some st))
     | [] \<Rightarrow> Inr None)"

definition tx_store_completed :: "'d kv_ops \<Rightarrow> nat \<Rightarrow> 'd tx_store \<Rightarrow> bool res" where
  "tx_store_completed D seq s = rbind (tx_store_status D seq s) (\<lambda>status. Inr (status = Some Finalized))"

definition tx_store_pruned :: "'d kv_ops \<Rightarrow> nat \<Rightarrow> 'd tx_store \<Rightarrow> bool res" where
  "tx_store_pruned D seq s = rbind (tx_store_status D seq s) (\<lambda>status. Inr (status = Some Pruned))"

section \<open>Sync progress and blocks\<close>

definition put_progress :: "'d kv_ops \<Rightarrow> nat \<times> h256 \<times> nat option option \<Rightarrow> ('d tx_store, unit) io" where
  "put_progress D progress =
     (case progress of (number, hash, first) \<Rightarrow>
        let items =
          [Insert COL_MISC LOG_SYNC_PROGRESS_KEY (as_ssz_bytes ssz_progress (number, hash))] @
          (case first of
             Some p \<Rightarrow> [Insert COL_BLOCK_PROGRESS (seq_key number) (as_ssz_bytes ssz_block (hash, p))]
           | None \<Rightarrow> [])
        in flow_write D items)"

definition get_progress :: "'d kv_ops \<Rightarrow> 'd tx_store \<Rightarrow> (nat \<times> h256) option res" where
  "get_progress D s =
     robind (kv_get D (flow_kvdb s) COL_MISC LOG_SYNC_PROGRESS_KEY) (\<lambda>value.
     rbind (ssz_get ssz_progress value) (\<lambda>p. Inr (Some p)))"

definition put_log_latest_block_number :: "'d kv_ops \<Rightarrow> nat \<Rightarrow> ('d tx_store, unit) io" where
  "put_log_latest_block_number D block_number =
     flow_write D [Insert COL_MISC LOG_LATEST_BLOCK_NUMBER_KEY (as_ssz_bytes (ssz_uint 8) block_number)]"

definition get_log_latest_block_number :: "'d kv_ops \<Rightarrow> 'd tx_store \<Rightarrow> nat option res" where
  "get_log_latest_block_number D s =
     robind (kv_get D (flow_kvdb s) COL_MISC LOG_LATEST_BLOCK_NUMBER_KEY) (\<lambda>value.
     rbind (ssz_get (ssz_uint 8) value) (\<lambda>n. Inr (Some n)))"

definition get_block_hash_by_number :: "'d kv_ops \<Rightarrow> nat \<Rightarrow> 'd tx_store \<Rightarrow> (h256 \<times> nat option) option res" where
  "get_block_hash_by_number D block_number s =
     robind (kv_get D (flow_kvdb s) COL_BLOCK_PROGRESS (seq_key block_number)) (\<lambda>value.
     rbind (ssz_get ssz_block value) (\<lambda>b. Inr (Some b)))"

definition get_block_hashes :: "'d kv_ops \<Rightarrow> 'd tx_store \<Rightarrow> (nat \<times> block_hash_and_submission_index) list res" where
  "get_block_hashes D s =
     rmap (\<lambda>r. rbind r (\<lambda>(key, val).
             rbind (decode_tx_seq key) (\<lambda>block_number.
             rbind (ssz_get ssz_block val) (\<lambda>(hash, first).
             Inr (block_number, \<lparr>block_hash = hash, first_submission_index = first\<rparr>)))))
       (kv_iter D (flow_kvdb s) COL_BLOCK_PROGRESS)"

definition delete_block_hash_by_number :: "'d kv_ops \<Rightarrow> nat \<Rightarrow> ('d tx_store, unit) io" where
  "delete_block_hash_by_number D block_number =
     flow_write D [Delete COL_BLOCK_PROGRESS (seq_key block_number)]"

end
