(* ===== verification/Tx_Log.thy ===== *)
theory Tx_Log
  imports Tx_Store
begin

text \<open>
  What the transaction store promises: it is a log of transactions with a status for each, an index from data
  roots to the transactions that have not been pruned, the progress of the synchronisation and the hashes of
  recent blocks. The relation \<open>store_holds\<close> connects the log with the contents of the two databases; every
  operation keeps it and every query answers from the log.
\<close>

section \<open>The log\<close>

record tx_log =
  log_txs :: "transaction list"
  log_status :: "nat \<Rightarrow> tx_status option"
  log_pruned :: "nat set"
  log_progress :: "(nat \<times> h256) option"
  log_latest :: "nat option"
  log_blocks :: "nat \<Rightarrow> (h256 \<times> nat option) option"

definition log_index :: "tx_log \<Rightarrow> h256 \<Rightarrow> nat list" where
  "log_index l r =
     filter (\<lambda>i. data_merkle_root (log_txs l ! i) = r \<and> i \<notin> log_pruned l) [0..<length (log_txs l)]"

definition empty_log :: tx_log where
  "empty_log = \<lparr>log_txs = [], log_status = Map.empty, log_pruned = {}, log_progress = None, log_latest = None,
     log_blocks = Map.empty\<rparr>"

definition log_put :: "transaction \<Rightarrow> tx_log \<Rightarrow> tx_log" where
  "log_put tx l = l\<lparr>log_txs := log_txs l @ [tx]\<rparr>"

definition log_remove :: "nat \<Rightarrow> tx_log \<Rightarrow> tx_log" where
  "log_remove m l =
     l\<lparr>log_txs := take m (log_txs l),
       log_status := (\<lambda>i. if m \<le> i \<and> i < length (log_txs l) then None else log_status l i),
       log_pruned := {i \<in> log_pruned l. i < m}\<rparr>"

definition log_prune :: "nat \<Rightarrow> tx_log \<Rightarrow> tx_log" where
  "log_prune i l = l\<lparr>log_status := (log_status l)(i \<mapsto> Pruned), log_pruned := insert i (log_pruned l)\<rparr>"

lemma log_step_sel [simp]:
  "log_txs (log_put tx l) = log_txs l @ [tx]" "log_status (log_put tx l) = log_status l"
  "log_pruned (log_put tx l) = log_pruned l" "log_progress (log_put tx l) = log_progress l"
  "log_latest (log_put tx l) = log_latest l" "log_blocks (log_put tx l) = log_blocks l"
  "log_txs (log_remove m l) = take m (log_txs l)" "log_pruned (log_remove m l) = {i \<in> log_pruned l. i < m}"
  "log_progress (log_remove m l) = log_progress l" "log_latest (log_remove m l) = log_latest l"
  "log_blocks (log_remove m l) = log_blocks l"
  "log_txs (log_prune i l) = log_txs l" "log_pruned (log_prune i l) = insert i (log_pruned l)"
  "log_status (log_prune i l) = (log_status l)(i \<mapsto> Pruned)" "log_progress (log_prune i l) = log_progress l"
  "log_latest (log_prune i l) = log_latest l" "log_blocks (log_prune i l) = log_blocks l"
  by (simp_all add: log_put_def log_remove_def log_prune_def)

section \<open>The databases that hold a log\<close>

definition wf_block :: "h256 \<times> nat option \<Rightarrow> bool" where
  "wf_block b \<longleftrightarrow> length (fst b) = 32 \<and> (\<forall>i. snd b = Some i \<longrightarrow> i < 256 ^ 8)"

definition wf_progress :: "nat \<times> h256 \<Rightarrow> bool" where
  "wf_progress p \<longleftrightarrow> fst p < 256 ^ 8 \<and> length (snd p) = 32"

definition wf_log :: "tx_log \<Rightarrow> bool" where
  "wf_log l \<longleftrightarrow>
     length (log_txs l) < 256 ^ 8 \<and> log_pruned l \<subseteq> {..<length (log_txs l)} \<and>
     (\<forall>i < length (log_txs l). wf_transaction (log_txs l ! i) \<and> tx_seq (log_txs l ! i) = i) \<and>
     (\<forall>p. log_progress l = Some p \<longrightarrow> wf_progress p) \<and>
     (\<forall>n. log_latest l = Some n \<longrightarrow> n < 256 ^ 8) \<and>
     (\<forall>n b. log_blocks l n = Some b \<longrightarrow> n < 256 ^ 8 \<and> wf_block b)"

definition index_value :: "nat list \<Rightarrow> byte list option" where
  "index_value xs = (if xs = [] then None else Some (as_ssz_bytes ssz_seq_list xs))"

definition next_value :: "contents \<Rightarrow> nat \<Rightarrow> bool" where
  "next_value flow n \<longleftrightarrow>
     flow COL_TX NEXT_TX_KEY = Some (seq_key n) \<or> flow COL_TX NEXT_TX_KEY = None \<and> n = 0"

definition block_value :: "(nat \<Rightarrow> (h256 \<times> nat option) option) \<Rightarrow> byte list \<Rightarrow> byte list option" where
  "block_value blocks k = (if length k = 8 then map_option (as_ssz_bytes ssz_block) (blocks (of_be_bytes k)) else None)"

definition flow_holds :: "contents \<Rightarrow> tx_log \<Rightarrow> bool" where
  "flow_holds flow l \<longleftrightarrow>
     (\<forall>i < length (log_txs l). flow COL_TX (seq_key i) = Some (as_ssz_bytes ssz_transaction (log_txs l ! i))) \<and>
     next_value flow (length (log_txs l)) \<and>
     flow COL_TX_DATA_ROOT_INDEX = (\<lambda>r. index_value (log_index l r)) \<and>
     flow COL_MISC LOG_SYNC_PROGRESS_KEY = map_option (as_ssz_bytes ssz_progress) (log_progress l) \<and>
     flow COL_MISC LOG_LATEST_BLOCK_NUMBER_KEY = map_option (as_ssz_bytes (ssz_uint 8)) (log_latest l) \<and>
     flow COL_BLOCK_PROGRESS = block_value (log_blocks l)"

definition data_holds :: "contents \<Rightarrow> tx_log \<Rightarrow> bool" where
  "data_holds data l \<longleftrightarrow>
     (\<forall>i < 256 ^ 8. data COL_TX_COMPLETED (seq_key i) = map_option (\<lambda>st. [tx_status_to_u8 st]) (log_status l i))"

definition store_holds :: "('d \<Rightarrow> contents) \<Rightarrow> 'd tx_store \<Rightarrow> tx_log \<Rightarrow> bool" where
  "store_holds contents s l \<longleftrightarrow>
     wf_log l \<and> next_tx_seq s = length (log_txs l) \<and>
     flow_holds (contents (flow_kvdb s)) l \<and> data_holds (contents (data_kvdb s)) l"

section \<open>The index\<close>

lemma sorted_log_index: "sorted_wrt (<) (log_index l r)"
  by (simp add: log_index_def sorted_wrt_filter)

lemma in_log_index:
  "i \<in> set (log_index l r) \<longleftrightarrow> i < length (log_txs l) \<and> data_merkle_root (log_txs l ! i) = r \<and> i \<notin> log_pruned l"
  by (auto simp: log_index_def)

lemma last_in_log_index: "log_index l r \<noteq> [] \<Longrightarrow> last (log_index l r) < length (log_txs l)"
  using last_in_set in_log_index by blast

lemma filter_log_index:
  "(\<And>i. m \<le> i \<Longrightarrow> i < n \<Longrightarrow> data_merkle_root (log_txs l ! i) \<noteq> r) \<Longrightarrow> m \<le> n \<Longrightarrow>
     filter (\<lambda>i. i < n) (log_index l r) = filter (\<lambda>i. i < m) (log_index l r)"
  by (rule filter_cong) (simp, metis in_log_index leI less_le_trans)

lemma log_index_put:
  "log_pruned l \<subseteq> {..<length (log_txs l)} \<Longrightarrow>
   log_index (log_put tx l) r = log_index l r @ (if data_merkle_root tx = r then [length (log_txs l)] else [])"
  by (auto simp: log_index_def log_put_def nth_append intro!: filter_cong)

lemma log_index_remove:
  assumes "m \<le> length (log_txs l)"
  shows "log_index (log_remove m l) r = filter (\<lambda>i. i < m) (log_index l r)"
proof -
  have "[0..<length (log_txs l)] = [0..<m] @ [m..<length (log_txs l)]" using assms by (intro upt_split) simp_all
  then show ?thesis using assms by (auto simp: log_index_def log_remove_def min_def intro!: filter_cong)
qed

lemma log_index_prune: "log_index (log_prune i l) r = filter (\<lambda>e. e \<noteq> i) (log_index l r)"
  by (auto simp: log_index_def log_prune_def intro!: filter_cong)

lemma filter_other_index: "data_merkle_root (log_txs l ! i) \<noteq> r \<Longrightarrow> filter (\<lambda>e. e \<noteq> i) (log_index l r) = log_index l r"
  by (auto simp: filter_id_conv in_log_index)

section \<open>Codecs of the values\<close>

lemma seq_list_round_trip: "\<forall>x \<in> set xs. x < 256 ^ 8 \<Longrightarrow> ssz_get ssz_seq_list (as_ssz_bytes ssz_seq_list xs) = Inr xs"
  by (rule u64.vec_fixed_round_trip) (simp_all add: ssz_uint_def)

lemma progress_round_trip: "wf_progress p \<Longrightarrow> ssz_get ssz_progress (as_ssz_bytes ssz_progress p) = Inr p"
  by (rule tx_node.round_trip) (auto simp: wf_progress_def split: prod.splits)

interpretation first_index: ssz_codec "ssz_option (ssz_uint 8)" "\<lambda>x. case x of None \<Rightarrow> True | Some y \<Rightarrow> y < 256 ^ 8"
  by (rule ssz_option_codec [OF u64.ssz_codec_axioms])

lemma block_round_trip: "wf_block b \<Longrightarrow> ssz_get ssz_block (as_ssz_bytes ssz_block b) = Inr b"
proof -
  assume b: "wf_block b"
  obtain h i where hi: "b = (h, i)" by (cases b)
  have "length (as_ssz_bytes ssz_block (h, i)) < 2 ^ 32"
    using b hi by (cases i) (simp_all add: wf_block_def as_ssz_bytes_def ssz_tuple_defs fields_put_def encoder_finalize_def
        encoder_container_def append_parameterized_def ssz_kind_def ssz_uint_def ssz_byte_array_def ssz_option_def
        encode_length_eq)
  then show ?thesis
    using b hi by (intro ssz_codec.round_trip [OF ssz_tuple2_codec [OF h256.ssz_codec_axioms first_index.ssz_codec_axioms]])
      (auto simp: wf_block_def split: option.splits)
qed

lemma status_round_trip [simp]: "tx_status_try_from (tx_status_to_u8 st) = Inr st"
  by (cases st) (simp_all add: tx_status_try_from_def)

lemma next_key_distinct [simp]: "seq_key i \<noteq> NEXT_TX_KEY" "NEXT_TX_KEY \<noteq> seq_key i"
proof -
  have "length (seq_key i) \<noteq> length NEXT_TX_KEY" by (simp add: NEXT_TX_KEY_def str_bytes_def)
  then show "seq_key i \<noteq> NEXT_TX_KEY" "NEXT_TX_KEY \<noteq> seq_key i" by metis+
qed

lemma misc_keys_distinct [simp]:
  "LOG_SYNC_PROGRESS_KEY \<noteq> LOG_LATEST_BLOCK_NUMBER_KEY" "LOG_LATEST_BLOCK_NUMBER_KEY \<noteq> LOG_SYNC_PROGRESS_KEY"
  by (simp_all add: LOG_SYNC_PROGRESS_KEY_def LOG_LATEST_BLOCK_NUMBER_KEY_def str_bytes_def)

lemma decode_seq_key: "n < 256 ^ 8 \<Longrightarrow> decode_tx_seq (seq_key n) = Inr n"
  by (simp add: decode_tx_seq_def of_be_bytes_be_bytes)

section \<open>Transactions of the database\<close>

lemma columns_distinct [simp]:
  "COL_TX \<noteq> COL_TX_DATA_ROOT_INDEX" "COL_TX_DATA_ROOT_INDEX \<noteq> COL_TX" "COL_TX \<noteq> COL_MISC" "COL_MISC \<noteq> COL_TX"
  "COL_TX \<noteq> COL_BLOCK_PROGRESS" "COL_BLOCK_PROGRESS \<noteq> COL_TX" "COL_TX_DATA_ROOT_INDEX \<noteq> COL_MISC"
  "COL_MISC \<noteq> COL_TX_DATA_ROOT_INDEX" "COL_TX_DATA_ROOT_INDEX \<noteq> COL_BLOCK_PROGRESS"
  "COL_BLOCK_PROGRESS \<noteq> COL_TX_DATA_ROOT_INDEX" "COL_MISC \<noteq> COL_BLOCK_PROGRESS" "COL_BLOCK_PROGRESS \<noteq> COL_MISC"
  by (simp_all add: col_defs)

lemma fold_deletes:
  "fold apply_op (map (\<lambda>i. Delete col (f i)) xs) m =
     (\<lambda>c k. if c = col \<and> k \<in> f ` set xs then None else m c k)"
  by (induction xs arbitrary: m) (auto simp: fun_eq_iff)

lemma apply_index_op:
  "apply_op (index_op r xs) m = m(COL_TX_DATA_ROOT_INDEX := (m COL_TX_DATA_ROOT_INDEX)(r := index_value xs))"
  by (simp add: index_op_def index_value_def)

lemma fold_index_ops:
  "distinct (map fst mm) \<Longrightarrow> fold apply_op (map (\<lambda>(r, xs). index_op r xs) mm) m =
     m(COL_TX_DATA_ROOT_INDEX := (\<lambda>r. case map_of mm r of Some xs \<Rightarrow> index_value xs | None \<Rightarrow> m COL_TX_DATA_ROOT_INDEX r))"
proof (induction mm arbitrary: m)
  case (Cons x mm)
  obtain r xs where x: "x = (r, xs)" by (cases x)
  have "map_of mm r = None" using Cons.prems x by (simp add: map_of_eq_None_iff)
  then show ?case using Cons x by (auto simp: apply_index_op fun_eq_iff split: option.splits)
qed simp

section \<open>Steps of the log\<close>

lemma wf_log_put:
  "wf_log l \<Longrightarrow> wf_transaction tx \<Longrightarrow> tx_seq tx = length (log_txs l) \<Longrightarrow> length (log_txs l) + 1 < 256 ^ 8 \<Longrightarrow> wf_log (log_put tx l)"
  by (auto simp: wf_log_def log_put_def nth_append less_Suc_eq)

lemma flow_holds_put:
  assumes m: "flow_holds m l" and wf: "wf_log l"
  shows "flow_holds (fold apply_op
    [Insert COL_TX (seq_key (length (log_txs l))) (as_ssz_bytes ssz_transaction tx),
     Insert COL_TX NEXT_TX_KEY (seq_key (length (log_txs l) + 1)),
     Insert COL_TX_DATA_ROOT_INDEX (data_merkle_root tx)
       (as_ssz_bytes ssz_seq_list (log_index l (data_merkle_root tx) @ [length (log_txs l)]))] m) (log_put tx l)"
proof -
  have "seq_key i \<noteq> seq_key (length (log_txs l))" if "i < length (log_txs l)" for i
    using that wf be_bytes_eq_iff [of i 8 "length (log_txs l)"] by (simp add: wf_log_def)
  moreover have "log_pruned l \<subseteq> {..<length (log_txs l)}" using wf by (simp add: wf_log_def)
  ultimately show ?thesis
    using m by (auto simp: flow_holds_def next_value_def log_put_def nth_append index_value_def less_Suc_eq fun_eq_iff
        log_index_put [unfolded log_put_def])
qed

lemma data_holds_put: "data_holds m l \<Longrightarrow> data_holds m (log_put tx l)"
  by (simp add: data_holds_def log_put_def)

lemma wf_log_remove: "wf_log l \<Longrightarrow> wf_log (log_remove m l)"
  by (auto simp: wf_log_def log_remove_def)

definition roots_between :: "tx_log \<Rightarrow> nat \<Rightarrow> nat \<Rightarrow> h256 set" where
  "roots_between l m n = (\<lambda>i. data_merkle_root (log_txs l ! i)) ` {m..<n}"

lemma log_index_kept:
  assumes "r \<notin> roots_between l m (length (log_txs l))" "m \<le> length (log_txs l)"
  shows "filter (\<lambda>i. i < m) (log_index l r) = log_index l r"
proof -
  have "i < m" if "i \<in> set (log_index l r)" for i
  proof (rule ccontr)
    assume "\<not> i < m"
    then show False using that assms(1) by (auto simp: in_log_index roots_between_def)
  qed
  then show ?thesis by (simp add: filter_id_conv)
qed

lemma seq_key_between:
  assumes "wf_log l" "i < 256 ^ 8"
  shows "seq_key i \<in> seq_key ` {m..<length (log_txs l)} \<longleftrightarrow> m \<le> i \<and> i < length (log_txs l)"
proof -
  have "inj_on seq_key {..<256 ^ 8}" by (rule inj_onI) (metis be_bytes_inject lessThan_iff)
  moreover have "{m..<length (log_txs l)} \<subseteq> {..<256 ^ 8}"
    using assms(1) less_trans unfolding wf_log_def by (auto simp del: power_numeral)
  ultimately have "seq_key i \<in> seq_key ` {m..<length (log_txs l)} \<longleftrightarrow> i \<in> {m..<length (log_txs l)}"
    using assms(2) by (intro inj_on_image_mem_iff) (simp_all del: power_numeral)
  then show ?thesis by simp
qed

text \<open>The flow database after a removal, where \<open>mm\<close> holds the shortened lists of the roots that occur in it.\<close>

lemma flow_holds_remove:
  assumes m: "flow_holds f l" and wf: "wf_log l" and le: "m \<le> length (log_txs l)" and d: "distinct (map fst mm)"
    and mm: "\<And>r. map_of mm r =
      (if r \<in> roots_between l m (length (log_txs l)) then Some (filter (\<lambda>i. i < m) (log_index l r)) else None)"
  shows "flow_holds (fold apply_op (map (\<lambda>i. Delete COL_TX (seq_key i)) [m..<length (log_txs l)] @
      map (\<lambda>(root, xs). index_op root xs) mm @ [Insert COL_TX NEXT_TX_KEY (seq_key m)]) f) (log_remove m l)"
proof -
  have "seq_key i \<notin> seq_key ` {m..<length (log_txs l)}" if "i < m" for i
    using that le wf seq_key_between [OF wf, of i m] by (simp add: wf_log_def)
  moreover have "(case map_of mm r of Some xs \<Rightarrow> index_value xs | None \<Rightarrow> index_value (log_index l r)) =
      index_value (filter (\<lambda>i. i < m) (log_index l r))" for r
    using mm [of r] log_index_kept [OF _ le, of r] by auto
  moreover have "length (log_txs (log_remove m l)) = m" using le by (simp add: log_remove_def)
  ultimately show ?thesis
    using m le unfolding flow_holds_def fold_append comp_def fold_deletes fold_index_ops [OF d] log_index_remove [OF le]
    by (simp add: next_value_def cong: option.case_cong)
qed

lemma data_holds_remove:
  assumes m: "data_holds f l" and wf: "wf_log l"
  shows "data_holds (fold apply_op (map (\<lambda>i. Delete COL_TX_COMPLETED (seq_key i)) [m..<length (log_txs l)]) f) (log_remove m l)"
proof -
  show ?thesis using m seq_key_between [OF wf] by (simp add: data_holds_def fold_deletes log_remove_def)
qed

lemma wf_log_prune: "wf_log l \<Longrightarrow> i < length (log_txs l) \<Longrightarrow> wf_log (log_prune i l)"
  by (auto simp: wf_log_def log_prune_def)

lemma flow_holds_prune:
  assumes "flow_holds f l" "data_merkle_root (log_txs l ! i) = r"
  shows "flow_holds (fold apply_op [index_op r (filter (\<lambda>e. e \<noteq> i) (log_index l r))] f) (log_prune i l)"
proof -
  have "filter (\<lambda>e. e \<noteq> i) (log_index l r') = log_index l r'" if "r' \<noteq> r" for r'
    using that assms(2) by (intro filter_other_index) simp
  then have "(\<lambda>r'. index_value (log_index (log_prune i l) r')) =
      (\<lambda>r'. index_value (log_index l r')) (r := index_value (filter (\<lambda>e. e \<noteq> i) (log_index l r)))"
    by (simp add: log_index_prune fun_eq_iff)
  then show ?thesis
    using assms(1) unfolding flow_holds_def by (simp add: apply_index_op next_value_def)
qed

lemma data_holds_status:
  assumes "data_holds f l" "i < 256 ^ 8"
  shows "data_holds (fold apply_op [Insert COL_TX_COMPLETED (seq_key i) [tx_status_to_u8 st]] f)
    (l\<lparr>log_status := (log_status l)(i \<mapsto> st)\<rparr>)"
  using assms be_bytes_eq_iff [of _ 8 i] by (simp add: data_holds_def)

lemma flow_holds_status: "flow_holds f (l\<lparr>log_status := st\<rparr>) = flow_holds f l"
  by (simp add: flow_holds_def log_index_def)

lemma wf_log_status: "wf_log (l\<lparr>log_status := st\<rparr>) = wf_log l"
  by (simp add: wf_log_def)

lemma flow_holds_progress:
  assumes "flow_holds f l" "n < 256 ^ 8"
  shows "flow_holds (fold apply_op ([Insert COL_MISC LOG_SYNC_PROGRESS_KEY (as_ssz_bytes ssz_progress (n, h))] @
      (case first of Some p \<Rightarrow> [Insert COL_BLOCK_PROGRESS (seq_key n) (as_ssz_bytes ssz_block (h, p))] | None \<Rightarrow> [])) f)
    (l\<lparr>log_progress := Some (n, h),
       log_blocks := (case first of Some p \<Rightarrow> (log_blocks l)(n \<mapsto> (h, p)) | None \<Rightarrow> log_blocks l)\<rparr>)"
proof -
  have "length k = 8 \<and> of_be_bytes k = n \<longleftrightarrow> k = seq_key n" for k
    using assms(2) be_bytes_of_be_bytes [of k] by (auto simp: of_be_bytes_be_bytes)
  then show ?thesis
    using assms(1) unfolding flow_holds_def
    by (cases first) (auto simp: next_value_def log_index_def block_value_def fun_eq_iff)
qed

lemma flow_holds_latest:
  assumes "flow_holds f l"
  shows "flow_holds (fold apply_op [Insert COL_MISC LOG_LATEST_BLOCK_NUMBER_KEY (as_ssz_bytes (ssz_uint 8) n)] f)
    (l\<lparr>log_latest := Some n\<rparr>)"
  using assms by (simp add: flow_holds_def next_value_def log_index_def)

lemma flow_holds_delete_block:
  assumes "flow_holds f l" "n < 256 ^ 8"
  shows "flow_holds (fold apply_op [Delete COL_BLOCK_PROGRESS (seq_key n)] f) (l\<lparr>log_blocks := (log_blocks l)(n := None)\<rparr>)"
proof -
  have "length k = 8 \<and> of_be_bytes k = n \<longleftrightarrow> k = seq_key n" for k
    using assms(2) be_bytes_of_be_bytes [of k] by (auto simp: of_be_bytes_be_bytes)
  then show ?thesis
    using assms(1) unfolding flow_holds_def by (auto simp: next_value_def log_index_def block_value_def fun_eq_iff)
qed

section \<open>Operations\<close>

lemma in_place_tx_seq: "in_place_tx keccak tx = Inr tx' \<Longrightarrow> tx_seq tx' = tx_seq tx"
  by (auto simp: in_place_tx_def Let_def split: if_splits)

context key_value_db
begin

lemma flow_written:
  obtains s' where "flow_write D ops s = (Inr (), s')"
    "contents (flow_kvdb s') = fold apply_op ops (contents (flow_kvdb s))"
    "data_kvdb s' = data_kvdb s" "next_tx_seq s' = next_tx_seq s"
proof -
  obtain db where "kv_write D (flow_kvdb s) ops = Inr db" "contents db = fold apply_op ops (contents (flow_kvdb s))"
    by (rule written)
  then show ?thesis by (intro that [of "s\<lparr>flow_kvdb := db\<rparr>"]) (simp_all add: flow_write_def)
qed

lemma data_written:
  obtains s' where "data_write D ops s = (Inr (), s')"
    "contents (data_kvdb s') = fold apply_op ops (contents (data_kvdb s))"
    "flow_kvdb s' = flow_kvdb s" "next_tx_seq s' = next_tx_seq s"
proof -
  obtain db where "kv_write D (data_kvdb s) ops = Inr db" "contents db = fold apply_op ops (contents (data_kvdb s))"
    by (rule written)
  then show ?thesis by (intro that [of "s\<lparr>data_kvdb := db\<rparr>"]) (simp_all add: data_write_def)
qed

lemma get_seq_list:
  assumes "store_holds contents s l"
  shows "get_tx_seq_list_by_data_root D r s = Inr (log_index l r)"
proof -
  have "length (log_txs l) < 256 ^ 8" using assms by (simp add: store_holds_def wf_log_def)
  then have "\<forall>x \<in> set (log_index l r). x < 256 ^ 8" using in_log_index less_trans by blast
  then have "ssz_get ssz_seq_list (as_ssz_bytes ssz_seq_list (log_index l r)) = Inr (log_index l r)"
    by (rule seq_list_round_trip)
  moreover have "contents (flow_kvdb s) COL_TX_DATA_ROOT_INDEX r = index_value (log_index l r)"
    using assms by (simp add: store_holds_def flow_holds_def)
  ultimately show ?thesis by (simp add: get_tx_seq_list_by_data_root_def get index_value_def)
qed

lemma get_tx:
  assumes "store_holds contents s l"
  shows "get_tx_by_seq_number D i s = Inr (if i < length (log_txs l) then Some (log_txs l ! i) else None)"
  using assms by (auto simp: get_tx_by_seq_number_def get store_holds_def flow_holds_def wf_log_def tx_codec.round_trip)

lemma get_status:
  assumes "store_holds contents s l" "i < 256 ^ 8"
  shows "tx_store_status D i s = Inr (log_status l i)"
  using assms by (cases "log_status l i") (auto simp: tx_store_status_def get store_holds_def data_holds_def)

lemma put_new_tx:
  assumes s: "store_holds contents s l" and tx: "in_place_tx keccak tx = Inr tx'"
    and r: "data_merkle_root tx' = data_merkle_root tx" and n: "tx_seq tx = length (log_txs l)"
    and wf: "wf_transaction tx'" and lim: "length (log_txs l) + 1 < 256 ^ 8"
  obtains s' where "put_tx keccak D tx s = (Inr (log_index l (data_merkle_root tx)), s')" "store_holds contents s' (log_put tx' l)"
proof -
  let ?n = "length (log_txs l)" and ?old = "log_index l (data_merkle_root tx)"
  have seq: "tx_seq tx' = ?n" using in_place_tx_seq [OF tx] n by simp
  have new: "?old \<noteq> [] \<longrightarrow> last ?old < ?n" "\<not> (?old \<noteq> [] \<and> last ?old = ?n)" using last_in_log_index by force+
  define ops where "ops =
    [Insert COL_TX (seq_key ?n) (as_ssz_bytes ssz_transaction tx'),
     Insert COL_TX NEXT_TX_KEY (seq_key (?n + 1)),
     Insert COL_TX_DATA_ROOT_INDEX (data_merkle_root tx') (as_ssz_bytes ssz_seq_list (log_index l (data_merkle_root tx') @ [?n]))]"
  let ?s = "s\<lparr>next_tx_seq := (?n + 1) mod 2 ^ 64\<rparr>"
  obtain s' where s': "flow_write D ops ?s = (Inr (), s')"
    "contents (flow_kvdb s') = fold apply_op ops (contents (flow_kvdb ?s))"
    "data_kvdb s' = data_kvdb ?s" "next_tx_seq s' = next_tx_seq ?s"
    by (rule flow_written)
  have "put_tx keccak D tx s = (Inr ?old, s')"
    using new n tx s'(1) seq r
    by (simp add: put_tx_def io_bind_def get_seq_list [OF s] store_next_tx_seq_def ops_def Let_def ensure_def) blast
  moreover have "store_holds contents s' (log_put tx' l)"
    unfolding store_holds_def
  proof (intro conjI)
    show "wf_log (log_put tx' l)" using s wf seq lim by (intro wf_log_put) (simp_all add: store_holds_def)
    show "next_tx_seq s' = length (log_txs (log_put tx' l))" using s'(4) lim by (simp add: log_put_def)
    show "flow_holds (contents (flow_kvdb s')) (log_put tx' l)"
      unfolding s'(2) ops_def by (rule flow_holds_put) (use s in \<open>simp_all add: store_holds_def\<close>)
    show "data_holds (contents (data_kvdb s')) (log_put tx' l)"
      unfolding s'(3) by (rule data_holds_put) (use s in \<open>simp add: store_holds_def\<close>)
  qed
  ultimately show ?thesis by (rule that)
qed

text \<open>The loop of \<open>remove_tx_after\<close> over the transactions from \<open>m\<close> on, of which those before \<open>n\<close> are done.\<close>

lemma removed_loop:
  assumes s: "store_holds contents s l" and "m \<le> n" "n \<le> length (log_txs l)" "distinct (map fst mm)"
    and "\<And>r. map_of mm r = (if r \<in> roots_between l m n then Some (filter (\<lambda>i. i < m) (log_index l r)) else None)"
  shows "\<exists>mm'. remove_loop D s [n..<length (log_txs l)]
        \<lparr>removed_txs = rs, rm_flow_ops = fs, rm_data_ops = ds, modified_merkle_root_map = mm\<rparr> =
      Inr \<lparr>removed_txs = rs @ drop n (log_txs l),
           rm_flow_ops = fs @ map (\<lambda>i. Delete COL_TX (seq_key i)) [n..<length (log_txs l)],
           rm_data_ops = ds @ map (\<lambda>i. Delete COL_TX_COMPLETED (seq_key i)) [n..<length (log_txs l)],
           modified_merkle_root_map = mm'\<rparr> \<and>
    distinct (map fst mm') \<and>
    (\<forall>r. map_of mm' r = (if r \<in> roots_between l m (length (log_txs l)) then Some (filter (\<lambda>i. i < m) (log_index l r)) else None))"
  using assms(2-)
proof (induction "length (log_txs l) - n" arbitrary: n rs fs ds mm)
  case 0
  then show ?case by simp
next
  case (Suc k)
  let ?r = "data_merkle_root (log_txs l ! n)" and ?xs = "\<lambda>r. filter (\<lambda>i. i < m) (log_index l r)"
  have n: "n < length (log_txs l)" using Suc.hyps(2) by simp
  have rb: "roots_between l m (Suc n) = insert ?r (roots_between l m n)"
    using Suc.prems(1) by (auto simp: roots_between_def atLeastLessThanSuc)
  let ?mm = "AList.update ?r (?xs ?r) mm"
  have "\<exists>xs. (case map_of mm ?r of Some xs \<Rightarrow> Inr xs | None \<Rightarrow> get_tx_seq_list_by_data_root D ?r s) = Inr xs \<and>
      filter (\<lambda>e. e < n) xs = ?xs ?r"
  proof (cases "?r \<in> roots_between l m n")
    case True
    have "filter (\<lambda>e. e < n) (?xs ?r) = ?xs ?r"
      unfolding filter_filter using Suc.prems(1) by (intro filter_cong) auto
    then show ?thesis using True Suc.prems(4) [of ?r] by simp
  next
    case False
    then have "filter (\<lambda>e. e < n) (log_index l ?r) = ?xs ?r"
      unfolding roots_between_def using Suc.prems(1)
      by (intro filter_log_index) (simp_all, metis atLeastLessThan_iff image_eqI)
    then show ?thesis using False Suc.prems(4) [of ?r] get_seq_list [OF s] by simp
  qed
  then obtain xs where xs: "(case map_of mm ?r of Some xs \<Rightarrow> Inr xs | None \<Rightarrow> get_tx_seq_list_by_data_root D ?r s) = Inr xs"
    "filter (\<lambda>e. e < n) xs = ?xs ?r" by blast
  have loop: "remove_loop D s (n # [Suc n..<length (log_txs l)])
        \<lparr>removed_txs = rs, rm_flow_ops = fs, rm_data_ops = ds, modified_merkle_root_map = mm\<rparr> =
      remove_loop D s [Suc n..<length (log_txs l)]
        \<lparr>removed_txs = rs @ [log_txs l ! n], rm_flow_ops = fs @ [Delete COL_TX (seq_key n)],
         rm_data_ops = ds @ [Delete COL_TX_COMPLETED (seq_key n)], modified_merkle_root_map = ?mm\<rparr>"
    using n xs by (simp add: get_tx [OF s] Let_def)
  have upt: "[n..<length (log_txs l)] = n # [Suc n..<length (log_txs l)]" using n by (rule upt_conv_Cons)
  have drop: "drop n (log_txs l) = log_txs l ! n # drop (Suc n) (log_txs l)" using n by (simp add: Cons_nth_drop_Suc)
  have mm: "map_of ?mm r = (if r \<in> roots_between l m (Suc n) then Some (?xs r) else None)" for r
    using Suc.prems(4) [of r] by (simp add: update_conv' rb)
  have "distinct (map fst ?mm)" using Suc.prems(3) by (rule distinct_update)
  then show ?case
    using Suc.hyps(1) [OF _ _ _ _ mm, of "rs @ [log_txs l ! n]" "fs @ [Delete COL_TX (seq_key n)]"
        "ds @ [Delete COL_TX_COMPLETED (seq_key n)]"] Suc.hyps(2) Suc.prems(1) n
    unfolding upt loop drop by simp
qed

lemma removed_after:
  assumes s: "store_holds contents s l" and m: "m \<le> length (log_txs l)"
  obtains s' where "remove_tx_after D m s = (Inr (drop m (log_txs l)), s')" "store_holds contents s' (log_remove m l)"
proof -
  let ?n = "length (log_txs l)" and ?s = "s\<lparr>next_tx_seq := m mod 2 ^ 64\<rparr>"
  let ?del = "\<lambda>c. map (\<lambda>i. Delete c (seq_key i)) [m..<?n]"
  obtain mm where mm: "remove_loop D s [m..<?n]
      \<lparr>removed_txs = [], rm_flow_ops = [], rm_data_ops = [], modified_merkle_root_map = []\<rparr> =
    Inr \<lparr>removed_txs = drop m (log_txs l), rm_flow_ops = ?del COL_TX, rm_data_ops = ?del COL_TX_COMPLETED,
         modified_merkle_root_map = mm\<rparr>" "distinct (map fst mm)"
    "\<And>r. map_of mm r = (if r \<in> roots_between l m ?n then Some (filter (\<lambda>i. i < m) (log_index l r)) else None)"
  proof -
    have e: "\<exists>mm'. remove_loop D s [m..<?n] \<lparr>removed_txs = [], rm_flow_ops = [], rm_data_ops = [], modified_merkle_root_map = []\<rparr> =
        Inr \<lparr>removed_txs = [] @ drop m (log_txs l), rm_flow_ops = [] @ ?del COL_TX, rm_data_ops = [] @ ?del COL_TX_COMPLETED,
          modified_merkle_root_map = mm'\<rparr> \<and> distinct (map fst mm') \<and>
      (\<forall>r. map_of mm' r = (if r \<in> roots_between l m ?n then Some (filter (\<lambda>i. i < m) (log_index l r)) else None))"
      by (rule removed_loop [OF s order_refl m]) (simp_all add: roots_between_def)
    from e show ?thesis by (elim exE conjE) (rule that, simp, assumption, erule spec)
  qed
  define ops where "ops = ?del COL_TX @ map (\<lambda>(root, xs). index_op root xs) mm @ [Insert COL_TX NEXT_TX_KEY (seq_key m)]"
  obtain s1 where s1: "data_write D (?del COL_TX_COMPLETED) ?s = (Inr (), s1)"
    "contents (data_kvdb s1) = fold apply_op (?del COL_TX_COMPLETED) (contents (data_kvdb ?s))"
    "flow_kvdb s1 = flow_kvdb ?s" "next_tx_seq s1 = next_tx_seq ?s" by (rule data_written)
  obtain s2 where s2: "flow_write D ops s1 = (Inr (), s2)"
    "contents (flow_kvdb s2) = fold apply_op ops (contents (flow_kvdb s1))"
    "data_kvdb s2 = data_kvdb s1" "next_tx_seq s2 = next_tx_seq s1" by (rule flow_written)
  have n: "next_tx_seq s = ?n" and wf: "wf_log l" and fl: "flow_holds (contents (flow_kvdb s)) l"
    and da: "data_holds (contents (data_kvdb s)) l" using s by (simp_all add: store_holds_def)
  have "m < 2 ^ 64" using m wf by (simp add: wf_log_def)
  have "remove_tx_after D m s = (Inr (drop m (log_txs l)), s2)"
    using mm(1) s1(1) s2(1) n
    by (simp add: remove_tx_after_def io_bind_def store_next_tx_seq_def ops_def Let_def)
  moreover have "store_holds contents s2 (log_remove m l)"
    unfolding store_holds_def
  proof (intro conjI)
    show "wf_log (log_remove m l)" using wf by (rule wf_log_remove)
    show "next_tx_seq s2 = length (log_txs (log_remove m l))"
      using s2(4) s1(4) m \<open>m < 2 ^ 64\<close> by (simp add: log_remove_def)
    show "flow_holds (contents (flow_kvdb s2)) (log_remove m l)"
      using flow_holds_remove [OF fl wf m mm(2,3)] unfolding s2(2) s1(3) ops_def by simp
    show "data_holds (contents (data_kvdb s2)) (log_remove m l)"
      using data_holds_remove [OF da wf] unfolding s2(3) s1(2) by simp
  qed
  ultimately show ?thesis by (rule that)
qed

text \<open>The operations that write one database at most once.\<close>

lemma held_after_flow_write:
  assumes "flow_write D ops s = (Inr (), s')" "contents (flow_kvdb s') = fold apply_op ops (contents (flow_kvdb s))"
    "data_kvdb s' = data_kvdb s" "next_tx_seq s' = next_tx_seq s" "store_holds contents s l"
    and "wf_log l'" "log_txs l' = log_txs l" "log_status l' = log_status l"
    and "flow_holds (fold apply_op ops (contents (flow_kvdb s))) l'"
  shows "store_holds contents s' l'"
  using assms by (simp add: store_holds_def data_holds_def)

lemma finalized:
  assumes s: "store_holds contents s l" and i: "i < 256 ^ 8"
  obtains s' where "tx_store_finalize_tx D i s = (Inr (), s')"
    "store_holds contents s' (l\<lparr>log_status := (log_status l)(i \<mapsto> Finalized)\<rparr>)"
proof -
  obtain s' where s': "tx_store_finalize_tx D i s = (Inr (), s')"
    "contents (data_kvdb s') = fold apply_op [Insert COL_TX_COMPLETED (seq_key i) [tx_status_to_u8 Finalized]] (contents (data_kvdb s))"
    "flow_kvdb s' = flow_kvdb s" "next_tx_seq s' = next_tx_seq s"
    unfolding tx_store_finalize_tx_def by (rule data_written)
  moreover have "store_holds contents s' (l\<lparr>log_status := (log_status l)(i \<mapsto> Finalized)\<rparr>)"
    unfolding store_holds_def s'(2,3,4)
    using s data_holds_status [of "contents (data_kvdb s)" l i Finalized] i
    by (simp add: store_holds_def flow_holds_status wf_log_status)
  ultimately show ?thesis by (intro that)
qed

lemma pruned:
  assumes s: "store_holds contents s l" and i: "i < length (log_txs l)"
  obtains s' where "tx_store_prune_tx D i s = (Inr (), s')" "store_holds contents s' (log_prune i l)"
proof -
  let ?r = "data_merkle_root (log_txs l ! i)"
  let ?flow = "[index_op ?r (filter (\<lambda>e. e \<noteq> i) (log_index l ?r))]"
  let ?data = "[Insert COL_TX_COMPLETED (seq_key i) [tx_status_to_u8 Pruned]]"
  obtain s1 where s1: "data_write D ?data s = (Inr (), s1)"
    "contents (data_kvdb s1) = fold apply_op ?data (contents (data_kvdb s))"
    "flow_kvdb s1 = flow_kvdb s" "next_tx_seq s1 = next_tx_seq s" by (rule data_written)
  obtain s2 where s2: "flow_write D ?flow s1 = (Inr (), s2)"
    "contents (flow_kvdb s2) = fold apply_op ?flow (contents (flow_kvdb s1))"
    "data_kvdb s2 = data_kvdb s1" "next_tx_seq s2 = next_tx_seq s1" by (rule flow_written)
  have wf: "wf_log l" using s by (simp add: store_holds_def)
  have i8: "i < 256 ^ 8" using i wf by (simp add: wf_log_def)
  have "data_holds (fold apply_op ?data (contents (data_kvdb s))) (log_prune i l)"
    using data_holds_status [of "contents (data_kvdb s)" l i Pruned] s i8
    by (simp add: store_holds_def data_holds_def)
  then have "store_holds contents s2 (log_prune i l)"
    unfolding store_holds_def s2(2,3,4) s1(2,3,4)
    using s flow_holds_prune [of "contents (flow_kvdb s)" l i ?r] wf_log_prune [OF wf i] by (simp add: store_holds_def)
  moreover have "tx_store_prune_tx D i s = (Inr (), s2)"
    using s1(1) s2(1) i by (simp add: tx_store_prune_tx_def io_bind_def get_tx [OF s] get_seq_list [OF s] Let_def)
  ultimately show ?thesis by (intro that)
qed

lemma progress_put:
  assumes s: "store_holds contents s l" and p: "wf_progress (n, h)" "\<And>i. first = Some i \<Longrightarrow> wf_block (h, i)"
  obtains s' where "put_progress D (n, h, first) s = (Inr (), s')"
    "store_holds contents s' (l\<lparr>log_progress := Some (n, h),
       log_blocks := (case first of Some i \<Rightarrow> (log_blocks l)(n \<mapsto> (h, i)) | None \<Rightarrow> log_blocks l)\<rparr>)"
proof -
  let ?l = "l\<lparr>log_progress := Some (n, h),
       log_blocks := (case first of Some i \<Rightarrow> (log_blocks l)(n \<mapsto> (h, i)) | None \<Rightarrow> log_blocks l)\<rparr>"
  define ops where "ops = [Insert COL_MISC LOG_SYNC_PROGRESS_KEY (as_ssz_bytes ssz_progress (n, h))] @
      (case first of Some p \<Rightarrow> [Insert COL_BLOCK_PROGRESS (seq_key n) (as_ssz_bytes ssz_block (h, p))] | None \<Rightarrow> [])"
  obtain s' where s': "flow_write D ops s = (Inr (), s')"
    "contents (flow_kvdb s') = fold apply_op ops (contents (flow_kvdb s))"
    "data_kvdb s' = data_kvdb s" "next_tx_seq s' = next_tx_seq s" by (rule flow_written)
  have n: "n < 256 ^ 8" using p(1) by (simp add: wf_progress_def)
  have "wf_log ?l" using s p n by (cases first) (auto simp: store_holds_def wf_log_def)
  moreover have "flow_holds (fold apply_op ops (contents (flow_kvdb s))) ?l"
    unfolding ops_def using s n by (intro flow_holds_progress) (simp_all add: store_holds_def)
  ultimately have "store_holds contents s' ?l" by (intro held_after_flow_write [OF s' s]) simp_all
  moreover have "put_progress D (n, h, first) s = (Inr (), s')"
    using s'(1) by (simp add: put_progress_def ops_def Let_def)
  ultimately show ?thesis by (intro that)
qed

lemma latest_put:
  assumes s: "store_holds contents s l" and n: "n < 256 ^ 8"
  obtains s' where "put_log_latest_block_number D n s = (Inr (), s')" "store_holds contents s' (l\<lparr>log_latest := Some n\<rparr>)"
proof -
  let ?ops = "[Insert COL_MISC LOG_LATEST_BLOCK_NUMBER_KEY (as_ssz_bytes (ssz_uint 8) n)]"
  obtain s' where s': "flow_write D ?ops s = (Inr (), s')"
    "contents (flow_kvdb s') = fold apply_op ?ops (contents (flow_kvdb s))"
    "data_kvdb s' = data_kvdb s" "next_tx_seq s' = next_tx_seq s" by (rule flow_written)
  have "wf_log (l\<lparr>log_latest := Some n\<rparr>)" using s n by (simp add: store_holds_def wf_log_def)
  moreover have "flow_holds (fold apply_op ?ops (contents (flow_kvdb s))) (l\<lparr>log_latest := Some n\<rparr>)"
    using s by (intro flow_holds_latest) (simp add: store_holds_def)
  ultimately have "store_holds contents s' (l\<lparr>log_latest := Some n\<rparr>)" by (intro held_after_flow_write [OF s' s]) simp_all
  then show ?thesis using s'(1) by (intro that) (simp_all add: put_log_latest_block_number_def)
qed

lemma block_deleted:
  assumes s: "store_holds contents s l" and n: "n < 256 ^ 8"
  obtains s' where "delete_block_hash_by_number D n s = (Inr (), s')"
    "store_holds contents s' (l\<lparr>log_blocks := (log_blocks l)(n := None)\<rparr>)"
proof -
  let ?ops = "[Delete COL_BLOCK_PROGRESS (seq_key n)]" and ?l = "l\<lparr>log_blocks := (log_blocks l)(n := None)\<rparr>"
  obtain s' where s': "flow_write D ?ops s = (Inr (), s')"
    "contents (flow_kvdb s') = fold apply_op ?ops (contents (flow_kvdb s))"
    "data_kvdb s' = data_kvdb s" "next_tx_seq s' = next_tx_seq s" by (rule flow_written)
  have "wf_log ?l" using s by (auto simp: store_holds_def wf_log_def split: if_splits)
  moreover have "flow_holds (fold apply_op ?ops (contents (flow_kvdb s))) ?l"
    using s n by (intro flow_holds_delete_block) (simp_all add: store_holds_def)
  ultimately have "store_holds contents s' ?l" by (intro held_after_flow_write [OF s' s]) simp_all
  then show ?thesis using s'(1) by (intro that) (simp_all add: delete_block_hash_by_number_def)
qed

end

end
