(* ===== verification/Tx_Refinement.thy ===== *)
theory Tx_Refinement
  imports Tx_Log
begin

text \<open>
  Runs of the transaction store: any sequence of its operations on fresh databases acts on the log, the queries
  answer from the log afterwards, and opening the databases again gives the same store.
\<close>

section \<open>Queries\<close>

definition store_answers :: "'d kv_ops \<Rightarrow> 'd tx_store \<Rightarrow> tx_log \<Rightarrow> bool" where
  "store_answers D s l \<longleftrightarrow>
     next_tx_seq s = length (log_txs l) \<and>
     (\<forall>i. get_tx_by_seq_number D i s = Inr (if i < length (log_txs l) then Some (log_txs l ! i) else None)) \<and>
     (\<forall>r. get_tx_seq_list_by_data_root D r s = Inr (log_index l r)) \<and>
     (\<forall>i < 256 ^ 8. tx_store_status D i s = Inr (log_status l i) \<and>
        tx_store_completed D i s = Inr (log_status l i = Some Finalized) \<and>
        tx_store_pruned D i s = Inr (log_status l i = Some Pruned)) \<and>
     get_progress D s = Inr (log_progress l) \<and> get_log_latest_block_number D s = Inr (log_latest l) \<and>
     (\<forall>n < 256 ^ 8. get_block_hash_by_number D n s = Inr (log_blocks l n)) \<and>
     (\<exists>bs. get_block_hashes D s = Inr bs \<and> sorted_wrt (<) (map fst bs) \<and>
        (\<forall>n b. (n, b) \<in> set bs \<longleftrightarrow> log_blocks l n = Some (block_hash b, first_submission_index b)))"

lemma rmap_map: "rmap f (map g xs) = rmap (\<lambda>x. f (g x)) xs"
  by (induction xs) simp_all

lemma bytes_less_seq: "length k = 8 \<Longrightarrow> length k' = 8 \<Longrightarrow> bytes_less k k' \<longleftrightarrow> of_be_bytes k < of_be_bytes k'"
  by (metis be_bytes_of_be_bytes bytes_less_be_bytes of_be_bytes_less)

definition block_entry :: "byte list \<Rightarrow> h256 \<times> nat option \<Rightarrow> nat \<times> block_hash_and_submission_index" where
  "block_entry k b = (of_be_bytes k, \<lparr>block_hash = fst b, first_submission_index = snd b\<rparr>)"

lemma block_entries:
  assumes kvs: "map_of kvs = block_value blocks" "sorted_wrt bytes_less (map fst kvs)"
    and wf: "\<And>n b. blocks n = Some b \<Longrightarrow> n < 256 ^ 8 \<and> wf_block b"
  shows "\<exists>bs. rmap (\<lambda>r. rbind r (\<lambda>(key, val).
             rbind (decode_tx_seq key) (\<lambda>block_number.
             rbind (ssz_get ssz_block val) (\<lambda>(hash, first).
             Inr (block_number, \<lparr>block_hash = hash, first_submission_index = first\<rparr>))))) (map Inr kvs) = Inr bs \<and>
    sorted_wrt (<) (map fst bs) \<and>
    (\<forall>n b. (n, b) \<in> set bs \<longleftrightarrow> blocks n = Some (block_hash b, first_submission_index b))"
proof -
  let ?g = "\<lambda>kv. block_entry (fst kv) (the (blocks (of_be_bytes (fst kv))))"
  have d: "distinct (map fst kvs)"
    using kvs(2) bytes_less_irrefl by (metis (no_types, lifting) distinct_conv_nth linorder_neqE_nat sorted_wrt_nth_less)
  have kv: "length k = 8 \<and> (\<exists>b. blocks (of_be_bytes k) = Some b \<and> v = as_ssz_bytes ssz_block b)" if "(k, v) \<in> set kvs" for k v
    using map_of_is_SomeI [OF d that] unfolding kvs(1) block_value_def by (auto split: if_splits)
  have "rmap (\<lambda>kv. rbind (decode_tx_seq (fst kv)) (\<lambda>n. rbind (ssz_get ssz_block (snd kv)) (\<lambda>(h, f).
      Inr (n, \<lparr>block_hash = h, first_submission_index = f\<rparr>)))) kvs = Inr (map ?g kvs)"
  proof (rule rmap_Inr)
    fix x assume x: "x \<in> set kvs"
    then obtain b where "length (fst x) = 8" "blocks (of_be_bytes (fst x)) = Some b" "snd x = as_ssz_bytes ssz_block b"
      using kv [of "fst x" "snd x"] by auto
    then show "rbind (decode_tx_seq (fst x)) (\<lambda>n. rbind (ssz_get ssz_block (snd x)) (\<lambda>(h, f).
      Inr (n, \<lparr>block_hash = h, first_submission_index = f\<rparr>))) = Inr (?g x)"
      using wf [of "of_be_bytes (fst x)" b] block_round_trip [of b]
      by (simp add: decode_tx_seq_def block_entry_def split: prod.splits)
  qed
  then have bs: "rmap (\<lambda>r. rbind r (\<lambda>(key, val).
             rbind (decode_tx_seq key) (\<lambda>block_number.
             rbind (ssz_get ssz_block val) (\<lambda>(hash, first).
             Inr (block_number, \<lparr>block_hash = hash, first_submission_index = first\<rparr>))))) (map Inr kvs) = Inr (map ?g kvs)"
    by (simp add: rmap_map case_prod_unfold)
  have len: "length k = 8" if "k \<in> fst ` set kvs" for k using kv that by force
  have "sorted_wrt (\<lambda>k k'. of_be_bytes k < of_be_bytes k') (map fst kvs)"
    by (rule sorted_wrt_mono_rel [OF _ kvs(2)]) (simp add: bytes_less_seq len)
  then have "sorted_wrt (<) (map fst (map ?g kvs))" by (simp add: sorted_wrt_map block_entry_def)
  moreover have "(n, b) \<in> set (map ?g kvs) \<longleftrightarrow> blocks n = Some (block_hash b, first_submission_index b)" for n b
  proof
    assume "(n, b) \<in> set (map ?g kvs)"
    then show "blocks n = Some (block_hash b, first_submission_index b)" using kv by (force simp: block_entry_def)
  next
    assume b: "blocks n = Some (block_hash b, first_submission_index b)"
    then have "n < 256 ^ 8" using wf by blast
    then have "of_be_bytes (seq_key n) = n" by (rule of_be_bytes_be_bytes)
    then have "(seq_key n, as_ssz_bytes ssz_block (block_hash b, first_submission_index b)) \<in> set kvs"
      using b by (intro map_of_SomeD) (simp add: kvs(1) block_value_def)
    then show "(n, b) \<in> set (map ?g kvs)"
      using b \<open>of_be_bytes (seq_key n) = n\<close> by (force simp: block_entry_def)
  qed
  ultimately show ?thesis using bs by blast
qed

context key_value_db
begin

lemma held_store_answers:
  assumes s: "store_holds contents s l"
  shows "store_answers D s l"
proof -
  have fl: "flow_holds (contents (flow_kvdb s)) l" and wf: "wf_log l" using s by (simp_all add: store_holds_def)
  have "get_progress D s = Inr (log_progress l)"
    using fl wf by (cases "log_progress l") (simp_all add: get_progress_def get flow_holds_def wf_log_def progress_round_trip)
  moreover have "get_log_latest_block_number D s = Inr (log_latest l)"
    using fl wf by (cases "log_latest l") (simp_all add: get_log_latest_block_number_def get flow_holds_def wf_log_def u64.round_trip)
  moreover have "get_block_hash_by_number D n s = Inr (log_blocks l n)" if "n < 256 ^ 8" for n
  proof (cases "log_blocks l n")
    case None
    then show ?thesis using fl of_be_bytes_be_bytes [OF that]
      by (simp add: get_block_hash_by_number_def get flow_holds_def block_value_def)
  next
    case (Some b)
    then have "ssz_get ssz_block (as_ssz_bytes ssz_block b) = Inr b"
      using wf unfolding wf_log_def by (intro block_round_trip) blast
    then show ?thesis using fl Some of_be_bytes_be_bytes [OF that]
      by (simp add: get_block_hash_by_number_def get flow_holds_def block_value_def)
  qed
  moreover have "\<exists>bs. get_block_hashes D s = Inr bs \<and> sorted_wrt (<) (map fst bs) \<and>
      (\<forall>n b. (n, b) \<in> set bs \<longleftrightarrow> log_blocks l n = Some (block_hash b, first_submission_index b))"
  proof -
    obtain kvs where kvs: "kv_iter D (flow_kvdb s) COL_BLOCK_PROGRESS = map Inr kvs"
    "map_of kvs = contents (flow_kvdb s) COL_BLOCK_PROGRESS" "sorted_wrt bytes_less (map fst kvs)"
    using iter_ex by blast
    have wfb: "\<And>n b. log_blocks l n = Some b \<Longrightarrow> n < 256 ^ 8 \<and> wf_block b" using wf unfolding wf_log_def by blast
    have "map_of kvs = block_value (log_blocks l)" using kvs(2) fl by (simp add: flow_holds_def)
    from block_entries [OF this kvs(3) wfb] show ?thesis by (simp add: get_block_hashes_def kvs(1))
  qed
  ultimately show ?thesis
    using s get_tx [OF s] get_seq_list [OF s] get_status [OF s]
    by (simp add: store_answers_def store_holds_def tx_store_completed_def tx_store_pruned_def)
qed

lemma reopened:
  assumes "store_holds contents s l"
  shows "tx_store_new D (flow_kvdb s) (data_kvdb s) = Inr s"
  using assms decode_seq_key [of "length (log_txs l)"]
  by (auto simp: tx_store_new_def get store_holds_def flow_holds_def next_value_def wf_log_def)

lemma fresh:
  assumes "contents flow = (\<lambda>_ _. None)" "contents data = (\<lambda>_ _. None)"
  obtains s where "tx_store_new D flow data = Inr s" "store_holds contents s empty_log"
proof -
  let ?s = "\<lparr>flow_kvdb = flow, data_kvdb = data, next_tx_seq = 0\<rparr>"
  have "flow_holds (\<lambda>_ _. None) empty_log"
    by (simp add: flow_holds_def next_value_def empty_log_def log_index_def index_value_def block_value_def fun_eq_iff)
  moreover have "data_holds (\<lambda>_ _. None) empty_log" by (simp add: data_holds_def empty_log_def)
  moreover have "wf_log empty_log" by (simp add: wf_log_def empty_log_def)
  ultimately have "store_holds contents ?s empty_log" using assms by (simp add: store_holds_def) (simp add: empty_log_def)
  moreover have "tx_store_new D flow data = Inr ?s" using assms(1) by (simp add: tx_store_new_def get)
  ultimately show ?thesis by (intro that)
qed

end

section \<open>Runs\<close>

datatype tx_op =
  Put transaction
| Remove_After nat
| Finalize nat
| Prune nat
| Progress nat h256 "nat option option"
| Latest nat
| Delete_Block nat

datatype tx_out = Seqs "nat list" | Removed "transaction list" | Done

fun run_op :: "(byte list \<Rightarrow> h256) \<Rightarrow> 'd kv_ops \<Rightarrow> tx_op \<Rightarrow> ('d tx_store, tx_out) io" where
  "run_op keccak D (Put tx) = io_bind (put_tx keccak D tx) (\<lambda>xs. io_return (Seqs xs))"
| "run_op keccak D (Remove_After m) = io_bind (remove_tx_after D m) (\<lambda>txs. io_return (Removed txs))"
| "run_op keccak D (Finalize i) = io_bind (tx_store_finalize_tx D i) (\<lambda>_. io_return Done)"
| "run_op keccak D (Prune i) = io_bind (tx_store_prune_tx D i) (\<lambda>_. io_return Done)"
| "run_op keccak D (Progress n h first) = io_bind (put_progress D (n, h, first)) (\<lambda>_. io_return Done)"
| "run_op keccak D (Latest n) = io_bind (put_log_latest_block_number D n) (\<lambda>_. io_return Done)"
| "run_op keccak D (Delete_Block n) = io_bind (delete_block_hash_by_number D n) (\<lambda>_. io_return Done)"

fun run_ops :: "(byte list \<Rightarrow> h256) \<Rightarrow> 'd kv_ops \<Rightarrow> tx_op list \<Rightarrow> ('d tx_store, tx_out list) io" where
  "run_ops keccak D [] = io_return []"
| "run_ops keccak D (p # ps) = io_bind (run_op keccak D p) (\<lambda>out. io_bind (run_ops keccak D ps) (\<lambda>outs. io_return (out # outs)))"

text \<open>The same on the log. A transaction is put at the end of the log, or is the last one put again.\<close>

fun op_ok :: "(byte list \<Rightarrow> h256) \<Rightarrow> tx_log \<Rightarrow> tx_op \<Rightarrow> bool" where
  "op_ok keccak l (Put tx) \<longleftrightarrow>
     (if tx_seq tx < length (log_txs l)
      then tx_seq tx + 1 = length (log_txs l) \<and> tx_seq tx \<in> set (log_index l (data_merkle_root tx))
      else tx_seq tx = length (log_txs l) \<and> length (log_txs l) + 1 < 256 ^ 8 \<and>
        (case in_place_tx keccak tx of
           Inr tx' \<Rightarrow> data_merkle_root tx' = data_merkle_root tx \<and> wf_transaction tx'
         | Inl _ \<Rightarrow> False))"
| "op_ok keccak l (Remove_After m) \<longleftrightarrow> m \<le> length (log_txs l)"
| "op_ok keccak l (Finalize i) \<longleftrightarrow> i < 256 ^ 8"
| "op_ok keccak l (Prune i) \<longleftrightarrow> i < length (log_txs l)"
| "op_ok keccak l (Progress n h first) \<longleftrightarrow>
     wf_progress (n, h) \<and> (case first of Some i \<Rightarrow> wf_block (h, i) | None \<Rightarrow> True)"
| "op_ok keccak l (Latest n) \<longleftrightarrow> n < 256 ^ 8"
| "op_ok keccak l (Delete_Block n) \<longleftrightarrow> n < 256 ^ 8"

fun log_op :: "(byte list \<Rightarrow> h256) \<Rightarrow> tx_op \<Rightarrow> tx_log \<Rightarrow> tx_log" where
  "log_op keccak (Put tx) l =
     (if tx_seq tx < length (log_txs l) then l
      else case in_place_tx keccak tx of Inr tx' \<Rightarrow> log_put tx' l | Inl _ \<Rightarrow> l)"
| "log_op keccak (Remove_After m) l = log_remove m l"
| "log_op keccak (Finalize i) l = l\<lparr>log_status := (log_status l)(i \<mapsto> Finalized)\<rparr>"
| "log_op keccak (Prune i) l = log_prune i l"
| "log_op keccak (Progress n h first) l =
     l\<lparr>log_progress := Some (n, h),
       log_blocks := (case first of Some i \<Rightarrow> (log_blocks l)(n \<mapsto> (h, i)) | None \<Rightarrow> log_blocks l)\<rparr>"
| "log_op keccak (Latest n) l = l\<lparr>log_latest := Some n\<rparr>"
| "log_op keccak (Delete_Block n) l = l\<lparr>log_blocks := (log_blocks l)(n := None)\<rparr>"

fun log_out :: "tx_op \<Rightarrow> tx_log \<Rightarrow> tx_out" where
  "log_out (Put tx) l = Seqs (log_index l (data_merkle_root tx))"
| "log_out (Remove_After m) l = Removed (drop m (log_txs l))"
| "log_out _ l = Done"

fun ops_ok :: "(byte list \<Rightarrow> h256) \<Rightarrow> tx_log \<Rightarrow> tx_op list \<Rightarrow> bool" where
  "ops_ok keccak l [] \<longleftrightarrow> True"
| "ops_ok keccak l (p # ps) \<longleftrightarrow> op_ok keccak l p \<and> ops_ok keccak (log_op keccak p l) ps"

fun log_outs :: "(byte list \<Rightarrow> h256) \<Rightarrow> tx_log \<Rightarrow> tx_op list \<Rightarrow> tx_out list" where
  "log_outs keccak l [] = []"
| "log_outs keccak l (p # ps) = log_out p l # log_outs keccak (log_op keccak p l) ps"

context key_value_db
begin

lemma put_again:
  assumes s: "store_holds contents s l" and i: "tx_seq tx + 1 = length (log_txs l)"
    "tx_seq tx \<in> set (log_index l (data_merkle_root tx))"
  shows "put_tx keccak D tx s = (Inr (log_index l (data_merkle_root tx)), s)"
proof -
  let ?xs = "log_index l (data_merkle_root tx)"
  have ne: "?xs \<noteq> []" using i(2) by auto
  have "last ?xs \<le> tx_seq tx" using last_in_log_index [OF ne] i(1) by simp
  moreover have "tx_seq tx \<le> last ?xs"
  proof -
    obtain k where k: "k < length ?xs" "?xs ! k = tx_seq tx" using i(2) by (auto simp: in_set_conv_nth)
    show ?thesis
    proof (cases "k = length ?xs - 1")
      case True
      then show ?thesis using k ne by (simp add: last_conv_nth)
    next
      case False
      then have "k < length ?xs - 1" "length ?xs - 1 < length ?xs" using k(1) by linarith+
      from sorted_wrt_nth_less [OF sorted_log_index this] show ?thesis using k(2) ne by (simp add: last_conv_nth)
    qed
  qed
  moreover have "next_tx_seq s = tx_seq tx + 1" "tx_seq tx + 1 < 2 ^ 64"
    using s i(1) by (simp_all add: store_holds_def wf_log_def)
  ultimately show ?thesis
    using ne by (simp add: put_tx_def io_bind_def get_seq_list [OF s] store_next_tx_seq_def)
qed

lemma step_simulated:
  assumes s: "store_holds contents s l" and ok: "op_ok keccak l p"
  shows "\<exists>s'. run_op keccak D p s = (Inr (log_out p l), s') \<and> store_holds contents s' (log_op keccak p l)"
proof (cases p)
  case (Put tx)
  show ?thesis
  proof (cases "tx_seq tx < length (log_txs l)")
    case True
    then show ?thesis using ok Put s put_again [OF s, of tx keccak] by (simp add: io_bind_def)
  next
    case False
    then obtain tx' where tx': "in_place_tx keccak tx = Inr tx'" "data_merkle_root tx' = data_merkle_root tx" "wf_transaction tx'"
      "tx_seq tx = length (log_txs l)" "length (log_txs l) + 1 < 256 ^ 8"
      using ok Put by (cases "in_place_tx keccak tx") simp_all
    obtain s' where "put_tx keccak D tx s = (Inr (log_index l (data_merkle_root tx)), s')" "store_holds contents s' (log_put tx' l)"
      by (rule put_new_tx [OF s tx'(1,2,4,3,5)])
    then show ?thesis using False Put tx'(1) by (simp add: io_bind_def)
  qed
next
  case (Remove_After m)
  obtain s' where "remove_tx_after D m s = (Inr (drop m (log_txs l)), s')" "store_holds contents s' (log_remove m l)"
    by (rule removed_after [OF s, of m]) (use ok Remove_After in simp)
  then show ?thesis using Remove_After by (simp add: io_bind_def)
next
  case (Finalize i)
  obtain s' where "tx_store_finalize_tx D i s = (Inr (), s')"
    "store_holds contents s' (l\<lparr>log_status := (log_status l)(i \<mapsto> Finalized)\<rparr>)"
    by (rule finalized [OF s, of i]) (use ok Finalize in simp)
  then show ?thesis using Finalize by (simp add: io_bind_def)
next
  case (Prune i)
  obtain s' where "tx_store_prune_tx D i s = (Inr (), s')" "store_holds contents s' (log_prune i l)"
    by (rule pruned [OF s, of i]) (use ok Prune in simp)
  then show ?thesis using Prune by (simp add: io_bind_def)
next
  case (Progress n h first)
  have wf: "wf_progress (n, h)" "\<And>i. first = Some i \<Longrightarrow> wf_block (h, i)" using ok Progress by simp_all
  obtain s' where "put_progress D (n, h, first) s = (Inr (), s')" "store_holds contents s' (log_op keccak p l)"
    unfolding Progress log_op.simps by (rule progress_put [OF s wf])
  then show ?thesis using Progress by (simp add: io_bind_def)
next
  case (Latest n)
  obtain s' where "put_log_latest_block_number D n s = (Inr (), s')" "store_holds contents s' (l\<lparr>log_latest := Some n\<rparr>)"
    by (rule latest_put [OF s, of n]) (use ok Latest in simp)
  then show ?thesis using Latest by (simp add: io_bind_def)
next
  case (Delete_Block n)
  obtain s' where "delete_block_hash_by_number D n s = (Inr (), s')"
    "store_holds contents s' (l\<lparr>log_blocks := (log_blocks l)(n := None)\<rparr>)"
    by (rule block_deleted [OF s, of n]) (use ok Delete_Block in simp)
  then show ?thesis using Delete_Block by (simp add: io_bind_def)
qed

lemma run_simulated:
  "store_holds contents s l \<Longrightarrow> ops_ok keccak l ps \<Longrightarrow>
   \<exists>s'. run_ops keccak D ps s = (Inr (log_outs keccak l ps), s') \<and> store_holds contents s' (fold (log_op keccak) ps l)"
proof (induction ps arbitrary: s l)
  case (Cons p ps)
  obtain s' where s': "run_op keccak D p s = (Inr (log_out p l), s')" "store_holds contents s' (log_op keccak p l)"
    using step_simulated [OF Cons.prems(1), of keccak p] Cons.prems(2) by auto
  obtain s'' where "run_ops keccak D ps s' = (Inr (log_outs keccak (log_op keccak p l) ps), s'')"
    "store_holds contents s'' (fold (log_op keccak) ps (log_op keccak p l))"
    using Cons.IH [OF s'(2)] Cons.prems(2) by auto
  then show ?case using s'(1) by (simp add: io_bind_def)
qed simp

end


definition sample_put :: "nat \<Rightarrow> byte \<Rightarrow> transaction" where
  "sample_put i b =
     \<lparr>stream_ids = [], tx_data = [], data_merkle_root = replicate 32 b, merkle_nodes = [(1, replicate 32 b)],
      start_entry_index = 1 + i, tx_size = 256, tx_seq = i\<rparr>"

definition sample_ops :: "tx_op list" where
  "sample_ops =
     [Put (sample_put 0 7), Put (sample_put 1 7), Put (sample_put 1 7), Finalize 0, Prune 1, Put (sample_put 2 9),
      Progress 5 (replicate 32 3) (Some (Some 1)), Remove_After 2, Put (sample_put 2 7)]"

lemma sample_put_sel [simp]:
  "tx_data (sample_put i b) = []" "tx_seq (sample_put i b) = i" "data_merkle_root (sample_put i b) = replicate 32 b"
  by (simp_all add: sample_put_def)

lemma wf_sample_put: "i < 256 ^ 8 - 1 \<Longrightarrow> wf_transaction (sample_put i b)"
  by (simp add: wf_transaction_def sample_put_def as_ssz_bytes_def ssz_transaction_def ssz_tuple_defs fields_put_def
      encoder_finalize_def encoder_container_def append_parameterized_def ssz_kind_def ssz_uint_def ssz_byte_array_def
      ssz_vec_def ssz_struct_def ssz_u8_def encode_length_eq)


end
