(* ===== verification/Zgs_Seal.thy ===== *)
theory Zgs_Seal
  imports Hash_Algorithm
begin

unbundle bit_operations_syntax

text \<open>
  The sizes of \<open>common/spec/src/lib.rs\<close> and the sealing of \<open>common/zgs_seal/src/lib.rs\<close>: data is
  masked word by word (32 bytes), each msk being the hash of the sealed word before it, so data
  can be unsealed from any word on when the sealed word before is at hand.
\<close>

section \<open>Sizes\<close>

definition KB :: nat where
  "KB = 1024"

definition BYTES_PER_SECTOR :: nat where
  "BYTES_PER_SECTOR = 256"

definition BYTES_PER_SEAL :: nat where
  "BYTES_PER_SEAL = 4 * KB"

definition BYTES_PER_LOAD :: nat where
  "BYTES_PER_LOAD = 256 * KB"

definition SECTORS_PER_LOAD :: nat where
  "SECTORS_PER_LOAD = BYTES_PER_LOAD div BYTES_PER_SECTOR"

definition SECTORS_PER_SEAL :: nat where
  "SECTORS_PER_SEAL = BYTES_PER_SEAL div BYTES_PER_SECTOR"

definition SEALS_PER_LOAD :: nat where
  "SEALS_PER_LOAD = BYTES_PER_LOAD div BYTES_PER_SEAL"

lemma sizes [simp]:
  "KB = 1024" "BYTES_PER_SECTOR = 256" "BYTES_PER_SEAL = 4096" "BYTES_PER_LOAD = 262144"
  "SECTORS_PER_LOAD = 1024" "SECTORS_PER_SEAL = 16" "SEALS_PER_LOAD = 64"
  by (simp_all add: KB_def BYTES_PER_SECTOR_def BYTES_PER_SEAL_def BYTES_PER_LOAD_def
      SECTORS_PER_LOAD_def SECTORS_PER_SEAL_def SEALS_PER_LOAD_def)

section \<open>Sealing\<close>

definition compute_first_mask_seed :: "h256 \<Rightarrow> h256 \<Rightarrow> nat \<Rightarrow> byte list" where
  "compute_first_mask_seed miner_id context_digest start_sector =
     miner_id @ context_digest @ replicate 24 0 @ be_bytes 8 start_sector"

text \<open>\<open>word.iter_mut().zip(msk.iter())\<close> with \<open>*x ^= *y\<close>.\<close>

fun xor_mask :: "byte list \<Rightarrow> byte list \<Rightarrow> byte list" where
  "xor_mask (x # xs) (m # ms) = (x XOR m) # xor_mask xs ms"
| "xor_mask xs ms = xs"

function seal_words :: "(byte list \<Rightarrow> h256) \<Rightarrow> h256 \<Rightarrow> byte list \<Rightarrow> byte list" where
  "seal_words keccak msk data =
     (if data = [] then []
      else let word = xor_mask (take 32 data) msk
           in word @ seal_words keccak (keccak word) (drop 32 data))"
  by pat_completeness auto
termination
  by (relation "measure (\<lambda>(keccak, msk, data). length data)") auto

function unseal_words :: "(byte list \<Rightarrow> h256) \<Rightarrow> h256 \<Rightarrow> byte list \<Rightarrow> byte list" where
  "unseal_words keccak msk data =
     (if data = [] then []
      else let next_mask = keccak (take 32 data)
           in xor_mask (take 32 data) msk @ unseal_words keccak next_mask (drop 32 data))"
  by pat_completeness auto
termination
  by (relation "measure (\<lambda>(keccak, msk, data). length data)") auto

declare seal_words.simps [simp del] unseal_words.simps [simp del]

definition seal_with_mask :: "(byte list \<Rightarrow> h256) \<Rightarrow> byte list \<Rightarrow> h256 \<Rightarrow> byte list res" where
  "seal_with_mask keccak data first_mask =
     rbind (ensure (length data mod 32 = 0) (Panic ''assertion failed'')) (\<lambda>_.
     Inr (seal_words keccak first_mask data))"

definition unseal_with_mask :: "(byte list \<Rightarrow> h256) \<Rightarrow> byte list \<Rightarrow> h256 \<Rightarrow> byte list res" where
  "unseal_with_mask keccak data first_mask =
     rbind (ensure (length data mod 32 = 0) (Panic ''assertion failed'')) (\<lambda>_.
     Inr (unseal_words keccak first_mask data))"

definition seal_with_mask_seed :: "(byte list \<Rightarrow> h256) \<Rightarrow> byte list \<Rightarrow> byte list \<Rightarrow> byte list res" where
  "seal_with_mask_seed keccak data first_mask_seed = seal_with_mask keccak data (keccak first_mask_seed)"

definition unseal_with_mask_seed :: "(byte list \<Rightarrow> h256) \<Rightarrow> byte list \<Rightarrow> byte list \<Rightarrow> byte list res" where
  "unseal_with_mask_seed keccak data first_mask_seed = unseal_with_mask keccak data (keccak first_mask_seed)"

definition seal :: "(byte list \<Rightarrow> h256) \<Rightarrow> byte list \<Rightarrow> h256 \<Rightarrow> h256 \<Rightarrow> nat \<Rightarrow> byte list res" where
  "seal keccak data miner_id context_digest start_sector =
     seal_with_mask_seed keccak data (compute_first_mask_seed miner_id context_digest start_sector)"

definition unseal :: "(byte list \<Rightarrow> h256) \<Rightarrow> byte list \<Rightarrow> h256 \<Rightarrow> h256 \<Rightarrow> nat \<Rightarrow> byte list res" where
  "unseal keccak data miner_id context_digest start_sector =
     unseal_with_mask_seed keccak data (compute_first_mask_seed miner_id context_digest start_sector)"

section \<open>Unsealing undoes sealing\<close>

lemma length_xor_mask [simp]: "length (xor_mask xs ms) = length xs"
  by (induction xs ms rule: xor_mask.induct) auto

lemma xor_mask_Nil [simp]: "xor_mask xs ms = [] \<longleftrightarrow> xs = []"
  by (simp flip: length_0_conv)

lemma xor_mask_twice [simp]: "xor_mask (xor_mask xs ms) ms = xs"
  by (induction xs ms rule: xor_mask.induct) (auto simp: xor.assoc)

lemma length_seal_words [simp]: "length (seal_words keccak msk data) = length data"
  by (induction keccak msk data rule: seal_words.induct)
     (subst seal_words.simps, auto simp: Let_def min_def)

lemma length_unseal_words [simp]: "length (unseal_words keccak msk data) = length data"
  by (induction keccak msk data rule: unseal_words.induct)
     (subst unseal_words.simps, auto simp: Let_def min_def)

lemma unseal_seal_words: "unseal_words keccak msk (seal_words keccak msk data) = data"
proof (induction keccak msk data rule: seal_words.induct)
  case (1 keccak msk data)
  show ?case
  proof (cases "length data \<le> 32")
    case True
    then show ?thesis
      by (cases "data = []")
        (simp_all add: seal_words.simps [of _ _ data] seal_words.simps [of _ _ "[]"] unseal_words.simps [of _ _ "[]"]
          unseal_words.simps [of keccak msk "xor_mask data msk"] Let_def)
  next
    case False
    let ?w = "xor_mask (take 32 data) msk"
    have w: "length ?w = 32" using False by simp
    have "seal_words keccak msk data = ?w @ seal_words keccak (keccak ?w) (drop 32 data)"
      using False by (subst seal_words.simps) (auto simp: Let_def)
    moreover have "unseal_words keccak msk (?w @ seal_words keccak (keccak ?w) (drop 32 data)) =
        xor_mask ?w msk @ unseal_words keccak (keccak ?w) (seal_words keccak (keccak ?w) (drop 32 data))"
      using w by (subst unseal_words.simps) (auto simp: Let_def)
    moreover have "data \<noteq> []" using False by auto
    ultimately show ?thesis using 1 [OF _ refl] by simp
  qed
qed

text \<open>Unsealing works on every prefix, and from every word on with the hash of the word before.\<close>

lemma unseal_words_take: "32 dvd n \<Longrightarrow> unseal_words keccak msk (take n data) = take n (unseal_words keccak msk data)"
proof (induction keccak msk data arbitrary: n rule: unseal_words.induct)
  case (1 keccak msk data)
  show ?case
  proof (cases "data = [] \<or> n = 0")
    case True
    then show ?thesis by (auto simp: unseal_words.simps [of _ _ "[]"])
  next
    case False
    then have n: "32 \<le> n" "32 dvd n - 32" using 1(2) by (auto elim!: dvdE dest: dvd_imp_le)
    have "unseal_words keccak msk (take n data) =
        xor_mask (take 32 data) msk @ unseal_words keccak (keccak (take 32 data)) (take (n - 32) (drop 32 data))"
      using False n by (subst unseal_words.simps) (simp add: Let_def min_def drop_take)
    also have "\<dots> = xor_mask (take 32 data) msk @
        take (n - 32) (unseal_words keccak (keccak (take 32 data)) (drop 32 data))"
      using False 1(1) n by simp
    also have "\<dots> = take n (unseal_words keccak msk data)"
      using False n by (subst (2) unseal_words.simps) (auto simp: Let_def min_def take_all_iff)
    finally show ?thesis .
  qed
qed

lemma unseal_words_drop:
  assumes "0 < j" "32 * j \<le> length data"
  shows "drop (32 * j) (unseal_words keccak msk data) =
    unseal_words keccak (keccak (take 32 (drop (32 * (j - 1)) data))) (drop (32 * j) data)"
  using assms
proof (induction j arbitrary: msk data)
  case (Suc j)
  have ne: "data \<noteq> []" using Suc.prems by auto
  have step: "unseal_words keccak msk data =
      xor_mask (take 32 data) msk @ unseal_words keccak (keccak (take 32 data)) (drop 32 data)"
    using ne by (subst unseal_words.simps) (simp add: Let_def)
  have len: "length (xor_mask (take 32 data) msk) = 32" using Suc.prems by simp
  show ?case
  proof (cases "j = 0")
    case True
    then show ?thesis unfolding step using len by simp
  next
    case False
    have "drop (32 * Suc j) (unseal_words keccak msk data) =
        drop (32 * j) (unseal_words keccak (keccak (take 32 data)) (drop 32 data))"
      unfolding step using len by simp
    also have "\<dots> = unseal_words keccak (keccak (take 32 (drop (32 * (j - 1)) (drop 32 data)))) (drop (32 * j) (drop 32 data))"
      using False Suc.prems by (intro Suc.IH) auto
    also have "32 * (j - 1) + 32 = 32 * j" using False by simp
    then have "drop (32 * (j - 1)) (drop 32 data) = drop (32 * (Suc j - 1)) data" by simp
    finally show ?thesis by (simp add: add.commute)
  qed
qed simp

end
