(* ===== verification/Chunk_Data.thy ===== *)
theory Chunk_Data
  imports Zgs_Seal Shared_Types
begin

text \<open>
  \<open>node/storage/src/log_store/load_chunk/chunk_data.rs\<close>: the data of one load (256 KB) of the log.
  \<open>EntryBatchData\<close> is complete, or a list of disjoint partial batches ordered by start sector with
  the roots of subtrees whose data is not known. What a load knows is the map from byte offsets
  to bytes, \<open>known\<close>; reading, inserting and truncating are stated on it.
\<close>

section \<open>Types\<close>

record partial_batch =
  pb_start_sector :: nat
  pb_data :: "byte list"

record subtree =
  st_start_sector :: nat
  st_subtree_height :: nat
  st_root :: h256

record incomplete_data =
  subtrees :: "subtree list"
  known_data :: "partial_batch list"

datatype entry_batch_data = Complete "byte list" | Incomplete incomplete_data

section \<open>Searching\<close>

text \<open>
  \<open>slice::binary_search_by_key\<close> on keys in increasing order: the position of the key, or the
  position where it can be inserted.
\<close>

definition binary_search :: "nat list \<Rightarrow> nat \<Rightarrow> nat + nat" where
  "binary_search keys k =
     (let i = length (takeWhile (\<lambda>x. x < k) keys)
      in if i < length keys \<and> keys ! i = k then Inr i else Inl i)"

text \<open>\<open>DataRange::find\<close>, for the ranges given by their start and end sectors.\<close>

definition range_find :: "('a \<Rightarrow> nat) \<Rightarrow> ('a \<Rightarrow> nat) \<Rightarrow> 'a list \<Rightarrow> nat \<Rightarrow> (nat + nat) res" where
  "range_find start_sector end_sector data_list sector_index =
     (case (case binary_search (map start_sector data_list) sector_index of
              Inr x \<Rightarrow> Some x
            | Inl x \<Rightarrow> if x = 0 then None else Some (x - 1)) of
        None \<Rightarrow> Inr (Inl 0)
      | Some possible_index \<Rightarrow>
          rbind (index data_list possible_index) (\<lambda>d.
          Inr (if sector_index < end_sector d then Inr possible_index else Inl (possible_index + 1))))"

definition pb_end_sector :: "partial_batch \<Rightarrow> nat" where
  "pb_end_sector p = pb_start_sector p + bytes_to_chunks (length (pb_data p))"

definition st_end_sector :: "subtree \<Rightarrow> nat" where
  "st_end_sector s = st_start_sector s + shl1 (wsub (st_subtree_height s) 1)"

definition find_batch :: "partial_batch list \<Rightarrow> nat \<Rightarrow> (nat + nat) res" where
  "find_batch = range_find pb_start_sector pb_end_sector"

definition find_subtree :: "subtree list \<Rightarrow> nat \<Rightarrow> (nat + nat) res" where
  "find_subtree = range_find st_start_sector st_end_sector"

text \<open>\<open>slice::get(start..end)\<close>.\<close>

definition slice_get :: "'a list \<Rightarrow> nat \<Rightarrow> nat \<Rightarrow> 'a list option" where
  "slice_get xs start len = (if start + len \<le> length xs then Some (take len (drop start xs)) else None)"

section \<open>Incomplete data\<close>

definition incomplete_truncate :: "nat \<Rightarrow> incomplete_data \<Rightarrow> incomplete_data res" where
  "incomplete_truncate sector_index d =
     rbind (find_batch (known_data d) sector_index) (\<lambda>found.
     let (kd, partial_batch_truncate) =
       (case found of
          Inr x \<Rightarrow>
            (let p = known_data d ! x;
                 truncated_byte = (sector_index - pb_start_sector p) * BYTES_PER_SECTOR;
                 data = take truncated_byte (pb_data p)
             in ((known_data d)[x := p\<lparr>pb_data := data\<rparr>], if data = [] then x else x + 1))
        | Inl x \<Rightarrow> (known_data d, x))
     in rbind (find_subtree (subtrees d) sector_index) (\<lambda>st.
        let subtree_truncate = (case st of Inr x \<Rightarrow> x | Inl x \<Rightarrow> x)
        in Inr (d\<lparr>known_data := take partial_batch_truncate kd,
                  subtrees := take subtree_truncate (subtrees d)\<rparr>)))"

definition incomplete_get :: "incomplete_data \<Rightarrow> nat \<Rightarrow> nat \<Rightarrow> byte list option res" where
  "incomplete_get d start_byte length_byte =
     rbind (find_batch (known_data d) (start_byte div BYTES_PER_SECTOR)) (\<lambda>found.
     case found of
       Inl _ \<Rightarrow> Inr None
     | Inr x \<Rightarrow>
         (let p = known_data d ! x
          in Inr (slice_get (pb_data p) (start_byte - pb_start_sector p * BYTES_PER_SECTOR) length_byte)))"

section \<open>Entry batch data\<close>

definition data_new :: entry_batch_data where
  "data_new = Incomplete \<lparr>subtrees = [], known_data = []\<rparr>"

definition data_is_empty :: "entry_batch_data \<Rightarrow> bool" where
  "data_is_empty e = (case e of Incomplete x \<Rightarrow> known_data x = [] | Complete _ \<Rightarrow> False)"

definition data_get :: "entry_batch_data \<Rightarrow> nat \<Rightarrow> nat \<Rightarrow> byte list option res" where
  "data_get e start_byte length_byte =
     rbind (ensure (start_byte + length_byte \<le> BYTES_PER_LOAD) (Panic ''assertion failed'')) (\<lambda>_.
     case e of
       Complete data \<Rightarrow> Inr (slice_get data start_byte length_byte)
     | Incomplete data \<Rightarrow> incomplete_get data start_byte length_byte)"

text \<open>
  \<open>get_mut\<close> with the change \<open>f\<close> its caller makes to the slice: \<open>None\<close> when the slice is not
  available, otherwise the data with the slice replaced.
\<close>

definition slice_update ::
    "byte list \<Rightarrow> nat \<Rightarrow> nat \<Rightarrow> (byte list \<Rightarrow> byte list res) \<Rightarrow> byte list option res" where
  "slice_update xs start len f =
     (case slice_get xs start len of
        None \<Rightarrow> Inr None
      | Some s \<Rightarrow> rbind (f s) (\<lambda>s'. Inr (Some (take start xs @ s' @ drop (start + len) xs))))"

definition data_get_mut ::
    "entry_batch_data \<Rightarrow> nat \<Rightarrow> nat \<Rightarrow> (byte list \<Rightarrow> byte list res) \<Rightarrow> entry_batch_data option res" where
  "data_get_mut e start_byte length_byte f =
     rbind (ensure (start_byte + length_byte \<le> BYTES_PER_LOAD) (Panic ''assertion failed'')) (\<lambda>_.
     case e of
       Complete data \<Rightarrow>
         rbind (slice_update data start_byte length_byte f) (\<lambda>r. Inr (map_option Complete r))
     | Incomplete data \<Rightarrow>
         rbind (find_batch (known_data data) (start_byte div BYTES_PER_SECTOR)) (\<lambda>found.
         case found of
           Inl _ \<Rightarrow> Inr None
         | Inr x \<Rightarrow>
             (let p = known_data data ! x in
              rbind (slice_update (pb_data p) (start_byte - pb_start_sector p * BYTES_PER_SECTOR) length_byte f) (\<lambda>r.
              Inr (map_option (\<lambda>d. Incomplete (data\<lparr>known_data := (known_data data)[x := p\<lparr>pb_data := d\<rparr>]\<rparr>)) r)))))"

definition data_truncate :: "nat \<Rightarrow> entry_batch_data \<Rightarrow> entry_batch_data res" where
  "data_truncate truncated_byte e =
     rbind (ensure (truncated_byte mod BYTES_PER_SECTOR = 0) (Panic ''assertion failed'')) (\<lambda>_.
     case e of
       Complete data \<Rightarrow>
         Inr (Incomplete \<lparr>subtrees = [], known_data = [\<lparr>pb_start_sector = 0, pb_data = take truncated_byte data\<rparr>]\<rparr>)
     | Incomplete batch_list \<Rightarrow>
         rbind (incomplete_truncate (truncated_byte div BYTES_PER_SECTOR) batch_list) (\<lambda>b. Inr (Incomplete b)))"

text \<open>The sealing segments that a range of sectors fills, and those it touches; indices are \<open>u16\<close>.\<close>

definition u16 :: "nat \<Rightarrow> nat" where
  "u16 n = n mod 2 ^ 16"

definition get_intact_sealing_index :: "nat \<Rightarrow> nat \<Rightarrow> nat \<times> nat" where
  "get_intact_sealing_index start_sector length_sector =
     (u16 ((start_sector + SECTORS_PER_SEAL - 1) div SECTORS_PER_SEAL),
      u16 ((start_sector + length_sector) div SECTORS_PER_SEAL))"

definition get_covered_sealing_index :: "nat \<Rightarrow> nat \<Rightarrow> nat \<times> nat" where
  "get_covered_sealing_index start_sector length_sector =
     (u16 (start_sector div SECTORS_PER_SEAL),
      u16 ((start_sector + length_sector + SECTORS_PER_SEAL - 1) div SECTORS_PER_SEAL))"

text \<open>
  The loop that removes completed subtrees: the ones before the first subtree that ends behind the
  updated segment; when there is none, the loop ends without removing anything.
\<close>

fun drain_subtrees :: "nat \<Rightarrow> nat \<Rightarrow> nat \<Rightarrow> nat list \<Rightarrow> subtree list \<Rightarrow> subtree list res" where
  "drain_subtrees start_index updated_start updated_end [] sts = Inr sts"
| "drain_subtrees start_index updated_start updated_end (i # is) sts =
     rbind (index sts i) (\<lambda>s.
     rbind (ensure (st_start_sector s \<ge> updated_start) (Panic ''assertion failed'')) (\<lambda>_.
     if st_end_sector s > updated_end then Inr (take start_index sts @ drop i sts)
     else drain_subtrees start_index updated_start updated_end is sts))"

text \<open>The four cases of merging new data into the list at \<open>position\<close>; returns the updated segment.\<close>

definition merge_batches ::
    "nat \<Rightarrow> bool \<Rightarrow> bool \<Rightarrow> partial_batch \<Rightarrow> partial_batch list \<Rightarrow> partial_batch list \<times> partial_batch" where
  "merge_batches position merge_prev merge_next new list =
     (case (merge_prev, merge_next) of
        (False, False) \<Rightarrow> (take position list @ [new] @ drop position list, new)
      | (True, False) \<Rightarrow>
          (let p = list ! (position - 1); p' = p\<lparr>pb_data := pb_data p @ pb_data new\<rparr>
           in (list[position - 1 := p'], p'))
      | (False, True) \<Rightarrow>
          (let p' = new\<lparr>pb_data := pb_data new @ pb_data (list ! position)\<rparr>
           in (list[position := p'], p'))
      | (True, True) \<Rightarrow>
          (let p = list ! (position - 1); next = list ! position;
               p' = p\<lparr>pb_data := (pb_data p @ pb_data new) @ pb_data next\<rparr>
           in ((take position list @ drop (position + 1) list)[position - 1 := p'], p')))"

definition data_insert_data ::
    "nat \<Rightarrow> byte list \<Rightarrow> entry_batch_data \<Rightarrow> (entry_batch_data \<times> nat list) res" where
  "data_insert_data start_byte data e =
     rbind (ensure (start_byte mod BYTES_PER_SECTOR = 0) (Panic ''assertion failed'')) (\<lambda>_.
     rbind (ensure (length data mod BYTES_PER_SECTOR = 0) (Panic ''assertion failed'')) (\<lambda>_.
     case e of
       Complete _ \<Rightarrow> Inl (Err ''overwriting a completed PoRA Chunk with conflict data'')
     | Incomplete x \<Rightarrow>
         (let list = known_data x; subtree_list = subtrees x;
              start_sector = start_byte div BYTES_PER_SECTOR;
              end_sector = start_sector + length data div BYTES_PER_SECTOR;
              length_sector = length data div BYTES_PER_SECTOR in
          rbind (find_batch list start_sector) (\<lambda>found_start.
          case found_start of
            Inr _ \<Rightarrow> Inl (Err ''start position overlapped with existing batch'')
          | Inl start_insert_position \<Rightarrow>
              rbind (find_batch list (wsub end_sector 1)) (\<lambda>found_end.
              case found_end of
                Inr _ \<Rightarrow> Inl (Err ''end position overlapped with existing batch'')
              | Inl end_insert_position \<Rightarrow>
                  if start_insert_position \<noteq> end_insert_position
                  then Inl (Err ''data overlapped with existing batches'')
                  else
                   (let position = start_insert_position;
                        merge_prev = (position \<noteq> 0 \<and> start_sector = pb_end_sector (list ! (position - 1)));
                        merge_next = (position \<noteq> length list \<and> end_sector = pb_start_sector (list ! position));
                        (list, updated) = merge_batches position merge_prev merge_next
                           \<lparr>pb_start_sector = start_sector, pb_data = data\<rparr> list;
                        updated_start = pb_start_sector updated;
                        updated_end = updated_start + length (pb_data updated) div BYTES_PER_SECTOR;
                        start_subtree_index =
                          (case binary_search (map st_start_sector subtree_list) updated_start of Inr x \<Rightarrow> x | Inl x \<Rightarrow> x) in
                    rbind (drain_subtrees start_subtree_index updated_start updated_end
                             [start_subtree_index..<length subtree_list] subtree_list) (\<lambda>subtree_list.
                    let (intact_start, intact_end) =
                          get_intact_sealing_index updated_start (length (pb_data updated) div BYTES_PER_SECTOR);
                        e' = (if length list = 1 \<and> pb_start_sector (list ! 0) = 0 \<and>
                                 bytes_to_chunks (length (pb_data (list ! 0))) = SECTORS_PER_LOAD
                              then Complete (pb_data (list ! 0))
                              else Incomplete \<lparr>subtrees = subtree_list, known_data = list\<rparr>);
                        (covered_start, covered_end) = get_covered_sealing_index start_sector length_sector
                    in Inr (e', filter (\<lambda>x. intact_start \<le> x \<and> x < intact_end) [covered_start..<covered_end]))))))))"

definition available_range_entries :: "entry_batch_data \<Rightarrow> (nat \<times> nat) list" where
  "available_range_entries e =
     (case e of
        Complete data \<Rightarrow> [(0, length data div BYTES_PER_SECTOR)]
      | Incomplete batch_list \<Rightarrow>
          map (\<lambda>b. (pb_start_sector b, length (pb_data b) div BYTES_PER_SECTOR)) (known_data batch_list))"

text \<open>\<open>filter\<close> with a predicate that may panic.\<close>

primrec rfilter :: "('a \<Rightarrow> bool res) \<Rightarrow> 'a list \<Rightarrow> 'a list res" where
  "rfilter p [] = Inr []"
| "rfilter p (x # xs) = rbind (p x) (\<lambda>b. rbind (rfilter p xs) (\<lambda>ys. Inr (if b then x # ys else ys)))"

definition data_set_subtree_list ::
    "(nat \<times> nat \<times> h256) list \<Rightarrow> entry_batch_data \<Rightarrow> entry_batch_data res" where
  "data_set_subtree_list subtree_list e =
     rbind (rfilter (\<lambda>(start_sector, subtree_height, root).
              rbind (data_get e (start_sector * BYTES_PER_SECTOR) (shl1 (wsub subtree_height 1) * BYTES_PER_SECTOR)) (\<lambda>r.
              Inr (r = None \<and> root \<noteq> zero_h256))) subtree_list) (\<lambda>kept.
     let kept = map (\<lambda>(s, h, r). \<lparr>st_start_sector = s, st_subtree_height = h, st_root = r\<rparr>) kept in
     case e of
       Complete _ \<Rightarrow> Inr e
     | Incomplete data \<Rightarrow> Inr (Incomplete (data\<lparr>subtrees := kept\<rparr>)))"

definition get_subtree_list :: "entry_batch_data \<Rightarrow> subtree list" where
  "get_subtree_list e = (case e of Complete _ \<Rightarrow> [] | Incomplete data \<Rightarrow> subtrees data)"

section \<open>What the data knows\<close>

definition bytes_at :: "nat \<Rightarrow> 'a list \<Rightarrow> nat \<rightharpoonup> 'a" where
  "bytes_at s xs = (\<lambda>i. if s \<le> i \<and> i < s + length xs then Some (xs ! (i - s)) else None)"

definition pb_map :: "partial_batch \<Rightarrow> nat \<rightharpoonup> byte" where
  "pb_map p = bytes_at (256 * pb_start_sector p) (pb_data p)"

primrec batch_map :: "partial_batch list \<Rightarrow> nat \<rightharpoonup> byte" where
  "batch_map [] = Map.empty"
| "batch_map (p # ps) = batch_map ps ++ pb_map p"

definition known :: "entry_batch_data \<Rightarrow> nat \<rightharpoonup> byte" where
  "known e = (case e of Complete d \<Rightarrow> bytes_at 0 d | Incomplete x \<Rightarrow> batch_map (known_data x))"

text \<open>Partial batches are aligned, not empty, in order, and no two of them touch.\<close>

definition batch_ok :: "partial_batch \<Rightarrow> bool" where
  "batch_ok p \<longleftrightarrow> pb_data p \<noteq> [] \<and> 256 dvd length (pb_data p)"

definition batches_ok :: "partial_batch list \<Rightarrow> bool" where
  "batches_ok ps \<longleftrightarrow> (\<forall>p \<in> set ps. batch_ok p) \<and> sorted_wrt (\<lambda>p q. pb_end_sector p < pb_start_sector q) ps"

definition data_ok :: "entry_batch_data \<Rightarrow> bool" where
  "data_ok e =
     (case e of
        Complete d \<Rightarrow> length d = BYTES_PER_LOAD
      | Incomplete x \<Rightarrow> batches_ok (known_data x) \<and> (\<forall>p \<in> set (known_data x). pb_end_sector p \<le> SECTORS_PER_LOAD) \<and>
          sorted_wrt (<) (map st_start_sector (subtrees x)))"

lemma dom_bytes_at [simp]: "dom (bytes_at s xs) = {s..<s + length xs}"
  by (auto simp: bytes_at_def split: if_splits)

lemma bytes_at_append: "bytes_at s (xs @ ys) = bytes_at s xs ++ bytes_at (s + length xs) ys"
  by (auto simp: bytes_at_def map_add_def nth_append fun_eq_iff)

lemma bytes_at_in: "s \<le> i \<Longrightarrow> i < s + length xs \<Longrightarrow> bytes_at s xs i = Some (xs ! (i - s))"
  by (simp add: bytes_at_def)

lemma batch_map_append: "batch_map (ps @ qs) = batch_map qs ++ batch_map ps"
  by (induction ps) auto

lemma dom_batch_map: "dom (batch_map ps) = (\<Union>p \<in> set ps. dom (pb_map p))"
  by (induction ps) auto

lemma bytes_to_chunks_aligned [simp]: "256 dvd n \<Longrightarrow> bytes_to_chunks n = n div 256"
  by (simp add: bytes_to_chunks_def dvd_eq_mod_eq_0)

lemma pb_end_bytes: "batch_ok p \<Longrightarrow> 256 * pb_end_sector p = 256 * pb_start_sector p + length (pb_data p)"
  by (simp add: batch_ok_def pb_end_sector_def distrib_left)

lemma pb_start_less_end: "batch_ok p \<Longrightarrow> pb_start_sector p < pb_end_sector p"
  using pb_end_bytes [of p] by (cases "pb_data p") (auto simp: batch_ok_def)

lemma dom_pb_map: "batch_ok p \<Longrightarrow> dom (pb_map p) = {256 * pb_start_sector p..<256 * pb_end_sector p}"
  by (simp add: pb_map_def pb_end_bytes)

lemma batches_ok_append:
  "batches_ok (ps @ qs) \<longleftrightarrow> batches_ok ps \<and> batches_ok qs \<and>
     (\<forall>p \<in> set ps. \<forall>q \<in> set qs. pb_end_sector p < pb_start_sector q)"
  by (auto simp: batches_ok_def sorted_wrt_append)

lemma batches_ok_Cons:
  "batches_ok (p # qs) \<longleftrightarrow> batch_ok p \<and> batches_ok qs \<and> (\<forall>q \<in> set qs. pb_end_sector p < pb_start_sector q)"
  by (auto simp: batches_ok_def)

lemma batches_ok_Nil [simp]: "batches_ok []"
  by (simp add: batches_ok_def)

section \<open>Searching a list of batches\<close>

lemma binary_search_sorted:
  fixes ks :: "nat list" and k :: nat
  assumes "sorted_wrt (<) ks"
  defines "m \<equiv> length (takeWhile (\<lambda>x. x \<le> k) ks)"
  shows "binary_search ks k = (if 0 < m \<and> ks ! (m - 1) = k then Inr (m - 1) else Inl m)"
  using assms(1) unfolding m_def
proof (induction ks)
  case Nil
  then show ?case by (simp add: binary_search_def)
next
  case (Cons x ks)
  have gt: "takeWhile (\<lambda>y. y \<le> k) ks = []" "takeWhile (\<lambda>y. y < k) ks = []" if "k \<le> x"
    using Cons.prems that by (cases ks; auto)+
  consider "k < x" | "k = x" | "x < k" by linarith
  then show ?case
  proof cases
    case 3
    let ?m = "length (takeWhile (\<lambda>y. y \<le> k) ks)"
    have "binary_search (x # ks) k =
        (case binary_search ks k of Inl i \<Rightarrow> Inl (Suc i) | Inr i \<Rightarrow> Inr (Suc i))"
      using 3 by (simp add: binary_search_def Let_def)
    also have "\<dots> = (if 0 < ?m \<and> ks ! (?m - 1) = k then Inr ?m else Inl (Suc ?m))"
      using Cons by auto
    finally show ?thesis using 3 by (auto simp: nth_Cons split: nat.splits)
  qed (use gt in \<open>auto simp: binary_search_def\<close>)
qed

lemma sorted_starts: "batches_ok ps \<Longrightarrow> sorted_wrt (<) (map pb_start_sector ps)"
  unfolding batches_ok_def sorted_wrt_map
  by (elim conjE, erule sorted_wrt_mono_rel [rotated]) (use pb_start_less_end in fastforce)

text \<open>\<open>find\<close> splits the list at the sector: batches that start at or before it, and the rest.\<close>

lemma find_batch_split:
  assumes ok: "batches_ok (ps @ qs)" and ps: "\<forall>p \<in> set ps. pb_start_sector p \<le> k"
    and qs: "\<forall>q \<in> set qs. k < pb_start_sector q"
  shows "find_batch (ps @ qs) k =
    Inr (if ps \<noteq> [] \<and> k < pb_end_sector (last ps) then Inr (length ps - 1) else Inl (length ps))"
proof -
  have tw: "takeWhile (\<lambda>x. x \<le> k) (map pb_start_sector (ps @ qs)) = map pb_start_sector ps"
    using ps qs by (cases qs) (auto simp: takeWhile_append)
  have bs: "binary_search (map pb_start_sector (ps @ qs)) k =
      (if ps \<noteq> [] \<and> pb_start_sector (last ps) = k then Inr (length ps - 1) else Inl (length ps))"
    unfolding binary_search_sorted [OF sorted_starts [OF ok]] tw
    by (cases ps rule: rev_cases) (auto simp: nth_append)
  show ?thesis
  proof (cases ps rule: rev_cases)
    case Nil
    then show ?thesis using bs by (simp add: find_batch_def range_find_def)
  next
    case (snoc ps' p)
    then show ?thesis using bs by (simp add: find_batch_def range_find_def nth_append index_in)
  qed
qed

lemma batches_split:
  assumes ok: "batches_ok ps"
  obtains xs ys where "ps = xs @ ys" "\<forall>p \<in> set xs. pb_start_sector p \<le> k" "\<forall>q \<in> set ys. k < pb_start_sector q"
proof
  let ?P = "\<lambda>p. pb_start_sector p \<le> k"
  show "ps = takeWhile ?P ps @ dropWhile ?P ps" by simp
  show "\<forall>p \<in> set (takeWhile ?P ps). ?P p" by (auto dest: set_takeWhileD)
  show "\<forall>q \<in> set (dropWhile ?P ps). k < pb_start_sector q"
  proof (cases "dropWhile ?P ps")
    case (Cons q qs)
    then have hd: "k < pb_start_sector q" using hd_dropWhile [of ?P ps] by simp
    have "batches_ok (takeWhile ?P ps @ dropWhile ?P ps)" using ok by simp
    then have "batches_ok (q # qs)" unfolding Cons batches_ok_append by simp
    then show ?thesis unfolding Cons batches_ok_Cons using hd pb_start_less_end [of q] by fastforce
  qed (simp only: list.set ball_empty)
qed

text \<open>What the three answers of \<open>find\<close> mean.\<close>

lemma find_batch_total: "batches_ok ps \<Longrightarrow> \<exists>r. find_batch ps k = Inr r"
  by (metis batches_split find_batch_split)

lemma last_end_bound:
  assumes "batches_ok xs" "p \<in> set xs"
  shows "pb_end_sector p \<le> pb_end_sector (last xs)"
proof (cases xs rule: rev_cases)
  case (snoc ys y)
  then have "p = y \<or> pb_end_sector p < pb_start_sector y"
    using assms by (auto simp: batches_ok_append batches_ok_Cons)
  moreover have "pb_start_sector y < pb_end_sector y"
    using assms snoc by (auto simp: batches_ok_append batches_ok_Cons intro: pb_start_less_end)
  ultimately show ?thesis using snoc by auto
qed (use assms in simp)

lemma find_batch_Inl:
  assumes ok: "batches_ok ps" and f: "find_batch ps k = Inr (Inl j)"
  shows "j \<le> length ps" "\<forall>p \<in> set (take j ps). pb_end_sector p \<le> k" "\<forall>q \<in> set (drop j ps). k < pb_start_sector q"
proof -
  obtain xs ys where s: "ps = xs @ ys" "\<forall>p \<in> set xs. pb_start_sector p \<le> k" "\<forall>q \<in> set ys. k < pb_start_sector q"
    using batches_split [OF ok] by metis
  then have j: "j = length xs" "xs = [] \<or> pb_end_sector (last xs) \<le> k"
    using f find_batch_split [of xs ys k] ok by (auto split: if_splits)
  show "j \<le> length ps" using j s by simp
  show "\<forall>p \<in> set (take j ps). pb_end_sector p \<le> k"
    using j s ok last_end_bound [of xs] by (fastforce simp: batches_ok_append)
  show "\<forall>q \<in> set (drop j ps). k < pb_start_sector q" using j s by simp
qed

lemma find_batch_Inr:
  assumes ok: "batches_ok ps" and f: "find_batch ps k = Inr (Inr j)"
  shows "j < length ps" "pb_start_sector (ps ! j) \<le> k" "k < pb_end_sector (ps ! j)"
proof -
  obtain xs ys where s: "ps = xs @ ys" "\<forall>p \<in> set xs. pb_start_sector p \<le> k" "\<forall>q \<in> set ys. k < pb_start_sector q"
    using batches_split [OF ok] by metis
  then have "j = length xs - 1 \<and> xs \<noteq> [] \<and> k < pb_end_sector (last xs)"
    using f find_batch_split [of xs ys k] ok by (auto split: if_splits)
  then have j: "xs \<noteq> []" "j = length xs - 1" "j < length xs" "xs ! j = last xs" "k < pb_end_sector (last xs)"
    by (auto simp: last_conv_nth)
  show "j < length ps" using j(3) s(1) by simp
  have "ps ! j = last xs" using j(3,4) s(1) by (simp add: nth_append)
  then show "pb_start_sector (ps ! j) \<le> k" "k < pb_end_sector (ps ! j)" using j(1,5) s(2) by auto
qed

section \<open>Reading\<close>

text \<open>No byte next to a batch is known, so a known range lies in one batch.\<close>

lemma batch_gap:
  assumes ok: "batches_ok ps" and p: "p \<in> set ps"
  shows "256 * pb_end_sector p \<notin> dom (batch_map ps)"
    and "0 < pb_start_sector p \<Longrightarrow> 256 * pb_start_sector p - 1 \<notin> dom (batch_map ps)"
proof -
  obtain xs ys where ps: "ps = xs @ p # ys" using split_list [OF p] by blast
  have q: "q = p \<or> pb_end_sector q < pb_start_sector p \<or> pb_end_sector p < pb_start_sector q" if "q \<in> set ps" for q
    using that ok by (auto simp: ps batches_ok_append batches_ok_Cons)
  have okq: "batch_ok q" if "q \<in> set ps" for q using that ok by (simp add: batches_ok_def)
  have dom: "x \<in> dom (batch_map ps) \<longleftrightarrow> (\<exists>q \<in> set ps. 256 * pb_start_sector q \<le> x \<and> x < 256 * pb_end_sector q)" for x
    using okq by (auto simp: dom_batch_map dom_pb_map)
  have lt: "pb_start_sector p < pb_end_sector p" using okq [OF p] by (rule pb_start_less_end)
  show "256 * pb_end_sector p \<notin> dom (batch_map ps)"
    unfolding dom using q lt by fastforce
  show "256 * pb_start_sector p - 1 \<notin> dom (batch_map ps)" if "0 < pb_start_sector p"
    unfolding dom using q lt that by fastforce
qed

lemma known_range_in_batch:
  assumes ok: "batches_ok ps" and p: "p \<in> set ps" and r: "{a..<b} \<subseteq> dom (batch_map ps)"
    and c: "a \<le> c" "c < b" "c \<in> dom (pb_map p)"
  shows "{a..<b} \<subseteq> dom (pb_map p)"
proof -
  have okp: "batch_ok p" using ok p by (simp add: batches_ok_def)
  have c': "256 * pb_start_sector p \<le> c" "c < 256 * pb_end_sector p" using c(3) dom_pb_map [OF okp] by auto
  have "\<not> 256 * pb_end_sector p < b"
  proof
    assume "256 * pb_end_sector p < b"
    then have "256 * pb_end_sector p \<in> {a..<b}" using c(1) c'(2) by simp
    then show False using batch_gap(1) [OF ok p] r by blast
  qed
  moreover have "\<not> a < 256 * pb_start_sector p"
  proof
    assume *: "a < 256 * pb_start_sector p"
    then have "256 * pb_start_sector p - 1 \<in> {a..<b}" unfolding atLeastLessThan_iff using c(2) c'(1) by linarith
    moreover have "0 < pb_start_sector p" using * by (cases "pb_start_sector p") auto
    ultimately show False using batch_gap(2) [OF ok p] r by blast
  qed
  ultimately show ?thesis unfolding dom_pb_map [OF okp] by auto
qed

lemma batch_map_in:
  assumes ok: "batches_ok ps" and p: "p \<in> set ps" and i: "i \<in> dom (pb_map p)"
  shows "batch_map ps i = pb_map p i"
proof -
  obtain xs ys where ps: "ps = xs @ p # ys" using split_list [OF p] by blast
  have okp: "batch_ok p" using ok p by (simp add: batches_ok_def)
  have "i \<notin> dom (pb_map q)" if "q \<in> set xs" for q
  proof -
    have "batch_ok q" "pb_end_sector q < pb_start_sector p"
      using ok that by (auto simp: ps batches_ok_append batches_ok_Cons) (auto simp: batches_ok_def)
    then show ?thesis using i by (auto simp: dom_pb_map okp)
  qed
  then have "i \<notin> dom (batch_map xs)" by (simp add: dom_batch_map)
  then have "batch_map xs i = None" by auto
  then show ?thesis using i by (auto simp: ps batch_map_append map_add_def split: option.splits)
qed

text \<open>The bytes of a known range.\<close>

definition range_bytes :: "(nat \<rightharpoonup> 'a) \<Rightarrow> nat \<Rightarrow> nat \<Rightarrow> 'a list" where
  "range_bytes m start len = map (\<lambda>i. the (m i)) [start..<start + len]"

lemma length_range_bytes [simp]: "length (range_bytes m start len) = len"
  by (simp add: range_bytes_def)

lemma nth_range_bytes: "i < len \<Longrightarrow> range_bytes m start len ! i = the (m (start + i))"
  by (simp add: range_bytes_def)

lemma range_bytes_cong: "(\<And>i. start \<le> i \<Longrightarrow> i < start + len \<Longrightarrow> m i = m' i) \<Longrightarrow> range_bytes m start len = range_bytes m' start len"
  by (auto simp: range_bytes_def)

lemma slice_get_bytes:
  assumes "s \<le> start" "0 < len"
  shows "slice_get xs (start - s) len =
    (if {start..<start + len} \<subseteq> dom (bytes_at s xs) then Some (range_bytes (bytes_at s xs) start len) else None)"
proof -
  have "{start..<start + len} \<subseteq> {s..<s + length xs} \<longleftrightarrow> start - s + len \<le> length xs"
    using assms ivl_subset [of start "start + len" s "s + length xs"] by auto
  moreover have "take len (drop (start - s) xs) = range_bytes (bytes_at s xs) start len" if "start - s + len \<le> length xs"
    using that assms by (intro nth_equalityI) (auto simp: nth_range_bytes bytes_at_def)
  ultimately show ?thesis by (simp add: slice_get_def)
qed

lemma incomplete_get_correct:
  assumes ok: "batches_ok (known_data d)" and len: "0 < len"
  shows "incomplete_get d start len =
    Inr (if {start..<start + len} \<subseteq> dom (batch_map (known_data d))
         then Some (range_bytes (batch_map (known_data d)) start len) else None)"
proof -
  let ?ps = "known_data d" and ?k = "start div 256"
  obtain r where r: "find_batch ?ps ?k = Inr r" using find_batch_total [OF ok] by blast
  show ?thesis
  proof (cases r)
    case (Inl j)
    have "start \<notin> dom (pb_map p)" if "p \<in> set ?ps" for p
    proof -
      have "p \<in> set (take j ?ps) \<or> p \<in> set (drop j ?ps)" using that by (metis Un_iff append_take_drop_id set_append)
      then have "pb_end_sector p \<le> ?k \<or> ?k < pb_start_sector p" using find_batch_Inl [OF ok] r Inl by blast
      then show ?thesis using that ok by (auto simp: batches_ok_def dom_pb_map)
    qed
    then have "start \<notin> dom (batch_map ?ps)" by (simp add: dom_batch_map)
    then have "\<not> {start..<start + len} \<subseteq> dom (batch_map ?ps)" using len by (auto simp: subset_iff)
    then show ?thesis using r Inl by (simp add: incomplete_get_def)
  next
    case (Inr j)
    let ?p = "?ps ! j"
    have j: "j < length ?ps" "pb_start_sector ?p \<le> ?k" "?k < pb_end_sector ?p" using find_batch_Inr [OF ok] r Inr by auto
    have p: "?p \<in> set ?ps" using j by simp
    then have okp: "batch_ok ?p" using ok by (simp add: batches_ok_def)
    have start: "256 * pb_start_sector ?p \<le> start" "start \<in> dom (pb_map ?p)" using j unfolding dom_pb_map [OF okp] by auto
    have iff: "{start..<start + len} \<subseteq> dom (pb_map ?p) \<longleftrightarrow> {start..<start + len} \<subseteq> dom (batch_map ?ps)"
      using known_range_in_batch [OF ok p _ _ _ start(2), of start "start + len"] len p unfolding dom_batch_map by auto
    have "range_bytes (pb_map ?p) start len = range_bytes (batch_map ?ps) start len" if "{start..<start + len} \<subseteq> dom (pb_map ?p)"
      using that batch_map_in [OF ok p] by (intro range_bytes_cong) (auto simp: subset_iff)
    then show ?thesis
      using r Inr iff len slice_get_bytes [OF start(1) len, of "pb_data ?p"]
      by (auto simp: incomplete_get_def Let_def pb_map_def mult.commute)
  qed
qed

lemma data_get_correct:
  assumes ok: "data_ok e" and len: "0 < len" "start + len \<le> BYTES_PER_LOAD"
  shows "data_get e start len =
    Inr (if {start..<start + len} \<subseteq> dom (known e) then Some (range_bytes (known e) start len) else None)"
proof (cases e)
  case (Complete d)
  then show ?thesis using len slice_get_bytes [of 0 start len d] by (simp add: data_get_def known_def)
next
  case (Incomplete x)
  then show ?thesis
    using ok len incomplete_get_correct [of x len start] by (simp add: data_get_def known_def data_ok_def)
qed

end
