(* ===== verification/Chunk_Insert.thy ===== *)
theory Chunk_Insert
  imports Chunk_Data
begin

text \<open>
  Inserting into, truncating and changing the data of a load: each operation keeps \<open>data_ok\<close> and
  does to the map of known bytes what its name says. An insertion succeeds exactly if none of the
  bytes is known, and reports the sealing segments that it completes.
\<close>

section \<open>Merging a new batch\<close>

lemma merge_batches_simps:
  "merge_batches (length xs) False False new (xs @ ys) = (xs @ [new] @ ys, new)"
  "merge_batches (length (xs @ [p])) True False new ((xs @ [p]) @ ys) =
     (xs @ [p\<lparr>pb_data := pb_data p @ pb_data new\<rparr>] @ ys, p\<lparr>pb_data := pb_data p @ pb_data new\<rparr>)"
  "merge_batches (length xs) False True new (xs @ q # ys) =
     (xs @ [new\<lparr>pb_data := pb_data new @ pb_data q\<rparr>] @ ys, new\<lparr>pb_data := pb_data new @ pb_data q\<rparr>)"
  "merge_batches (length (xs @ [p])) True True new ((xs @ [p]) @ q # ys) =
     (xs @ [p\<lparr>pb_data := (pb_data p @ pb_data new) @ pb_data q\<rparr>] @ ys,
      p\<lparr>pb_data := (pb_data p @ pb_data new) @ pb_data q\<rparr>)"
  by (simp_all add: merge_batches_def Let_def nth_append list_update_append)

lemma batch_ok_join:
  assumes "batch_ok p" "batch_ok q" "pb_end_sector p = pb_start_sector q"
  shows "batch_ok (p\<lparr>pb_data := pb_data p @ pb_data q\<rparr>)"
    and "pb_end_sector (p\<lparr>pb_data := pb_data p @ pb_data q\<rparr>) = pb_end_sector q"
    and "pb_map (p\<lparr>pb_data := pb_data p @ pb_data q\<rparr>) = pb_map p ++ pb_map q"
proof -
  show ok: "batch_ok (p\<lparr>pb_data := pb_data p @ pb_data q\<rparr>)" using assms by (simp add: batch_ok_def)
  have "256 * pb_start_sector q = 256 * pb_start_sector p + length (pb_data p)"
    using pb_end_bytes [OF assms(1)] assms(3) by simp
  then show "pb_map (p\<lparr>pb_data := pb_data p @ pb_data q\<rparr>) = pb_map p ++ pb_map q"
    by (simp add: pb_map_def bytes_at_append)
  show "pb_end_sector (p\<lparr>pb_data := pb_data p @ pb_data q\<rparr>) = pb_end_sector q"
    using pb_end_bytes [OF ok] pb_end_bytes [OF assms(2)] pb_end_bytes [OF assms(1)] assms(3) by simp
qed

text \<open>
  The list is \<open>L @ P @ N @ R\<close>, where \<open>P\<close> holds the batch that ends where the new one starts, if there is
  one, and \<open>N\<close> the one that starts where it ends: the three become one batch.
\<close>

lemma merge_batches_shape:
  assumes new: "batch_ok new" and okP: "\<forall>p \<in> set (P @ N). batch_ok p" and len: "length P \<le> 1" "length N \<le> 1"
    and Pe: "\<forall>p \<in> set P. pb_end_sector p = pb_start_sector new" and Ns: "\<forall>q \<in> set N. pb_start_sector q = pb_end_sector new"
  obtains u where "merge_batches (length (L @ P)) (P \<noteq> []) (N \<noteq> []) new ((L @ P) @ (N @ R)) = (L @ [u] @ R, u)"
    and "batch_ok u" "pb_map u = batch_map P ++ pb_map new ++ batch_map N"
    and "pb_start_sector u = (case P of [] \<Rightarrow> pb_start_sector new | p # _ \<Rightarrow> pb_start_sector p)"
    and "pb_end_sector u = (case N of [] \<Rightarrow> pb_end_sector new | q # _ \<Rightarrow> pb_end_sector q)"
proof -
  consider "P = []" "N = []" | p where "P = [p]" "N = []" | q where "P = []" "N = [q]" | p q where "P = [p]" "N = [q]"
    using len by (cases P; cases N) auto
  then show thesis
  proof cases
    case 1
    then show ?thesis using that new merge_batches_simps(1) [of L new R] by simp
  next
    case (2 p)
    then show ?thesis using that okP Pe new merge_batches_simps(2) [of L p new R] batch_ok_join [of p new] by simp
  next
    case (3 q)
    then show ?thesis using that okP Ns new merge_batches_simps(3) [of L new q R] batch_ok_join [of new q] by simp
  next
    case (4 p q)
    let ?pn = "p\<lparr>pb_data := pb_data p @ pb_data new\<rparr>"
    have ok: "batch_ok p" "batch_ok q" using okP 4 by simp_all
    have e: "pb_end_sector p = pb_start_sector new" using Pe 4 by simp
    have e': "pb_end_sector new = pb_start_sector q" using Ns 4 by simp
    note j = batch_ok_join [OF ok(1) new e]
    note k = batch_ok_join [OF j(1) ok(2), unfolded j(2), OF e']
    have m: "merge_batches (length (L @ P)) (P \<noteq> []) (N \<noteq> []) new ((L @ P) @ (N @ R)) =
        (L @ [?pn\<lparr>pb_data := pb_data ?pn @ pb_data q\<rparr>] @ R, ?pn\<lparr>pb_data := pb_data ?pn @ pb_data q\<rparr>)"
      using merge_batches_simps(4) [of L p new q R] 4 by simp
    show ?thesis
    proof (rule that [OF m k(1)])
      show "pb_map (?pn\<lparr>pb_data := pb_data ?pn @ pb_data q\<rparr>) = batch_map P ++ pb_map new ++ batch_map N"
        unfolding k(3) j(3) by (simp add: 4)
    qed (unfold k(2), simp_all add: 4)
  qed
qed

lemma batch_map_disjoint:
  assumes "\<forall>p \<in> set xs. batch_ok p \<and> pb_end_sector p \<le> k" "\<forall>p \<in> set ys. batch_ok p \<and> k \<le> pb_start_sector p"
  shows "dom (batch_map xs) \<inter> dom (batch_map ys) = {}"
proof -
  have "x < 256 * k" if x: "x \<in> dom (batch_map xs)" for x
  proof -
    obtain p where p: "p \<in> set xs" "x \<in> dom (pb_map p)" using x by (auto simp: dom_batch_map)
    then have "batch_ok p" "pb_end_sector p \<le> k" using assms(1) by auto
    then show ?thesis using p(2) dom_pb_map [of p] by auto
  qed
  moreover have "256 * k \<le> x" if x: "x \<in> dom (batch_map ys)" for x
  proof -
    obtain p where p: "p \<in> set ys" "x \<in> dom (pb_map p)" using x by (auto simp: dom_batch_map)
    then have "batch_ok p" "k \<le> pb_start_sector p" using assms(2) by auto
    then show ?thesis using p(2) dom_pb_map [of p] by auto
  qed
  ultimately show ?thesis by fastforce
qed

lemma map_add_shuffle:
  assumes "dom n \<inter> dom b = {}" "dom p \<inter> dom n = {}" "dom l \<inter> dom n = {}" "dom p \<inter> dom b = {}"
  shows "r ++ (p ++ n ++ b) ++ l = r ++ b ++ p ++ l ++ n"
proof
  fix x
  have "n x = None \<or> b x = None" "p x = None \<or> n x = None" "l x = None \<or> n x = None" "p x = None \<or> b x = None"
    using assms by (fastforce simp: domIff)+
  then show "(r ++ (p ++ n ++ b) ++ l) x = (r ++ b ++ p ++ l ++ n) x"
    by (auto simp: map_add_def split: option.splits)
qed

lemma merge_batches_correct:
  assumes new: "batch_ok new" and ok: "batches_ok (L @ P @ N @ R)" and len: "length P \<le> 1" "length N \<le> 1"
    and Pe: "\<forall>p \<in> set P. pb_end_sector p = pb_start_sector new" and Ns: "\<forall>q \<in> set N. pb_start_sector q = pb_end_sector new"
    and L: "\<forall>p \<in> set L. pb_end_sector p < pb_start_sector new" and R: "\<forall>q \<in> set R. pb_end_sector new < pb_start_sector q"
  obtains u where "merge_batches (length (L @ P)) (P \<noteq> []) (N \<noteq> []) new ((L @ P) @ (N @ R)) = (L @ [u] @ R, u)"
    and "batches_ok (L @ [u] @ R)" "batch_map (L @ [u] @ R) = batch_map (L @ P @ N @ R) ++ pb_map new"
    and "pb_start_sector u \<le> pb_start_sector new" "pb_end_sector new \<le> pb_end_sector u"
    and "\<forall>n. (\<forall>p \<in> set (L @ P @ N @ R). pb_end_sector p \<le> n) \<longrightarrow> pb_end_sector new \<le> n \<longrightarrow> pb_end_sector u \<le> n"
proof -
  have okq: "batch_ok q" if "q \<in> set (L @ P @ N @ R)" for q using that ok by (simp add: batches_ok_def)
  have lt: "pb_start_sector q < pb_end_sector q" if "q \<in> set (L @ P @ N @ R)" for q
    using pb_start_less_end [OF okq [OF that]] .
  note ltn = pb_start_less_end [OF new]
  obtain u where m: "merge_batches (length (L @ P)) (P \<noteq> []) (N \<noteq> []) new ((L @ P) @ (N @ R)) = (L @ [u] @ R, u)"
    and u: "batch_ok u" "pb_map u = batch_map P ++ pb_map new ++ batch_map N"
    and us: "pb_start_sector u = (case P of [] \<Rightarrow> pb_start_sector new | p # _ \<Rightarrow> pb_start_sector p)"
    and ue: "pb_end_sector u = (case N of [] \<Rightarrow> pb_end_sector new | q # _ \<Rightarrow> pb_end_sector q)"
    using merge_batches_shape [OF new _ len Pe Ns] okq by (metis Un_iff set_append)
  have "pb_end_sector p < pb_start_sector u" if "p \<in> set L" for p
    using that L ok unfolding us by (cases P) (auto simp: batches_ok_append batches_ok_Cons)
  moreover have "pb_end_sector u < pb_start_sector q" if "q \<in> set R" for q
    using that R ok unfolding ue by (cases N) (auto simp: batches_ok_append batches_ok_Cons)
  ultimately have oku: "batches_ok (L @ [u] @ R)"
    using ok u(1) by (fastforce simp: batches_ok_append batches_ok_Cons)
  have "dom (pb_map new) \<inter> dom (batch_map N) = {}"
    using batch_map_disjoint [of "[new]" "pb_end_sector new" N] new Ns okq by auto
  moreover have "dom (batch_map P) \<inter> dom (pb_map new) = {}"
    using batch_map_disjoint [of P "pb_start_sector new" "[new]"] new Pe okq by auto
  moreover have "dom (batch_map L) \<inter> dom (pb_map new) = {}"
    using batch_map_disjoint [of L "pb_start_sector new" "[new]"] new L okq by (auto intro: less_imp_le)
  moreover have "dom (batch_map P) \<inter> dom (batch_map N) = {}"
    using batch_map_disjoint [of P "pb_start_sector new" N] Pe Ns ltn okq by auto
  ultimately have "batch_map R ++ (batch_map P ++ pb_map new ++ batch_map N) ++ batch_map L =
      batch_map R ++ batch_map N ++ batch_map P ++ batch_map L ++ pb_map new"
    by (rule map_add_shuffle)
  then have map: "batch_map (L @ [u] @ R) = batch_map (L @ P @ N @ R) ++ pb_map new"
    by (simp add: batch_map_append u(2))
  have s: "pb_start_sector u \<le> pb_start_sector new" using Pe lt [of "hd P"] unfolding us by (cases P) auto
  have e: "pb_end_sector new \<le> pb_end_sector u" using Ns lt [of "hd N"] unfolding ue by (cases N) auto
  have "pb_end_sector u \<le> n" if "\<forall>p \<in> set (L @ P @ N @ R). pb_end_sector p \<le> n" "pb_end_sector new \<le> n" for n
    using that unfolding ue by (cases N) auto
  then show thesis by (intro that [OF m oku map s e]) blast
qed

section \<open>Inserting data\<close>

lemma drain_subtrees_total:
  assumes "\<forall>i \<in> set is. i < length sts \<and> us \<le> st_start_sector (sts ! i) \<and> n \<le> i"
    and "sorted_wrt (<) (map st_start_sector sts)"
  shows "\<exists>sts'. drain_subtrees n us ue is sts = Inr sts' \<and> sorted_wrt (<) (map st_start_sector sts')"
  using assms
proof (induction "is")
  case (Cons i "is")
  let ?ks = "map st_start_sector sts"
  have "sorted_wrt (<) (take n ?ks @ drop i ?ks)"
    using Cons.prems by (auto simp: sorted_wrt_iff_nth_less nth_append min_def)
  then have "sorted_wrt (<) (map st_start_sector (take n sts @ drop i sts))" by (simp add: take_map drop_map)
  then show ?case using Cons by auto
qed simp

lemma drain_from_search:
  fixes us :: nat
  assumes "sorted_wrt (<) (map st_start_sector sts)"
  defines "n \<equiv> case binary_search (map st_start_sector sts) us of Inr x \<Rightarrow> x | Inl x \<Rightarrow> x"
  shows "\<exists>sts'. drain_subtrees n us ue [n..<length sts] sts = Inr sts' \<and> sorted_wrt (<) (map st_start_sector sts')"
proof -
  have n: "n = length (takeWhile (\<lambda>x. x < us) (map st_start_sector sts))"
    by (simp add: n_def binary_search_def Let_def)
  have "us \<le> st_start_sector (sts ! i)" if "n \<le> i" "i < length sts" for i
  proof -
    have lt: "n < length (map st_start_sector sts)" using that by simp
    have "us \<le> map st_start_sector sts ! n" using nth_length_takeWhile [OF lt [unfolded n]] by (simp add: n not_less)
    moreover have "map st_start_sector sts ! n \<le> map st_start_sector sts ! i"
      using that assms(1) by (cases "n = i") (auto simp: sorted_wrt_iff_nth_less less_imp_le)
    ultimately show ?thesis using that lt by simp
  qed
  then show ?thesis using assms(1) by (intro drain_subtrees_total) auto
qed

text \<open>A sector range that no batch overlaps is found as a position between two batches.\<close>

lemma find_free:
  assumes ok: "batches_ok (xs @ ys)" and xs: "\<forall>p \<in> set xs. pb_end_sector p \<le> k" and ys: "\<forall>q \<in> set ys. k < pb_start_sector q"
  shows "find_batch (xs @ ys) k = Inr (Inl (length xs))"
proof -
  have "pb_start_sector p \<le> k" if "p \<in> set xs" for p
    using that xs ok pb_start_less_end [of p] by (fastforce simp: batches_ok_def)
  then show ?thesis using find_batch_split [OF ok _ ys] xs by (cases xs rule: rev_cases) auto
qed

lemma free_split:
  assumes ok: "batches_ok ps" and new: "batch_ok new" and free: "dom (batch_map ps) \<inter> dom (pb_map new) = {}"
  obtains xs ys where "ps = xs @ ys" "\<forall>p \<in> set xs. pb_end_sector p \<le> pb_start_sector new"
    "\<forall>q \<in> set ys. pb_end_sector new \<le> pb_start_sector q"
proof -
  obtain xs ys where s: "ps = xs @ ys" "\<forall>p \<in> set xs. pb_start_sector p \<le> pb_start_sector new"
    "\<forall>q \<in> set ys. pb_start_sector new < pb_start_sector q"
    using batches_split [OF ok] by metis
  have okp: "batch_ok p" "dom (pb_map p) \<inter> dom (pb_map new) = {}" if "p \<in> set ps" for p
    using that ok free by (auto simp: batches_ok_def dom_batch_map)
  have dis: "{256 * pb_start_sector p..<256 * pb_end_sector p} \<inter> {256 * pb_start_sector new..<256 * pb_end_sector new} = {}"
    if "p \<in> set ps" for p using okp [OF that] new by (simp add: dom_pb_map)
  show thesis
  proof (rule that [OF s(1)]; intro ballI)
    fix p assume p: "p \<in> set xs"
    then have "256 * pb_start_sector new \<notin> {256 * pb_start_sector p..<256 * pb_end_sector p}"
      using dis [of p] s(1) pb_start_less_end [OF new] by (auto simp: disjoint_iff)
    then show "pb_end_sector p \<le> pb_start_sector new" using p s(2) by auto
  next
    fix q assume q: "q \<in> set ys"
    then have "256 * pb_start_sector q \<notin> {256 * pb_start_sector new..<256 * pb_end_sector new}"
      using dis [of q] s(1) okp [of q] pb_start_less_end [of q] by (auto simp: disjoint_iff)
    then show "pb_end_sector new \<le> pb_start_sector q" using q s(3) by fastforce
  qed
qed

text \<open>The two tests of the code pick the neighbours that touch the new data.\<close>

lemma before_gap:
  assumes ok: "batches_ok xs" and le: "\<forall>p \<in> set xs. pb_end_sector p \<le> k"
  obtains L P where "xs = L @ P" "length P \<le> 1" "\<forall>p \<in> set P. pb_end_sector p = k" "\<forall>p \<in> set L. pb_end_sector p < k"
    "P \<noteq> [] \<longleftrightarrow> xs \<noteq> [] \<and> k = pb_end_sector (last xs)"
proof (cases "xs \<noteq> [] \<and> k = pb_end_sector (last xs)")
  case True
  then obtain ys y where xs: "xs = ys @ [y]" by (cases xs rule: rev_cases) auto
  have "pb_end_sector p < k" if "p \<in> set ys" for p
  proof -
    have "pb_end_sector p < pb_start_sector y" "batch_ok y"
      using that ok by (auto simp: xs batches_ok_append batches_ok_Cons)
    then show ?thesis using True xs pb_start_less_end [of y] by simp
  qed
  then show thesis using that [of ys "[y]"] True xs by simp
next
  case False
  have "pb_end_sector p < k" if "p \<in> set xs" for p
  proof -
    have "last xs \<in> set xs" using that by (cases xs rule: rev_cases) auto
    then have "pb_end_sector (last xs) < k" using False le that by (cases "xs = []") (auto simp: less_le)
    then show ?thesis using last_end_bound [OF ok that] by simp
  qed
  then show thesis using that [of xs "[]"] False by simp
qed

lemma behind_gap:
  assumes ok: "batches_ok ys" and le: "\<forall>q \<in> set ys. k \<le> pb_start_sector q"
  obtains N R where "ys = N @ R" "length N \<le> 1" "\<forall>q \<in> set N. pb_start_sector q = k" "\<forall>q \<in> set R. k < pb_start_sector q"
    "N \<noteq> [] \<longleftrightarrow> ys \<noteq> [] \<and> k = pb_start_sector (hd ys)"
proof (cases ys)
  case (Cons y zs)
  have lt: "k < pb_start_sector q" if "q \<in> set zs" for q
  proof -
    have "pb_end_sector y < pb_start_sector q" "batch_ok y" using that ok by (auto simp: Cons batches_ok_Cons)
    moreover have "k \<le> pb_start_sector y" using le Cons by simp
    ultimately show ?thesis using pb_start_less_end [of y] by simp
  qed
  show thesis
  proof (cases "k = pb_start_sector y")
    case True
    then show ?thesis using that [of "[y]" zs] lt Cons by simp
  next
    case False
    then show ?thesis using that [of "[]" ys] lt le Cons by (auto simp: less_le)
  qed
qed (use that in auto)

lemma merge_position:
  assumes ok: "batches_ok (xs @ ys)" and new: "batch_ok new"
    and xs: "\<forall>p \<in> set xs. pb_end_sector p \<le> pb_start_sector new" and ys: "\<forall>q \<in> set ys. pb_end_sector new \<le> pb_start_sector q"
  obtains ps u where "merge_batches (length xs)
      (length xs \<noteq> 0 \<and> pb_start_sector new = pb_end_sector ((xs @ ys) ! (length xs - 1)))
      (length xs \<noteq> length (xs @ ys) \<and> pb_end_sector new = pb_start_sector ((xs @ ys) ! length xs)) new (xs @ ys) = (ps, u)"
    and "u \<in> set ps" "batches_ok ps" "batch_map ps = batch_map (xs @ ys) ++ pb_map new"
    and "pb_start_sector u \<le> pb_start_sector new" "pb_end_sector new \<le> pb_end_sector u"
    and "\<forall>n. (\<forall>p \<in> set (xs @ ys). pb_end_sector p \<le> n) \<longrightarrow> pb_end_sector new \<le> n \<longrightarrow> (\<forall>p \<in> set ps. pb_end_sector p \<le> n)"
proof -
  have okx: "batches_ok xs" and oky: "batches_ok ys" using ok by (auto simp: batches_ok_append)
  obtain L P where L: "xs = L @ P" "length P \<le> 1" "\<forall>p \<in> set P. pb_end_sector p = pb_start_sector new"
    "\<forall>p \<in> set L. pb_end_sector p < pb_start_sector new" and P: "P \<noteq> [] \<longleftrightarrow> xs \<noteq> [] \<and> pb_start_sector new = pb_end_sector (last xs)"
    using before_gap [OF okx xs] by metis
  obtain N R where R: "ys = N @ R" "length N \<le> 1" "\<forall>q \<in> set N. pb_start_sector q = pb_end_sector new"
    "\<forall>q \<in> set R. pb_end_sector new < pb_start_sector q" and N: "N \<noteq> [] \<longleftrightarrow> ys \<noteq> [] \<and> pb_end_sector new = pb_start_sector (hd ys)"
    using behind_gap [OF oky ys] by metis
  have "batches_ok (L @ P @ N @ R)" using ok by (simp add: L(1) R(1))
  from merge_batches_correct [OF new this L(2) R(2) L(3) R(3) L(4) R(4)]
  obtain u where m: "merge_batches (length xs) (P \<noteq> []) (N \<noteq> []) new (xs @ ys) = (L @ [u] @ R, u)"
    and u: "batches_ok (L @ [u] @ R)" "batch_map (L @ [u] @ R) = batch_map (xs @ ys) ++ pb_map new"
      "pb_start_sector u \<le> pb_start_sector new" "pb_end_sector new \<le> pb_end_sector u"
      "\<forall>n. (\<forall>p \<in> set (xs @ ys). pb_end_sector p \<le> n) \<longrightarrow> pb_end_sector new \<le> n \<longrightarrow> pb_end_sector u \<le> n"
    by (auto simp: L(1) R(1))
  have p: "(P \<noteq> []) = (length xs \<noteq> 0 \<and> pb_start_sector new = pb_end_sector ((xs @ ys) ! (length xs - 1)))"
    unfolding P by (cases xs rule: rev_cases) (auto simp: nth_append)
  have n: "(N \<noteq> []) = (length xs \<noteq> length (xs @ ys) \<and> pb_end_sector new = pb_start_sector ((xs @ ys) ! length xs))"
    unfolding N by (cases ys) (auto simp: nth_append)
  show thesis
  proof (rule that [OF m [unfolded p n] _ u(1-4)])
    show "u \<in> set (L @ [u] @ R)" by simp
    show "\<forall>n. (\<forall>p \<in> set (xs @ ys). pb_end_sector p \<le> n) \<longrightarrow> pb_end_sector new \<le> n \<longrightarrow>
        (\<forall>p \<in> set (L @ [u] @ R). pb_end_sector p \<le> n)"
      using u(5) unfolding L(1) R(1) by (simp add: ball_Un)
  qed
qed

text \<open>The search and the merge of an insertion of free, aligned data.\<close>

lemma insert_merge:
  assumes okps: "batches_ok ps" and le: "\<forall>p \<in> set ps. pb_end_sector p \<le> n" and new: "batch_ok new"
    and free: "dom (batch_map ps) \<inter> dom (pb_map new) = {}" and bound: "pb_end_sector new \<le> n"
  obtains i qs u where "find_batch ps (pb_start_sector new) = Inr (Inl i)" "find_batch ps (pb_end_sector new - 1) = Inr (Inl i)"
    and "merge_batches i (i \<noteq> 0 \<and> pb_start_sector new = pb_end_sector (ps ! (i - 1)))
        (i \<noteq> length ps \<and> pb_end_sector new = pb_start_sector (ps ! i)) new ps = (qs, u)"
    and "u \<in> set qs" "batches_ok qs" "batch_map qs = batch_map ps ++ pb_map new"
    and "pb_start_sector u \<le> pb_start_sector new" "pb_end_sector new \<le> pb_end_sector u"
    and "\<forall>p \<in> set qs. pb_end_sector p \<le> n"
proof -
  obtain xs ys where s: "ps = xs @ ys" "\<forall>p \<in> set xs. pb_end_sector p \<le> pb_start_sector new"
    "\<forall>q \<in> set ys. pb_end_sector new \<le> pb_start_sector q"
    by (rule free_split [OF okps new free])
  note lt = pb_start_less_end [OF new]
  have okxy: "batches_ok (xs @ ys)" using okps s(1) by simp
  have f1: "find_batch ps (pb_start_sector new) = Inr (Inl (length xs))"
    unfolding s(1) using s(2,3) lt by (intro find_free [OF okxy]) auto
  have f2: "find_batch ps (pb_end_sector new - 1) = Inr (Inl (length xs))"
    unfolding s(1) using s(2,3) lt by (intro find_free [OF okxy]) fastforce+
  obtain qs u where m: "merge_batches (length xs)
      (length xs \<noteq> 0 \<and> pb_start_sector new = pb_end_sector ((xs @ ys) ! (length xs - 1)))
      (length xs \<noteq> length (xs @ ys) \<and> pb_end_sector new = pb_start_sector ((xs @ ys) ! length xs)) new (xs @ ys) = (qs, u)"
    and u: "u \<in> set qs" "batches_ok qs" "batch_map qs = batch_map (xs @ ys) ++ pb_map new"
      "pb_start_sector u \<le> pb_start_sector new" "pb_end_sector new \<le> pb_end_sector u"
    and bd: "\<forall>n. (\<forall>p \<in> set (xs @ ys). pb_end_sector p \<le> n) \<longrightarrow> pb_end_sector new \<le> n \<longrightarrow> (\<forall>p \<in> set qs. pb_end_sector p \<le> n)"
    by (rule merge_position [OF okxy new s(2,3)])
  have "\<forall>p \<in> set qs. pb_end_sector p \<le> n" using bd le bound unfolding s(1) by blast
  then show thesis using that [OF f1 f2] m u unfolding s(1) by blast
qed

text \<open>What an insertion leaves behind: the merged batches, complete when one batch fills the load.\<close>

definition finish_batches :: "subtree list \<Rightarrow> partial_batch list \<Rightarrow> entry_batch_data" where
  "finish_batches sts qs =
     (if length qs = 1 \<and> pb_start_sector (qs ! 0) = 0 \<and> bytes_to_chunks (length (pb_data (qs ! 0))) = SECTORS_PER_LOAD
      then Complete (pb_data (qs ! 0)) else Incomplete \<lparr>subtrees = sts, known_data = qs\<rparr>)"

lemma finish_batches_ok:
  assumes "batches_ok qs" "\<forall>p \<in> set qs. pb_end_sector p \<le> 1024" "sorted_wrt (<) (map st_start_sector sts)"
  shows "data_ok (finish_batches sts qs)" "known (finish_batches sts qs) = batch_map qs"
proof -
  have full: "length (pb_data p) = 262144" if "qs = [p]" "bytes_to_chunks (length (pb_data p)) = 1024" for p
    using that assms(1) by (auto simp: batches_ok_def batch_ok_def)
  show "data_ok (finish_batches sts qs)"
    using assms full [of "qs ! 0"] by (cases qs) (auto simp: finish_batches_def data_ok_def)
  show "known (finish_batches sts qs) = batch_map qs"
    by (cases qs) (auto simp: finish_batches_def known_def pb_map_def)
qed

lemma insert_correct:
  assumes ok: "data_ok (Incomplete x)" and al: "start mod 256 = 0" "length data mod 256 = 0" and ne: "data \<noteq> []"
    and bound: "start + length data \<le> BYTES_PER_LOAD" and free: "dom (known (Incomplete x)) \<inter> {start..<start + length data} = {}"
  obtains sts' qs u where "data_insert_data start data (Incomplete x) = Inr (finish_batches sts' qs,
       filter (\<lambda>s. u16 ((pb_start_sector u + 15) div 16) \<le> s \<and> s < u16 (pb_end_sector u div 16))
         [u16 (start div 256 div 16)..<u16 ((start div 256 + length data div 256 + 15) div 16)])"
    "batches_ok qs" "\<forall>p \<in> set qs. pb_end_sector p \<le> 1024" "sorted_wrt (<) (map st_start_sector sts')"
    "batch_map qs = known (Incomplete x) ++ bytes_at start data"
    "u \<in> set qs" "256 * pb_start_sector u \<le> start" "start + length data \<le> 256 * pb_end_sector u"
proof -
  let ?S = "start div 256" and ?ps = "known_data x"
  let ?new = "\<lparr>pb_start_sector = ?S, pb_data = data\<rparr>"
  let ?E = "?S + length data div 256"
  have okps: "batches_ok ?ps" and le: "\<forall>p \<in> set ?ps. pb_end_sector p \<le> 1024" and sts: "sorted_wrt (<) (map st_start_sector (subtrees x))"
    using ok by (auto simp: data_ok_def)
  have new: "batch_ok ?new" using al(2) ne by (simp add: batch_ok_def dvd_eq_mod_eq_0)
  have S: "256 * ?S = start" using al(1) by (auto simp: mod_0_imp_dvd)
  have E: "pb_end_sector ?new = ?E" "256 * ?E = start + length data"
    using al S pb_end_bytes [OF new] by (auto simp: pb_end_sector_def mod_0_imp_dvd)
  have nm: "pb_map ?new = bytes_at start data" using S by (simp add: pb_map_def)
  have fr: "dom (batch_map ?ps) \<inter> dom (pb_map ?new) = {}" using free by (simp add: nm known_def)
  have bd: "?E \<le> 1024" using bound E by simp
  obtain i qs u where f: "find_batch ?ps ?S = Inr (Inl i)" "find_batch ?ps (?E - 1) = Inr (Inl i)"
    and m: "merge_batches i (i \<noteq> 0 \<and> ?S = pb_end_sector (?ps ! (i - 1)))
        (i \<noteq> length ?ps \<and> ?E = pb_start_sector (?ps ! i)) ?new ?ps = (qs, u)"
    and u: "u \<in> set qs" "batches_ok qs" "batch_map qs = batch_map ?ps ++ pb_map ?new"
      "pb_start_sector u \<le> ?S" "?E \<le> pb_end_sector u" "\<forall>p \<in> set qs. pb_end_sector p \<le> 1024"
    by (rule insert_merge [OF okps le new, unfolded E(1) partial_batch.simps, OF fr bd])
  have "batch_ok u" using u(1,2) by (simp add: batches_ok_def)
  then have ue: "pb_start_sector u + length (pb_data u) div 256 = pb_end_sector u"
    by (simp add: batch_ok_def pb_end_sector_def)
  obtain sts' where d: "drain_subtrees (case binary_search (map st_start_sector (subtrees x)) (pb_start_sector u) of Inr i \<Rightarrow> i | Inl i \<Rightarrow> i)
      (pb_start_sector u) (pb_end_sector u) [case binary_search (map st_start_sector (subtrees x)) (pb_start_sector u) of
         Inr i \<Rightarrow> i | Inl i \<Rightarrow> i..<length (subtrees x)] (subtrees x) = Inr sts'" and sts': "sorted_wrt (<) (map st_start_sector sts')"
    using drain_from_search [OF sts] by blast
  have f2: "find_batch ?ps (wsub ?E 1) = Inr (Inl i)" using f(2) pb_start_less_end [OF new] E(1) by simp
  have r: "data_insert_data start data (Incomplete x) = Inr (finish_batches sts' qs,
       filter (\<lambda>s. u16 ((pb_start_sector u + 15) div 16) \<le> s \<and> s < u16 (pb_end_sector u div 16))
         [u16 (?S div 16)..<u16 ((?S + length data div 256 + 15) div 16)])"
    unfolding data_insert_data_def sizes entry_batch_data.case Let_def rbind_Inr f(1) f2 sum.case m prod.case ue d
      get_intact_sealing_index_def get_covered_sealing_index_def ensure_True [OF al(1)] ensure_True [OF al(2)]
    by (simp add: finish_batches_def add.commute add.left_commute)
  show thesis
    by (rule that [OF r u(2,6) sts' _ u(1)]) (use u(3-5) S E(2) nm in \<open>simp_all add: known_def\<close>)
qed

text \<open>The reported segments: those that the new data touches and that are now known in full.\<close>

definition seal_range :: "nat \<Rightarrow> nat set" where
  "seal_range s = {BYTES_PER_SEAL * s..<BYTES_PER_SEAL * (s + 1)}"

lemma sealing_index_arith:
  assumes al: "start mod 256 = 0" "len mod 256 = 0" "0 < len" "start + len \<le> 262144" and u: "256 * us \<le> start" "start + len \<le> 256 * ue" "ue \<le> (1024::nat)"
  shows "u16 ((us + 15) div 16) \<le> s \<and> s < u16 (ue div 16) \<longleftrightarrow> seal_range s \<subseteq> {256 * us..<256 * ue}"
    and "u16 (start div 256 div 16) \<le> s \<and> s < u16 ((start div 256 + len div 256 + 15) div 16) \<longleftrightarrow>
      seal_range s \<inter> {start..<start + len} \<noteq> {}"
proof -
  have us: "us \<le> 1024" using u by linarith
  have small: "u16 ((us + 15) div 16) = (us + 15) div 16" "u16 (ue div 16) = ue div 16" using us u by (simp_all add: u16_def)
  have "seal_range s \<subseteq> {256 * us..<256 * ue} \<longleftrightarrow> 256 * us \<le> 4096 * s \<and> 4096 * (s + 1) \<le> 256 * ue"
    unfolding seal_range_def sizes by (subst ivl_subset) auto
  also have "\<dots> \<longleftrightarrow> (us + 15) div 16 \<le> s \<and> s < ue div 16" by auto
  finally show "u16 ((us + 15) div 16) \<le> s \<and> s < u16 (ue div 16) \<longleftrightarrow> seal_range s \<subseteq> {256 * us..<256 * ue}"
    using small by simp
  obtain a b where ab: "start = 256 * a" "len = 256 * b" using al by (auto simp: mod_eq_0_iff_dvd elim!: dvdE)
  have small': "u16 (a div 16) = a div 16" "u16 ((a + b + 15) div 16) = (a + b + 15) div 16"
    using al(4) ab by (simp_all add: u16_def)
  have "seal_range s \<inter> {start..<start + len} \<noteq> {} \<longleftrightarrow> 4096 * s < start + len \<and> start < 4096 * (s + 1)"
    using al(3) unfolding seal_range_def sizes by (auto simp: Int_atLeastLessThan)
  also have "\<dots> \<longleftrightarrow> a div 16 \<le> s \<and> s < (a + b + 15) div 16" unfolding ab by auto
  finally show "u16 (start div 256 div 16) \<le> s \<and> s < u16 ((start div 256 + len div 256 + 15) div 16) \<longleftrightarrow>
      seal_range s \<inter> {start..<start + len} \<noteq> {}"
    using small' ab by simp
qed

lemma ready_segments:
  assumes ok: "batches_ok qs" and u: "u \<in> set qs" "256 * pb_start_sector u \<le> start" "start + len \<le> 256 * pb_end_sector u"
    and meet: "seal_range s \<inter> {start..<start + len} \<noteq> {}"
  shows "seal_range s \<subseteq> {256 * pb_start_sector u..<256 * pb_end_sector u} \<longleftrightarrow> seal_range s \<subseteq> dom (batch_map qs)"
proof
  have oku: "batch_ok u" using ok u(1) by (simp add: batches_ok_def)
  show "seal_range s \<subseteq> {256 * pb_start_sector u..<256 * pb_end_sector u} \<Longrightarrow> seal_range s \<subseteq> dom (batch_map qs)"
    using u(1) dom_pb_map [OF oku] unfolding dom_batch_map by blast
  assume r: "seal_range s \<subseteq> dom (batch_map qs)"
  obtain c where c: "c \<in> seal_range s" "start \<le> c" "c < start + len" using meet by fastforce
  then have "c \<in> dom (pb_map u)" using u(2,3) unfolding dom_pb_map [OF oku] by auto
  then show "seal_range s \<subseteq> {256 * pb_start_sector u..<256 * pb_end_sector u}"
    using known_range_in_batch [OF ok u(1) r [unfolded seal_range_def]] c(1) dom_pb_map [OF oku]
    unfolding seal_range_def by auto
qed

lemma insert_data_known:
  assumes ok: "data_ok e" and al: "start mod 256 = 0" "length data mod 256 = 0" and ne: "data \<noteq> []"
    and bound: "start + length data \<le> BYTES_PER_LOAD" and free: "dom (known e) \<inter> {start..<start + length data} = {}"
  shows "\<exists>e' idx. data_insert_data start data e = Inr (e', idx) \<and> data_ok e' \<and>
    known e' = known e ++ bytes_at start data \<and>
    set idx = {s. seal_range s \<inter> {start..<start + length data} \<noteq> {} \<and> seal_range s \<subseteq> dom (known e')}"
proof -
  obtain x where x: "e = Incomplete x"
    using ok bound free ne by (cases e) (auto simp: data_ok_def known_def)
  obtain sts' qs u where r: "data_insert_data start data e = Inr (finish_batches sts' qs,
       filter (\<lambda>s. u16 ((pb_start_sector u + 15) div 16) \<le> s \<and> s < u16 (pb_end_sector u div 16))
         [u16 (start div 256 div 16)..<u16 ((start div 256 + length data div 256 + 15) div 16)])"
    and qs: "batches_ok qs" "\<forall>p \<in> set qs. pb_end_sector p \<le> 1024" "sorted_wrt (<) (map st_start_sector sts')"
    and m: "batch_map qs = known e ++ bytes_at start data"
    and u: "u \<in> set qs" "256 * pb_start_sector u \<le> start" "start + length data \<le> 256 * pb_end_sector u"
    unfolding x by (rule insert_correct [OF ok [unfolded x] al ne bound free [unfolded x]])
  have ue: "pb_end_sector u \<le> 1024" using qs(2) u(1) by blast
  have len: "0 < length data" "start + length data \<le> 262144" using ne bound by auto
  note ar = sealing_index_arith [OF al len u(2,3) ue] and fin = finish_batches_ok [OF qs]
  let ?idx = "filter (\<lambda>s. u16 ((pb_start_sector u + 15) div 16) \<le> s \<and> s < u16 (pb_end_sector u div 16))
         [u16 (start div 256 div 16)..<u16 ((start div 256 + length data div 256 + 15) div 16)]"
  have "s \<in> set ?idx \<longleftrightarrow>
      seal_range s \<inter> {start..<start + length data} \<noteq> {} \<and> seal_range s \<subseteq> dom (known (finish_batches sts' qs))" for s
    using ar [of s] ready_segments [OF qs(1) u, of s] unfolding fin(2) by auto
  then have "set ?idx = {s. seal_range s \<inter> {start..<start + length data} \<noteq> {} \<and>
      seal_range s \<subseteq> dom (known (finish_batches sts' qs))}" by blast
  moreover have "known (finish_batches sts' qs) = known e ++ bytes_at start data" using fin(2) m by simp
  ultimately show ?thesis using r fin(1) by blast
qed

text \<open>Data that overlaps with known bytes is refused, whatever it contains.\<close>

lemma insert_data_overlap:
  assumes ok: "data_ok e" and al: "start mod 256 = 0" "length data mod 256 = 0" and ne: "data \<noteq> []"
    and bound: "start + length data \<le> BYTES_PER_LOAD" and over: "dom (known e) \<inter> {start..<start + length data} \<noteq> {}"
  shows "\<exists>m. data_insert_data start data e = Inl (Err m)"
proof (cases e)
  case (Complete d)
  then show ?thesis using al by (simp add: data_insert_data_def)
next
  case (Incomplete x)
  let ?ps = "known_data x" and ?S = "start div 256" and ?E = "start div 256 + length data div 256"
  have okps: "batches_ok ?ps" using ok Incomplete by (simp add: data_ok_def)
  have S: "256 * ?S = start" "256 * ?E = start + length data" using al by (auto simp: mod_0_imp_dvd distrib_left)
  then have lt: "?S < ?E" using ne by (cases data) auto
  obtain a where a: "find_batch ?ps ?S = Inr a" using find_batch_total [OF okps] by blast
  obtain b where b: "find_batch ?ps (wsub ?E 1) = Inr b" using find_batch_total [OF okps] by blast
  show ?thesis
  proof (cases "\<exists>i. a = Inl i \<and> b = Inl i")
    case True
    then obtain i where i: "find_batch ?ps ?S = Inr (Inl i)" "find_batch ?ps (?E - 1) = Inr (Inl i)" using a b lt by auto
    have "{256 * pb_start_sector p..<256 * pb_end_sector p} \<inter> {start..<start + length data} = {}" if "p \<in> set ?ps" for p
    proof -
      have "p \<in> set (take i ?ps) \<or> p \<in> set (drop i ?ps)" using that by (metis Un_iff append_take_drop_id set_append)
      then have "pb_end_sector p \<le> ?S \<or> ?E \<le> pb_start_sector p"
        using find_batch_Inl(2) [OF okps i(1)] find_batch_Inl(3) [OF okps i(2)] by fastforce
      then have "256 * pb_end_sector p \<le> 256 * ?S \<or> 256 * ?E \<le> 256 * pb_start_sector p"
        by (simp only: mult_le_cancel1) blast
      then have "256 * pb_end_sector p \<le> start \<or> start + length data \<le> 256 * pb_start_sector p" unfolding S .
      then show ?thesis by auto
    qed
    then have "dom (pb_map p) \<inter> {start..<start + length data} = {}" if "p \<in> set ?ps" for p
      using that okps dom_pb_map [of p] by (simp add: batches_ok_def)
    then show ?thesis using over unfolding Incomplete known_def by (auto simp: dom_batch_map)
  next
    case False
    then show ?thesis
      using a b al unfolding Incomplete data_insert_data_def
      by (cases a; cases b) (simp_all add: Let_def split: sum.splits)
  qed
qed


section \<open>Truncating\<close>

lemma find_subtree_total: "\<exists>r. find_subtree sts k = Inr r"
proof -
  let ?n = "length (takeWhile (\<lambda>x. x < k) (map st_start_sector sts))"
  have "?n \<le> length sts" using length_takeWhile_le [of "\<lambda>x. x < k" "map st_start_sector sts"] by simp
  then have "?n \<noteq> 0 \<Longrightarrow> ?n - 1 < length sts" by linarith
  then show ?thesis
    unfolding find_subtree_def range_find_def binary_search_def Let_def
    by (auto simp del: length_0_conv length_greater_0_conv)
qed

lemma bytes_at_take: "bytes_at s (take n xs) = bytes_at s xs |` {..<s + n}"
  by (auto simp: bytes_at_def restrict_map_def fun_eq_iff)

lemma restrict_before:
  assumes "dom m \<subseteq> {..<t}"
  shows "m |` {..<t} = (m :: nat \<rightharpoonup> 'a)"
proof
  show "(m |` {..<t}) x = m x" for x using assms by (cases "x \<in> dom m") (auto simp: restrict_map_def)
qed

lemma restrict_behind:
  assumes "dom m \<subseteq> {t..}"
  shows "m |` {..<t} = (Map.empty :: nat \<rightharpoonup> 'a)"
proof
  show "(m |` {..<t}) x = None" for x using assms by (cases "x \<in> dom m") (auto simp: restrict_map_def)
qed

lemma restrict_map_add: "(m ++ n) |` A = m |` A ++ n |` A"
  by (auto simp: restrict_map_def map_add_def fun_eq_iff)

lemma dom_before:
  assumes "\<And>p. p \<in> set xs \<Longrightarrow> batch_ok p \<and> pb_end_sector p \<le> k"
  shows "dom (batch_map xs) \<subseteq> {..<256 * k}"
proof -
  have "dom (pb_map p) \<subseteq> {..<256 * k}" if "p \<in> set xs" for p
    using assms [OF that] dom_pb_map [of p] by auto
  then show ?thesis unfolding dom_batch_map by blast
qed

lemma dom_behind:
  assumes "\<And>p. p \<in> set xs \<Longrightarrow> batch_ok p \<and> k \<le> pb_start_sector p"
  shows "dom (batch_map xs) \<subseteq> {256 * k..}"
proof -
  have "dom (pb_map p) \<subseteq> {256 * k..}" if "p \<in> set xs" for p
    using assms [OF that] dom_pb_map [of p] by auto
  then show ?thesis unfolding dom_batch_map by blast
qed

lemma restrict_split:
  assumes "batches_ok (xs @ ys)" "\<forall>p \<in> set xs. pb_end_sector p \<le> k" "\<forall>q \<in> set ys. k \<le> pb_start_sector q"
  shows "batch_map (xs @ ys) |` {..<256 * k} = batch_map xs"
proof -
  have "batch_map xs |` {..<256 * k} = batch_map xs" "batch_map ys |` {..<256 * k} = Map.empty"
    using assms by (auto intro!: restrict_before restrict_behind dom_before dom_behind simp: batches_ok_def)
  then show ?thesis by (simp add: batch_map_append restrict_map_add)
qed

text \<open>What \<open>IncompleteData::truncate\<close> keeps of the batches.\<close>

definition truncated_batches :: "nat \<Rightarrow> nat + nat \<Rightarrow> partial_batch list \<Rightarrow> partial_batch list" where
  "truncated_batches k r ps =
     (case r of
        Inr x \<Rightarrow>
          (let p = ps ! x; data = take ((k - pb_start_sector p) * 256) (pb_data p)
           in take (if data = [] then x else x + 1) (ps[x := p\<lparr>pb_data := data\<rparr>]))
      | Inl x \<Rightarrow> take x ps)"

lemma truncated_batches_Inr:
  assumes ok: "batches_ok (xs @ p # ys)" and k: "pb_start_sector p \<le> k" "k < pb_end_sector p"
  defines "qs \<equiv> truncated_batches k (Inr (length xs)) (xs @ p # ys)"
  shows "batches_ok qs" "batch_map qs = batch_map (xs @ p # ys) |` {..<256 * k}"
    "\<forall>q \<in> set qs. \<exists>r \<in> set (xs @ p # ys). pb_end_sector q \<le> pb_end_sector r"
proof -
  let ?d = "take ((k - pb_start_sector p) * 256) (pb_data p)"
  let ?p = "p\<lparr>pb_data := ?d\<rparr>"
  have okp: "batch_ok p" and okx: "batches_ok xs" and oky: "batches_ok ys"
    and x: "\<forall>q \<in> set xs. pb_end_sector q < pb_start_sector p" and y: "\<forall>q \<in> set ys. pb_end_sector p < pb_start_sector q"
    using ok by (auto simp: batches_ok_append batches_ok_Cons)
  have "(k - pb_start_sector p) * 256 \<le> length (pb_data p)" using pb_end_bytes [OF okp] k by linarith
  then have ld: "length ?d = (k - pb_start_sector p) * 256" by simp
  have px: "batches_ok (xs @ [p])" using ok by (auto simp: batches_ok_append batches_ok_Cons)
  have ry: "batch_map (xs @ p # ys) |` {..<256 * k} = batch_map (xs @ [p]) |` {..<256 * k}"
  proof -
    have "batch_map ys |` {..<256 * k} = Map.empty"
      using y k oky by (intro restrict_behind dom_behind) (auto simp: batches_ok_def)
    then show ?thesis by (simp add: batch_map_append restrict_map_add)
  qed
  show "batches_ok qs" "batch_map qs = batch_map (xs @ p # ys) |` {..<256 * k}"
    "\<forall>q \<in> set qs. \<exists>r \<in> set (xs @ p # ys). pb_end_sector q \<le> pb_end_sector r"
  proof (atomize (full), cases "k = pb_start_sector p")
    case True
    then have "qs = xs" by (simp add: qs_def truncated_batches_def)
    moreover have "batch_map (xs @ [p]) |` {..<256 * k} = batch_map xs"
      using px x True by (intro restrict_split) auto
    ultimately show "batches_ok qs \<and> batch_map qs = batch_map (xs @ p # ys) |` {..<256 * k} \<and>
        (\<forall>q \<in> set qs. \<exists>r \<in> set (xs @ p # ys). pb_end_sector q \<le> pb_end_sector r)" using okx ry by auto
  next
    case False
    then have ne: "?d \<noteq> []" using ld k by (auto simp flip: length_greater_0_conv)
    then have qs: "qs = xs @ [?p]" by (simp add: qs_def truncated_batches_def Let_def list_update_append)
    have okp': "batch_ok ?p" using ne ld by (simp add: batch_ok_def)
    have "256 * pb_end_sector ?p = 256 * k" using pb_end_bytes [OF okp'] ld k by (simp add: diff_mult_distrib)
    then have e: "pb_end_sector ?p = k" by simp
    have "pb_map ?p = pb_map p |` {..<256 * k}"
      using k by (simp add: pb_map_def bytes_at_take diff_mult_distrib) (simp add: mult.commute)
    moreover have "batch_map xs |` {..<256 * k} = batch_map xs"
      using x k okx by (intro restrict_before dom_before) (auto simp: batches_ok_def)
    ultimately have "batch_map qs = batch_map (xs @ p # ys) |` {..<256 * k}"
      unfolding ry qs by (simp add: batch_map_append restrict_map_add)
    then show "batches_ok qs \<and> batch_map qs = batch_map (xs @ p # ys) |` {..<256 * k} \<and>
        (\<forall>q \<in> set qs. \<exists>r \<in> set (xs @ p # ys). pb_end_sector q \<le> pb_end_sector r)"
      using okx okp' x e k unfolding qs by (auto simp: batches_ok_append batches_ok_Cons intro: less_imp_le)
  qed
qed

lemma truncated_batches_correct:
  assumes ok: "batches_ok ps" and r: "find_batch ps k = Inr r"
  shows "batches_ok (truncated_batches k r ps)" "batch_map (truncated_batches k r ps) = batch_map ps |` {..<256 * k}"
    "\<forall>q \<in> set (truncated_batches k r ps). \<exists>p \<in> set ps. pb_end_sector q \<le> pb_end_sector p"
proof -
  have "batches_ok (truncated_batches k r ps) \<and> batch_map (truncated_batches k r ps) = batch_map ps |` {..<256 * k} \<and>
    (\<forall>q \<in> set (truncated_batches k r ps). \<exists>p \<in> set ps. pb_end_sector q \<le> pb_end_sector p)"
  proof (cases r)
    case (Inl x)
    note f = find_batch_Inl [OF ok r [unfolded Inl]]
    have ok': "batches_ok (take x ps @ drop x ps)" using ok by simp
    have "batch_map ps |` {..<256 * k} = batch_map (take x ps)"
      using restrict_split [OF ok', of k] f(2,3) by (simp add: less_imp_le)
    moreover have "batches_ok (take x ps)" using ok' unfolding batches_ok_append by simp
    ultimately show ?thesis using Inl in_set_takeD by (fastforce simp: truncated_batches_def)
  next
    case (Inr x)
    note f = find_batch_Inr [OF ok r [unfolded Inr]]
    have ps: "ps = take x ps @ ps ! x # drop (Suc x) ps" using f(1) by (rule id_take_nth_drop)
    have x: "length (take x ps) = x" using f(1) by simp
    show ?thesis
      using truncated_batches_Inr [of "take x ps" "ps ! x" "drop (Suc x) ps" k, unfolded x, folded ps, OF ok f(2,3)] Inr by simp
  qed
  then show "batches_ok (truncated_batches k r ps)" "batch_map (truncated_batches k r ps) = batch_map ps |` {..<256 * k}"
    "\<forall>q \<in> set (truncated_batches k r ps). \<exists>p \<in> set ps. pb_end_sector q \<le> pb_end_sector p" by auto
qed

lemma incomplete_truncate_eq:
  assumes "find_batch (known_data d) k = Inr r"
  shows "\<exists>n. incomplete_truncate k d =
    Inr (d\<lparr>known_data := truncated_batches k r (known_data d), subtrees := take n (subtrees d)\<rparr>)"
proof -
  obtain q where "find_subtree (subtrees d) k = Inr q" using find_subtree_total by blast
  then show ?thesis
    using assms by (cases r) (auto simp: incomplete_truncate_def truncated_batches_def Let_def)
qed

lemma data_truncate_known:
  assumes ok: "data_ok e" and t: "0 < t" "t mod 256 = 0"
  shows "\<exists>e'. data_truncate t e = Inr e' \<and> data_ok e' \<and> known e' = known e |` {..<t}"
proof (cases e)
  case (Complete d)
  have "known (Incomplete \<lparr>subtrees = [], known_data = [\<lparr>pb_start_sector = 0, pb_data = take t d\<rparr>]\<rparr>) = known e |` {..<t}"
    by (simp add: known_def Complete pb_map_def bytes_at_take)
  moreover have "take t d \<noteq> []" "256 dvd length (take t d)" "length (take t d) \<le> 262144"
    using ok t Complete by (auto simp: data_ok_def min_def mod_0_imp_dvd)
  ultimately show ?thesis
    using t by (simp add: data_truncate_def Complete data_ok_def batches_ok_def batch_ok_def pb_end_sector_def)
next
  case (Incomplete x)
  have okx: "batches_ok (known_data x)" using ok Incomplete by (simp add: data_ok_def)
  obtain r where r: "find_batch (known_data x) (t div 256) = Inr r" using find_batch_total [OF okx] by blast
  obtain n where n: "incomplete_truncate (t div 256) x =
      Inr (x\<lparr>known_data := truncated_batches (t div 256) r (known_data x), subtrees := take n (subtrees x)\<rparr>)"
    using incomplete_truncate_eq [OF r] by blast
  have "256 * (t div 256) = t" using t by (auto simp: mod_0_imp_dvd)
  then show ?thesis
    using n t ok truncated_batches_correct [OF okx r] unfolding Incomplete
    by (fastforce simp: data_truncate_def known_def data_ok_def sorted_wrt_take take_map [symmetric])
qed

section \<open>Changing bytes in place\<close>

lemma bytes_at_replace:
  assumes "start + len \<le> length xs" "length zs = len"
  shows "bytes_at s (take start xs @ zs @ drop (start + len) xs) = bytes_at s xs ++ bytes_at (s + start) zs"
  using assms by (auto simp: bytes_at_def map_add_def fun_eq_iff nth_append)

lemma slice_update_known:
  assumes st: "s \<le> start" and len: "0 < len" and known: "{start..<start + len} \<subseteq> dom (bytes_at s xs)"
    and f: "f (range_bytes (bytes_at s xs) start len) = Inr zs" "length zs = len"
  shows "\<exists>ys. slice_update xs (start - s) len f = Inr (Some ys) \<and> length ys = length xs \<and>
    bytes_at s ys = bytes_at s xs ++ bytes_at start zs"
proof -
  have le: "start - s + len \<le> length xs"
    using known len st ivl_subset [of start "start + len" s "s + length xs"] by auto
  show ?thesis
    using slice_get_bytes [OF st len, of xs] known f le bytes_at_replace [OF le f(2), of s] st
    by (simp add: slice_update_def)
qed

lemma batches_update:
  assumes ok: "batches_ok (xs @ p # ys)" and d: "length d = length (pb_data p)"
    and m: "bytes_at (256 * pb_start_sector p) d = pb_map p ++ n" and n: "dom n \<subseteq> dom (pb_map p)"
  shows "batches_ok (xs @ p\<lparr>pb_data := d\<rparr> # ys)" "batch_map (xs @ p\<lparr>pb_data := d\<rparr> # ys) = batch_map (xs @ p # ys) ++ n"
    "pb_end_sector (p\<lparr>pb_data := d\<rparr>) = pb_end_sector p"
proof -
  show e: "pb_end_sector (p\<lparr>pb_data := d\<rparr>) = pb_end_sector p" using d by (simp add: pb_end_sector_def)
  have "batch_ok (p\<lparr>pb_data := d\<rparr>)"
    using ok d by (auto simp: batches_ok_append batches_ok_Cons batch_ok_def)
  then show "batches_ok (xs @ p\<lparr>pb_data := d\<rparr> # ys)" using ok e by (simp add: batches_ok_append batches_ok_Cons)
  have okp: "batch_ok p" using ok by (simp add: batches_ok_append batches_ok_Cons)
  have "dom (batch_map xs) \<inter> dom (pb_map p) = {}"
    using batch_map_disjoint [of xs "pb_start_sector p" "[p]"] ok okp
    by (auto simp: batches_ok_def sorted_wrt_append less_imp_le)
  then have "dom n \<inter> dom (batch_map xs) = {}" using n by blast
  then have "batch_map xs ++ n = n ++ batch_map xs" by (intro map_add_comm) auto
  moreover have "pb_map (p\<lparr>pb_data := d\<rparr>) = pb_map p ++ n" using m by (simp add: pb_map_def)
  ultimately show "batch_map (xs @ p\<lparr>pb_data := d\<rparr> # ys) = batch_map (xs @ p # ys) ++ n"
    by (simp add: batch_map_append) (metis map_add_assoc)
qed

lemma find_known:
  assumes ok: "batches_ok ps" and i: "i \<in> dom (batch_map ps)"
  obtains j where "find_batch ps (i div 256) = Inr (Inr j)" "j < length ps" "i \<in> dom (pb_map (ps ! j))"
proof -
  obtain r where r: "find_batch ps (i div 256) = Inr r" using find_batch_total [OF ok] by blast
  obtain p where p: "p \<in> set ps" "i \<in> dom (pb_map p)" using i by (auto simp: dom_batch_map)
  have okq: "batch_ok q" if "q \<in> set ps" for q using that ok by (simp add: batches_ok_def)
  have pi: "pb_start_sector p \<le> i div 256" "i div 256 < pb_end_sector p"
    using p(2) dom_pb_map [OF okq [OF p(1)]] by auto
  show thesis
  proof (cases r)
    case (Inl j)
    have "p \<in> set (take j ps) \<or> p \<in> set (drop j ps)" using p(1) by (metis Un_iff append_take_drop_id set_append)
    then have False using find_batch_Inl [OF ok r [unfolded Inl]] pi by fastforce
    then show ?thesis ..
  next
    case (Inr j)
    note f = find_batch_Inr [OF ok r [unfolded Inr]]
    have "i \<in> dom (pb_map (ps ! j))"
      using f dom_pb_map [OF okq [OF nth_mem [OF f(1)]]] by auto
    then show ?thesis using that r Inr f(1) by simp
  qed
qed

text \<open>\<open>get_mut\<close> on a known range replaces exactly its bytes; on any other it returns nothing.\<close>

lemma data_get_mut_known:
  assumes ok: "data_ok e" and len: "0 < len" "start + len \<le> BYTES_PER_LOAD" and known: "{start..<start + len} \<subseteq> dom (known e)"
    and f: "f (range_bytes (known e) start len) = Inr zs" "length zs = len"
  shows "\<exists>e'. data_get_mut e start len f = Inr (Some e') \<and> data_ok e' \<and> known e' = known e ++ bytes_at start zs"
proof (cases e)
  case (Complete d)
  then obtain ys where "slice_update d start len f = Inr (Some ys)" "length ys = length d"
    "bytes_at 0 ys = bytes_at 0 d ++ bytes_at start zs"
    using slice_update_known [of 0 start len d f zs] len known f by (auto simp: known_def)
  then show ?thesis using len ok Complete by (simp add: data_get_mut_def data_ok_def known_def)
next
  case (Incomplete x)
  let ?ps = "known_data x" and ?k = "start div 256"
  have okx: "batches_ok ?ps" using ok Incomplete by (simp add: data_ok_def)
  have kn: "{start..<start + len} \<subseteq> dom (batch_map ?ps)" using known Incomplete by (simp add: known_def)
  have "start \<in> dom (batch_map ?ps)" using len(1) by (intro subsetD [OF kn]) simp
  then obtain j where j: "find_batch ?ps ?k = Inr (Inr j)" "j < length ?ps" "start \<in> dom (pb_map (?ps ! j))"
    by (rule find_known [OF okx])
  let ?p = "?ps ! j"
  have p: "?p \<in> set ?ps" using j by simp
  have ps: "?ps = take j ?ps @ ?p # drop (Suc j) ?ps" using j(2) by (rule id_take_nth_drop)
  have sub: "{start..<start + len} \<subseteq> dom (pb_map ?p)"
    using known_range_in_batch [OF okx p kn _ _ j(3)] len by simp
  have st: "256 * pb_start_sector ?p \<le> start" using j(3) by (auto simp: pb_map_def)
  have "range_bytes (pb_map ?p) start len = range_bytes (known e) start len"
    using batch_map_in [OF okx p subsetD [OF sub]] Incomplete by (intro range_bytes_cong) (simp add: known_def)
  then have f': "f (range_bytes (pb_map ?p) start len) = Inr zs" using f(1) by simp
  obtain d where d: "slice_update (pb_data ?p) (start - 256 * pb_start_sector ?p) len f = Inr (Some d)" "length d = length (pb_data ?p)"
    "bytes_at (256 * pb_start_sector ?p) d = pb_map ?p ++ bytes_at start zs"
    using slice_update_known [OF st len(1) _ _ f(2)] sub f' unfolding pb_map_def by blast
  have n: "dom (bytes_at start zs) \<subseteq> dom (pb_map ?p)" using sub f(2) by simp
  note up = batches_update [of "take j ?ps" ?p "drop (Suc j) ?ps", folded ps, OF okx d(2,3) n]
  have list: "take j ?ps @ ?p\<lparr>pb_data := d\<rparr> # drop (Suc j) ?ps = ?ps[j := ?p\<lparr>pb_data := d\<rparr>]"
    using j(2) by (simp add: upd_conv_take_nth_drop)
  let ?e' = "Incomplete (x\<lparr>known_data := ?ps[j := ?p\<lparr>pb_data := d\<rparr>]\<rparr>)"
  have "data_get_mut e start len f = Inr (Some ?e')"
    using len j(1) d(1) unfolding Incomplete by (simp add: data_get_mut_def Let_def mult.commute)
  moreover have "data_ok ?e'"
    using ok up(1,3) p unfolding Incomplete list by (auto simp: data_ok_def dest!: set_update_subset_insert [THEN subsetD])
  moreover have "known ?e' = known e ++ bytes_at start zs" using up(2) unfolding Incomplete list by (simp add: known_def)
  ultimately show ?thesis by blast
qed

end
