(* ===== verification/Seal_Info.thy ===== *)
theory Seal_Info
  imports Chunk_Data
begin

text \<open>
  \<open>node/storage/src/log_store/load_chunk/bitmap.rs\<close> and \<open>seal.rs\<close>: which sealing segments of a load
  are sealed, and under which context. The bitmap comes from the crate \<open>bitmaps\<close>; its operations
  are the parameter \<open>bitmap_ops\<close>, with the laws of its documentation as the locale \<open>bitmap64\<close>.
\<close>

section \<open>The bitmap\<close>

record 'b bitmap_ops =
  bm_default :: 'b
  bm_get :: "'b \<Rightarrow> nat \<Rightarrow> bool"
  bm_set :: "'b \<Rightarrow> nat \<Rightarrow> bool \<Rightarrow> 'b"
  bm_into_value :: "'b \<Rightarrow> 64 word"
  bm_from_value :: "64 word \<Rightarrow> 'b"

text \<open>\<open>TruncateBitmap for u64\<close>: the shift amount is reduced modulo the width.\<close>

definition truncate_u64 :: "nat \<Rightarrow> 64 word \<Rightarrow> 64 word" where
  "truncate_u64 i v = v AND (push_bit (i mod 64) 1 - 1)"

definition bitmap_truncate :: "'b bitmap_ops \<Rightarrow> nat \<Rightarrow> 'b \<Rightarrow> 'b" where
  "bitmap_truncate B i b = bm_from_value B (truncate_u64 i (bm_into_value B b))"

lemma bit_truncate_u64:
  assumes "i < 64" "j < 64"
  shows "bit (truncate_u64 i v) j \<longleftrightarrow> bit v j \<and> j < i"
proof -
  have "push_bit (i mod 64) 1 - 1 = (mask i :: 64 word)" using assms(1) by (simp add: mask_eq_exp_minus_1 push_bit_eq_mult)
  then show ?thesis using assms by (auto simp: truncate_u64_def bit_and_iff bit_mask_iff)
qed

locale bitmap64 =
  fixes B :: "'b bitmap_ops"
  assumes get_default: "i < 64 \<Longrightarrow> \<not> bm_get B (bm_default B) i"
    and get_set: "i < 64 \<Longrightarrow> j < 64 \<Longrightarrow> bm_get B (bm_set B b i v) j = (if i = j then v else bm_get B b j)"
    and bit_into_value: "i < 64 \<Longrightarrow> bit (bm_into_value B b) i = bm_get B b i"
    and get_from_value: "i < 64 \<Longrightarrow> bm_get B (bm_from_value B w) i = bit w i"
begin

lemma get_truncate: "i < 64 \<Longrightarrow> j < 64 \<Longrightarrow> bm_get B (bitmap_truncate B i b) j \<longleftrightarrow> bm_get B b j \<and> j < i"
  by (simp add: bitmap_truncate_def get_from_value bit_into_value bit_truncate_u64)

end

text \<open>Converting a bitmap to its value and back gives the same bitmap.\<close>

locale bitmap64_value = bitmap64 B for B :: "'b bitmap_ops" +
  assumes from_into_value: "bm_from_value B (bm_into_value B b) = b"

text \<open>A bitmap that is the \<open>u64\<close> it stands for.\<close>

definition word_bitmap :: "64 word bitmap_ops" where
  "word_bitmap = \<lparr>bm_default = 0, bm_get = bit, bm_set = (\<lambda>b i v. if v then set_bit i b else unset_bit i b),
     bm_into_value = id, bm_from_value = id\<rparr>"

interpretation word_bitmap: bitmap64_value word_bitmap
  by unfold_locales (auto simp: word_bitmap_def bit_set_bit_iff bit_unset_bit_iff)

section \<open>Seal information\<close>

record seal_context_info =
  context_digest :: h256
  end_seal_index :: nat

record 'b seal_info =
  si_bitmap :: 'b
  si_load_index :: nat
  si_miner_id :: h256
  si_contexts :: "seal_context_info list"

definition seal_info_new :: "'b bitmap_ops \<Rightarrow> nat \<Rightarrow> 'b seal_info" where
  "seal_info_new B load_index =
     \<lparr>si_bitmap = bm_default B, si_load_index = load_index, si_miner_id = zero_h256, si_contexts = []\<rparr>"

definition is_sealed :: "'b bitmap_ops \<Rightarrow> 'b seal_info \<Rightarrow> nat \<Rightarrow> bool" where
  "is_sealed B si seal_index = bm_get B (si_bitmap si) seal_index"

definition mark_sealed :: "'b bitmap_ops \<Rightarrow> nat \<Rightarrow> 'b seal_info \<Rightarrow> 'b seal_info" where
  "mark_sealed B seal_index si = si\<lparr>si_bitmap := bm_set B (si_bitmap si) seal_index True\<rparr>"

definition global_seal_sector :: "'b seal_info \<Rightarrow> nat \<Rightarrow> nat" where
  "global_seal_sector si i = si_load_index si * SECTORS_PER_LOAD + i * SECTORS_PER_SEAL"

definition context_index :: "'b seal_info \<Rightarrow> nat \<Rightarrow> nat" where
  "context_index si seal_index =
     (case binary_search (map end_seal_index (si_contexts si)) (u16 (seal_index + 1)) of Inr x \<Rightarrow> x | Inl x \<Rightarrow> x)"

definition get_seal_context_digest :: "'b seal_info \<Rightarrow> nat \<Rightarrow> h256 option" where
  "get_seal_context_digest si seal_index =
     (let i = context_index si seal_index
      in if i < length (si_contexts si) then Some (context_digest (si_contexts si ! i)) else None)"

definition set_seal_context :: "h256 \<Rightarrow> nat \<Rightarrow> h256 \<Rightarrow> 'b seal_info \<Rightarrow> 'b seal_info res" where
  "set_seal_context digest global_end_seal_index miner_id si =
     rbind (if si_miner_id si = zero_h256 then Inr (si\<lparr>si_miner_id := miner_id\<rparr>)
            else rbind (ensure (si_miner_id si = miner_id) (Panic ''miner_id setting is inconsistent with db'')) (\<lambda>_. Inr si)) (\<lambda>si.
     let local_end = wsub global_end_seal_index (si_load_index si * SEALS_PER_LOAD);
         local_end = u16 (min local_end SEALS_PER_LOAD);
         new_context = \<lparr>context_digest = digest, end_seal_index = local_end\<rparr>;
         insert_position = context_index si (u16 (local_end + 2 ^ 16 - 1));
         cs = si_contexts si
     in Inr (if insert_position < length cs then
               (if context_digest (cs ! insert_position) = digest then si
                else si\<lparr>si_contexts := take insert_position cs @ [new_context] @ drop insert_position cs\<rparr>)
             else si\<lparr>si_contexts := cs @ [new_context]\<rparr>))"

definition truncated_seal_index :: "'b seal_info \<Rightarrow> nat \<Rightarrow> nat res" where
  "truncated_seal_index si reverted_seal_index =
     (let truncated_context = context_index si reverted_seal_index in
      if truncated_context = 0 then Inr 0
      else rbind (index (si_contexts si) (truncated_context - 1)) (\<lambda>c. Inr (end_seal_index c)))"

definition seal_info_truncate :: "'b bitmap_ops \<Rightarrow> nat \<Rightarrow> 'b seal_info \<Rightarrow> 'b seal_info res" where
  "seal_info_truncate B reverted_seal_index si =
     (let truncated_context_index = context_index si reverted_seal_index in
      rbind (truncated_seal_index si reverted_seal_index) (\<lambda>truncated.
      Inr (si\<lparr>si_bitmap := bitmap_truncate B truncated (si_bitmap si),
              si_contexts := take truncated_context_index (si_contexts si)\<rparr>)))"

definition seal_info_unseal ::
    "(byte list \<Rightarrow> h256) \<Rightarrow> 'b bitmap_ops \<Rightarrow> 'b seal_info \<Rightarrow> byte list \<Rightarrow> nat \<Rightarrow> byte list res" where
  "seal_info_unseal keccak B si data i =
     (if \<not> is_sealed B si i then Inr data
      else rbind (ok_or (Panic ''cannot unseal non-sealed data'') (get_seal_context_digest si i)) (\<lambda>seal_context.
        unseal keccak data (si_miner_id si) seal_context (global_seal_sector si i)))"

section \<open>Contexts\<close>

text \<open>The contexts are ordered by their end, and ends are at most the number of seals of a load.\<close>

definition contexts_ok :: "seal_context_info list \<Rightarrow> bool" where
  "contexts_ok cs \<longleftrightarrow> sorted_wrt (<) (map end_seal_index cs) \<and> (\<forall>c \<in> set cs. end_seal_index c \<le> SEALS_PER_LOAD)"

text \<open>The context of a segment is the first one that ends behind it.\<close>

definition context_of :: "seal_context_info list \<Rightarrow> nat \<Rightarrow> h256 option" where
  "context_of cs s = map_option context_digest (find (\<lambda>c. s < end_seal_index c) cs)"

lemma context_index_eq:
  assumes "s < 2 ^ 16 - 1"
  shows "context_index si s = length (takeWhile (\<lambda>c. end_seal_index c \<le> s) (si_contexts si))"
proof -
  have "u16 (s + 1) = Suc s" using assms by (simp add: u16_def)
  then show ?thesis
    by (simp add: context_index_def binary_search_def Let_def takeWhile_map comp_def less_Suc_eq_le)
qed

lemma find_takeWhile:
  "find P xs = (let i = length (takeWhile (\<lambda>x. \<not> P x) xs) in if i < length xs then Some (xs ! i) else None)"
  by (induction xs) (auto simp: Let_def)

lemma get_seal_context_digest_eq:
  assumes "s < 2 ^ 16 - 1"
  shows "get_seal_context_digest si s = context_of (si_contexts si) s"
  by (simp add: get_seal_context_digest_def context_index_eq [OF assms] context_of_def find_takeWhile not_less Let_def)

lemma takeWhile_sorted_split:
  fixes k :: nat
  assumes "sorted_wrt (<) (map f cs)"
  defines "n \<equiv> length (takeWhile (\<lambda>c. f c \<le> k) cs)"
  shows "\<forall>c \<in> set (take n cs). f c \<le> k" "\<forall>c \<in> set (drop n cs). k < f c" "n \<le> length cs"
proof -
  have t: "take n cs = takeWhile (\<lambda>c. f c \<le> k) cs" "drop n cs = dropWhile (\<lambda>c. f c \<le> k) cs"
    by (simp_all add: n_def takeWhile_eq_take [symmetric] dropWhile_eq_drop [symmetric])
  show "\<forall>c \<in> set (take n cs). f c \<le> k" unfolding t by (auto dest: set_takeWhileD)
  show "n \<le> length cs" by (simp add: n_def length_takeWhile_le)
  show "\<forall>c \<in> set (drop n cs). k < f c"
  proof (cases "drop n cs")
    case (Cons c ds)
    have hd: "k < f c" using Cons hd_dropWhile [of "\<lambda>c. f c \<le> k" cs] unfolding t by simp
    have "sorted_wrt (<) (map f (drop n cs))" using assms(1) by (simp add: drop_map [symmetric] sorted_wrt_drop)
    then show ?thesis unfolding Cons using hd by (auto intro: less_trans)
  qed simp
qed

lemma context_of_append:
  "context_of (as @ bs) s = (case context_of as s of None \<Rightarrow> context_of bs s | Some d \<Rightarrow> Some d)"
  by (induction as) (auto simp: context_of_def)

lemma context_of_behind: "\<forall>c \<in> set cs. end_seal_index c \<le> s \<Longrightarrow> context_of cs s = None"
  by (auto simp: context_of_def find_None_iff)

lemma context_of_None: "context_of cs s = None \<longleftrightarrow> (\<forall>c \<in> set cs. end_seal_index c \<le> s)"
  by (auto simp: context_of_def find_None_iff not_less)

lemma context_of_Cons:
  "context_of (c # cs) s = (if s < end_seal_index c then Some (context_digest c) else context_of cs s)"
  by (simp add: context_of_def)

text \<open>Recording a context gives its digest to the segments between the end before it and its own end.\<close>

lemma context_insert:
  assumes ok: "contexts_ok cs" and e: "0 < e" "e \<le> SEALS_PER_LOAD"
    and same: "\<forall>c \<in> set cs. end_seal_index c = e \<longrightarrow> context_digest c = d"
    and p: "p = length (takeWhile (\<lambda>c. end_seal_index c \<le> e - 1) cs)"
    and cs': "cs' = (if p < length cs then
      (if context_digest (cs ! p) = d then cs else take p cs @ [\<lparr>context_digest = d, end_seal_index = e\<rparr>] @ drop p cs)
      else cs @ [\<lparr>context_digest = d, end_seal_index = e\<rparr>])"
  shows "contexts_ok cs'"
    and "context_of cs' s = (if s < e \<and> (\<forall>c \<in> set cs. end_seal_index c < e \<longrightarrow> end_seal_index c \<le> s) then Some d else context_of cs s)"
proof -
  let ?n = "\<lparr>context_digest = d, end_seal_index = e\<rparr>"
  note split = takeWhile_sorted_split [of end_seal_index cs "e - 1", folded p]
  have lo: "\<forall>c \<in> set (take p cs). end_seal_index c < e" and hi: "\<forall>c \<in> set (drop p cs). e \<le> end_seal_index c"
    and le: "p \<le> length cs" using split ok e(1) by (fastforce simp: contexts_ok_def)+
  have cs: "cs = take p cs @ drop p cs" by simp
  then have low: "(\<forall>c \<in> set cs. end_seal_index c < e \<longrightarrow> end_seal_index c \<le> s) \<longleftrightarrow> (\<forall>c \<in> set (take p cs). end_seal_index c \<le> s)"
    using lo hi by (metis Un_iff leD set_append)
  have base: "context_of cs s = (case context_of (take p cs) s of None \<Rightarrow> context_of (drop p cs) s | Some d \<Rightarrow> Some d)"
    by (subst cs) (rule context_of_append)
  have sorted: "sorted_wrt (<) (map end_seal_index (take p cs))" "sorted_wrt (<) (map end_seal_index (drop p cs))"
    using ok by (auto simp: contexts_ok_def take_map [symmetric] drop_map [symmetric] sorted_wrt_take sorted_wrt_drop)
  have bound: "\<forall>c \<in> set (take p cs) \<union> set (drop p cs). end_seal_index c \<le> SEALS_PER_LOAD"
    using ok by (auto simp: contexts_ok_def dest: in_set_takeD in_set_dropD)
  define ins where "ins \<longleftrightarrow> p < length cs \<longrightarrow> context_digest (cs ! p) \<noteq> d"
  have eq: "cs' = (if ins then take p cs @ ?n # drop p cs else cs)"
    using le by (auto simp: cs' ins_def)
  have strict: "\<forall>c \<in> set (drop p cs). e < end_seal_index c" if "ins"
  proof (cases "drop p cs")
    case (Cons c ds)
    have c: "c = cs ! p" "p < length cs" using Cons by (metis nth_via_drop, metis drop_all list.discI not_le)
    then have "end_seal_index c \<noteq> e" using that same by (auto simp: ins_def)
    then have "e < end_seal_index c" using hi Cons by auto
    then show ?thesis unfolding Cons using sorted(2) Cons by auto
  qed simp
  show "contexts_ok cs'"
    using ok lo strict sorted bound e(2)
    by (auto simp: eq contexts_ok_def sorted_wrt_append intro: less_trans)
  show "context_of cs' s = (if s < e \<and> (\<forall>c \<in> set cs. end_seal_index c < e \<longrightarrow> end_seal_index c \<le> s) then Some d else context_of cs s)"
  proof (cases ins)
    case True
    then show ?thesis unfolding eq low base context_of_None [symmetric]
      by (cases "context_of (take p cs) s") (simp_all add: context_of_append context_of_Cons)
  next
    case False
    then obtain ds where "drop p cs = cs ! p # ds" "context_digest (cs ! p) = d"
      by (auto simp: ins_def Cons_nth_drop_Suc [symmetric])
    moreover have "e \<le> end_seal_index (cs ! p)" using hi calculation(1) by auto
    ultimately show ?thesis unfolding eq low context_of_None [symmetric] using False base
      by (cases "context_of (take p cs) s") (simp_all add: context_of_Cons)
  qed
qed

lemma set_seal_context_eq:
  assumes ok: "contexts_ok (si_contexts si)" and miner: "si_miner_id si \<in> {zero_h256, m}"
    and g: "SEALS_PER_LOAD * si_load_index si < g"
    and same: "\<forall>c \<in> set (si_contexts si). end_seal_index c = min (g - SEALS_PER_LOAD * si_load_index si) SEALS_PER_LOAD \<longrightarrow> context_digest c = d"
  shows "\<exists>cs'. set_seal_context d g m si = Inr (si\<lparr>si_miner_id := m, si_contexts := cs'\<rparr>) \<and> contexts_ok cs' \<and>
    (\<forall>s. context_of cs' s =
      (if s < min (g - SEALS_PER_LOAD * si_load_index si) SEALS_PER_LOAD \<and>
          (\<forall>c \<in> set (si_contexts si). end_seal_index c < min (g - SEALS_PER_LOAD * si_load_index si) SEALS_PER_LOAD \<longrightarrow> end_seal_index c \<le> s)
       then Some d else context_of (si_contexts si) s))"
proof -
  let ?e = "min (g - SEALS_PER_LOAD * si_load_index si) SEALS_PER_LOAD" and ?cs = "si_contexts si"
  let ?p = "length (takeWhile (\<lambda>c. end_seal_index c \<le> ?e - 1) ?cs)"
  define cs' where "cs' = (if ?p < length ?cs then
      (if context_digest (?cs ! ?p) = d then ?cs
       else take ?p ?cs @ [\<lparr>context_digest = d, end_seal_index = ?e\<rparr>] @ drop ?p ?cs)
      else ?cs @ [\<lparr>context_digest = d, end_seal_index = ?e\<rparr>])"
  have e: "0 < ?e" "?e \<le> SEALS_PER_LOAD" using g by auto
  note ins = context_insert [OF ok e same refl cs'_def]
  have u: "u16 ?e = ?e" "u16 (?e + 2 ^ 16 - 1) = ?e - 1"
    using e by (auto simp: u16_def le_mod_geq)
  have w: "wsub g (si_load_index si * SEALS_PER_LOAD) = g - SEALS_PER_LOAD * si_load_index si"
    using g by (simp add: mult.commute)
  have ci: "context_index (si\<lparr>si_miner_id := m\<rparr>) (?e - 1) = ?p" "context_index si (?e - 1) = ?p"
    using e(2) by (subst context_index_eq; simp)+
  let ?si = "si\<lparr>si_miner_id := m\<rparr>"
  have same_miner: "?si = si" if "si_miner_id si = m" using that by simp
  have m: "(if si_miner_id si = zero_h256 then Inr ?si
      else rbind (ensure (si_miner_id si = m) (Panic ''miner_id setting is inconsistent with db'')) (\<lambda>_. Inr si)) = Inr ?si"
    using miner same_miner by (cases "si_miner_id si = m") auto
  have fields: "si_load_index ?si = si_load_index si" "si_contexts ?si = ?cs" by simp_all
  have si': "?si = ?si\<lparr>si_contexts := ?cs\<rparr>" by simp
  have "set_seal_context d g m si = Inr (?si\<lparr>si_contexts := cs'\<rparr>)"
    unfolding set_seal_context_def m rbind_Inr Let_def fields w u ci cs'_def by (intro arg_cong [of _ _ Inr]) (simp split: if_split)
  then show ?thesis using ins(1) ins(2) by (intro exI [of _ cs'] conjI allI)
qed

text \<open>
  Truncating keeps the contexts that end at or before the reverted segment, and marks every segment
  behind them as not sealed.
\<close>

lemma seal_info_truncate_eq:
  assumes ok: "contexts_ok (si_contexts si)" and r: "r < SEALS_PER_LOAD"
  obtains t n where "truncated_seal_index si r = Inr t" "t \<le> r"
    "seal_info_truncate B r si = Inr (si\<lparr>si_bitmap := bitmap_truncate B t (si_bitmap si), si_contexts := take n (si_contexts si)\<rparr>)"
    "contexts_ok (take n (si_contexts si))" "\<forall>s < t. context_of (take n (si_contexts si)) s = context_of (si_contexts si) s"
proof -
  let ?cs = "si_contexts si"
  define n where "n = length (takeWhile (\<lambda>c. end_seal_index c \<le> r) ?cs)"
  have ci: "context_index si r = n" using r by (simp add: context_index_eq n_def)
  have sorted: "sorted_wrt (<) (map end_seal_index ?cs)" using ok by (simp add: contexts_ok_def)
  have lo: "\<forall>c \<in> set (take n ?cs). end_seal_index c \<le> r" "n \<le> length ?cs"
    using takeWhile_sorted_split [OF sorted, of r, folded n_def] by auto
  define t where "t = (if n = 0 then 0 else end_seal_index (?cs ! (n - 1)))"
  have last: "?cs ! (n - 1) \<in> set (take n ?cs)" if "0 < n"
    using that lo(2) in_set_conv_nth [of "?cs ! (n - 1)" "take n ?cs"] by (auto intro!: exI [of _ "n - 1"])
  have t: "truncated_seal_index si r = Inr t" using lo(2) by (auto simp: truncated_seal_index_def ci t_def Let_def)
  have "context_of (take n ?cs) s = context_of ?cs s" if "s < t" for s
  proof -
    have "\<not> (\<forall>c \<in> set (take n ?cs). end_seal_index c \<le> s)"
      using that last by (auto simp: t_def not_le split: if_splits)
    then obtain d where "context_of (take n ?cs) s = Some d" by (metis context_of_None not_None_eq)
    then show ?thesis using context_of_append [of "take n ?cs" "drop n ?cs" s] by simp
  qed
  moreover have "t \<le> r" using last lo(1) by (auto simp: t_def)
  moreover have "contexts_ok (take n ?cs)"
    using ok by (auto simp: contexts_ok_def take_map [symmetric] sorted_wrt_take dest: in_set_takeD)
  ultimately show ?thesis using that t by (simp add: seal_info_truncate_def ci Let_def)
qed

end
