(* ===== verification/Entry_Batch.thy ===== *)
theory Entry_Batch
  imports Chunk_Insert Seal_Info
begin

text \<open>
  \<open>EntryBatch\<close> of \<open>node/storage/src/log_store/load_chunk/mod.rs\<close>: the data of one load together with
  which of its segments are sealed. The specification is \<open>content\<close>, the plain bytes of the load;
  reads return it, sealing does not change it, insertion extends it and truncation restricts it.
\<close>

section \<open>Operations\<close>

record 'b entry_batch =
  eb_seal :: "'b seal_info"
  eb_data :: entry_batch_data

record seal_answer =
  sa_seal_index :: nat
  sa_version :: nat
  sa_sealed_data :: "byte list"
  sa_miner_id :: h256
  sa_seal_context :: h256
  sa_context_end_seal :: nat

definition unsealed_data_list_total_bytes :: "byte list list \<Rightarrow> nat" where
  "unsealed_data_list_total_bytes chunks = sum_list (map length chunks)"

definition entry_batch_new :: "'b bitmap_ops \<Rightarrow> nat \<Rightarrow> 'b entry_batch" where
  "entry_batch_new B load_index_global = \<lparr>eb_seal = seal_info_new B load_index_global, eb_data = data_new\<rparr>"

definition entry_batch_is_empty :: "'b entry_batch \<Rightarrow> bool" where
  "entry_batch_is_empty eb = data_is_empty (eb_data eb)"

definition entry_batch_is_complete :: "'b entry_batch \<Rightarrow> bool" where
  "entry_batch_is_complete eb = (case eb_data eb of Complete _ \<Rightarrow> True | Incomplete _ \<Rightarrow> False)"

definition get_sealed_data :: "'b bitmap_ops \<Rightarrow> 'b entry_batch \<Rightarrow> nat \<Rightarrow> byte list option res" where
  "get_sealed_data B eb seal_index =
     (if is_sealed B (eb_seal eb) seal_index then data_get (eb_data eb) (seal_index * BYTES_PER_SEAL) BYTES_PER_SEAL
      else Inr None)"

definition get_non_sealed_data :: "'b bitmap_ops \<Rightarrow> 'b entry_batch \<Rightarrow> nat \<Rightarrow> byte list option res" where
  "get_non_sealed_data B eb seal_index =
     (if \<not> is_sealed B (eb_seal eb) seal_index then data_get (eb_data eb) (seal_index * BYTES_PER_SEAL) BYTES_PER_SEAL
      else Inr None)"

text \<open>The loop over \<open>chunks_mut(BYTES_PER_SEAL)\<close>: each chunk is unsealed as the segment it belongs to.\<close>

function unseal_chunks ::
    "(byte list \<Rightarrow> h256) \<Rightarrow> 'b bitmap_ops \<Rightarrow> 'b seal_info \<Rightarrow> nat \<Rightarrow> byte list \<Rightarrow> byte list res" where
  "unseal_chunks keccak B si seal_index data =
     (if data = [] then Inr []
      else rbind (seal_info_unseal keccak B si (take BYTES_PER_SEAL data) (u16 seal_index)) (\<lambda>chunk.
           rbind (unseal_chunks keccak B si (seal_index + 1) (drop BYTES_PER_SEAL data)) (\<lambda>rest.
           Inr (chunk @ rest))))"
  by pat_completeness auto
termination
  by (relation "measure (\<lambda>(keccak, B, si, i, data). length data)") auto

declare unseal_chunks.simps [simp del]

definition get_unsealed_data ::
    "(byte list \<Rightarrow> h256) \<Rightarrow> 'b bitmap_ops \<Rightarrow> 'b entry_batch \<Rightarrow> nat \<Rightarrow> nat \<Rightarrow> byte list option res" where
  "get_unsealed_data keccak B eb start_sector length_sector =
     (let advanced_by_one = (if start_sector mod SECTORS_PER_SEAL = 0 then False
                             else is_sealed B (eb_seal eb) (u16 (start_sector div SECTORS_PER_SEAL)));
          start_byte = start_sector * BYTES_PER_SECTOR;
          length_byte = length_sector * BYTES_PER_SECTOR
      in robind (if advanced_by_one
                 then robind (data_get (eb_data eb) (start_byte - 32) (length_byte + 32)) (\<lambda>hinted.
                      Inr (Some (drop 32 hinted, Some (take 32 hinted))))
                 else robind (data_get (eb_data eb) start_byte length_byte) (\<lambda>d. Inr (Some (d, None))))
         (\<lambda>(loaded_data, unseal_mask_seed).
          let incomplete_len = wsub BYTES_PER_LOAD start_byte mod BYTES_PER_SEAL in
          rbind (case unseal_mask_seed of
                   None \<Rightarrow> Inr loaded_data
                 | Some seed \<Rightarrow>
                     if length loaded_data < incomplete_len then unseal_with_mask_seed keccak loaded_data seed
                     else rbind (unseal_with_mask_seed keccak (take incomplete_len loaded_data) seed) (\<lambda>d.
                          Inr (d @ drop incomplete_len loaded_data))) (\<lambda>loaded_data.
          if incomplete_len < length loaded_data then
            rbind (unseal_chunks keccak B (eb_seal eb) ((start_byte + incomplete_len) div BYTES_PER_SEAL)
                     (drop incomplete_len loaded_data)) (\<lambda>d.
            Inr (Some (take incomplete_len loaded_data @ d)))
          else Inr (Some loaded_data))))"

definition entry_batch_insert_data ::
    "(byte list \<Rightarrow> h256) \<Rightarrow> 'b bitmap_ops \<Rightarrow> nat \<Rightarrow> byte list \<Rightarrow> 'b entry_batch \<Rightarrow> ('b entry_batch \<times> nat list) res" where
  "entry_batch_insert_data keccak B offset data eb =
     rbind (if data = [] then Inr True
            else rbind (get_unsealed_data keccak B eb offset (length data div BYTES_PER_SECTOR)) (\<lambda>r. Inr (r = Some data))) (\<lambda>present.
     if present then Inr (eb, [])
     else rbind (data_insert_data (offset * BYTES_PER_SECTOR) data (eb_data eb)) (\<lambda>(d, ready).
          Inr (eb\<lparr>eb_data := d\<rparr>, ready)))"

text \<open>One iteration of the loop of \<open>truncate_seal\<close>: a sealed segment that loses its context is unsealed.\<close>

definition truncate_seal_step ::
    "(byte list \<Rightarrow> h256) \<Rightarrow> 'b bitmap_ops \<Rightarrow> nat \<Rightarrow> nat \<Rightarrow> 'b entry_batch \<times> nat list \<Rightarrow> ('b entry_batch \<times> nat list) res" where
  "truncate_seal_step keccak B truncated_sector unseal_index = (\<lambda>(eb, to_reseal_set).
     if \<not> is_sealed B (eb_seal eb) unseal_index then Inr (eb, to_reseal_set)
     else let truncated_byte = truncated_sector * BYTES_PER_SECTOR;
              first_unseal_byte = unseal_index * BYTES_PER_SEAL;
              len = min (wsub truncated_byte first_unseal_byte) BYTES_PER_SEAL
          in rbind (data_get_mut (eb_data eb) first_unseal_byte len
                      (\<lambda>to_unseal. seal_info_unseal keccak B (eb_seal eb) to_unseal unseal_index)) (\<lambda>r.
             rbind (ok_or (Panic ''Sealed chunk should be complete'') r) (\<lambda>d.
             Inr (eb\<lparr>eb_data := d\<rparr>, to_reseal_set @ [unseal_index]))))"

definition truncate_seal ::
    "(byte list \<Rightarrow> h256) \<Rightarrow> 'b bitmap_ops \<Rightarrow> nat \<Rightarrow> 'b entry_batch \<Rightarrow> ('b entry_batch \<times> nat list) res" where
  "truncate_seal keccak B truncated_sector eb =
     (let reverted_seal_index = u16 (truncated_sector div SECTORS_PER_SEAL) in
      rbind (truncated_seal_index (eb_seal eb) reverted_seal_index) (\<lambda>first_unseal_index.
      let last_unseal_index = u16 (wsub truncated_sector 1 div SECTORS_PER_SEAL) in
      rbind (rfold (truncate_seal_step keccak B truncated_sector)
               [first_unseal_index..<last_unseal_index + 1] (eb, [])) (\<lambda>(eb, to_reseal_set).
      rbind (seal_info_truncate B reverted_seal_index (eb_seal eb)) (\<lambda>si.
      Inr (eb\<lparr>eb_seal := si\<rparr>, to_reseal_set)))))"

definition entry_batch_truncate ::
    "(byte list \<Rightarrow> h256) \<Rightarrow> 'b bitmap_ops \<Rightarrow> nat \<Rightarrow> 'b entry_batch \<Rightarrow> ('b entry_batch \<times> nat list) res" where
  "entry_batch_truncate keccak B truncated_sector eb =
     rbind (ensure (0 < truncated_sector \<and> truncated_sector < SECTORS_PER_LOAD) (Panic ''assertion failed'')) (\<lambda>_.
     rbind (data_truncate (truncated_sector * BYTES_PER_SECTOR) (eb_data eb)) (\<lambda>d.
     truncate_seal keccak B truncated_sector (eb\<lparr>eb_data := d\<rparr>)))"

definition into_data_list ::
    "(byte list \<Rightarrow> h256) \<Rightarrow> 'b bitmap_ops \<Rightarrow> 'b entry_batch \<Rightarrow> nat \<Rightarrow> chunk_array list res" where
  "into_data_list keccak B eb global_start_entry =
     rmap (\<lambda>(start_entry, length_entry).
       rbind (get_unsealed_data keccak B eb start_entry length_entry) (\<lambda>r.
       rbind (ok_or (Panic ''called `Option::unwrap()` on a `None` value'') r) (\<lambda>d.
       Inr \<lparr>ca_data = d, ca_start_index = global_start_entry + start_entry\<rparr>)))
     (available_range_entries (eb_data eb))"

text \<open>\<open>to_unsealed_data\<close>: one step of the loop over the segments of a complete load, then of a partial batch.\<close>

definition unsealed_segment ::
    "(byte list \<Rightarrow> h256) \<Rightarrow> 'b bitmap_ops \<Rightarrow> 'b entry_batch \<Rightarrow> nat \<Rightarrow> byte list \<Rightarrow> byte list option res" where
  "unsealed_segment keccak B eb seal_bit complete_data =
     robind (data_get (eb_data eb) (seal_bit * BYTES_PER_SEAL) BYTES_PER_SEAL) (\<lambda>data_slice.
     if is_sealed B (eb_seal eb) (u16 seal_bit)
     then rbind (seal_info_unseal keccak B (eb_seal eb) data_slice (u16 seal_bit)) (\<lambda>d. Inr (Some (complete_data @ d)))
     else Inr (Some (complete_data @ data_slice)))"

definition unsealed_overlap ::
    "(byte list \<Rightarrow> h256) \<Rightarrow> 'b bitmap_ops \<Rightarrow> 'b entry_batch \<Rightarrow> partial_batch \<Rightarrow> nat \<Rightarrow> byte list \<Rightarrow> byte list option res" where
  "unsealed_overlap keccak B eb p seal_index acc =
     (let partial_start_byte = pb_start_sector p * BYTES_PER_SECTOR;
          partial_end_byte = partial_start_byte + length (pb_data p);
          seal_start_byte = seal_index * BYTES_PER_SEAL;
          seal_end_byte = seal_start_byte + BYTES_PER_SEAL;
          is_full_seal = (partial_start_byte \<le> seal_start_byte \<and> seal_end_byte \<le> partial_end_byte)
      in if is_full_seal \<and> is_sealed B (eb_seal eb) seal_index then
           robind (data_get (eb_data eb) seal_start_byte BYTES_PER_SEAL) (\<lambda>seal_data.
           rbind (seal_info_unseal keccak B (eb_seal eb) seal_data seal_index) (\<lambda>unsealed.
           Inr (Some (acc @ unsealed))))
         else let overlap_start = max partial_start_byte seal_start_byte;
                  overlap_end = min partial_end_byte seal_end_byte;
                  offset_in_partial = overlap_start - partial_start_byte;
                  overlap_len = wsub overlap_end overlap_start
              in rbind (ok_or (Panic ''range end index out of range'') (slice_get (pb_data p) offset_in_partial overlap_len)) (\<lambda>d.
                 Inr (Some (acc @ d))))"

definition unsealed_partial_batch ::
    "(byte list \<Rightarrow> h256) \<Rightarrow> 'b bitmap_ops \<Rightarrow> 'b entry_batch \<Rightarrow> partial_batch \<Rightarrow> byte list list \<Rightarrow> byte list list option res" where
  "unsealed_partial_batch keccak B eb p chunks =
     (if length (pb_data p) = 0 then Inr (Some chunks)
      else let partial_end_byte = pb_start_sector p * BYTES_PER_SECTOR + length (pb_data p);
               start_seal_index = u16 (pb_start_sector p div SECTORS_PER_SEAL);
               end_seal_index = u16 ((partial_end_byte - 1) div BYTES_PER_SEAL)
           in robind (rofold (unsealed_overlap keccak B eb p) [start_seal_index..<end_seal_index + 1] []) (\<lambda>d.
              Inr (Some (chunks @ [d]))))"

definition to_unsealed_data ::
    "(byte list \<Rightarrow> h256) \<Rightarrow> 'b bitmap_ops \<Rightarrow> 'b entry_batch \<Rightarrow> byte list list option res" where
  "to_unsealed_data keccak B eb =
     (case eb_data eb of
        Complete _ \<Rightarrow>
          robind (rofold (unsealed_segment keccak B eb) [0..<SEALS_PER_LOAD] []) (\<lambda>complete_data. Inr (Some [complete_data]))
      | Incomplete incomplete_data \<Rightarrow> rofold (unsealed_partial_batch keccak B eb) (known_data incomplete_data) [])"

definition submit_seal_result :: "'b bitmap_ops \<Rightarrow> seal_answer \<Rightarrow> 'b entry_batch \<Rightarrow> 'b entry_batch res" where
  "submit_seal_result B answer eb =
     (let local_seal_index = sa_seal_index answer mod SEALS_PER_LOAD in
      rbind (ensure (\<not> is_sealed B (eb_seal eb) (u16 local_seal_index)) (Panic ''Duplicated sealing'')) (\<lambda>_.
      rbind (ensure (sa_seal_index answer div SEALS_PER_LOAD = si_load_index (eb_seal eb)) (Panic ''assertion failed'')) (\<lambda>_.
      rbind (set_seal_context (sa_seal_context answer) (sa_context_end_seal answer) (sa_miner_id answer) (eb_seal eb)) (\<lambda>si.
      rbind (data_get_mut (eb_data eb) (local_seal_index * BYTES_PER_SEAL) BYTES_PER_SEAL
               (\<lambda>segment. rbind (ensure (length segment = length (sa_sealed_data answer)) (Panic ''copy_from_slice: source slice length does not match''))
                 (\<lambda>_. Inr (sa_sealed_data answer)))) (\<lambda>r.
      rbind (ok_or (Panic ''Sealing segment should exist'') r) (\<lambda>d.
      Inr \<lparr>eb_seal = mark_sealed B (u16 local_seal_index) si, eb_data = d\<rparr>))))))"

definition set_subtree_list :: "(nat \<times> nat \<times> h256) list \<Rightarrow> 'b entry_batch \<Rightarrow> 'b entry_batch res" where
  "set_subtree_list subtree_list eb =
     rbind (data_set_subtree_list subtree_list (eb_data eb)) (\<lambda>d. Inr (eb\<lparr>eb_data := d\<rparr>))"

section \<open>The plain content of a load\<close>

definition seal_mask :: "(byte list \<Rightarrow> h256) \<Rightarrow> 'b seal_info \<Rightarrow> nat \<Rightarrow> h256" where
  "seal_mask keccak si s =
     keccak (compute_first_mask_seed (si_miner_id si) (the (context_of (si_contexts si) s)) (global_seal_sector si s))"

definition segment_content :: "(byte list \<Rightarrow> h256) \<Rightarrow> 'b bitmap_ops \<Rightarrow> 'b entry_batch \<Rightarrow> nat \<Rightarrow> byte list" where
  "segment_content keccak B eb s =
     (let raw = range_bytes (known (eb_data eb)) (BYTES_PER_SEAL * s) BYTES_PER_SEAL
      in if is_sealed B (eb_seal eb) s then unseal_words keccak (seal_mask keccak (eb_seal eb) s) raw else raw)"

definition content :: "(byte list \<Rightarrow> h256) \<Rightarrow> 'b bitmap_ops \<Rightarrow> 'b entry_batch \<Rightarrow> nat \<rightharpoonup> byte" where
  "content keccak B eb i =
     (if known (eb_data eb) i = None then None
      else Some (segment_content keccak B eb (i div BYTES_PER_SEAL) ! (i mod BYTES_PER_SEAL)))"

text \<open>Sealed segments are complete and have a context.\<close>

definition batch_inv :: "'b bitmap_ops \<Rightarrow> 'b entry_batch \<Rightarrow> bool" where
  "batch_inv B eb \<longleftrightarrow> data_ok (eb_data eb) \<and> contexts_ok (si_contexts (eb_seal eb)) \<and>
     (\<forall>s < SEALS_PER_LOAD. is_sealed B (eb_seal eb) s \<longrightarrow>
        seal_range s \<subseteq> dom (known (eb_data eb)) \<and> context_of (si_contexts (eb_seal eb)) s \<noteq> None)"

lemma dom_content [simp]: "dom (content keccak B eb) = dom (known (eb_data eb))"
  by (auto simp: content_def split: if_splits)

lemma length_segment_content [simp]: "length (segment_content keccak B eb s) = 4096"
  by (simp add: segment_content_def Let_def)

lemma range_bytes_split: "range_bytes m a (n + k) = range_bytes m a n @ range_bytes m (a + n) k"
  by (rule nth_equalityI) (auto simp: nth_range_bytes nth_append)

lemma take_range_bytes: "take n (range_bytes m a k) = range_bytes m a (min n k)"
  by (rule nth_equalityI) (auto simp: nth_range_bytes)

lemma drop_range_bytes: "drop n (range_bytes m a k) = range_bytes m (a + n) (k - n)"
  by (rule nth_equalityI) (auto simp: nth_range_bytes ac_simps)

lemma range_bytes_0 [simp]: "range_bytes m a 0 = []"
  by (simp add: range_bytes_def)

lemma content_not_sealed: "\<not> is_sealed B (eb_seal eb) (i div 4096) \<Longrightarrow> content keccak B eb i = known (eb_data eb) i"
  by (auto simp: content_def segment_content_def nth_range_bytes)

lemma content_range:
  assumes "4096 * s \<le> a" "a + n \<le> 4096 * (s + 1)" "{a..<a + n} \<subseteq> dom (known (eb_data eb))"
  shows "range_bytes (content keccak B eb) a n = take n (drop (a - 4096 * s) (segment_content keccak B eb s))"
proof (rule nth_equalityI)
  fix i assume "i < length (range_bytes (content keccak B eb) a n)"
  then have i: "i < n" by simp
  then have "a + i \<in> dom (known (eb_data eb))" by (intro subsetD [OF assms(3)]) simp
  moreover have q: "(a + i) div 4096 = s" using assms(1,2) i by (intro div_nat_eqI) auto
  moreover have "(a + i) mod 4096 = a - 4096 * s + i"
    using minus_mult_div_eq_mod [of "a + i" 4096] assms(1) unfolding q by simp
  ultimately show "range_bytes (content keccak B eb) a n ! i = take n (drop (a - 4096 * s) (segment_content keccak B eb s)) ! i"
    using i assms(1,2) by (auto simp: nth_range_bytes content_def)
qed (use assms in simp)

lemma range_content_not_sealed:
  assumes "\<not> is_sealed B (eb_seal eb) s" "4096 * s \<le> a" "a + n \<le> 4096 * (s + 1)"
  shows "range_bytes (content keccak B eb) a n = range_bytes (known (eb_data eb)) a n"
proof (rule range_bytes_cong)
  fix i assume "a \<le> i" "i < a + n"
  then have "i div 4096 = s" using assms by (intro div_nat_eqI) auto
  then show "content keccak B eb i = known (eb_data eb) i" using assms(1) by (simp add: content_not_sealed)
qed

text \<open>A prefix of a segment is unsealed with the context, any later part with the sealed word before it.\<close>

lemma unseal_prefix:
  assumes inv: "batch_inv B eb" and s: "s < 64" and n: "n \<le> 4096" "32 dvd n"
    and known: "{4096 * s..<4096 * s + n} \<subseteq> dom (known (eb_data eb))"
  shows "seal_info_unseal keccak B (eb_seal eb) (range_bytes (known (eb_data eb)) (4096 * s) n) s =
    Inr (range_bytes (content keccak B eb) (4096 * s) n)"
proof (cases "is_sealed B (eb_seal eb) s")
  case True
  let ?si = "eb_seal eb" and ?k = "known (eb_data eb)"
  obtain d where d: "context_of (si_contexts ?si) s = Some d"
    using inv s True by (auto simp: batch_inv_def)
  have "range_bytes (content keccak B eb) (4096 * s) n = take n (unseal_words keccak (seal_mask keccak ?si s) (range_bytes ?k (4096 * s) 4096))"
    using content_range [of s "4096 * s" n eb] n known True by (simp add: segment_content_def)
  also have "\<dots> = unseal_words keccak (seal_mask keccak ?si s) (range_bytes ?k (4096 * s) n)"
    using n by (simp add: unseal_words_take [symmetric] take_range_bytes min_absorb1)
  finally show ?thesis
    using True d s n(2) by (simp add: seal_info_unseal_def get_seal_context_digest_eq unseal_def unseal_with_mask_seed_def
        unseal_with_mask_def seal_mask_def mod_0_imp_dvd dvd_imp_mod_0)
next
  case False
  then show ?thesis using n(1) by (simp add: seal_info_unseal_def range_content_not_sealed)
qed

lemma unseal_suffix:
  assumes sealed: "is_sealed B (eb_seal eb) s" and j: "0 < j" "32 * j + n \<le> 4096" "32 dvd n"
    and known: "seal_range s \<subseteq> dom (known (eb_data eb))"
  shows "unseal_with_mask_seed keccak (range_bytes (known (eb_data eb)) (4096 * s + 32 * j) n)
      (range_bytes (known (eb_data eb)) (4096 * s + 32 * j - 32) 32) =
    Inr (range_bytes (content keccak B eb) (4096 * s + 32 * j) n)"
proof -
  let ?si = "eb_seal eb" and ?k = "known (eb_data eb)"
  let ?raw = "range_bytes ?k (4096 * s) 4096"
  have sub: "{4096 * s + 32 * j..<4096 * s + 32 * j + n} \<subseteq> dom ?k"
    using j(2) by (intro subset_trans [OF _ known]) (auto simp: seal_range_def)
  have "range_bytes (content keccak B eb) (4096 * s + 32 * j) n =
      take n (drop (32 * j) (unseal_words keccak (seal_mask keccak ?si s) ?raw))"
    using content_range [of s "4096 * s + 32 * j" n eb] j(2) sub sealed by (simp add: segment_content_def)
  also have "drop (32 * j) (unseal_words keccak (seal_mask keccak ?si s) ?raw) =
      unseal_words keccak (keccak (take 32 (drop (32 * (j - 1)) ?raw))) (drop (32 * j) ?raw)"
    using j by (intro unseal_words_drop) auto
  also have "take n \<dots> = unseal_words keccak (keccak (take 32 (drop (32 * (j - 1)) ?raw))) (take n (drop (32 * j) ?raw))"
    using j by (simp add: unseal_words_take)
  also have "take n (drop (32 * j) ?raw) = range_bytes ?k (4096 * s + 32 * j) n"
    using j by (simp add: drop_range_bytes take_range_bytes min_absorb1)
  also have "take 32 (drop (32 * (j - 1)) ?raw) = range_bytes ?k (4096 * s + 32 * j - 32) 32"
  proof -
    have "4096 * s + 32 * (j - 1) = 4096 * s + 32 * j - 32" "32 \<le> 4096 - 32 * (j - 1)" using j by auto
    then show ?thesis by (simp add: drop_range_bytes take_range_bytes min_absorb1)
  qed
  finally show ?thesis using j(3) by (simp add: unseal_with_mask_seed_def unseal_with_mask_def dvd_imp_mod_0)
qed

lemma unseal_chunks_correct:
  assumes inv: "batch_inv B eb" and n: "32 dvd n" "4096 * s + n \<le> 262144"
    and known: "{4096 * s..<4096 * s + n} \<subseteq> dom (known (eb_data eb))"
  shows "unseal_chunks keccak B (eb_seal eb) s (range_bytes (known (eb_data eb)) (4096 * s) n) =
    Inr (range_bytes (content keccak B eb) (4096 * s) n)"
  using n known
proof (induction n arbitrary: s rule: less_induct)
  case (less n)
  show ?case
  proof (cases "n = 0")
    case False
    let ?c = "min 4096 n" and ?k = "known (eb_data eb)"
    have s: "s < 64" "u16 s = s" using less.prems(2) False by (auto simp: u16_def)
    have dv: "32 dvd ?c" "32 dvd n - 4096" using less.prems(1) by (auto simp: min_def intro: dvd_diff_nat)
    have ne: "range_bytes ?k (4096 * s) n \<noteq> []" using False by (simp add: range_bytes_def)
    have sub: "{4096 * s..<4096 * s + ?c} \<subseteq> dom ?k" by (rule subset_trans [OF _ less.prems(3)]) auto
    have first: "seal_info_unseal keccak B (eb_seal eb) (range_bytes ?k (4096 * s) ?c) s = Inr (range_bytes (content keccak B eb) (4096 * s) ?c)"
      using unseal_prefix [OF inv s(1) _ dv(1) sub] by simp
    have rest: "unseal_chunks keccak B (eb_seal eb) (s + 1) (range_bytes ?k (4096 * s + 4096) (n - 4096)) =
        Inr (range_bytes (content keccak B eb) (4096 * s + 4096) (n - 4096))"
    proof (cases "n \<le> 4096")
      case True
      then show ?thesis by (simp add: unseal_chunks.simps)
    next
      case gt: False
      have "{4096 * (s + 1)..<4096 * (s + 1) + (n - 4096)} \<subseteq> dom ?k"
        using gt by (intro subset_trans [OF _ less.prems(3)]) auto
      then show ?thesis using less.IH [of "n - 4096" "s + 1"] gt dv(2) less.prems(2) by (simp add: algebra_simps)
    qed
    have "range_bytes (content keccak B eb) (4096 * s) n =
        range_bytes (content keccak B eb) (4096 * s) ?c @ range_bytes (content keccak B eb) (4096 * s + 4096) (n - 4096)"
      using range_bytes_split [of "content keccak B eb" "4096 * s" ?c "n - ?c"] by (cases "n \<le> 4096") simp_all
    then show ?thesis
      using ne first rest s(2) by (subst unseal_chunks.simps) (simp add: take_range_bytes drop_range_bytes)
  qed (simp add: unseal_chunks.simps)
qed

lemma unsealed_tail:
  fixes keccak :: "byte list \<Rightarrow> h256"
  assumes inv: "batch_inv B eb" and al: "4096 dvd a + inc" "32 dvd l" "32 dvd inc" "a + l \<le> 262144"
    and known: "{a..<a + l} \<subseteq> dom (known (eb_data eb))"
  defines "loaded \<equiv> range_bytes (content keccak B eb) a (min inc l) @ range_bytes (known (eb_data eb)) (a + inc) (l - inc)"
  shows "(if inc < length loaded then
            rbind (unseal_chunks keccak B (eb_seal eb) ((a + inc) div BYTES_PER_SEAL) (drop inc loaded)) (\<lambda>d.
            Inr (Some (take inc loaded @ d)))
          else Inr (Some loaded)) = Inr (Some (range_bytes (content keccak B eb) a l))"
proof (cases "inc < l")
  case True
  have s: "4096 * ((a + inc) div 4096) = a + inc" using al(1) by simp
  have "{a + inc..<a + inc + (l - inc)} \<subseteq> dom (known (eb_data eb))"
    using True by (intro subset_trans [OF _ known]) auto
  then have "unseal_chunks keccak B (eb_seal eb) ((a + inc) div 4096) (range_bytes (known (eb_data eb)) (a + inc) (l - inc)) =
      Inr (range_bytes (content keccak B eb) (a + inc) (l - inc))"
    using unseal_chunks_correct [OF inv, of "l - inc" "(a + inc) div 4096", unfolded s] al True by (auto intro: dvd_diff_nat)
  moreover have "range_bytes (content keccak B eb) a l = range_bytes (content keccak B eb) a inc @ range_bytes (content keccak B eb) (a + inc) (l - inc)"
    using range_bytes_split [of "content keccak B eb" a inc "l - inc"] True by simp
  ultimately show ?thesis using True by (simp add: loaded_def min_def)
qed (simp add: loaded_def min_def)

lemma advanced_known:
  assumes "seal_range s \<subseteq> D" "4096 * s + 32 \<le> a" "a \<le> 4096 * (s + 1)"
  shows "{a - 32..<a - 32 + (l + 32)} \<subseteq> D \<longleftrightarrow> {a..<a + l} \<subseteq> D"
proof -
  have "{a - 32..<a - 32 + (l + 32)} = {a - 32..<a} \<union> {a..<a + l}" using assms(2) by auto
  moreover have "{a - 32..<a} \<subseteq> D" using assms(2,3) by (intro subset_trans [OF _ assms(1)]) (auto simp: seal_range_def)
  ultimately show ?thesis by simp
qed

text \<open>The length of the first, incomplete segment of a read.\<close>

lemma incomplete_length:
  fixes start :: nat
  assumes "start < 1024"
  defines "inc \<equiv> (262144 - start * 256) mod 4096"
  shows "inc = (if start mod 16 = 0 then 0 else 4096 - 256 * (start mod 16))"
    and "start * 256 = 4096 * (start div 16) + 256 * (start mod 16)"
    and "4096 dvd start * 256 + inc" and "32 dvd inc"
proof -
  let ?s = "start div 16" and ?x = "256 * (start mod 16)"
  show a: "start * 256 = 4096 * ?s + ?x" using mult_div_mod_eq [of 16 start] by linarith
  have "?s < 64" "?x < 4096" using assms(1) by auto
  then have "262144 - start * 256 = (4096 - ?x) + (63 - ?s) * 4096" using a by linarith
  then have "inc = (4096 - ?x) mod 4096" unfolding inc_def by (simp only: mod_mult_self1)
  then show inc: "inc = (if start mod 16 = 0 then 0 else 4096 - ?x)" by (cases "start mod 16 = 0") simp_all
  have "start * 256 + inc = 4096 * (if start mod 16 = 0 then ?s else ?s + 1)"
    using a inc \<open>?x < 4096\<close> by auto
  then show "4096 dvd start * 256 + inc" by (metis dvd_triv_left)
  have "32 dvd 4096 - ?x" by (rule dvd_diff_nat) simp_all
  then show "32 dvd inc" using inc by simp
qed

lemma get_unsealed_data_correct:
  assumes inv: "batch_inv B eb" and len: "0 < len" "start + len \<le> SECTORS_PER_LOAD"
  shows "get_unsealed_data keccak B eb start len =
    Inr (if {256 * start..<256 * (start + len)} \<subseteq> dom (content keccak B eb)
         then Some (range_bytes (content keccak B eb) (256 * start) (256 * len)) else None)"
proof -
  let ?k = "known (eb_data eb)" and ?a = "start * 256" and ?l = "len * 256" and ?s = "start div 16"
  define inc where "inc = (262144 - ?a) mod 4096"
  have okd: "data_ok (eb_data eb)" using inv by (simp add: batch_inv_def)
  have s: "?s < 64" "u16 ?s = ?s" and lt: "start < 1024" using len by (auto simp: u16_def)
  note arith = incomplete_length [OF lt, folded inc_def]
  note inc = arith(1) and a = arith(2)
  have bound: "?a + ?l \<le> 262144" and l: "32 dvd ?l" using len by simp_all
  note al = arith(3) l arith(4)
  have w: "wsub 262144 ?a mod 4096 = inc" using bound by (simp add: inc_def)
  define fin where "fin = (\<lambda>loaded. if inc < length loaded then
      rbind (unseal_chunks keccak B (eb_seal eb) ((?a + inc) div BYTES_PER_SEAL) (drop inc loaded)) (\<lambda>d.
      Inr (Some (take inc loaded @ d))) else Inr (Some loaded))"
  have tail: "fin (range_bytes (content keccak B eb) ?a (min inc ?l) @ range_bytes ?k (?a + inc) (?l - inc)) =
      Inr (Some (range_bytes (content keccak B eb) ?a ?l))" if "{?a..<?a + ?l} \<subseteq> dom ?k"
    unfolding fin_def by (rule unsealed_tail [OF inv al bound that])
  have def: "get_unsealed_data keccak B eb start len =
     robind (if start mod 16 \<noteq> 0 \<and> is_sealed B (eb_seal eb) ?s
             then robind (data_get (eb_data eb) (?a - 32) (?l + 32)) (\<lambda>h. Inr (Some (drop 32 h, Some (take 32 h))))
             else robind (data_get (eb_data eb) ?a ?l) (\<lambda>d. Inr (Some (d, None))))
       (\<lambda>(ld, sd). rbind (case sd of None \<Rightarrow> Inr ld
           | Some seed \<Rightarrow> if length ld < inc then unseal_with_mask_seed keccak ld seed
                         else rbind (unseal_with_mask_seed keccak (take inc ld) seed) (\<lambda>d. Inr (d @ drop inc ld))) fin)"
    unfolding get_unsealed_data_def Let_def fin_def sizes w s(2) by (cases "start mod 16 = 0") simp_all
  have get: "data_get (eb_data eb) ?a ?l = Inr (if {?a..<?a + ?l} \<subseteq> dom ?k then Some (range_bytes ?k ?a ?l) else None)"
    using data_get_correct [OF okd] len bound by simp
  have raw: "range_bytes ?k ?a ?l = range_bytes ?k ?a (min inc ?l) @ range_bytes ?k (?a + inc) (?l - inc)"
    using range_bytes_split [of ?k ?a inc "?l - inc"] by (cases "inc \<le> ?l") (simp_all add: min_def)
  have goal: "get_unsealed_data keccak B eb start len =
    Inr (if {?a..<?a + ?l} \<subseteq> dom ?k then Some (range_bytes (content keccak B eb) ?a ?l) else None)"
  proof (cases "start mod 16 \<noteq> 0 \<and> is_sealed B (eb_seal eb) ?s")
    case True
    have seg: "seal_range ?s \<subseteq> dom ?k" using inv True s(1) by (simp add: batch_inv_def)
    let ?j = "8 * (start mod 16)"
    have j: "?a = 4096 * ?s + 32 * ?j" "0 < ?j" "32 * ?j + inc = 4096" using a True inc by auto
    have iff: "{?a - 32..<?a - 32 + (?l + 32)} \<subseteq> dom ?k \<longleftrightarrow> {?a..<?a + ?l} \<subseteq> dom ?k"
      using j by (intro advanced_known [OF seg]) auto
    have adv: "data_get (eb_data eb) (?a - 32) (?l + 32) =
        Inr (if {?a..<?a + ?l} \<subseteq> dom ?k then Some (range_bytes ?k (?a - 32) (?l + 32)) else None)"
      using data_get_correct [OF okd, of "?l + 32" "?a - 32"] bound j unfolding iff by simp
    have seed: "take 32 (range_bytes ?k (?a - 32) (?l + 32)) = range_bytes ?k (?a - 32) 32"
        "drop 32 (range_bytes ?k (?a - 32) (?l + 32)) = range_bytes ?k ?a ?l"
      using j by (auto simp: take_range_bytes drop_range_bytes)
    have "32 * ?j + min inc ?l \<le> 4096" "32 dvd min inc ?l" using j al by (auto simp: min_def)
    note first = unseal_suffix [OF conjunct2 [OF True] j(2) this seg, folded j(1)]
    have "(if length (range_bytes ?k ?a ?l) < inc then unseal_with_mask_seed keccak (range_bytes ?k ?a ?l) (range_bytes ?k (?a - 32) 32)
       else rbind (unseal_with_mask_seed keccak (take inc (range_bytes ?k ?a ?l)) (range_bytes ?k (?a - 32) 32)) (\<lambda>d.
            Inr (d @ drop inc (range_bytes ?k ?a ?l)))) =
       Inr (range_bytes (content keccak B eb) ?a (min inc ?l) @ range_bytes ?k (?a + inc) (?l - inc))"
      using first [of keccak] by (cases "inc \<le> ?l") (simp_all add: take_range_bytes drop_range_bytes min_def)
    then show ?thesis unfolding def using True tail by (cases "{?a..<?a + ?l} \<subseteq> dom ?k") (simp_all add: adv seed)
  next
    case False
    have "range_bytes ?k ?a (min inc ?l) = range_bytes (content keccak B eb) ?a (min inc ?l)"
      using False a inc by (cases "start mod 16 = 0") (auto intro!: range_content_not_sealed [symmetric] simp: min_def)
    then have "range_bytes ?k ?a ?l = range_bytes (content keccak B eb) ?a (min inc ?l) @ range_bytes ?k (?a + inc) (?l - inc)"
      using raw by simp
    then show ?thesis unfolding def using False tail by (cases "{?a..<?a + ?l} \<subseteq> dom ?k") (auto simp: get)
  qed
  then show ?thesis by (simp add: mult.commute distrib_left)
qed

end
