(* ===== verification/Batch_Lifecycle.thy ===== *)
theory Batch_Lifecycle
  imports Entry_Batch
begin

text \<open>
  What the operations of \<open>EntryBatch\<close> do to the plain content of a load: insertion extends it, sealing a
  segment leaves it, truncation restricts it. The last section closes this over sequences of operations.
\<close>

section \<open>Segments that an operation leaves alone\<close>

lemma known_bound: "data_ok e \<Longrightarrow> i \<in> dom (known e) \<Longrightarrow> i < 262144"
proof (cases e)
  case (Incomplete x)
  assume "data_ok e" and i: "i \<in> dom (known e)"
  then have ok: "batches_ok (known_data x)" "\<forall>p \<in> set (known_data x). pb_end_sector p \<le> 1024"
    using Incomplete by (auto simp: data_ok_def)
  have "i \<in> dom (batch_map (known_data x))" using i Incomplete by (simp add: known_def)
  then obtain p where "p \<in> set (known_data x)" "i \<in> dom (pb_map p)" unfolding dom_batch_map by blast
  moreover have "batch_ok p" using calculation(1) ok(1) by (simp add: batches_ok_def)
  ultimately have "i < 256 * pb_end_sector p" "pb_end_sector p \<le> 1024" using ok(2) dom_pb_map [of p] by auto
  then show ?thesis by linarith
qed (auto simp: data_ok_def known_def)

lemma in_seal_range: "i \<in> seal_range (i div 4096)"
  using div_times_less_eq_dividend [of i 4096] dividend_less_div_times [of 4096 i]
  by (auto simp: seal_range_def mult.commute)

lemma seal_range_div: "j \<in> seal_range s \<Longrightarrow> j div 4096 = s"
  by (auto simp: seal_range_def intro!: div_nat_eqI)

lemma content_same_segment:
  assumes "\<forall>j \<in> seal_range (i div 4096). known (eb_data eb') j = known (eb_data eb) j"
    and "is_sealed B (eb_seal eb') (i div 4096) = is_sealed B (eb_seal eb) (i div 4096)"
    and "is_sealed B (eb_seal eb) (i div 4096) \<Longrightarrow> seal_mask keccak (eb_seal eb') (i div 4096) = seal_mask keccak (eb_seal eb) (i div 4096)"
  shows "content keccak B eb' i = content keccak B eb i"
proof -
  have "range_bytes (known (eb_data eb')) (4096 * (i div 4096)) 4096 = range_bytes (known (eb_data eb)) (4096 * (i div 4096)) 4096"
    using assms(1) by (intro range_bytes_cong) (auto simp: seal_range_def)
  moreover have "known (eb_data eb') i = known (eb_data eb) i" using assms(1) in_seal_range by blast
  ultimately show ?thesis using assms(2,3)
    by (cases "is_sealed B (eb_seal eb) (i div 4096)") (simp_all add: content_def segment_content_def)
qed

section \<open>Creation and insertion\<close>

context bitmap64
begin

lemma new_content: "batch_inv B (entry_batch_new B n)" "content keccak B (entry_batch_new B n) = Map.empty"
  by (auto simp: batch_inv_def entry_batch_new_def seal_info_new_def data_new_def data_ok_def contexts_ok_def
      is_sealed_def get_default content_def known_def)

end

lemma entry_batch_insert_free:
  assumes inv: "batch_inv B eb" and al: "length data mod 256 = 0" "data \<noteq> []" "256 * off + length data \<le> BYTES_PER_LOAD"
    and free: "dom (content keccak B eb) \<inter> {256 * off..<256 * off + length data} = {}"
  shows "\<exists>eb' idx. entry_batch_insert_data keccak B off data eb = Inr (eb', idx) \<and> batch_inv B eb' \<and> eb_seal eb' = eb_seal eb \<and>
    content keccak B eb' = content keccak B eb ++ bytes_at (256 * off) data \<and>
    set idx = {s. seal_range s \<inter> {256 * off..<256 * off + length data} \<noteq> {} \<and> seal_range s \<subseteq> dom (content keccak B eb')}"
proof -
  let ?R = "{256 * off..<256 * off + length data}" and ?k = "known (eb_data eb)"
  have okd: "data_ok (eb_data eb)" using inv by (simp add: batch_inv_def)
  have free': "dom ?k \<inter> ?R = {}" using free by simp
  obtain d idx where d: "data_insert_data (256 * off) data (eb_data eb) = Inr (d, idx)" "data_ok d"
    "known d = ?k ++ bytes_at (256 * off) data"
    "set idx = {s. seal_range s \<inter> ?R \<noteq> {} \<and> seal_range s \<subseteq> dom (known d)}"
    using insert_data_known [OF okd _ al(1,2,3) free'] by auto
  let ?eb = "eb\<lparr>eb_data := d\<rparr>"
  have len: "0 < length data div 256" "off + length data div 256 \<le> 1024" "256 * (length data div 256) = length data"
    using al by (auto simp: mod_0_imp_dvd dest!: dvd_imp_le)
  have "256 * off \<in> ?R" using al(2) by (cases data) auto
  then have "\<not> ?R \<subseteq> dom ?k" using free' by blast
  then have "get_unsealed_data keccak B eb off (length data div 256) = Inr None"
    using get_unsealed_data_correct [OF inv len(1), of off keccak] len(2,3) by (simp add: distrib_left)
  then have res: "entry_batch_insert_data keccak B off data eb = Inr (?eb, idx)"
    using d(1) al(2) by (simp add: entry_batch_insert_data_def mult.commute)
  have sealed: "known d j = ?k j" if "is_sealed B (eb_seal eb) s" "s < 64" "j \<in> seal_range s" for s j
  proof -
    have "seal_range s \<subseteq> dom ?k" using inv that by (simp add: batch_inv_def)
    then have "j \<notin> ?R" using that(3) free' by blast
    then have "j \<notin> dom (bytes_at (256 * off) data)" by simp
    then show ?thesis unfolding d(3) by (simp add: map_add_dom_app_simps)
  qed
  have "content keccak B ?eb i = (content keccak B eb ++ bytes_at (256 * off) data) i" for i
  proof (cases "i < 262144 \<and> is_sealed B (eb_seal eb) (i div 4096)")
    case True
    then have "i div 4096 < 64" by (simp add: less_mult_imp_div_less)
    then have same: "\<forall>j \<in> seal_range (i div 4096). known d j = ?k j" using True sealed by blast
    have "seal_range (i div 4096) \<subseteq> dom ?k" using inv True \<open>i div 4096 < 64\<close> by (simp add: batch_inv_def)
    then have "i \<notin> dom (bytes_at (256 * off) data)" using free' in_seal_range by (metis IntI dom_bytes_at empty_iff subsetD)
    then show ?thesis using content_same_segment [of i ?eb eb B keccak] same by (simp add: map_add_dom_app_simps)
  next
    case False
    show ?thesis
    proof (cases "i < 262144")
      case True
      then show ?thesis using False d(3) by (auto simp: content_not_sealed map_add_def split: option.split)
    next
      case out: False
      then have "i \<notin> dom (known d)" "i \<notin> dom ?k" using known_bound d(2) okd by blast+
      moreover have "i \<notin> dom (bytes_at (256 * off) data)" using out al(3) by simp
      ultimately show ?thesis by (simp add: content_def map_add_dom_app_simps domIff del: dom_bytes_at)
    qed
  qed
  then have cont: "content keccak B ?eb = content keccak B eb ++ bytes_at (256 * off) data" by blast
  have "batch_inv B ?eb" using inv d(2,3) by (auto simp: batch_inv_def)
  moreover have "set idx = {s. seal_range s \<inter> ?R \<noteq> {} \<and> seal_range s \<subseteq> dom (content keccak B ?eb)}" using d(4) by simp
  ultimately show ?thesis using res cont by (intro exI [of _ ?eb] exI [of _ idx] conjI) (assumption | simp)+
qed

lemma entry_batch_insert_known:
  assumes inv: "batch_inv B eb" and al: "length data mod 256 = 0" "data \<noteq> []" "256 * off + length data \<le> BYTES_PER_LOAD"
    and over: "dom (content keccak B eb) \<inter> {256 * off..<256 * off + length data} \<noteq> {}"
  shows "if {256 * off..<256 * off + length data} \<subseteq> dom (content keccak B eb) \<and>
            range_bytes (content keccak B eb) (256 * off) (length data) = data
         then entry_batch_insert_data keccak B off data eb = Inr (eb, [])
         else \<exists>m. entry_batch_insert_data keccak B off data eb = Inl (Err m)"
proof -
  let ?R = "{256 * off..<256 * off + length data}" and ?k = "known (eb_data eb)"
  have okd: "data_ok (eb_data eb)" using inv by (simp add: batch_inv_def)
  have len: "0 < length data div 256" "off + length data div 256 \<le> 1024" "256 * (length data div 256) = length data"
    using al by (auto simp: mod_0_imp_dvd dest!: dvd_imp_le)
  have get: "get_unsealed_data keccak B eb off (length data div 256) =
      Inr (if ?R \<subseteq> dom ?k then Some (range_bytes (content keccak B eb) (256 * off) (length data)) else None)"
    using get_unsealed_data_correct [OF inv len(1), of off keccak] len(2,3) by (simp add: distrib_left)
  obtain m where "data_insert_data (256 * off) data (eb_data eb) = Inl (Err m)"
    using insert_data_overlap [OF okd _ al(1,2,3)] over by auto
  then show ?thesis using get al(2) by (auto simp: entry_batch_insert_data_def mult.commute)
qed
section \<open>Sealing\<close>

text \<open>
  The context of an answer ends at segment \<open>e\<close> and has digest \<open>d\<close>. It fits the recorded contexts when none
  of them ends between the sealed segment \<open>s\<close> and \<open>e\<close>, and the segments it covers have no other context.
\<close>

definition context_fits :: "seal_context_info list \<Rightarrow> nat \<Rightarrow> nat \<Rightarrow> h256 \<Rightarrow> bool" where
  "context_fits cs s e d \<longleftrightarrow> s < e \<and> (\<forall>c \<in> set cs. end_seal_index c < e \<longrightarrow> end_seal_index c \<le> s) \<and>
     (\<forall>t < e. (\<forall>c \<in> set cs. end_seal_index c < e \<longrightarrow> end_seal_index c \<le> t) \<longrightarrow> context_of cs t \<in> {None, Some d})"

lemma context_fits_end:
  assumes ok: "contexts_ok cs" and fits: "context_fits cs s e d" and c: "c \<in> set cs" "end_seal_index c = e"
  shows "context_digest c = d"
proof -
  obtain xs ys where cs: "cs = xs @ c # ys" using split_list [OF c(1)] by blast
  have "\<forall>x \<in> set xs. end_seal_index x < e" using ok c(2) by (auto simp: cs contexts_ok_def sorted_wrt_append)
  moreover have e: "0 < e" using fits by (auto simp: context_fits_def)
  ultimately have "\<forall>x \<in> set xs. end_seal_index x \<le> e - 1" "e - 1 < end_seal_index c" using c(2) by auto
  then have "context_of cs (e - 1) = Some (context_digest c)"
    by (simp add: cs context_of_append context_of_Cons context_of_behind)
  moreover have "e - 1 < e" "\<forall>c \<in> set cs. end_seal_index c < e \<longrightarrow> end_seal_index c \<le> e - 1" using e by auto
  then have "context_of cs (e - 1) \<in> {None, Some d}" using fits unfolding context_fits_def by blast
  ultimately show ?thesis by simp
qed

lemma content_seal_segment:
  assumes full: "seal_range s \<subseteq> dom (known (eb_data eb))" and bound: "data_ok (eb_data eb)"
    and d: "known (eb_data eb') = known (eb_data eb) ++ bytes_at (4096 * s)
      (seal_words keccak (seal_mask keccak (eb_seal eb') s) (range_bytes (content keccak B eb) (4096 * s) 4096))"
    and s: "is_sealed B (eb_seal eb') s"
    and other: "\<And>t. t < 64 \<Longrightarrow> t \<noteq> s \<Longrightarrow> is_sealed B (eb_seal eb') t = is_sealed B (eb_seal eb) t"
      "\<And>t. t < 64 \<Longrightarrow> t \<noteq> s \<Longrightarrow> is_sealed B (eb_seal eb) t \<Longrightarrow> seal_mask keccak (eb_seal eb') t = seal_mask keccak (eb_seal eb) t"
  shows "dom (known (eb_data eb')) = dom (known (eb_data eb))" "content keccak B eb' = content keccak B eb"
proof -
  let ?k = "known (eb_data eb)" and ?k' = "known (eb_data eb')" and ?C = "content keccak B eb"
  let ?m = "seal_mask keccak (eb_seal eb') s" and ?C4 = "range_bytes ?C (4096 * s) 4096"
  have rng: "seal_range s = {4096 * s..<4096 * s + 4096}" by (simp add: seal_range_def algebra_simps)
  show dom: "dom ?k' = dom ?k" unfolding d dom_map_add dom_bytes_at using full by (auto simp: rng)
  have same: "?k' j = ?k j" if "j \<notin> seal_range s" for j
    using that by (simp add: d rng map_add_dom_app_simps)
  have "range_bytes ?k' (4096 * s) 4096 = seal_words keccak ?m ?C4"
    by (rule nth_equalityI) (auto simp: nth_range_bytes d bytes_at_def map_add_def)
  then have seg: "segment_content keccak B eb' s = ?C4" using s by (simp add: segment_content_def unseal_seal_words)
  show "content keccak B eb' = ?C"
  proof
    fix i
    consider "i \<notin> dom ?k" | "i \<in> dom ?k" "i div 4096 = s" | "i \<in> dom ?k" "i div 4096 \<noteq> s" by blast
    then show "content keccak B eb' i = ?C i"
    proof cases
      case 1
      then have "?k i = None" "?k' i = None" using dom by auto
      then show ?thesis by (simp add: content_def)
    next
      case 2
      have "4096 * s + i mod 4096 = i" using mult_div_mod_eq [of 4096 i] 2(2) by simp
      moreover have "?k' i \<noteq> None" "?C i \<noteq> None" using 2(1) dom dom_content [of keccak B eb] by (simp_all only: domIff) blast+
      ultimately show ?thesis using 2(2) seg by (auto simp: content_def [of _ _ eb'] nth_range_bytes)
    next
      case 3
      have t: "i div 4096 < 64" using known_bound [OF bound 3(1)] by (simp add: less_mult_imp_div_less)
      have "j \<notin> seal_range s" if "j \<in> seal_range (i div 4096)" for j
        using seal_range_div [OF that] seal_range_div [of j s] 3(2) by auto
      then have "\<forall>j \<in> seal_range (i div 4096). ?k' j = ?k j" using same by simp
      then show ?thesis by (rule content_same_segment) (simp_all add: other t 3(2))
    qed
  qed
qed

context bitmap64
begin

lemma is_sealed_mark: "s < 64 \<Longrightarrow> t < 64 \<Longrightarrow> is_sealed B (mark_sealed B s si) t \<longleftrightarrow> t = s \<or> is_sealed B si t"
  by (auto simp: is_sealed_def mark_sealed_def get_set)

lemma submit_seal_result_content:
  assumes inv: "batch_inv B eb" and s: "s = sa_seal_index ans mod SEALS_PER_LOAD" "sa_seal_index ans div SEALS_PER_LOAD = si_load_index (eb_seal eb)"
    and fresh: "\<not> is_sealed B (eb_seal eb) s" and full: "seal_range s \<subseteq> dom (content keccak B eb)"
    and miner: "si_miner_id (eb_seal eb) = sa_miner_id ans \<or>
      si_miner_id (eb_seal eb) = zero_h256 \<and> (\<forall>t < SEALS_PER_LOAD. \<not> is_sealed B (eb_seal eb) t)"
    and e: "SEALS_PER_LOAD * si_load_index (eb_seal eb) < sa_context_end_seal ans"
    and fits: "context_fits (si_contexts (eb_seal eb)) s
      (min (sa_context_end_seal ans - SEALS_PER_LOAD * si_load_index (eb_seal eb)) SEALS_PER_LOAD) (sa_seal_context ans)"
    and sealed: "seal keccak (range_bytes (content keccak B eb) (BYTES_PER_SEAL * s) BYTES_PER_SEAL)
      (sa_miner_id ans) (sa_seal_context ans) (global_seal_sector (eb_seal eb) s) = Inr (sa_sealed_data ans)"
  shows "\<exists>eb'. submit_seal_result B ans eb = Inr eb' \<and> batch_inv B eb' \<and> content keccak B eb' = content keccak B eb \<and>
    (\<forall>t < SEALS_PER_LOAD. is_sealed B (eb_seal eb') t \<longleftrightarrow> t = s \<or> is_sealed B (eb_seal eb) t)"
proof -
  let ?si = "eb_seal eb" and ?k = "known (eb_data eb)" and ?C = "content keccak B eb"
  let ?e = "min (sa_context_end_seal ans - SEALS_PER_LOAD * si_load_index ?si) SEALS_PER_LOAD"
  have okd: "data_ok (eb_data eb)" and okc: "contexts_ok (si_contexts ?si)" using inv by (auto simp: batch_inv_def)
  have s64: "s < 64" "u16 s = s" using s(1) by (auto simp: u16_def)
  obtain cs' where ctx: "set_seal_context (sa_seal_context ans) (sa_context_end_seal ans) (sa_miner_id ans) ?si =
      Inr (?si\<lparr>si_miner_id := sa_miner_id ans, si_contexts := cs'\<rparr>)" "contexts_ok cs'"
    "\<forall>t. context_of cs' t = (if t < ?e \<and> (\<forall>c \<in> set (si_contexts ?si). end_seal_index c < ?e \<longrightarrow> end_seal_index c \<le> t)
       then Some (sa_seal_context ans) else context_of (si_contexts ?si) t)"
    using set_seal_context_eq [OF okc _ e, of "sa_miner_id ans" "sa_seal_context ans"] context_fits_end [OF okc fits] miner by blast
  let ?C4 = "range_bytes ?C (4096 * s) 4096"
  let ?mask = "keccak (compute_first_mask_seed (sa_miner_id ans) (sa_seal_context ans) (global_seal_sector ?si s))"
  have data: "sa_sealed_data ans = seal_words keccak ?mask ?C4"
    using sealed by (simp add: seal_def seal_with_mask_seed_def seal_with_mask_def)
  have rng: "{s * 4096..<s * 4096 + 4096} \<subseteq> dom ?k" using full by (simp add: seal_range_def mult.commute add.commute)
  have bound: "s * 4096 + 4096 \<le> BYTES_PER_LOAD" using s64(1) by simp
  let ?copy = "\<lambda>segment. rbind (ensure (length segment = length (sa_sealed_data ans))
      (Panic ''copy_from_slice: source slice length does not match'')) (\<lambda>_. Inr (sa_sealed_data ans))"
  obtain d where d: "data_get_mut (eb_data eb) (s * 4096) 4096 ?copy = Inr (Some d)" "data_ok d"
      "known d = ?k ++ bytes_at (s * 4096) (sa_sealed_data ans)"
    using data_get_mut_known [OF okd _ bound rng, of ?copy "sa_sealed_data ans"] by (auto simp: data)
  define eb' where "eb' = \<lparr>eb_seal = mark_sealed B s (?si\<lparr>si_miner_id := sa_miner_id ans, si_contexts := cs'\<rparr>), eb_data = d\<rparr>"
  have res: "submit_seal_result B ans eb = Inr eb'"
    using fresh s s64(2) ctx(1) d(1) by (simp add: submit_seal_result_def eb'_def Let_def)
  have seals: "is_sealed B (eb_seal eb') t \<longleftrightarrow> t = s \<or> is_sealed B ?si t" if "t < 64" for t
    using that s64(1) is_sealed_mark by (simp add: eb'_def) (simp add: is_sealed_def)
  have ctx_s: "context_of cs' s = Some (sa_seal_context ans)" using ctx(3) fits by (simp add: context_fits_def)
  have ctx_t: "context_of cs' t = context_of (si_contexts ?si) t" if "t < 64" "is_sealed B ?si t" for t
  proof -
    have "context_of (si_contexts ?si) t \<noteq> None" using inv that by (simp add: batch_inv_def)
    then show ?thesis using ctx(3) fits by (auto simp: context_fits_def)
  qed
  have mask_t: "seal_mask keccak (eb_seal eb') t = seal_mask keccak ?si t" if "t < 64" "is_sealed B ?si t" for t
    using miner ctx_t [OF that] that by (auto simp: seal_mask_def eb'_def mark_sealed_def global_seal_sector_def)
  have mask_s: "seal_mask keccak (eb_seal eb') s = ?mask"
    by (simp add: seal_mask_def eb'_def mark_sealed_def global_seal_sector_def ctx_s)
  have eq: "known (eb_data eb') = ?k ++ bytes_at (4096 * s) (seal_words keccak (seal_mask keccak (eb_seal eb') s) ?C4)"
    unfolding mask_s using d(3) by (simp add: eb'_def data mult.commute)
  have full': "seal_range s \<subseteq> dom ?k" using full by simp
  have sl: "is_sealed B (eb_seal eb') s" using seals s64(1) by simp
  have other: "is_sealed B (eb_seal eb') t = is_sealed B ?si t" if "t < 64" "t \<noteq> s" for t using seals that by simp
  note cont = content_seal_segment [OF full' okd eq sl other mask_t]
  have content: "content keccak B eb' = ?C" by (rule cont(2)) assumption+
  have dom: "dom (known (eb_data eb')) = dom ?k" by (rule cont(1)) assumption+
  have "context_of cs' t \<noteq> None \<and> seal_range t \<subseteq> dom ?k" if "t < 64" "is_sealed B (eb_seal eb') t" for t
    using that seals [OF that(1)] ctx_s ctx_t [OF that(1)] full' inv by (auto simp: batch_inv_def)
  then have "batch_inv B eb'"
    using d(2) ctx(2) dom by (simp add: batch_inv_def eb'_def mark_sealed_def)
  with content show ?thesis using res seals by auto
qed

end
section \<open>Truncation\<close>

text \<open>
  The data after the loop of \<open>truncate_seal\<close> has reached segment \<open>n\<close>: the segments from the first one that
  loses its context up to there are plain, everything else is as it was.
\<close>

definition unsealed_to :: "(byte list \<Rightarrow> h256) \<Rightarrow> 'b bitmap_ops \<Rightarrow> 'b entry_batch \<Rightarrow> nat \<Rightarrow> nat \<Rightarrow> nat \<Rightarrow> nat \<rightharpoonup> byte" where
  "unsealed_to keccak B eb T first n i =
     (if T \<le> i then None
      else if first \<le> i div 4096 \<and> i div 4096 < n \<and> is_sealed B (eb_seal eb) (i div 4096) then content keccak B eb i
      else known (eb_data eb) i)"

lemma dom_unsealed_to: "dom (unsealed_to keccak B eb T first n) = dom (known (eb_data eb)) \<inter> {..<T}"
  using dom_content [of keccak B eb] unfolding set_eq_iff Int_iff domIff unsealed_to_def lessThan_iff by (auto split: if_splits)

lemma truncate_seal_step_correct:
  assumes inv: "batch_inv B eb" and t: "t < SECTORS_PER_LOAD" and n: "first \<le> n" "n * 4096 < t * 256"
    and d: "data_ok d" "known d = unsealed_to keccak B eb (t * 256) first n"
  shows "\<exists>d'. truncate_seal_step keccak B t n (eb\<lparr>eb_data := d\<rparr>, acc) =
      Inr (eb\<lparr>eb_data := d'\<rparr>, if is_sealed B (eb_seal eb) n then acc @ [n] else acc) \<and>
    data_ok d' \<and> known d' = unsealed_to keccak B eb (t * 256) first (n + 1)"
proof (cases "is_sealed B (eb_seal eb) n")
  case False
  then have "unsealed_to keccak B eb (t * 256) first (n + 1) = unsealed_to keccak B eb (t * 256) first n"
    by (auto simp: unsealed_to_def fun_eq_iff less_Suc_eq)
  then show ?thesis using False d by (auto simp: truncate_seal_step_def)
next
  case True
  let ?T = "t * 256" and ?len = "min (t * 256 - n * 4096) 4096" and ?k = "known (eb_data eb)" and ?C = "content keccak B eb"
  have n64: "n < 64" using n(2) t by simp
  have sub: "seal_range n \<subseteq> dom ?k" using inv True n64 by (simp add: batch_inv_def)
  have len: "0 < ?len" "?len \<le> 4096" "n * 4096 + ?len \<le> BYTES_PER_LOAD" "32 dvd ?len"
    using n t by (auto simp: min_def intro!: dvd_diff_nat)
  have pre: "{4096 * n..<4096 * n + ?len} \<subseteq> dom ?k"
    using len(2) by (intro subset_trans [OF _ sub]) (auto simp: seal_range_def)
  have rng: "{n * 4096..<n * 4096 + ?len} \<subseteq> dom (known d)"
    unfolding d(2) dom_unsealed_to using pre n(2) by (auto simp: mult.commute)
  have seg: "i div 4096 = n" if "n * 4096 \<le> i" "i < n * 4096 + ?len" for i
    using that len(2) by (intro div_nat_eqI) auto
  have raw: "range_bytes (known d) (n * 4096) ?len = range_bytes ?k (4096 * n) ?len"
    unfolding mult.commute [of 4096 n]
  proof (rule range_bytes_cong)
    fix i assume i: "n * 4096 \<le> i" "i < n * 4096 + ?len"
    then have "i < ?T" using n(2) by linarith
    then show "known d i = ?k i" using seg [OF i] by (simp add: d(2) unsealed_to_def)
  qed
  have "seal_info_unseal keccak B (eb_seal eb) (range_bytes (known d) (n * 4096) ?len) n = Inr (range_bytes ?C (n * 4096) ?len)"
    using unseal_prefix [OF inv n64 len(2,4) pre] unfolding raw by (simp add: mult.commute)
  note mut = data_get_mut_known [OF d(1) len(1,3) rng, of "\<lambda>x. seal_info_unseal keccak B (eb_seal eb) x n", OF this length_range_bytes]
  obtain d' where d': "data_get_mut d (n * 4096) ?len (\<lambda>x. seal_info_unseal keccak B (eb_seal eb) x n) = Inr (Some d')" "data_ok d'"
      "known d' = known d ++ bytes_at (n * 4096) (range_bytes ?C (n * 4096) ?len)"
    using mut by blast
  have "known d' i = unsealed_to keccak B eb ?T first (n + 1) i" for i
  proof (cases "n * 4096 \<le> i \<and> i < n * 4096 + ?len")
    case in_range: True
    then have s: "i div 4096 = n" using seg by blast
    have "i \<in> dom ?C" using in_range pre by (auto simp: mult.commute)
    then obtain y where y: "?C i = Some y" unfolding domIff by blast
    moreover have "i - n * 4096 < ?len" "i < ?T" using in_range n(2) by linarith+
    ultimately have "bytes_at (n * 4096) (range_bytes ?C (n * 4096) ?len) i = ?C i"
      using in_range by (simp add: bytes_at_in nth_range_bytes)
    moreover have "unsealed_to keccak B eb ?T first (n + 1) i = ?C i"
      using \<open>i < ?T\<close> s n(1) True by (simp add: unsealed_to_def)
    ultimately show ?thesis using y unfolding d'(3) by (simp add: map_add_def)
  next
    case False
    then have "i < ?T \<Longrightarrow> i div 4096 \<noteq> n" using div_times_less_eq_dividend [of i 4096] dividend_less_div_times [of 4096 i] by auto
    then show ?thesis using False by (auto simp: d'(3) d(2) map_add_dom_app_simps unsealed_to_def less_Suc_eq)
  qed
  then have "known d' = unsealed_to keccak B eb ?T first (n + 1)" by blast
  then show ?thesis using True d'(1,2) n(2) by (intro exI [of _ d'] conjI) (simp_all add: truncate_seal_step_def Let_def)
qed

lemma truncate_seal_loop:
  assumes inv: "batch_inv B eb" and t: "t < SECTORS_PER_LOAD"
    and d: "data_ok d" "known d = unsealed_to keccak B eb (t * 256) first first"
    and n: "first \<le> n" "n = first \<or> (n - 1) * 4096 < t * 256"
  shows "\<exists>d'. rfold (truncate_seal_step keccak B t) [first..<n] (eb\<lparr>eb_data := d\<rparr>, []) =
      Inr (eb\<lparr>eb_data := d'\<rparr>, filter (is_sealed B (eb_seal eb)) [first..<n]) \<and>
    data_ok d' \<and> known d' = unsealed_to keccak B eb (t * 256) first n"
  using n
proof (induction n rule: dec_induct)
  case base
  show ?case using d by (intro exI [of _ d]) simp
next
  case (step n)
  have lt: "n * 4096 < t * 256" using step.prems step.hyps by auto
  then have "n = first \<or> (n - 1) * 4096 < t * 256" by (auto intro: le_less_trans [rotated])
  then obtain d' where d': "rfold (truncate_seal_step keccak B t) [first..<n] (eb\<lparr>eb_data := d\<rparr>, []) =
      Inr (eb\<lparr>eb_data := d'\<rparr>, filter (is_sealed B (eb_seal eb)) [first..<n])" "data_ok d'" "known d' = unsealed_to keccak B eb (t * 256) first n"
    using step.IH by blast
  then show ?case
    using truncate_seal_step_correct [OF inv t step.hyps(1) lt d'(2,3), of "filter (is_sealed B (eb_seal eb)) [first..<n]"] step.hyps(1)
    by (auto simp: rfold_append upt_Suc_append)
qed
lemma content_truncated:
  assumes known: "known (eb_data eb') = unsealed_to keccak B eb (t * 256) first ((t - 1) div 16 + 1)"
    and t: "0 < t" "t < 1024" "first * 4096 \<le> t * 256"
    and seals: "\<And>s. s < 64 \<Longrightarrow> is_sealed B (eb_seal eb') s \<longleftrightarrow> is_sealed B (eb_seal eb) s \<and> s < first"
    and mask: "\<And>s. s < first \<Longrightarrow> seal_mask keccak (eb_seal eb') s = seal_mask keccak (eb_seal eb) s"
  shows "content keccak B eb' = content keccak B eb |` {..<256 * t}"
proof
  fix i
  consider "t * 256 \<le> i" | "i < t * 256" "i div 4096 < first" | "i < t * 256" "first \<le> i div 4096" by linarith
  then show "content keccak B eb' i = (content keccak B eb |` {..<256 * t}) i"
  proof cases
    case 1
    then show ?thesis by (simp add: content_def known unsealed_to_def restrict_map_def)
  next
    case 2
    have "first < 64" using t by simp
    have "known (eb_data eb') j = known (eb_data eb) j" if "j \<in> seal_range (i div 4096)" for j
    proof -
      have "j < 4096 * (i div 4096 + 1)" using that by (simp add: seal_range_def)
      moreover have "4096 * (i div 4096 + 1) \<le> first * 4096" using 2(2) by simp
      ultimately have "j < t * 256" using t(3) by (meson less_le_trans)
      then show ?thesis using seal_range_div [OF that] 2(2) by (simp add: known unsealed_to_def)
    qed
    then have "content keccak B eb' i = content keccak B eb i"
      using 2(2) \<open>first < 64\<close> by (intro content_same_segment) (auto simp: seals mask)
    then show ?thesis using 2(1) by (simp add: restrict_map_def)
  next
    case 3
    have i: "i div 4096 < 64" "i div 4096 < (t - 1) div 16 + 1"
      using 3(1) t by (auto simp: less_mult_imp_div_less less_Suc_eq_le intro!: div_le_mono [of "i div 256" "t - 1" 16, simplified div_mult2_eq [symmetric], simplified])
    then have "content keccak B eb' i = known (eb_data eb') i" using 3(2) seals by (intro content_not_sealed) simp
    then show ?thesis using 3 i(2) by (simp add: known unsealed_to_def restrict_map_def content_not_sealed)
  qed
qed

context bitmap64
begin

lemma is_sealed_truncate:
  "t < 64 \<Longrightarrow> s < 64 \<Longrightarrow> is_sealed B (si\<lparr>si_bitmap := bitmap_truncate B t (si_bitmap si), si_contexts := cs\<rparr>) s \<longleftrightarrow> is_sealed B si s \<and> s < t"
  by (simp add: is_sealed_def get_truncate)

lemma entry_batch_truncate_content:
  assumes inv: "batch_inv B eb" and t: "0 < t" "t < SECTORS_PER_LOAD"
  shows "\<exists>eb' reseal. entry_batch_truncate keccak B t eb = Inr (eb', reseal) \<and> batch_inv B eb' \<and>
    content keccak B eb' = content keccak B eb |` {..<256 * t} \<and>
    (\<forall>s < SEALS_PER_LOAD. is_sealed B (eb_seal eb) s \<and> \<not> is_sealed B (eb_seal eb') s \<and> seal_range s \<inter> {..<256 * t} \<noteq> {} \<longleftrightarrow> s \<in> set reseal)"
proof -
  let ?si = "eb_seal eb" and ?r = "t div 16" and ?T = "t * 256" and ?k = "known (eb_data eb)" and ?C = "content keccak B eb"
  have okd: "data_ok (eb_data eb)" and okc: "contexts_ok (si_contexts ?si)" using inv by (auto simp: batch_inv_def)
  have r: "?r < SEALS_PER_LOAD" "u16 ?r = ?r" "u16 ((t - 1) div 16) = (t - 1) div 16" using t by (auto simp: u16_def)
  obtain first n where si: "truncated_seal_index ?si ?r = Inr first" "first \<le> ?r"
    "seal_info_truncate B ?r ?si = Inr (?si\<lparr>si_bitmap := bitmap_truncate B first (si_bitmap ?si), si_contexts := take n (si_contexts ?si)\<rparr>)"
    "contexts_ok (take n (si_contexts ?si))" "\<forall>s < first. context_of (take n (si_contexts ?si)) s = context_of (si_contexts ?si) s"
    by (rule seal_info_truncate_eq [OF okc r(1)])
  obtain d where d: "data_truncate ?T (eb_data eb) = Inr d" "data_ok d" "known d = ?k |` {..<?T}"
    using data_truncate_known [OF okd, of ?T] t by auto
  have d0: "known d = unsealed_to keccak B eb ?T first first"
    by (auto simp: d(3) unsealed_to_def fun_eq_iff restrict_map_def)
  let ?n = "(t - 1) div 16 + 1"
  have bounds: "first \<le> ?n" "?n = first \<or> (?n - 1) * 4096 < ?T" using si(2) t by auto
  obtain d' where d': "rfold (truncate_seal_step keccak B t) [first..<?n] (eb\<lparr>eb_data := d\<rparr>, []) =
      Inr (eb\<lparr>eb_data := d'\<rparr>, filter (is_sealed B ?si) [first..<?n])" "data_ok d'" "known d' = unsealed_to keccak B eb ?T first ?n"
    using truncate_seal_loop [OF inv t(2) d(2) d0 bounds] by blast
  define eb' where "eb' = \<lparr>eb_seal = ?si\<lparr>si_bitmap := bitmap_truncate B first (si_bitmap ?si), si_contexts := take n (si_contexts ?si)\<rparr>, eb_data = d'\<rparr>"
  have res: "entry_batch_truncate keccak B t eb = Inr (eb', filter (is_sealed B ?si) [first..<?n])"
    using t d(1) r si(1,3) d'(1) by (simp add: entry_batch_truncate_def truncate_seal_def Let_def eb'_def)
  have f64: "first < 64" using si(2) r(1) by simp
  have seals: "is_sealed B (eb_seal eb') s \<longleftrightarrow> is_sealed B ?si s \<and> s < first" if "s < 64" for s
    using is_sealed_truncate [OF f64 that] by (simp add: eb'_def)
  have mask: "seal_mask keccak (eb_seal eb') s = seal_mask keccak ?si s" if "s < first" for s
    using that si(5) by (simp add: seal_mask_def eb'_def global_seal_sector_def)
  have cut: "first * 4096 \<le> ?T" using si(2) by simp
  have cont: "content keccak B eb' = ?C |` {..<256 * t}"
    using d'(3) by (intro content_truncated [OF _ t(1) _ cut seals mask]) (use t in \<open>simp_all add: eb'_def\<close>)
  have kept: "seal_range s \<subseteq> dom ?k \<inter> {..<?T} \<and> context_of (take n (si_contexts ?si)) s \<noteq> None"
    if "s < 64" "is_sealed B (eb_seal eb') s" for s
  proof -
    have s: "s < first" "is_sealed B ?si s" using that seals by auto
    then have "4096 * (s + 1) \<le> ?T" using cut by simp
    then have "seal_range s \<subseteq> {..<?T}" by (auto simp: seal_range_def)
    then show ?thesis using s inv that(1) si(5) by (auto simp: batch_inv_def)
  qed
  have "dom (known d') = dom ?k \<inter> {..<?T}" by (simp only: d'(3) dom_unsealed_to)
  then have "batch_inv B eb'" using d'(2) si(4) kept by (simp add: batch_inv_def eb'_def)
  moreover have "s \<in> set (filter (is_sealed B ?si) [first..<?n]) \<longleftrightarrow>
      is_sealed B ?si s \<and> \<not> is_sealed B (eb_seal eb') s \<and> seal_range s \<inter> {..<256 * t} \<noteq> {}" if "s < 64" for s
  proof -
    have "s < ?n \<longleftrightarrow> seal_range s \<inter> {..<256 * t} \<noteq> {}"
      using t(1) by (auto simp: seal_range_def less_Suc_eq_le disjoint_iff)
    then show ?thesis using seals [OF that] by (auto simp del: upt_Suc)
  qed
  ultimately show ?thesis using res cont by (intro exI [of _ eb'] exI conjI) (assumption | simp del: upt_Suc set_filter)+
qed

end

end
