(* ===== verification/Batch_Properties.thy ===== *)
theory Batch_Properties
  imports Batch_Lifecycle
begin

text \<open>
  The life of a load: every batch that insertions, sealings and truncations produce from an empty one
  holds exactly the bytes that were inserted and not cut off, whatever is sealed.
\<close>

section \<open>Reachable batches\<close>

text \<open>
  An honest answer for segment \<open>s\<close>: it belongs to this load, the segment is complete and not sealed, the
  sealed bytes are the sealing of the plain ones under the answer's context, and the context fits.
\<close>

definition honest_answer ::
    "(byte list \<Rightarrow> h256) \<Rightarrow> 'b bitmap_ops \<Rightarrow> 'b entry_batch \<Rightarrow> (nat \<rightharpoonup> byte) \<Rightarrow> seal_answer \<Rightarrow> bool" where
  "honest_answer keccak B eb m ans \<longleftrightarrow>
     (let si = eb_seal eb; s = sa_seal_index ans mod SEALS_PER_LOAD in
      sa_seal_index ans div SEALS_PER_LOAD = si_load_index si \<and> \<not> is_sealed B si s \<and> seal_range s \<subseteq> dom m \<and>
      (si_miner_id si = sa_miner_id ans \<or> si_miner_id si = zero_h256 \<and> (\<forall>t < SEALS_PER_LOAD. \<not> is_sealed B si t)) \<and>
      SEALS_PER_LOAD * si_load_index si < sa_context_end_seal ans \<and>
      context_fits (si_contexts si) s (min (sa_context_end_seal ans - SEALS_PER_LOAD * si_load_index si) SEALS_PER_LOAD) (sa_seal_context ans) \<and>
      seal keccak (range_bytes m (BYTES_PER_SEAL * s) BYTES_PER_SEAL) (sa_miner_id ans) (sa_seal_context ans) (global_seal_sector si s) =
        Inr (sa_sealed_data ans))"

definition aligned_data :: "nat \<Rightarrow> byte list \<Rightarrow> bool" where
  "aligned_data off data \<longleftrightarrow> data \<noteq> [] \<and> length data mod BYTES_PER_SECTOR = 0 \<and> BYTES_PER_SECTOR * off + length data \<le> BYTES_PER_LOAD"

inductive batch_reach :: "(byte list \<Rightarrow> h256) \<Rightarrow> 'b bitmap_ops \<Rightarrow> nat \<Rightarrow> 'b entry_batch \<Rightarrow> (nat \<rightharpoonup> byte) \<Rightarrow> bool"
  for keccak B n where
  reach_new: "batch_reach keccak B n (entry_batch_new B n) Map.empty"
| reach_insert: "\<lbrakk>batch_reach keccak B n eb m; aligned_data off data; entry_batch_insert_data keccak B off data eb = Inr (eb', idx)\<rbrakk>
    \<Longrightarrow> batch_reach keccak B n eb' (m ++ bytes_at (BYTES_PER_SECTOR * off) data)"
| reach_seal: "\<lbrakk>batch_reach keccak B n eb m; honest_answer keccak B eb m ans; submit_seal_result B ans eb = Inr eb'\<rbrakk>
    \<Longrightarrow> batch_reach keccak B n eb' m"
| reach_truncate: "\<lbrakk>batch_reach keccak B n eb m; entry_batch_truncate keccak B t eb = Inr (eb', reseal)\<rbrakk>
    \<Longrightarrow> batch_reach keccak B n eb' (m |` {..<BYTES_PER_SECTOR * t})"

lemma map_add_range_bytes:
  assumes "{s..<s + length xs} \<subseteq> dom m" "range_bytes m s (length xs) = xs"
  shows "m ++ bytes_at s xs = m"
proof
  fix i
  show "(m ++ bytes_at s xs) i = m i"
  proof (cases "s \<le> i \<and> i < s + length xs")
    case True
    then have "i \<in> dom m" using assms(1) by auto
    then have "m i = Some (range_bytes m s (length xs) ! (i - s))" using True by (auto simp: nth_range_bytes)
    then show ?thesis using True assms(2) by (simp add: bytes_at_def map_add_def)
  qed (auto simp: bytes_at_def map_add_def)
qed

lemma range_bytes_at: "range_bytes (bytes_at s xs) s (length xs) = xs"
  by (rule nth_equalityI) (auto simp: nth_range_bytes bytes_at_def)

lemma insert_outcome:
  assumes inv: "batch_inv B eb" and al: "aligned_data off data"
    and res: "entry_batch_insert_data keccak B off data eb = Inr (eb', idx)"
  shows "batch_inv B eb' \<and> content keccak B eb' = content keccak B eb ++ bytes_at (256 * off) data"
proof -
  have a: "length data mod 256 = 0" "data \<noteq> []" "256 * off + length data \<le> BYTES_PER_LOAD"
    using al by (auto simp: aligned_data_def)
  show ?thesis
  proof (cases "dom (content keccak B eb) \<inter> {256 * off..<256 * off + length data} = {}")
    case True
    then show ?thesis using entry_batch_insert_free [OF inv a True] res by auto
  next
    case False
    note cases = entry_batch_insert_known [OF inv a False]
    then have "{256 * off..<256 * off + length data} \<subseteq> dom (content keccak B eb)"
      "range_bytes (content keccak B eb) (256 * off) (length data) = data" "eb' = eb"
      using res by (auto split: if_splits)
    then show ?thesis using map_add_range_bytes inv by metis
  qed
qed

context bitmap64
begin

lemma submit_honest:
  assumes "batch_inv B eb" "honest_answer keccak B eb (content keccak B eb) ans"
  shows "\<exists>eb'. submit_seal_result B ans eb = Inr eb' \<and> batch_inv B eb' \<and> content keccak B eb' = content keccak B eb \<and>
    (\<forall>t < SEALS_PER_LOAD. is_sealed B (eb_seal eb') t \<longleftrightarrow> t = sa_seal_index ans mod SEALS_PER_LOAD \<or> is_sealed B (eb_seal eb) t)"
  using assms(2) unfolding honest_answer_def Let_def by (elim conjE, intro submit_seal_result_content [OF assms(1) refl]) auto

lemma reach_content: "batch_reach keccak B n eb m \<Longrightarrow> batch_inv B eb \<and> content keccak B eb = m"
proof (induction rule: batch_reach.induct)
  case reach_new
  then show ?case using new_content by simp
next
  case (reach_insert eb m off data eb' idx)
  then show ?case using insert_outcome by (metis sizes(2))
next
  case (reach_seal eb m ans eb')
  then show ?case using submit_honest [of eb keccak ans] by auto
next
  case (reach_truncate eb m t eb' reseal)
  then have "0 < t" "t < SECTORS_PER_LOAD" by (auto simp: entry_batch_truncate_def)
  then show ?case using reach_truncate entry_batch_truncate_content [of eb t keccak] by auto
qed

end

section \<open>Properties\<close>

text \<open>C16: reading a load. From a load that was built by insertions, sealings and truncations,
  \<open>get_unsealed_data\<close> returns the bytes that were inserted and not cut off, whichever segments are sealed
  and wherever the read starts, and \<open>None\<close> when one of them is missing; it never panics.\<close>

theorem load_reads:
  assumes bitmap: "bitmap64 B" and reach: "batch_reach keccak B n eb m" and len: "0 < len" "start + len \<le> SECTORS_PER_LOAD"
  shows "get_unsealed_data keccak B eb start len =
    Inr (if {256 * start..<256 * (start + len)} \<subseteq> dom m then Some (range_bytes m (256 * start) (256 * len)) else None)"
  using bitmap64.reach_content [OF bitmap reach] get_unsealed_data_correct [OF _ len, of B eb keccak] by auto

text \<open>C19: inserting into a load. Data over free sectors is stored, and the returned segments are exactly those
  that it touches and that are now complete; data that is already there is accepted without a change;
  any other overlap is an error.\<close>

theorem load_insert:
  assumes bitmap: "bitmap64 B" and reach: "batch_reach keccak B n eb m" and al: "aligned_data off data"
  defines "rng \<equiv> {256 * off..<256 * off + length data}"
  shows "if dom m \<inter> rng = {} then
      (\<exists>eb' idx. entry_batch_insert_data keccak B off data eb = Inr (eb', idx) \<and>
        batch_reach keccak B n eb' (m ++ bytes_at (256 * off) data) \<and>
        set idx = {s. seal_range s \<inter> rng \<noteq> {} \<and> seal_range s \<subseteq> dom m \<union> rng})
    else if rng \<subseteq> dom m \<and> range_bytes m (256 * off) (length data) = data then
      entry_batch_insert_data keccak B off data eb = Inr (eb, [])
    else (\<exists>e. entry_batch_insert_data keccak B off data eb = Inl (Err e))"
proof -
  have inv: "batch_inv B eb" and m: "content keccak B eb = m" using bitmap64.reach_content [OF bitmap reach] by auto
  have a: "length data mod 256 = 0" "data \<noteq> []" "256 * off + length data \<le> BYTES_PER_LOAD"
    using al by (auto simp: aligned_data_def)
  show ?thesis
  proof (cases "dom m \<inter> rng = {}")
    case True
    then obtain eb' idx where r: "entry_batch_insert_data keccak B off data eb = Inr (eb', idx)"
      "content keccak B eb' = m ++ bytes_at (256 * off) data"
      "set idx = {s. seal_range s \<inter> rng \<noteq> {} \<and> seal_range s \<subseteq> dom (content keccak B eb')}"
      using entry_batch_insert_free [OF inv a, of keccak] unfolding m rng_def by blast
    have "dom (content keccak B eb') = dom m \<union> rng" unfolding r(2) rng_def by (simp add: Un_commute)
    then show ?thesis using True r reach_insert [OF reach al r(1)] by auto
  next
    case False
    then show ?thesis using entry_batch_insert_known [OF inv a, of keccak] unfolding m rng_def by presburger
  qed
qed



section \<open>Concrete loads\<close>

definition toy_keccak :: "byte list \<Rightarrow> h256" where
  "toy_keccak bs = take 32 (map ((+) 1) bs @ replicate 32 0)"

definition one_sector :: "64 word entry_batch" where
  "one_sector = \<lparr>eb_seal = seal_info_new word_bitmap 0,
     eb_data = Incomplete \<lparr>subtrees = [], known_data = [\<lparr>pb_start_sector = 3, pb_data = replicate 256 7\<rparr>]\<rparr>\<rparr>"

lemma one_sector_reach: "batch_reach toy_keccak word_bitmap 0 one_sector (bytes_at 768 (replicate 256 7))"
proof -
  have "entry_batch_insert_data toy_keccak word_bitmap 3 (replicate 256 7) (entry_batch_new word_bitmap 0) = Inr (one_sector, [])"
    by (simp add: entry_batch_insert_data_def get_unsealed_data_def entry_batch_new_def data_new_def one_sector_def Let_def
        is_sealed_def seal_info_new_def data_get_def incomplete_get_def find_batch_def range_find_def binary_search_def
        data_insert_data_def merge_batches_def get_intact_sealing_index_def get_covered_sealing_index_def u16_def
        pb_end_sector_def bytes_to_chunks_def) blast
  from reach_insert [OF reach_new _ this] show ?thesis by (simp add: aligned_data_def)
qed

lemma full_segment_reach:
  "\<exists>eb. batch_reach toy_keccak word_bitmap 0 eb (bytes_at 0 (replicate 4096 7)) \<and> eb_seal eb = seal_info_new word_bitmap 0"
proof -
  have "aligned_data 0 (replicate 4096 7)" by (simp add: aligned_data_def)
  moreover obtain eb idx where "entry_batch_insert_data toy_keccak word_bitmap 0 (replicate 4096 7) (entry_batch_new word_bitmap 0) = Inr (eb, idx)"
    "eb_seal eb = eb_seal (entry_batch_new word_bitmap 0)"
    using entry_batch_insert_free [OF word_bitmap.new_content(1), of "replicate 4096 7" 0 toy_keccak 0] word_bitmap.new_content(2)
    by (auto simp del: dom_content)
  ultimately have "batch_reach toy_keccak word_bitmap 0 eb (Map.empty ++ bytes_at (256 * 0) (replicate 4096 7))"
    using reach_insert [OF reach_new] by (metis sizes(2))
  then show ?thesis using \<open>eb_seal eb = _\<close> by (auto simp: entry_batch_new_def)
qed

theorem load_reads_witness:
  "get_unsealed_data toy_keccak word_bitmap one_sector 3 1 = Inr (Some (replicate 256 7))"
  using load_reads [OF word_bitmap.bitmap64_axioms one_sector_reach, of 1 3] range_bytes_at [of 768 "replicate 256 7"]
  by simp

theorem load_insert_witness:
  "aligned_data 3 (replicate 256 9) \<and> (\<exists>e. entry_batch_insert_data toy_keccak word_bitmap 3 (replicate 256 9) one_sector = Inl (Err e))"
proof -
  have al: "aligned_data 3 (replicate 256 9)" by (simp add: aligned_data_def)
  have "replicate 256 (7::byte) ! 0 \<noteq> replicate 256 9 ! 0" by (simp only: nth_replicate) simp
  then have "range_bytes (bytes_at 768 (replicate 256 (7::byte))) 768 256 \<noteq> replicate 256 9"
    using range_bytes_at [of 768 "replicate 256 (7::byte)"] by (metis length_replicate)
  then show ?thesis
    using load_insert [OF word_bitmap.bitmap64_axioms one_sector_reach al] al by simp
qed


definition toy_answer :: seal_answer where
  "toy_answer = \<lparr>sa_seal_index = 0, sa_version = 0,
     sa_sealed_data = seal_words toy_keccak (toy_keccak (compute_first_mask_seed (replicate 32 1) (replicate 32 2) 0)) (replicate 4096 7),
     sa_miner_id = replicate 32 1, sa_seal_context = replicate 32 2, sa_context_end_seal = 1\<rparr>"


end
