(* ===== verification/Load_Root.thy ===== *)
theory Load_Root
  imports Batch_Properties Merkle_Properties Log_Helpers
begin

text \<open>
  The Merkle root of a load: \<open>to_merkle_tree\<close> and \<open>build_root\<close> of \<open>load_chunk/mod.rs\<close>, which rebuild the
  subtree over the sectors of a load from its plain bytes and from subtree roots that are known without data.
\<close>

section \<open>Operations\<close>

type_synonym 'c merkle = "(optional_hash, 'c, unit, unit) append_merkle_tree"

text \<open>Reading the sectors \<open>[start, end)\<close> and appending their leaves.\<close>

definition append_sectors ::
    "(byte list \<Rightarrow> h256) \<Rightarrow> (optional_hash, 'c) lru_ops \<Rightarrow> 'b bitmap_ops \<Rightarrow> 'b entry_batch \<Rightarrow> nat \<Rightarrow> nat \<Rightarrow> 'c merkle \<Rightarrow> 'c merkle option res" where
  "append_sectors keccak C B eb start end_sector merkle =
     robind (get_unsealed_data keccak B eb start (wsub end_sector start)) (\<lambda>leaf_data.
     rbind (case data_to_merkle_leaves keccak leaf_data of Inr l \<Rightarrow> Inr l | Inl _ \<Rightarrow> Inl (Panic ''aligned'')) (\<lambda>leaves.
     rbind (append_list (sha3_optional keccak) C empty_node_database leaves merkle) (\<lambda>merkle.
     Inr (Some merkle))))"

definition merkle_subtree_step ::
    "(byte list \<Rightarrow> h256) \<Rightarrow> (optional_hash, 'c) lru_ops \<Rightarrow> 'b bitmap_ops \<Rightarrow> 'b entry_batch \<Rightarrow> subtree \<Rightarrow> 'c merkle \<Rightarrow> 'c merkle option res" where
  "merkle_subtree_step keccak C B eb st merkle =
     rbind (amt_leaves merkle) (\<lambda>n.
     robind (if st_start_sector st \<noteq> n then append_sectors keccak C B eb n (st_start_sector st) merkle
             else Inr (Some merkle)) (\<lambda>merkle.
     rbind (append_subtree (sha3_optional keccak) C empty_node_database (st_subtree_height st) (Some (st_root st)) merkle) (\<lambda>(merkle, r).
     rbind r (\<lambda>_. Inr (Some merkle)))))"

definition merkle_fill_step ::
    "(byte list \<Rightarrow> h256) \<Rightarrow> (optional_hash, 'c) lru_ops \<Rightarrow> 'b bitmap_ops \<Rightarrow> 'b entry_batch \<Rightarrow> nat \<Rightarrow> 'c merkle \<Rightarrow> 'c merkle res" where
  "merkle_fill_step keccak C B eb i merkle =
     rbind (leaf_at (sha3_optional keccak) C empty_node_database merkle i) (\<lambda>l.
     case l of
       Some _ \<Rightarrow> Inr merkle
     | None \<Rightarrow>
         rbind (get_unsealed_data keccak B eb i 1) (\<lambda>d.
         case d of
           Some leaf_data \<Rightarrow> fill_leaf (sha3_optional keccak) C empty_node_database i (leaf_optional keccak leaf_data) merkle
         | None \<Rightarrow> Inr merkle))"

definition to_merkle_tree ::
    "(byte list \<Rightarrow> h256) \<Rightarrow> (optional_hash, 'c) lru_ops \<Rightarrow> 'b bitmap_ops \<Rightarrow> 'b entry_batch \<Rightarrow> bool \<Rightarrow> 'c merkle option res" where
  "to_merkle_tree keccak C B eb is_first_chunk =
     (let initial_leaves = (if is_first_chunk then [Some zero_h256] else []) in
      rbind (amt_new (sha3_optional keccak) C initial_leaves 0 None) (\<lambda>merkle.
      robind (rofold (merkle_subtree_step keccak C B eb) (get_subtree_list (eb_data eb)) merkle) (\<lambda>merkle.
      rbind (amt_leaves merkle) (\<lambda>n.
      robind (if n \<noteq> SECTORS_PER_LOAD then append_sectors keccak C B eb n SECTORS_PER_LOAD merkle
              else Inr (Some merkle)) (\<lambda>merkle.
      rbind (amt_leaves merkle) (\<lambda>n.
      rbind (rfold (merkle_fill_step keccak C B eb) [0..<n] merkle) (\<lambda>merkle.
      Inr (Some merkle))))))))"

definition build_root ::
    "(byte list \<Rightarrow> h256) \<Rightarrow> (optional_hash, 'c) lru_ops \<Rightarrow> 'b bitmap_ops \<Rightarrow> 'b entry_batch \<Rightarrow> bool \<Rightarrow> h256 option res" where
  "build_root keccak C B eb is_first_chunk =
     rbind (case eb_data eb of
              Complete _ \<Rightarrow> Inr True
            | Incomplete d \<Rightarrow>
                rbind (get_unsealed_data keccak B eb (SECTORS_PER_LOAD - 1) 1) (\<lambda>r.
                Inr (if r = None then
                       subtrees d \<noteq> [] \<and>
                       st_start_sector (last (subtrees d)) + shl1 (wsub (st_subtree_height (last (subtrees d))) 1) = SECTORS_PER_LOAD
                     else True))) (\<lambda>maybe_full.
     if \<not> maybe_full then Inr None
     else robind (to_merkle_tree keccak C B eb is_first_chunk) (\<lambda>merkle.
          amt_root C empty_node_database merkle))"

section \<open>The root of a load\<close>

definition load_leaves :: "(byte list \<Rightarrow> h256) \<Rightarrow> bool \<Rightarrow> (nat \<rightharpoonup> byte) \<Rightarrow> optional_hash list" where
  "load_leaves keccak is_first_chunk m =
     (if is_first_chunk then [Some zero_h256] else []) @
     map (\<lambda>s. leaf_optional keccak (range_bytes m (256 * s) 256)) [if is_first_chunk then 1 else 0..<SECTORS_PER_LOAD]"

lemma chunks_exact_range:
  "chunks_exact 256 (range_bytes m (256 * a) (256 * n)) = map (\<lambda>s. range_bytes m (256 * s) 256) [a..<a + n]"
proof (rule nth_equalityI)
  fix i assume "i < length (chunks_exact 256 (range_bytes m (256 * a) (256 * n)))"
  then have i: "i < n" by (simp add: chunks_exact_def)
  then have "i * 256 + 256 \<le> 256 * n" by simp
  then show "chunks_exact 256 (range_bytes m (256 * a) (256 * n)) ! i = map (\<lambda>s. range_bytes m (256 * s) 256) [a..<a + n] ! i"
    using i by (simp add: chunks_exact_def drop_range_bytes take_range_bytes algebra_simps)
qed (simp add: chunks_exact_def)

lemma new_tree_refines:
  assumes C: "node_cache C" and ys: "None \<notin> set ys"
  shows "\<exists>t. amt_new (sha3_optional keccak) C ys 0 None = Inr t \<and>
    refines (sha3_optional keccak) C empty_node_database (\<lambda>_. {}) 0 0 t
      \<lparr>spec_leaves = ys, spec_height = tree_depth (length ys), spec_versions = []\<rparr>"
proof -
  obtain nm where n: "amt_new (sha3_optional keccak) C ys 0 None = Inr (empty_tree nm None 0)"
    and R: "nm_represents C empty_node_database (\<lambda>_. {}) nm (tree_of (sha3_optional keccak) 0 (tree_depth (length ys)) ys) False"
    using memory_tree.amt_new_layers [OF memory_tree_sha3 [OF C], of keccak ys 0 None] ys
    by (auto simp: amt_commit_def commit_empty_def split: if_splits)
  then show ?thesis using ys by (intro exI [of _ "empty_tree nm None 0"]) (simp add: refines_def empty_tree_def version_map_def)
qed

lemma refined_tree_reads:
  assumes C: "node_cache C" and r: "refines (sha3_optional keccak) C empty_node_database (\<lambda>_. {}) 0 a t s"
  shows "amt_leaves t = Inr (length (spec_leaves s))"
    and "i < length (spec_leaves s) \<Longrightarrow> leaf_at (sha3_optional keccak) C empty_node_database t i = Inr (Some (spec_leaves s ! i))"
    and "spec_leaves s \<noteq> [] \<Longrightarrow> amt_root C empty_node_database t = Inr (mnode (sha3_optional keccak) 0 (spec_leaves s) (spec_height s - 1) 0)"
proof -
  let ?A = "sha3_optional keccak"
  have T: "reads_tree ?A 0 (spec_height s) (spec_leaves s) (amt_read ?A C empty_node_database t)"
    by (rule append_tree.refines_reads [OF append_tree_sha3 [OF memory_store [OF C]] r])
  have H: "tree_depth (length (spec_leaves s)) \<le> spec_height s" "None \<notin> set (spec_leaves s)" using r by (auto simp: refines_def)
  have H0: "0 < spec_height s" using H tree_depth_pos [of "length (spec_leaves s)"] by simp
  show leaves: "amt_leaves t = Inr (length (spec_leaves s))"
    using T H0 by (simp add: reads_tree_def amt_read_def amt_leaves_def)
  show "leaf_at ?A C empty_node_database t i = Inr (Some (spec_leaves s ! i))" if i: "i < length (spec_leaves s)"
  proof -
    have "amt_node C empty_node_database t 0 i = Inr (spec_leaves s ! i)"
      using T H0 i by (simp add: reads_tree_def amt_read_def)
    moreover have "spec_leaves s ! i \<noteq> None" using H(2) i by (metis nth_mem)
    ultimately show ?thesis using leaves i by (simp add: leaf_at_def is_null_def)
  qed
  show "amt_root C empty_node_database t = Inr (mnode ?A 0 (spec_leaves s) (spec_height s - 1) 0)" if "spec_leaves s \<noteq> []"
  proof -
    have "0 < width (length (spec_leaves s)) (spec_height s - 1)" using that by (simp add: width_pos)
    then show ?thesis using T H0 by (auto simp: reads_tree_def amt_read_def amt_root_def)
  qed
qed

lemma append_sectors_refines:
  assumes C: "node_cache C" and inv: "batch_inv B eb"
    and r: "refines (sha3_optional keccak) C empty_node_database (\<lambda>_. {}) 0 0 t s" and n: "start < e" "e \<le> SECTORS_PER_LOAD"
  shows "if {256 * start..<256 * e} \<subseteq> dom (content keccak B eb)
    then \<exists>t'. append_sectors keccak C B eb start e t = Inr (Some t') \<and>
      refines (sha3_optional keccak) C empty_node_database (\<lambda>_. {}) 0 0 t'
        (spec_append (map (\<lambda>i. leaf_optional keccak (range_bytes (content keccak B eb) (256 * i) 256)) [start..<e]) s)
    else append_sectors keccak C B eb start e t = Inr None"
proof -
  let ?m = "content keccak B eb"
  let ?ls = "map (\<lambda>i. leaf_optional keccak (range_bytes ?m (256 * i) 256)) [start..<e]"
  have get: "get_unsealed_data keccak B eb start (wsub e start) =
      Inr (if {256 * start..<256 * e} \<subseteq> dom ?m then Some (range_bytes ?m (256 * start) (256 * (e - start))) else None)"
    using get_unsealed_data_correct [OF inv, of "e - start" start keccak] n by simp
  have leaves: "data_to_merkle_leaves keccak (range_bytes ?m (256 * start) (256 * (e - start))) = Inr ?ls"
    using n chunks_exact_range [of ?m start "e - start"] by (simp add: data_to_merkle_leaves_def ENTRY_SIZE_def comp_def)
  have ok: "valid_op (sha3_optional keccak) 0 s (Append_List ?ls)" using n by (auto simp: valid_op_def leaf_optional_def)
  obtain t' where "append_list (sha3_optional keccak) C empty_node_database ?ls t = Inr t'"
    "refines (sha3_optional keccak) C empty_node_database (\<lambda>_. {}) 0 0 t' (spec_append ?ls s)"
    using append_tree.refines_op [OF append_tree_sha3 [OF memory_store [OF C]] r ok] by (auto simp: tree_op_def spec_op_def)
  then show ?thesis using get leaves by (simp add: append_sectors_def)
qed

lemma fill_steps_known:
  assumes C: "node_cache C" and r: "refines (sha3_optional keccak) C empty_node_database (\<lambda>_. {}) 0 0 t s"
    and n: "\<forall>i \<in> set is. i < length (spec_leaves s)"
  shows "rfold (merkle_fill_step keccak C B eb) is t = Inr t"
  using n by (induction "is") (simp_all add: merkle_fill_step_def refined_tree_reads(2) [OF C r])

lemma to_merkle_tree_full:
  fixes keccak :: "byte list \<Rightarrow> h256" and first :: bool
  assumes C: "node_cache C" and inv: "batch_inv B eb" and st: "get_subtree_list (eb_data eb) = []"
  defines "m \<equiv> content keccak B eb" and "n \<equiv> if first then 1 else (0::nat)"
  shows "if {256 * n..<BYTES_PER_LOAD} \<subseteq> dom m
    then \<exists>t. to_merkle_tree keccak C B eb first = Inr (Some t) \<and>
      refines (sha3_optional keccak) C empty_node_database (\<lambda>_. {}) 0 0 t
        \<lparr>spec_leaves = load_leaves keccak first m, spec_height = 11, spec_versions = []\<rparr>
    else to_merkle_tree keccak C B eb first = Inr None"
proof -
  let ?ys = "if first then [Some zero_h256] else []"
  let ?s = "\<lparr>spec_leaves = ?ys, spec_height = tree_depth (length ?ys), spec_versions = []\<rparr>"
  have ys: "None \<notin> set ?ys" "length ?ys = n" by (auto simp: n_def)
  obtain t0 where t0: "amt_new (sha3_optional keccak) C ?ys 0 None = Inr t0"
    and r0: "refines (sha3_optional keccak) C empty_node_database (\<lambda>_. {}) 0 0 t0 ?s"
    using new_tree_refines [OF C ys(1)] by blast
  have n0: "amt_leaves t0 = Inr n" using refined_tree_reads(1) [OF C r0] ys(2) by (auto simp: n_def)
  have lt: "n < 1024" by (simp add: n_def)
  note app = append_sectors_refines [OF C inv r0, of n 1024, folded m_def]
  have "tree_depth 1024 = 11" by (simp add: tree_depth.simps)
  then have spec: "spec_append (map (\<lambda>i. leaf_optional keccak (range_bytes m (256 * i) 256)) [n..<1024]) ?s =
      \<lparr>spec_leaves = load_leaves keccak first m, spec_height = 11, spec_versions = []\<rparr>"
    by (auto simp: spec_append_def load_leaves_def n_def tree_depth.simps)
  show ?thesis
  proof (cases "{256 * n..<BYTES_PER_LOAD} \<subseteq> dom m")
    case True
    then obtain t where t: "append_sectors keccak C B eb n 1024 t0 = Inr (Some t)"
      "refines (sha3_optional keccak) C empty_node_database (\<lambda>_. {}) 0 0 t
        \<lparr>spec_leaves = load_leaves keccak first m, spec_height = 11, spec_versions = []\<rparr>"
      using app lt spec by auto
    have "amt_leaves t = Inr (length (load_leaves keccak first m))" using refined_tree_reads(1) [OF C t(2)] by simp
    moreover have "rfold (merkle_fill_step keccak C B eb) [0..<length (load_leaves keccak first m)] t = Inr t"
      by (rule fill_steps_known [OF C t(2)]) simp
    ultimately show ?thesis using True t0 st n0 t lt by (simp add: to_merkle_tree_def)
  next
    case False
    then have "append_sectors keccak C B eb n 1024 t0 = Inr None" using app lt by auto
    then show ?thesis using False t0 st n0 lt by (simp add: to_merkle_tree_def)
  qed
qed

lemma build_root_content:
  assumes cache: "node_cache C" and inv: "batch_inv B eb" and m: "content keccak B eb = m"
    and st: "get_subtree_list (eb_data eb) = []"
  shows "build_root keccak C B eb is_first_chunk =
    Inr (if {if is_first_chunk then BYTES_PER_SECTOR else 0..<BYTES_PER_LOAD} \<subseteq> dom m
         then mnode (sha3_optional keccak) 0 (load_leaves keccak is_first_chunk m) 10 0 else None)"
proof -
  let ?D = "{256 * (if is_first_chunk then 1 else 0)..<BYTES_PER_LOAD}"
  note tree = to_merkle_tree_full [OF cache inv st, of is_first_chunk keccak, unfolded m]
  have last: "get_unsealed_data keccak B eb 1023 1 = Inr (if {261888..<262144} \<subseteq> dom m then Some (range_bytes m 261888 256) else None)"
    using get_unsealed_data_correct [OF inv, of 1 1023 keccak] m by simp
  have sub: "{261888..<262144} \<subseteq> ?D" by auto
  have pre: "build_root keccak C B eb is_first_chunk =
      robind (to_merkle_tree keccak C B eb is_first_chunk) (\<lambda>merkle. amt_root C empty_node_database merkle)
    \<or> \<not> ?D \<subseteq> dom m \<and> build_root keccak C B eb is_first_chunk = Inr None"
  proof (cases "{261888..<262144} \<subseteq> dom m")
    case True
    then show ?thesis using st last by (cases "eb_data eb") (simp_all add: build_root_def)
  next
    case False
    then have "\<not> ?D \<subseteq> dom m" using sub by (meson subset_trans)
    then show ?thesis using st last False by (cases "eb_data eb") (simp_all add: build_root_def get_subtree_list_def)
  qed
  show ?thesis
  proof (cases "?D \<subseteq> dom m")
    case True
    then obtain t where t: "to_merkle_tree keccak C B eb is_first_chunk = Inr (Some t)"
      "refines (sha3_optional keccak) C empty_node_database (\<lambda>_. {}) 0 0 t
        \<lparr>spec_leaves = load_leaves keccak is_first_chunk m, spec_height = 11, spec_versions = []\<rparr>"
      using tree by auto
    have "load_leaves keccak is_first_chunk m \<noteq> []" by (simp add: load_leaves_def)
    then show ?thesis using True pre t(1) refined_tree_reads(3) [OF cache t(2)] by (auto simp del: ivl_subset)
  next
    case False
    then have "build_root keccak C B eb is_first_chunk = Inr None" using pre tree by auto
    then show ?thesis using False by (cases is_first_chunk) simp_all
  qed
qed

text \<open>C17: the root of a load. For a load built by insertions, sealings and truncations, without known subtree
  roots, \<open>build_root\<close> never fails: it is the root of the reference Merkle tree over the hashes of the 1024
  plain sectors (in the first load of the flow the first leaf is the zero hash), sealed or not, and \<open>None\<close>
  as long as a sector is missing.\<close>

theorem build_root_correct:
  assumes bitmap: "bitmap64 B" and cache: "node_cache C" and reach: "batch_reach keccak B n eb m"
    and st: "get_subtree_list (eb_data eb) = []"
  shows "build_root keccak C B eb is_first_chunk =
    Inr (if {if is_first_chunk then BYTES_PER_SECTOR else 0..<BYTES_PER_LOAD} \<subseteq> dom m
         then mnode (sha3_optional keccak) 0 (load_leaves keccak is_first_chunk m) 10 0 else None)"
proof -
  have "batch_inv B eb" "content keccak B eb = m" using bitmap64.reach_content [OF bitmap reach] by auto
  from build_root_content [OF cache this st] show ?thesis .
qed

definition full_load :: "64 word entry_batch" where
  "full_load = \<lparr>eb_seal = seal_info_new word_bitmap 0, eb_data = Complete (replicate 262144 7)\<rparr>"

lemma full_load_reach: "batch_reach toy_keccak word_bitmap 0 full_load (bytes_at 0 (replicate 262144 7))"
proof -
  have "entry_batch_insert_data toy_keccak word_bitmap 0 (replicate 262144 7) (entry_batch_new word_bitmap 0) =
      Inr (full_load, filter (\<lambda>x. x < 64) [0..<64])"
    by (simp add: entry_batch_insert_data_def get_unsealed_data_def entry_batch_new_def data_new_def full_load_def Let_def
        is_sealed_def seal_info_new_def data_get_def incomplete_get_def find_batch_def range_find_def binary_search_def
        data_insert_data_def merge_batches_def get_intact_sealing_index_def get_covered_sealing_index_def u16_def
        pb_end_sector_def bytes_to_chunks_def)
  from reach_insert [OF reach_new _ this] show ?thesis by (simp add: aligned_data_def)
qed

theorem build_root_correct_witness:
  "build_root toy_keccak map_cache word_bitmap full_load True =
     Inr (mnode (sha3_optional toy_keccak) 0 (load_leaves toy_keccak True (bytes_at 0 (replicate 262144 7))) 10 0)"
  using build_root_correct [OF word_bitmap.bitmap64_axioms map_cache.node_cache_axioms full_load_reach, of True]
  by (simp add: full_load_def get_subtree_list_def)

end
