(* ===== verification/Ssz_Safe.thy ===== *)
theory Ssz_Safe
  imports Ssz_Laws
begin

text \<open>
  Decoding never panics: for every input the container decoder and the list decoder return a value or a
  \<open>DecodeError\<close>, when the decoders of the elements do.
\<close>

section \<open>Decoding never panics\<close>

definition builder_ok :: "ssz_decoder_builder \<Rightarrow> bool" where
  "builder_ok b \<longleftrightarrow> db_items_index b \<le> length (db_bytes b) \<and> sorted (map snd (db_offsets b)) \<and>
     (\<forall>(p, k) \<in> set (db_offsets b). p < length (db_items b) \<and> k \<le> length (db_bytes b))"

lemma no_panic_offsets [simp]: "\<not> panics (decode_offset bs)" "\<not> panics (read_offset bs)" "\<not> panics (sanitize_offset a b c d)"
  by (auto simp: decode_offset_def read_offset_def sanitize_offset_def panics_rbind)

lemma sanitize_offset_Inr: "sanitize_offset a p n f = Inr k \<Longrightarrow>
  k = a \<and> k \<le> n \<and> (\<forall>q. p = Some q \<longrightarrow> q \<le> k) \<and> (\<forall>m. f = Some m \<longrightarrow> m \<le> k)"
  by (auto simp: sanitize_offset_def split: if_splits option.splits)

lemma read_offset_Inr: "read_offset bs = Inr k \<Longrightarrow> 4 \<le> length bs"
  by (auto simp: read_offset_def)

lemma register_ok:
  assumes b: "builder_ok b"
  shows "\<not> panics (register_type_parameterized t b)"
    and "register_type_parameterized t b = Inr b' \<Longrightarrow> builder_ok b' \<and> length (db_items b') = Suc (length (db_items b)) \<and> db_bytes b' = db_bytes b"
proof -
  show "\<not> panics (register_type_parameterized t b)"
    using b by (cases t) (auto simp: register_type_parameterized_def Let_def panics_rbind slice_from_def builder_ok_def)
  assume r: "register_type_parameterized t b = Inr b'"
  have last: "k \<le> snd (last (db_offsets b))" if "(p, k) \<in> set (db_offsets b)" for p k
    using b that by (cases "db_offsets b" rule: rev_cases) (auto simp: builder_ok_def sorted_append)
  show "builder_ok b' \<and> length (db_items b') = Suc (length (db_items b)) \<and> db_bytes b' = db_bytes b"
  proof (cases "fst t")
    case True
    then show ?thesis using r b by (cases t) (fastforce simp: register_type_parameterized_def Let_def builder_ok_def split: if_splits)
  next
    case False
    then obtain j k where k: "read_offset (drop (db_items_index b) (db_bytes b)) = Inr j"
        "sanitize_offset j (if db_offsets b = [] then None else Some (snd (last (db_offsets b)))) (length (db_bytes b)) None = Inr k"
        "b' = b\<lparr>db_offsets := db_offsets b @ [(length (db_items b), k)], db_items := db_items b @ [[]], db_items_index := db_items_index b + 4\<rparr>"
      using r by (cases t) (simp add: register_type_parameterized_def slice_from_def split: if_split_asm, blast+)
    have idx: "4 + db_items_index b \<le> length (db_bytes b)" using read_offset_Inr [OF k(1)] b by (simp add: builder_ok_def)
    have kb: "k \<le> length (db_bytes b)" "db_offsets b \<noteq> [] \<Longrightarrow> snd (last (db_offsets b)) \<le> k"
      using sanitize_offset_Inr [OF k(2)] by simp_all
    have "x \<le> k" if x: "x \<in> set (map snd (db_offsets b))" for x
    proof -
      obtain p where "(p, x) \<in> set (db_offsets b)" using x by auto
      then have "x \<le> snd (last (db_offsets b))" "db_offsets b \<noteq> []" using last by auto
      then show ?thesis using kb(2) by simp
    qed
    then show ?thesis using b idx kb(1) unfolding k(3) by (auto simp: builder_ok_def sorted_append less_SucI)
  qed
qed

lemma fill_items_ok:
  assumes "sorted (map snd os)" "\<forall>(p, k) \<in> set os. p < length items \<and> k \<le> length bytes"
  shows "\<not> panics (fill_items bytes os items)" "fill_items bytes os items = Inr is \<Longrightarrow> length is = length items"
  using assms
proof (induction bytes os items rule: fill_items.induct)
  case (1 bytes a b rest items)
  { case 1 then show ?case using "1.IH"(1) by (cases a; cases b) (auto simp: panics_rbind slice_range_def set_item_def) next
    case 2 then show ?case using "1.IH"(2) by (cases a; cases b) (auto simp: slice_range_def set_item_def) }
qed (auto simp: panics_rbind slice_from_def set_item_def)

lemma fields_items_ok:
  "\<not> panics (fields_items ts bytes)" "fields_items ts bytes = Inr is \<Longrightarrow> length is = length ts"
proof -
  have new: "builder_ok (builder_new bytes)" by (simp add: builder_ok_def builder_new_def)
  have reg: "\<not> panics (rfold register_type_parameterized ts (builder_new bytes))"
    by (rule rfold_no_panic [of builder_ok, OF new]) (use register_ok in blast)
  have ok: "builder_ok b \<and> length (db_items b) = length (db_items a) + length ts"
    if "rfold register_type_parameterized ts a = Inr b" "builder_ok a" for a b
    using that by (induction ts arbitrary: a) (auto dest!: register_ok(2) [rotated])
  have fin: "\<not> panics (builder_finalize b)" if "builder_ok b" for b
    using that fill_items_ok(1) [of "db_offsets b" "db_items b" "db_bytes b"]
    by (cases "db_offsets b") (simp_all add: builder_finalize_def builder_ok_def)
  have fin_len: "length is' = length (db_items b)" if "builder_ok b" "builder_finalize b = Inr is'" for b is'
    using that fill_items_ok(2) [of "db_offsets b" "db_items b" "db_bytes b" is']
    by (cases "db_offsets b") (simp_all add: builder_finalize_def builder_ok_def split: if_split_asm)
  show "\<not> panics (fields_items ts bytes)"
    unfolding fields_items_def panics_rbind builder_build_def using reg ok [OF _ new] fin by blast
  show "length is = length ts" if r: "fields_items ts bytes = Inr is"
  proof -
    obtain b where "rfold register_type_parameterized ts (builder_new bytes) = Inr b" "builder_finalize b = Inr is"
      using r unfolding fields_items_def builder_build_def rbind_eq_Inr by blast
    then show ?thesis using ok [OF _ new] fin_len [of b "is"] by (simp add: builder_new_def)
  qed
qed

section \<open>Safe decoders\<close>

locale safe_decoder =
  fixes c :: "'a ssz"
  assumes get_safe: "\<not> panics (ssz_get c bytes)" and nonzero_length: "0 < ssz_fixed_len c"
begin

lemma next_safe: "is \<noteq> [] \<Longrightarrow> \<not> panics (decode_next_with (ssz_get c) is)"
  by (cases "is") (auto simp: decode_next_with_def panics_rbind get_safe)

lemma list_step_safe:
  assumes "i \<in> set [1..<n + 1]" "4 * n \<le> length bytes"
  shows "\<not> panics (decode_list_step (ssz_get c) bytes first n i s)"
  using assms by (cases s) (auto simp: decode_list_step_def panics_rbind slice_from_def get_safe split: if_splits)

lemma list_safe: "\<not> panics (decode_list_of_variable_length_items (ssz_get c) bytes m)"
proof -
  have "\<not> panics (rfold (decode_list_step (ssz_get c) bytes k (k div 4)) [1..<k div 4 + 1] s)"
    if "4 dvd k" "k \<le> length bytes" for k s
    by (rule rfold_no_panic [of "\<lambda>_. True"]) (use that list_step_safe in auto)
  then show ?thesis
    by (auto simp: decode_list_of_variable_length_items_def panics_rbind Let_def dest!: sanitize_offset_Inr simp del: upt_Suc)
qed

lemma vec_safe: "safe_decoder (ssz_vec c m)"
  by unfold_locales (auto simp: ssz_vec_def list_safe panics_rbind nonzero_length get_safe rmap_no_panic)

lemma option_safe: "safe_decoder (ssz_option c)"
  by unfold_locales
    (auto simp: ssz_option_def split_union_bytes_def union_selector_new_def panics_rbind get_safe split: list.splits if_splits)

end

text \<open>Reading the fields of a container from as many items as it has fields.\<close>

locale safe_fields =
  fixes f :: "'a ssz_fields"
  assumes gets_safe: "length is = length (sf_kinds f) \<Longrightarrow> \<not> panics (sf_gets f is)"
    and nonzero_first: "\<exists>k ks. sf_kinds f = k # ks \<and> 0 < snd k"
begin

lemma container_safe: "safe_decoder (ssz_container f)"
proof
  show "\<not> panics (ssz_get (ssz_container f) bytes)" for bytes
    by (auto simp: ssz_container_def panics_rbind fields_items_ok(1) gets_safe dest: fields_items_ok(2))
  show "0 < ssz_fixed_len (ssz_container f)" using nonzero_first by (auto simp: ssz_container_def fields_len_def)
qed

end

lemma last_field_safe: "safe_decoder c \<Longrightarrow> safe_fields (last_field c)"
  by unfold_locales
    (auto simp: last_field_def ssz_kind_def length_Suc_conv safe_decoder.next_safe safe_decoder.nonzero_length)

lemma add_field_safe:
  assumes "safe_decoder c" "safe_fields f"
  shows "safe_fields (add_field c f)"
proof
  show "\<not> panics (sf_gets (add_field c f) is)" if "length is = length (sf_kinds (add_field c f))" for "is"
  proof -
    from that obtain b bs where b: "is = b # bs" "length bs = length (sf_kinds f)"
      by (auto simp: add_field_def length_Suc_conv)
    then show ?thesis
      using safe_decoder.get_safe [OF assms(1), of b] safe_fields.gets_safe [OF assms(2) b(2)]
      by (auto simp: add_field_def decode_next_with_def panics_rbind)
  qed
  show "\<exists>k ks. sf_kinds (add_field c f) = k # ks \<and> 0 < snd k"
    using safe_decoder.nonzero_length [OF assms(1)] by (simp add: add_field_def ssz_kind_def)
qed

lemmas container_safeI = safe_fields.container_safe add_field_safe last_field_safe

lemma tuple2_safe: "safe_decoder a \<Longrightarrow> safe_decoder b \<Longrightarrow> safe_decoder (ssz_tuple2 a b)"
  unfolding ssz_tuple2_def by (intro container_safeI)

lemma tuple3_safe: "safe_decoder a \<Longrightarrow> safe_decoder b \<Longrightarrow> safe_decoder c \<Longrightarrow> safe_decoder (ssz_tuple3 a b c)"
  unfolding ssz_tuple3_def by (intro container_safeI)

lemma tuple4_safe:
  "safe_decoder a \<Longrightarrow> safe_decoder b \<Longrightarrow> safe_decoder c \<Longrightarrow> safe_decoder d \<Longrightarrow> safe_decoder (ssz_tuple4 a b c d)"
  unfolding ssz_tuple4_def by (intro container_safeI)

lemma uint_safe: "0 < n \<Longrightarrow> safe_decoder (ssz_uint n)"
  by unfold_locales (auto simp: ssz_uint_def panics_rbind)

lemma byte_array_safe: "0 < n \<Longrightarrow> safe_decoder (ssz_byte_array n)"
  by unfold_locales (auto simp: ssz_byte_array_def panics_rbind)

interpretation u64_decoder: safe_decoder "ssz_uint 8"
  by (rule uint_safe) simp

interpretation h256_decoder: safe_decoder "ssz_byte_array 32"
  by (rule byte_array_safe) simp

interpretation pair_fields: safe_fields "add_field (ssz_uint 8) (last_field (ssz_byte_array 32))"
  by (intro add_field_safe last_field_safe u64_decoder.safe_decoder_axioms h256_decoder.safe_decoder_axioms)

end
