(* ===== verification/Load_Codec.thy ===== *)
theory Load_Codec
  imports Entry_Batch Ssz_Safe
begin

text \<open>
  How a load is stored: the SSZ codecs of \<open>load_chunk/serde.rs\<close> and \<open>bitmap.rs\<close> and those derived for the
  structs of \<open>chunk_data.rs\<close>, \<open>seal.rs\<close> and \<open>mod.rs\<close>, which encode a struct as the tuple of its fields.
\<close>

section \<open>Codecs\<close>

definition ssz_bitmap :: "'b bitmap_ops \<Rightarrow> 'b ssz" where
  "ssz_bitmap B =
     \<lparr>ssz_is_fixed = True, ssz_fixed_len = ssz_fixed_len (ssz_uint 8),
      ssz_put = (\<lambda>b buf. buf @ as_ssz_bytes (ssz_uint 8) (unat (bm_into_value B b))),
      ssz_bytes_len = (\<lambda>b. ssz_fixed_len (ssz_uint 8)),
      ssz_get = (\<lambda>bytes. rbind (ssz_get (ssz_uint 8) bytes) (\<lambda>v. Inr (bm_from_value B (of_nat v))))\<rparr>"

definition ssz_seal_context_info :: "seal_context_info ssz" where
  "ssz_seal_context_info =
     ssz_struct (\<lambda>c. (context_digest c, end_seal_index c)) (\<lambda>(d, e). \<lparr>context_digest = d, end_seal_index = e\<rparr>)
       (ssz_tuple2 (ssz_byte_array 32) (ssz_uint 2))"

definition ssz_seal_info :: "'b bitmap_ops \<Rightarrow> 'b seal_info ssz" where
  "ssz_seal_info B =
     ssz_struct (\<lambda>s. (si_bitmap s, si_load_index s, si_miner_id s, si_contexts s))
       (\<lambda>(b, l, m, cs). \<lparr>si_bitmap = b, si_load_index = l, si_miner_id = m, si_contexts = cs\<rparr>)
       (ssz_tuple4 (ssz_bitmap B) (ssz_uint 8) (ssz_byte_array 32) (ssz_vec ssz_seal_context_info None))"

definition ssz_subtree :: "subtree ssz" where
  "ssz_subtree =
     ssz_struct (\<lambda>s. (st_start_sector s, st_subtree_height s, st_root s))
       (\<lambda>(s, h, r). \<lparr>st_start_sector = s, st_subtree_height = h, st_root = r\<rparr>)
       (ssz_tuple3 (ssz_uint 8) (ssz_uint 8) (ssz_byte_array 32))"

definition ssz_partial_batch :: "partial_batch ssz" where
  "ssz_partial_batch =
     \<lparr>ssz_is_fixed = False, ssz_fixed_len = BYTES_PER_LENGTH_OFFSET,
      ssz_put = (\<lambda>p buf. (buf @ be_bytes 8 (pb_start_sector p)) @ pb_data p),
      ssz_bytes_len = (\<lambda>p. 1 + length (pb_data p)),
      ssz_get = (\<lambda>bytes.
        rbind (slice_range bytes 0 8) (\<lambda>head.
        rbind (slice_from bytes 8) (\<lambda>rest.
        Inr \<lparr>pb_start_sector = of_be_bytes head, pb_data = rest\<rparr>)))\<rparr>"

definition ssz_incomplete_data :: "incomplete_data ssz" where
  "ssz_incomplete_data =
     ssz_struct (\<lambda>d. (subtrees d, known_data d)) (\<lambda>(s, k). \<lparr>subtrees = s, known_data = k\<rparr>)
       (ssz_tuple2 (ssz_vec ssz_subtree None) (ssz_vec ssz_partial_batch None))"

definition COMPLETE_BATCH_TYPE :: byte where
  "COMPLETE_BATCH_TYPE = 0"

definition INCOMPLETE_BATCH_TYPE :: byte where
  "INCOMPLETE_BATCH_TYPE = 1"

definition ssz_entry_batch_data :: "entry_batch_data ssz" where
  "ssz_entry_batch_data =
     \<lparr>ssz_is_fixed = False, ssz_fixed_len = BYTES_PER_LENGTH_OFFSET,
      ssz_put = (\<lambda>e buf. case e of
         Complete data \<Rightarrow> (buf @ [COMPLETE_BATCH_TYPE]) @ data
       | Incomplete data_list \<Rightarrow> (buf @ [INCOMPLETE_BATCH_TYPE]) @ as_ssz_bytes ssz_incomplete_data data_list),
      ssz_bytes_len = (\<lambda>e. case e of
         Complete data \<Rightarrow> 1 + length data
       | Incomplete batch_list \<Rightarrow> 1 + ssz_bytes_len ssz_incomplete_data batch_list),
      ssz_get = (\<lambda>bytes. case bytes of
         [] \<Rightarrow> Inl (Err ''ZeroLengthItem'')
       | t # rest \<Rightarrow>
           if t = COMPLETE_BATCH_TYPE then Inr (Complete rest)
           else if t = INCOMPLETE_BATCH_TYPE then rbind (ssz_get ssz_incomplete_data rest) (\<lambda>d. Inr (Incomplete d))
           else Inl (Err ''BytesInvalid''))\<rparr>"

definition ssz_entry_batch :: "'b bitmap_ops \<Rightarrow> 'b entry_batch ssz" where
  "ssz_entry_batch B =
     ssz_struct (\<lambda>e. (eb_seal e, eb_data e)) (\<lambda>(s, d). \<lparr>eb_seal = s, eb_data = d\<rparr>)
       (ssz_tuple2 (ssz_seal_info B) ssz_entry_batch_data)"

section \<open>Well-formed values\<close>

text \<open>The values of the Rust types: \<open>u64\<close> and \<open>u16\<close> numbers, digests of 32 bytes.\<close>

definition wf_context :: "seal_context_info \<Rightarrow> bool" where
  "wf_context c \<longleftrightarrow> length (context_digest c) = 32 \<and> end_seal_index c < 2 ^ 16"

definition wf_subtree :: "subtree \<Rightarrow> bool" where
  "wf_subtree s \<longleftrightarrow> st_start_sector s < 2 ^ 64 \<and> st_subtree_height s < 2 ^ 64 \<and> length (st_root s) = 32"

definition wf_data :: "entry_batch_data \<Rightarrow> bool" where
  "wf_data e = (case e of Complete _ \<Rightarrow> True | Incomplete d \<Rightarrow>
     (\<forall>s \<in> set (subtrees d). wf_subtree s) \<and> (\<forall>p \<in> set (known_data d). pb_start_sector p < 2 ^ 64))"

definition wf_seal_info :: "'b seal_info \<Rightarrow> bool" where
  "wf_seal_info s \<longleftrightarrow> si_load_index s < 2 ^ 64 \<and> length (si_miner_id s) = 32 \<and> (\<forall>c \<in> set (si_contexts s). wf_context c)"

definition wf_entry_batch :: "'b entry_batch \<Rightarrow> bool" where
  "wf_entry_batch e \<longleftrightarrow> wf_seal_info (eb_seal e) \<and> wf_data (eb_data e)"

section \<open>Laws\<close>

lemma ssz_bitmap_codec:
  assumes "\<And>b. bm_from_value B (bm_into_value B b) = b"
  shows "ssz_codec (ssz_bitmap B) (\<lambda>_. True)"
proof -
  have "unat w < 256 ^ 8" for w :: "64 word" using unsigned_less [of w] by simp
  then show ?thesis
    by unfold_locales (auto simp: ssz_bitmap_def as_ssz_bytes_def ssz_uint_def of_le_bytes_le_bytes assms)
qed

lemma ssz_partial_batch_codec: "ssz_codec ssz_partial_batch (\<lambda>p. pb_start_sector p < 2 ^ 64)"
  by unfold_locales (auto simp: ssz_partial_batch_def as_ssz_bytes_def slice_range_def slice_from_def of_be_bytes_be_bytes)

text \<open>A field is not longer than its container.\<close>

lemma tuple2_field_le:
  assumes "ssz_codec a V" "ssz_codec b W"
  shows "length (as_ssz_bytes a x) \<le> length (as_ssz_bytes (ssz_tuple2 a b) (x, y))"
    and "length (as_ssz_bytes b y) \<le> length (as_ssz_bytes (ssz_tuple2 a b) (x, y))"
  unfolding as_ssz_bytes_def [of a] as_ssz_bytes_def [of b] ssz_tuple2_def
  by (rule ssz_fields_codec.field_le [OF add_field_codec [OF assms(1) last_field_codec [OF assms(2)]]],
      simp add: add_field_def last_field_def)+

lemma tuple4_last_le:
  assumes "ssz_codec a V1" "ssz_codec b V2" "ssz_codec c V3" "ssz_codec d V4"
  shows "length (as_ssz_bytes d w) \<le> length (as_ssz_bytes (ssz_tuple4 a b c d) (x, y, z, w))"
  unfolding as_ssz_bytes_def [of d] ssz_tuple4_def
  by (rule ssz_fields_codec.field_le [OF add_field_codec [OF assms(1) add_field_codec [OF assms(2) add_field_codec [OF assms(3)
        last_field_codec [OF assms(4)]]]]], simp add: add_field_def last_field_def)

section \<open>Codecs of a load\<close>

lemma ssz_context_codec: "ssz_codec ssz_seal_context_info wf_context"
  unfolding ssz_seal_context_info_def
  by (rule ssz_codec_mono [OF ssz_struct_codec [OF ssz_tuple2_codec [OF h256.ssz_codec_axioms u16.ssz_codec_axioms]]])
    (auto simp: wf_context_def as_ssz_bytes_def ssz_tuple_defs fields_put_def encoder_finalize_def encoder_container_def
      append_parameterized_def ssz_kind_def ssz_byte_array_def ssz_uint_def)

lemma ssz_subtree_codec: "ssz_codec ssz_subtree wf_subtree"
  unfolding ssz_subtree_def
  by (rule ssz_codec_mono [OF ssz_struct_codec [OF ssz_tuple3_codec [OF u64.ssz_codec_axioms u64.ssz_codec_axioms h256.ssz_codec_axioms]]])
    (auto simp: wf_subtree_def as_ssz_bytes_def ssz_tuple_defs fields_put_def encoder_finalize_def encoder_container_def
      append_parameterized_def ssz_kind_def ssz_byte_array_def ssz_uint_def)

lemmas contexts_codec = ssz_codec.vec_codec [OF ssz_context_codec, of None, simplified option.case]
lemmas subtrees_codec = ssz_codec.vec_codec [OF ssz_subtree_codec, of None, simplified option.case]
lemmas batches_codec = ssz_codec.vec_codec [OF ssz_partial_batch_codec, of None, simplified option.case]

lemma ssz_incomplete_codec:
  "ssz_codec ssz_incomplete_data (\<lambda>d. wf_data (Incomplete d) \<and> length (as_ssz_bytes ssz_incomplete_data d) < 2 ^ 32)"
  unfolding ssz_incomplete_data_def
  by (rule ssz_codec_mono [OF ssz_struct_codec [OF ssz_tuple2_codec [OF subtrees_codec batches_codec]]])
    (auto simp: wf_data_def intro: le_less_trans [OF tuple2_field_le(1) [OF subtrees_codec batches_codec]]
      le_less_trans [OF tuple2_field_le(2) [OF subtrees_codec batches_codec]])

lemma ssz_data_codec:
  "ssz_codec ssz_entry_batch_data (\<lambda>e. wf_data e \<and> length (as_ssz_bytes ssz_entry_batch_data e) < 2 ^ 32)"
proof
  show "ssz_get ssz_entry_batch_data (as_ssz_bytes ssz_entry_batch_data e) = Inr e"
    if "wf_data e \<and> length (as_ssz_bytes ssz_entry_batch_data e) < 2 ^ 32" for e
    using that ssz_codec.round_trip [OF ssz_incomplete_codec]
    by (cases e) (auto simp: ssz_entry_batch_data_def as_ssz_bytes_def [of "\<lparr>ssz_is_fixed = False, ssz_fixed_len = _, ssz_put = _, ssz_bytes_len = _, ssz_get = _\<rparr>"]
        COMPLETE_BATCH_TYPE_def INCOMPLETE_BATCH_TYPE_def)
qed (auto simp: ssz_entry_batch_data_def as_ssz_bytes_def split: entry_batch_data.splits)

lemma ssz_seal_info_codec:
  assumes "bitmap64_value B"
  shows "ssz_codec (ssz_seal_info B) (\<lambda>s. wf_seal_info s \<and> length (as_ssz_bytes (ssz_seal_info B) s) < 2 ^ 32)"
proof -
  note bm = ssz_bitmap_codec [of B, OF bitmap64_value.from_into_value [OF assms]]
  note parts = bm u64.ssz_codec_axioms h256.ssz_codec_axioms contexts_codec
  show ?thesis unfolding ssz_seal_info_def
    by (rule ssz_codec_mono [OF ssz_struct_codec [OF ssz_tuple4_codec [OF parts]]])
      (auto simp: wf_seal_info_def intro: le_less_trans [OF tuple4_last_le [OF parts]])
qed

lemma ssz_entry_batch_codec:
  assumes "bitmap64_value B"
  shows "ssz_codec (ssz_entry_batch B) (\<lambda>e. wf_entry_batch e \<and> length (as_ssz_bytes (ssz_entry_batch B) e) < 2 ^ 32)"
proof -
  note parts = ssz_seal_info_codec [OF assms] ssz_data_codec
  show ?thesis unfolding ssz_entry_batch_def
    by (rule ssz_codec_mono [OF ssz_struct_codec [OF ssz_tuple2_codec [OF parts]]])
      (auto simp: wf_entry_batch_def intro: le_less_trans [OF tuple2_field_le(1) [OF parts]] le_less_trans [OF tuple2_field_le(2) [OF parts]])
qed

section \<open>Properties\<close>

text \<open>C20: a stored load is read back as it was: for every \<open>EntryBatch\<close> whose encoding fits the four-byte
  offsets of SSZ, whatever is known and sealed of it, \<open>from_ssz_bytes\<close> undoes \<open>as_ssz_bytes\<close>.\<close>

theorem entry_batch_round_trip:
  assumes "bitmap64_value B" "wf_entry_batch eb" "length (as_ssz_bytes (ssz_entry_batch B) eb) < 2 ^ 32"
  shows "ssz_get (ssz_entry_batch B) (as_ssz_bytes (ssz_entry_batch B) eb) = Inr eb"
  using ssz_codec.round_trip [OF ssz_entry_batch_codec [OF assms(1)]] assms(2,3) by blast

definition stored_batch :: "64 word entry_batch" where
  "stored_batch = \<lparr>eb_seal = \<lparr>si_bitmap = 1, si_load_index = 3, si_miner_id = replicate 32 5,
       si_contexts = [\<lparr>context_digest = replicate 32 6, end_seal_index = 1\<rparr>]\<rparr>,
     eb_data = Incomplete \<lparr>subtrees = [\<lparr>st_start_sector = 1, st_subtree_height = 1, st_root = replicate 32 9\<rparr>],
       known_data = [\<lparr>pb_start_sector = 0, pb_data = [1, 2]\<rparr>, \<lparr>pb_start_sector = 5, pb_data = [3]\<rparr>]\<rparr>\<rparr>"

theorem entry_batch_round_trip_witness:
  "wf_entry_batch stored_batch \<and> length (as_ssz_bytes (ssz_entry_batch word_bitmap) stored_batch) < 2 ^ 32 \<and>
   ssz_get (ssz_entry_batch word_bitmap) (as_ssz_bytes (ssz_entry_batch word_bitmap) stored_batch) = Inr stored_batch"
proof -
  have "wf_entry_batch stored_batch" by (simp add: stored_batch_def wf_entry_batch_def wf_seal_info_def wf_context_def wf_data_def wf_subtree_def)
  moreover have "length (as_ssz_bytes (ssz_entry_batch word_bitmap) stored_batch) = 178"
    by (simp add: ssz_entry_batch_def ssz_seal_info_def ssz_entry_batch_data_def ssz_incomplete_data_def ssz_partial_batch_def
        ssz_seal_context_info_def ssz_subtree_def ssz_bitmap_def ssz_struct_def stored_batch_def ssz_tuple_defs
        ssz_vec_def ssz_uint_def ssz_byte_array_def ssz_kind_def fields_put_def fields_fixed_def fields_len_def Let_def
        encoder_finalize_def encoder_container_def append_parameterized_def encode_length_eq as_ssz_bytes_def)
  then have "length (as_ssz_bytes (ssz_entry_batch word_bitmap) stored_batch) < 2 ^ 32" by simp
  ultimately show ?thesis using entry_batch_round_trip [OF word_bitmap.bitmap64_value_axioms] by blast
qed





text \<open>C34: a partial batch is the exception: its decoder slices the first eight bytes without a check and
  panics exactly on shorter input, and its \<open>ssz_bytes_len\<close> is seven bytes less than the length of its encoding.\<close>

theorem partial_batch_codec_defects:
  "(panics (ssz_get ssz_partial_batch bytes) \<longleftrightarrow> length bytes < 8) \<and>
   ssz_bytes_len ssz_partial_batch p + 7 = length (as_ssz_bytes ssz_partial_batch p)"
  by (auto simp: ssz_partial_batch_def as_ssz_bytes_def slice_range_def slice_from_def panics_rbind)

end
