(* ===== verification/Flow_Store.thy ===== *)
theory Flow_Store
  imports Kv_Store Load_Root Load_Codec Shard_Config
begin

text \<open>
  The store of the flow, \<open>node/storage/src/log_store/flow_store.rs\<close>, with the list of segments to be sealed of
  \<open>seal_task_manager.rs\<close>. The data database holds one encoded \<open>EntryBatch\<close> per load under its big-endian
  index; the flow database holds the nodes of the flow tree and the padding of each transaction. The time of
  the system clock in seconds is the argument \<open>now\<close>; \<open>keccak\<close>, the cache \<open>C\<close> of the Merkle trees, the bitmaps \<open>B\<close>
  and the database \<open>D\<close> are parameters.
\<close>

section \<open>Segments to be sealed\<close>

text \<open>A \<open>BTreeMap\<close> as the list of its entries in the order of the keys.\<close>

fun bt_insert :: "nat \<Rightarrow> 'v \<Rightarrow> (nat \<times> 'v) list \<Rightarrow> (nat \<times> 'v) list" where
  "bt_insert k v [] = [(k, v)]"
| "bt_insert k v ((k', v') # xs) =
     (if k < k' then (k, v) # (k', v') # xs
      else if k = k' then (k, v) # xs
      else (k', v') # bt_insert k v xs)"

definition bt_remove :: "nat \<Rightarrow> (nat \<times> 'v) list \<Rightarrow> (nat \<times> 'v) list" where
  "bt_remove k xs = filter (\<lambda>x. fst x \<noteq> k) xs"

definition bt_split_off :: "nat \<Rightarrow> (nat \<times> 'v) list \<Rightarrow> (nat \<times> 'v) list" where
  "bt_split_off k xs = filter (\<lambda>x. fst x < k) xs"

record seal_task_manager =
  to_seal_set :: "(nat \<times> nat) list"
  to_seal_version :: nat
  last_pull_time :: nat

definition seal_manager_new :: "nat \<Rightarrow> seal_task_manager" where
  "seal_manager_new now = \<lparr>to_seal_set = [], to_seal_version = 0, last_pull_time = now\<rparr>"

definition SEAL_TASK_PULL_TIMEOUT_SECONDS :: nat where
  "SEAL_TASK_PULL_TIMEOUT_SECONDS = 300"

definition seal_delete_batch_list :: "nat list \<Rightarrow> seal_task_manager \<Rightarrow> seal_task_manager" where
  "seal_delete_batch_list batch_list m =
     fold (\<lambda>batch_index. fold (\<lambda>seal_index. to_seal_set_update (bt_remove seal_index))
             [batch_index * SEALS_PER_LOAD..<(batch_index + 1) * SEALS_PER_LOAD]) batch_list m"

definition update_pull_time :: "nat \<Rightarrow> seal_task_manager \<Rightarrow> seal_task_manager" where
  "update_pull_time now m = m\<lparr>last_pull_time := now\<rparr>"

text \<open>\<open>saturating_sub\<close> is the subtraction of natural numbers.\<close>

definition seal_worker_available :: "nat \<Rightarrow> seal_task_manager \<Rightarrow> bool" where
  "seal_worker_available now m \<longleftrightarrow> now - last_pull_time m < SEAL_TASK_PULL_TIMEOUT_SECONDS"

definition inc_seal_version :: "seal_task_manager \<Rightarrow> nat \<times> seal_task_manager" where
  "inc_seal_version m =
     (let v = (to_seal_version m + 1) mod 2 ^ 64 in (v, m\<lparr>to_seal_version := v\<rparr>))"

section \<open>Ranges of batches\<close>

definition step_by :: "nat \<Rightarrow> nat \<Rightarrow> nat \<Rightarrow> nat list" where
  "step_by a e k = map (\<lambda>j. a + j * k) [0..<(e - a + k - 1) div k]"

definition batch_iter :: "nat \<Rightarrow> nat \<Rightarrow> nat \<Rightarrow> (nat \<times> nat) list res" where
  "batch_iter start end_index batch_size =
     rbind (ensure (batch_size \<noteq> 0) (Panic ''attempt to divide by zero'')) (\<lambda>_.
     Inr (map (\<lambda>i. (max start i, min end_index (i + batch_size)))
            (step_by (start div batch_size * batch_size) end_index batch_size)))"

definition batch_iter_sharded :: "nat \<Rightarrow> nat \<Rightarrow> nat \<Rightarrow> shard_config \<Rightarrow> (nat \<times> nat) list res" where
  "batch_iter_sharded start end_index batch_size sc =
     rbind (batch_iter start end_index batch_size) (\<lambda>l.
     rbind (ensure (l = [] \<or> num_shard sc \<noteq> 0) (Panic ''remainder with a divisor of zero'')) (\<lambda>_.
     Inr (filter (\<lambda>(start, _). start div batch_size mod num_shard sc = shard_id sc) l)))"

section \<open>The database of entry batches\<close>

definition try_decode_usize :: "byte list \<Rightarrow> nat res" where
  "try_decode_usize data =
     rbind (ensure (length data = 8) (Err ''could not convert slice to array'')) (\<lambda>_. Inr (of_be_bytes data))"

definition get_entry_batch :: "'b bitmap_ops \<Rightarrow> 'd kv_ops \<Rightarrow> nat \<Rightarrow> 'd \<Rightarrow> 'b entry_batch option res" where
  "get_entry_batch B D batch_index db =
     robind (kv_get D db COL_ENTRY_BATCH (be_bytes 8 batch_index)) (\<lambda>raw.
     rbind (ssz_get (ssz_entry_batch B) raw) (\<lambda>eb. Inr (Some eb)))"

definition put_batch_op :: "'b bitmap_ops \<Rightarrow> nat \<times> 'b entry_batch \<Rightarrow> db_op" where
  "put_batch_op B x = Insert COL_ENTRY_BATCH (be_bytes 8 (fst x)) (as_ssz_bytes (ssz_entry_batch B) (snd x))"

definition put_entry_batch_list ::
    "(byte list \<Rightarrow> h256) \<Rightarrow> (optional_hash, 'c) lru_ops \<Rightarrow> 'b bitmap_ops \<Rightarrow> 'd kv_ops \<Rightarrow>
     (nat \<times> 'b entry_batch) list \<Rightarrow> 'd \<Rightarrow> ('d \<times> (nat \<times> h256) list) res" where
  "put_entry_batch_list keccak C B D batch_list db =
     rbind (rfold (\<lambda>(batch_index, batch) completed.
              rbind (build_root keccak C B batch (batch_index = 0)) (\<lambda>r.
              Inr (case r of Some root \<Rightarrow> completed @ [(batch_index, root)] | None \<Rightarrow> completed)))
            batch_list []) (\<lambda>completed_batches.
     rbind (kv_write D db (map (put_batch_op B) batch_list)) (\<lambda>db.
     Inr (db, completed_batches)))"

definition put_entry_raw :: "'b bitmap_ops \<Rightarrow> 'd kv_ops \<Rightarrow> (nat \<times> 'b entry_batch) list \<Rightarrow> 'd \<Rightarrow> 'd res" where
  "put_entry_raw B D batch_list db = kv_write D db (map (put_batch_op B) batch_list)"

text \<open>The part of \<open>truncate\<close> that shortens the batch in which the flow now ends.\<close>

definition truncate_first ::
    "(byte list \<Rightarrow> h256) \<Rightarrow> 'b bitmap_ops \<Rightarrow> 'd kv_ops \<Rightarrow> nat \<Rightarrow> nat \<Rightarrow> 'd \<Rightarrow> (db_op list \<times> nat list) res" where
  "truncate_first keccak B D start_batch_index first_batch_offset db =
     rbind (get_entry_batch B D start_batch_index db) (\<lambda>found.
     case found of
       None \<Rightarrow> Inr ([], [])
     | Some first_batch \<Rightarrow>
         rbind (entry_batch_truncate keccak B first_batch_offset first_batch) (\<lambda>(first_batch, reseal).
         Inr ([if \<not> entry_batch_is_empty first_batch then put_batch_op B (start_batch_index, first_batch)
               else Delete COL_ENTRY_BATCH (be_bytes 8 start_batch_index)],
              map (\<lambda>x. start_batch_index * SEALS_PER_LOAD + x) reseal)))"

definition flow_db_truncate ::
    "(byte list \<Rightarrow> h256) \<Rightarrow> 'b bitmap_ops \<Rightarrow> 'd kv_ops \<Rightarrow> nat \<Rightarrow> nat \<Rightarrow> 'd \<Rightarrow> ('d \<times> nat list) res" where
  "flow_db_truncate keccak B D start_index batch_size db =
     rbind (ensure (batch_size \<noteq> 0) (Panic ''attempt to divide by zero'')) (\<lambda>_.
     let start_batch_index = start_index div batch_size;
         first_batch_offset = start_index mod batch_size
     in
     rbind (if first_batch_offset \<noteq> 0 then truncate_first keccak B D start_batch_index first_batch_offset db
            else Inr ([], [])) (\<lambda>(tx, index_to_reseal).
     let start_batch_index = (if first_batch_offset \<noteq> 0 then start_batch_index + 1 else start_batch_index);
         entries = kv_iter D db COL_ENTRY_BATCH
     in
     if entries = [] then Inr (db, index_to_reseal)
     else
       rbind (last entries) (\<lambda>(k, _).
       rbind (try_decode_usize k) (\<lambda>end_index.
       rbind (kv_write D db (tx @ map (\<lambda>i. Delete COL_ENTRY_BATCH (be_bytes 8 i)) [start_batch_index..<end_index + 1])) (\<lambda>db.
       Inr (db, index_to_reseal))))))"

definition db_delete_batch_list :: "'d kv_ops \<Rightarrow> nat list \<Rightarrow> 'd \<Rightarrow> 'd res" where
  "db_delete_batch_list D batch_list db =
     kv_write D db (map (\<lambda>i. Delete COL_ENTRY_BATCH (be_bytes 8 i)) batch_list)"

section \<open>Padding of transactions\<close>

record pad_pair =
  pad_start_index :: nat
  pad_data_size :: nat

definition ssz_pad_pair :: "pad_pair ssz" where
  "ssz_pad_pair =
     ssz_struct (\<lambda>p. (pad_start_index p, pad_data_size p)) (\<lambda>(i, n). \<lparr>pad_start_index = i, pad_data_size = n\<rparr>)
       (ssz_tuple2 (ssz_uint 8) (ssz_uint 8))"

definition sync_height_key :: "byte list" where
  "sync_height_key = map of_char ''sync_height''"

definition put_pad_data :: "'d kv_ops \<Rightarrow> pad_pair list \<Rightarrow> nat \<Rightarrow> 'd \<Rightarrow> 'd res" where
  "put_pad_data D data_sizes seq db =
     kv_write D db [Insert COL_PAD_DATA_LIST (be_bytes 8 seq) (concat (map (as_ssz_bytes ssz_pad_pair) data_sizes))]"

definition put_pad_data_sync_height :: "'d kv_ops \<Rightarrow> nat \<Rightarrow> 'd \<Rightarrow> 'd res" where
  "put_pad_data_sync_height D seq db =
     kv_write D db [Insert COL_PAD_DATA_SYNC_HEIGH sync_height_key (be_bytes 8 seq)]"

definition get_pad_data_sync_height :: "'d kv_ops \<Rightarrow> 'd \<Rightarrow> nat option res" where
  "get_pad_data_sync_height D db =
     robind (kv_get D db COL_PAD_DATA_SYNC_HEIGH sync_height_key) (\<lambda>v.
     rbind (try_decode_usize v) (\<lambda>n. Inr (Some n)))"

definition get_pad_data :: "'d kv_ops \<Rightarrow> nat \<Rightarrow> 'd \<Rightarrow> pad_pair list option res" where
  "get_pad_data D seq db =
     robind (kv_get D db COL_PAD_DATA_LIST (be_bytes 8 seq)) (\<lambda>v.
     rbind (ssz_get (ssz_vec ssz_pad_pair None) v) (\<lambda>l. Inr (Some l)))"

section \<open>The nodes of the flow tree\<close>

definition encode_mpt_node_key :: "nat \<Rightarrow> nat \<Rightarrow> byte list" where
  "encode_mpt_node_key layer_index position = be_bytes 8 layer_index @ be_bytes 8 position"

definition layer_size_key :: "nat \<Rightarrow> byte list" where
  "layer_size_key layer = map of_char ''layer_size'' @ be_bytes 8 layer"

definition flow_get_node :: "'d kv_ops \<Rightarrow> 'd \<Rightarrow> nat \<Rightarrow> nat \<Rightarrow> optional_hash option res" where
  "flow_get_node D db layer pos =
     robind (kv_get D db COL_FLOW_MPT_NODES (encode_mpt_node_key layer pos)) (\<lambda>v.
     rbind (ensure (length v = 33) (Panic ''could not convert slice to array'')) (\<lambda>_.
     rbind (unwrap (from_bytes v)) (\<lambda>h. Inr (Some h))))"

definition flow_get_layer_size :: "'d kv_ops \<Rightarrow> 'd \<Rightarrow> nat \<Rightarrow> nat option res" where
  "flow_get_layer_size D db layer =
     robind (kv_get D db COL_FLOW_MPT_NODES (layer_size_key layer)) (\<lambda>v.
     rbind (try_decode_usize v) (\<lambda>n. Inr (Some n)))"

definition flow_node_database :: "'d kv_ops \<Rightarrow> (optional_hash, 'd, db_op list) node_database" where
  "flow_node_database D =
     \<lparr>db_get_node = flow_get_node D,
      db_get_layer_size = flow_get_layer_size D,
      db_start_transaction = (\<lambda>_. []),
      db_commit = (\<lambda>db tx. case kv_write D db tx of Inl e \<Rightarrow> (db, Inl e) | Inr db' \<Rightarrow> (db', Inr ())),
      tx_save_node = (\<lambda>tx layer pos node. tx @ [Insert COL_FLOW_MPT_NODES (encode_mpt_node_key layer pos) (as_bytes node)]),
      tx_save_node_list = (\<lambda>tx nodes.
        tx @ map (\<lambda>(layer, pos, node). Insert COL_FLOW_MPT_NODES (encode_mpt_node_key layer pos) (as_bytes node)) nodes),
      tx_remove_node_list = (\<lambda>tx nodes.
        tx @ map (\<lambda>(layer, pos). Delete COL_FLOW_MPT_NODES (encode_mpt_node_key layer pos)) nodes),
      tx_save_layer_size = (\<lambda>tx layer n. tx @ [Insert COL_FLOW_MPT_NODES (layer_size_key layer) (be_bytes 8 n)]),
      tx_remove_layer_size = (\<lambda>tx layer. tx @ [Delete COL_FLOW_MPT_NODES (layer_size_key layer)])\<rparr>"

section \<open>The flow store\<close>

record 'd flow_store =
  flow_db :: 'd
  data_db :: 'd
  seal_manager :: seal_task_manager
  batch_size :: nat
  flow_shard :: shard_config

definition flow_store_new :: "'d \<Rightarrow> 'd \<Rightarrow> nat \<Rightarrow> shard_config \<Rightarrow> nat \<Rightarrow> 'd flow_store" where
  "flow_store_new fdb ddb bs sc now =
     \<lparr>flow_db = fdb, data_db = ddb, seal_manager = seal_manager_new now, batch_size = bs, flow_shard = sc\<rparr>"

definition put_data_db :: "('d \<Rightarrow> 'd res) \<Rightarrow> ('d flow_store, unit) io" where
  "put_data_db f s = (case f (data_db s) of Inl e \<Rightarrow> (Inl e, s) | Inr db \<Rightarrow> (Inr (), s\<lparr>data_db := db\<rparr>))"

definition put_flow_db :: "('d \<Rightarrow> 'd res) \<Rightarrow> ('d flow_store, unit) io" where
  "put_flow_db f s = (case f (flow_db s) of Inl e \<Rightarrow> (Inl e, s) | Inr db \<Rightarrow> (Inr (), s\<lparr>flow_db := db\<rparr>))"

definition batch_or_new :: "'b bitmap_ops \<Rightarrow> 'd kv_ops \<Rightarrow> nat \<Rightarrow> 'd flow_store \<Rightarrow> 'b entry_batch res" where
  "batch_or_new B D batch_index s =
     rbind (get_entry_batch B D batch_index (data_db s)) (\<lambda>found.
     Inr (case found of Some b \<Rightarrow> b | None \<Rightarrow> entry_batch_new B batch_index))"

definition insert_subtree_list_for_batch ::
    "'b bitmap_ops \<Rightarrow> 'd kv_ops \<Rightarrow> nat \<Rightarrow> (nat \<times> nat \<times> h256) list \<Rightarrow> ('d flow_store, unit) io" where
  "insert_subtree_list_for_batch B D batch_index subtree_list =
     io_bind (io_read (batch_or_new B D batch_index)) (\<lambda>batch.
     io_bind (io_lift (set_subtree_list subtree_list batch)) (\<lambda>batch.
     put_data_db (put_entry_raw B D [(batch_index, batch)])))"

definition gen_proof_in_batch ::
    "(byte list \<Rightarrow> h256) \<Rightarrow> (optional_hash, 'c) lru_ops \<Rightarrow> 'b bitmap_ops \<Rightarrow> 'd kv_ops \<Rightarrow> nat \<Rightarrow> nat \<Rightarrow> 'd flow_store \<Rightarrow>
     h256 merkle_proof res" where
  "gen_proof_in_batch keccak C B D batch_index sector_index s =
     rbind (get_entry_batch B D batch_index (data_db s)) (\<lambda>found.
     rbind (ok_or (Err ''batch missing'') found) (\<lambda>batch.
     rbind (to_merkle_tree keccak C B batch (batch_index = 0)) (\<lambda>r.
     rbind (ok_or (Err ''batch data incomplete for building a merkle tree'') r) (\<lambda>merkle.
     rbind (gen_proof (sha3_optional keccak) (amt_read (sha3_optional keccak) C empty_node_database merkle) sector_index)
       convert_proof_to_h256))))"

definition delete_batch_list :: "'d kv_ops \<Rightarrow> nat list \<Rightarrow> ('d flow_store, unit) io" where
  "delete_batch_list D batch_list =
     io_bind (io_modify (seal_manager_update (seal_delete_batch_list batch_list))) (\<lambda>_.
     put_data_db (db_delete_batch_list D batch_list))"

text \<open>One batch of the range that \<open>get_entries\<close> reads.\<close>

definition read_batch ::
    "(byte list \<Rightarrow> h256) \<Rightarrow> 'b bitmap_ops \<Rightarrow> 'd kv_ops \<Rightarrow> 'd flow_store \<Rightarrow> nat \<times> nat \<Rightarrow> byte list \<Rightarrow> byte list option res" where
  "read_batch keccak B D s rng data =
     (case rng of (start_entry, end_entry) \<Rightarrow>
        let chunk_index = start_entry div batch_size s;
            offset = start_entry - chunk_index * batch_size s;
            len = wsub end_entry start_entry;
            (offset, len) = (if chunk_index = 0 \<and> offset = 0 then (1, wsub len 1) else (offset, len))
        in robind (get_entry_batch B D chunk_index (data_db s)) (\<lambda>entry_batch.
           robind (get_unsealed_data keccak B entry_batch offset len) (\<lambda>d.
           Inr (Some (data @ d)))))"

definition get_entries ::
    "(byte list \<Rightarrow> h256) \<Rightarrow> 'b bitmap_ops \<Rightarrow> 'd kv_ops \<Rightarrow> nat \<Rightarrow> nat \<Rightarrow> 'd flow_store \<Rightarrow> chunk_array option res" where
  "get_entries keccak B D index_start index_end s =
     (if index_end \<le> index_start then Inl (Err ''invalid entry index'')
      else
        rbind (batch_iter index_start index_end (batch_size s)) (\<lambda>l.
        robind (rofold (read_batch keccak B D s) l []) (\<lambda>data.
        Inr (Some \<lparr>ca_data = data, ca_start_index = index_start\<rparr>))))"

text \<open>The list of a batch is joined to the entries before it when the two touch.\<close>

definition join_entries :: "chunk_array list \<Rightarrow> chunk_array list \<Rightarrow> chunk_array list" where
  "join_entries entry_list data_list =
     (if data_list = [] then entry_list
      else if entry_list \<noteq> [] \<and>
              ca_start_index (last entry_list) + bytes_to_entries (length (ca_data (last entry_list))) = ca_start_index (hd data_list)
      then butlast entry_list @
           [(last entry_list)\<lparr>ca_data := ca_data (last entry_list) @ ca_data (hd data_list)\<rparr>] @ tl data_list
      else entry_list @ data_list)"

definition available_step ::
    "(byte list \<Rightarrow> h256) \<Rightarrow> 'b bitmap_ops \<Rightarrow> 'd kv_ops \<Rightarrow> 'd flow_store \<Rightarrow> nat \<times> nat \<Rightarrow> chunk_array list \<Rightarrow> chunk_array list res" where
  "available_step keccak B D s rng entry_list =
     (let start_entry = fst rng; chunk_index = start_entry div batch_size s in
      rbind (get_entry_batch B D chunk_index (data_db s)) (\<lambda>found.
      case found of
        None \<Rightarrow> Inr entry_list
      | Some b \<Rightarrow>
          rbind (into_data_list keccak B b start_entry) (\<lambda>data_list.
          Inr (join_entries entry_list data_list))))"

definition get_available_entries ::
    "(byte list \<Rightarrow> h256) \<Rightarrow> 'b bitmap_ops \<Rightarrow> 'd kv_ops \<Rightarrow> nat \<Rightarrow> nat \<Rightarrow> 'd flow_store \<Rightarrow> chunk_array list res" where
  "get_available_entries keccak B D index_start index_end s =
     (if index_end \<le> index_start then Inl (Err ''invalid entry index'')
      else
        rbind (ensure (batch_size s \<noteq> 0) (Panic ''remainder with a divisor of zero'')) (\<lambda>_.
        if index_start mod batch_size s \<noteq> 0 \<or> index_end mod batch_size s \<noteq> 0 then Inl (Err ''invalid entry index'')
        else
          rbind (batch_iter index_start index_end (batch_size s)) (\<lambda>l.
          rfold (available_step keccak B D s) l [])))"

record mine_load_chunk =
  loaded_chunk :: "byte list list"
  availabilities :: "bool list"

definition load_sealed_data :: "'b bitmap_ops \<Rightarrow> 'd kv_ops \<Rightarrow> nat \<Rightarrow> 'd flow_store \<Rightarrow> mine_load_chunk option res" where
  "load_sealed_data B D chunk_index s =
     robind (get_entry_batch B D chunk_index (data_db s)) (\<lambda>batch.
     rbind (rmap (get_sealed_data B batch) [0..<SEALS_PER_LOAD]) (\<lambda>rs.
     Inr (Some \<lparr>loaded_chunk = map (\<lambda>r. case r of Some d \<Rightarrow> d | None \<Rightarrow> replicate BYTES_PER_SEAL 0) rs,
                availabilities = map (\<lambda>r. r \<noteq> None) rs\<rparr>)))"

definition load_raw_data :: "'b bitmap_ops \<Rightarrow> 'd kv_ops \<Rightarrow> nat \<Rightarrow> 'd flow_store \<Rightarrow> 'b entry_batch option res" where
  "load_raw_data B D chunk_index s = get_entry_batch B D chunk_index (data_db s)"

definition get_num_entries :: "'d kv_ops \<Rightarrow> 'd flow_store \<Rightarrow> nat res" where
  "get_num_entries D s =
     rbind (kv_num_keys D (data_db s) COL_ENTRY_BATCH) (\<lambda>num_batches. Inr (num_batches * PORA_CHUNK_SIZE mod 2 ^ 64))"

section \<open>Appending and truncating\<close>

definition seals_to_add :: "'b bitmap_ops \<Rightarrow> nat \<Rightarrow> 'b entry_batch \<Rightarrow> seal_task_manager \<Rightarrow> seal_task_manager" where
  "seals_to_add B chunk_index batch m =
     fold (\<lambda>seal_index m.
             if \<not> is_sealed B (eb_seal batch) seal_index
             then m\<lparr>to_seal_set := bt_insert (chunk_index * SEALS_PER_LOAD + seal_index) (to_seal_version m) (to_seal_set m)\<rparr>
             else m) [0..<SEALS_PER_LOAD] m"

definition append_step ::
    "(byte list \<Rightarrow> h256) \<Rightarrow> 'b bitmap_ops \<Rightarrow> 'd kv_ops \<Rightarrow> nat \<Rightarrow> chunk_array \<Rightarrow> nat \<times> nat \<Rightarrow> (nat \<times> 'b entry_batch) list \<Rightarrow>
     ('d flow_store, (nat \<times> 'b entry_batch) list) io" where
  "append_step keccak B D now data rng batch_list =
     io_bind (io_lift (rbind (sub_array data (fst rng) (snd rng)) (ok_or (Panic ''in range'')))) (\<lambda>chunk.
     io_bind (io_gets batch_size) (\<lambda>bs.
     io_bind (io_gets flow_shard) (\<lambda>sc.
     let chunk_index = ca_start_index chunk div bs in
     io_bind (io_lift (in_range sc chunk_index)) (\<lambda>mine.
     if \<not> mine then io_return batch_list
     else
       io_bind (io_read (batch_or_new B D chunk_index)) (\<lambda>batch.
       io_bind (io_lift (entry_batch_insert_data keccak B (ca_start_index chunk mod bs) (ca_data chunk) batch)) (\<lambda>(batch, _).
       io_bind (io_modify (\<lambda>s.
         if seal_worker_available now (seal_manager s) \<and> entry_batch_is_complete batch
         then s\<lparr>seal_manager := seals_to_add B chunk_index batch (seal_manager s)\<rparr> else s)) (\<lambda>_.
       io_return (batch_list @ [(chunk_index, batch)]))))))))"

definition append_entries ::
    "(byte list \<Rightarrow> h256) \<Rightarrow> (optional_hash, 'c) lru_ops \<Rightarrow> 'b bitmap_ops \<Rightarrow> 'd kv_ops \<Rightarrow> nat \<Rightarrow> chunk_array \<Rightarrow>
     ('d flow_store, (nat \<times> h256) list) io" where
  "append_entries keccak C B D now data =
     io_bind (io_lift (ensure (length (ca_data data) mod BYTES_PER_SECTOR = 0) (Err ''append_entries: invalid data size''))) (\<lambda>_.
     io_bind (io_read (\<lambda>s. batch_iter (ca_start_index data)
       (ca_start_index data + bytes_to_entries (length (ca_data data))) (batch_size s))) (\<lambda>l.
     io_bind (io_fold (append_step keccak B D now data) l []) (\<lambda>batch_list.
     \<lambda>s. case put_entry_batch_list keccak C B D batch_list (data_db s) of
           Inl e \<Rightarrow> (Inl e, s)
         | Inr (db, roots) \<Rightarrow> (Inr roots, s\<lparr>data_db := db\<rparr>))))"

definition flow_truncate ::
    "(byte list \<Rightarrow> h256) \<Rightarrow> 'b bitmap_ops \<Rightarrow> 'd kv_ops \<Rightarrow> nat \<Rightarrow> ('d flow_store, unit) io" where
  "flow_truncate keccak B D start_index s =
     (case flow_db_truncate keccak B D start_index (batch_size s) (data_db s) of
        Inl e \<Rightarrow> (Inl e, s)
      | Inr (db, to_reseal) \<Rightarrow>
          let m = to_seal_set_update (bt_split_off (start_index div SECTORS_PER_SEAL)) (seal_manager s);
              (new_seal_version, m) = inc_seal_version m;
              m = fold (\<lambda>x. to_seal_set_update (bt_insert x new_seal_version)) to_reseal m
          in (Inr (), s\<lparr>data_db := db, seal_manager := m\<rparr>))"

definition flow_update_shard_config :: "shard_config \<Rightarrow> 'd flow_store \<Rightarrow> 'd flow_store" where
  "flow_update_shard_config sc s = s\<lparr>flow_shard := sc\<rparr>"

section \<open>Sealing\<close>

record seal_task =
  task_seal_index :: nat
  task_version :: nat
  non_sealed_data :: "byte list"

definition pull_seal_chunk ::
    "'b bitmap_ops \<Rightarrow> 'd kv_ops \<Rightarrow> nat \<Rightarrow> nat \<Rightarrow> ('d flow_store, seal_task list option) io" where
  "pull_seal_chunk B D now seal_index_max =
     io_bind (io_modify (seal_manager_update (update_pull_time now))) (\<lambda>_.
     io_read (\<lambda>s.
       case to_seal_set (seal_manager s) of
         [] \<Rightarrow> Inr None
       | (first_index, first_version) # to_seal_iter \<Rightarrow>
           if seal_index_max \<le> first_index then Inr None
           else
             rbind (get_entry_batch B D (first_index div SEALS_PER_LOAD) (data_db s)) (\<lambda>found.
             rbind (ok_or (Panic ''Lost data chunk in to_seal_set'') found) (\<lambda>batch_data.
             rbind (rmap (\<lambda>(seal_index, version).
                      rbind (get_non_sealed_data B batch_data (seal_index mod SEALS_PER_LOAD)) (\<lambda>r.
                      rbind (ok_or (Panic ''Lost seal chunk in to_seal_set'') r) (\<lambda>d.
                      Inr \<lparr>task_seal_index = seal_index, task_version = version, non_sealed_data = d\<rparr>)))
                    ((first_index, first_version) #
                     filter (\<lambda>(x, _). first_index div SEALS_PER_LOAD = x div SEALS_PER_LOAD \<and> x < seal_index_max) to_seal_iter)) (\<lambda>tasks.
             Inr (Some tasks))))))"

text \<open>\<open>chunk_by\<close>: maximal runs of answers for the same load.\<close>

fun chunk_by :: "('a \<Rightarrow> 'k) \<Rightarrow> 'a list \<Rightarrow> ('k \<times> 'a list) list" where
  "chunk_by f [] = []"
| "chunk_by f (x # xs) =
     (case chunk_by f xs of
        (k, ys) # rest \<Rightarrow> if k = f x then (k, x # ys) # rest else (f x, [x]) # (k, ys) # rest
      | [] \<Rightarrow> [(f x, [x])])"

definition submit_group ::
    "'b bitmap_ops \<Rightarrow> 'd kv_ops \<Rightarrow> 'd flow_store \<Rightarrow> nat \<times> seal_answer list \<Rightarrow> (nat \<times> 'b entry_batch) list \<Rightarrow>
     (nat \<times> 'b entry_batch) list res" where
  "submit_group B D s grp updated_chunk =
     rbind (get_entry_batch B D (fst grp) (data_db s)) (\<lambda>found.
     rbind (ok_or (Panic ''Can not find chunk data'') found) (\<lambda>batch_chunk.
     rbind (rfold (submit_seal_result B) (snd grp) batch_chunk) (\<lambda>batch_chunk.
     Inr (updated_chunk @ [(fst grp, batch_chunk)]))))"

definition flow_submit_seal_result :: "'b bitmap_ops \<Rightarrow> 'd kv_ops \<Rightarrow> seal_answer list \<Rightarrow> ('d flow_store, unit) io" where
  "flow_submit_seal_result B D answers =
     io_bind (io_gets (\<lambda>s. filter (\<lambda>a. map_of (to_seal_set (seal_manager s)) (sa_seal_index a) = Some (sa_version a)) answers)) (\<lambda>consistent.
     io_bind (io_read (\<lambda>s. rfold (submit_group B D s) (chunk_by (\<lambda>a. sa_seal_index a div SEALS_PER_LOAD) consistent) [])) (\<lambda>updated_chunk.
     io_bind (io_modify (seal_manager_update (fold (\<lambda>a. to_seal_set_update (bt_remove (sa_seal_index a))) consistent))) (\<lambda>_.
     put_data_db (put_entry_raw B D updated_chunk))))"

end
