(* ===== verification/Load_Store.thy ===== *)
theory Load_Store
  imports Load_Root Load_Codec
begin

text \<open>
  Loads as the flow store keeps them: a load that holds a given content, within the limits of its stored form.
  Creating, inserting, truncating and sealing keep this form, and a stored load is read back.
\<close>

section \<open>Lengths of encodings\<close>

lemma enc_length_le: "length (enc_head n fs @ enc_tail fs) \<le> sum_list (map (\<lambda>(b, bs). 4 + length bs) fs)"
  by (induction n fs rule: enc_head.induct) (auto simp: encode_length_def split: if_splits)

context ssz_fields_codec
begin

lemma container_le:
  "length (as_ssz_bytes (ssz_container f) v) \<le> sum_list (map (\<lambda>(t, put). 4 + length (put [])) (sf_puts f v))"
proof -
  have sums: "map (\<lambda>(b, bs). 4 + length bs) (encs f v) = map (\<lambda>(t, put). 4 + length (put [])) (sf_puts f v)" by auto
  obtain n where "as_ssz_bytes (ssz_container f) v = enc_head n (encs f v) @ enc_tail (encs f v)"
    unfolding as_ssz_bytes_def ssz_container_def by (auto simp: fields_put_eq [OF puts])
  then show ?thesis using enc_length_le [of n "encs f v"] unfolding sums by simp
qed

end

lemma tuple2_le:
  assumes "ssz_codec a V" "ssz_codec b W"
  shows "length (as_ssz_bytes (ssz_tuple2 a b) (x, y)) \<le> 8 + length (as_ssz_bytes a x) + length (as_ssz_bytes b y)"
  using ssz_fields_codec.container_le [OF add_field_codec [OF assms(1) last_field_codec [OF assms(2)]], of "(x, y)"]
  unfolding as_ssz_bytes_def [of a] as_ssz_bytes_def [of b] ssz_tuple2_def by (simp add: add_field_def last_field_def)

lemma tuple4_le:
  assumes "ssz_codec a V1" "ssz_codec b V2" "ssz_codec c V3" "ssz_codec d V4"
  shows "length (as_ssz_bytes (ssz_tuple4 a b c d) (x, y, z, w)) \<le>
    16 + length (as_ssz_bytes a x) + length (as_ssz_bytes b y) + length (as_ssz_bytes c z) + length (as_ssz_bytes d w)"
  using ssz_fields_codec.container_le [OF add_field_codec [OF assms(1) add_field_codec [OF assms(2) add_field_codec [OF assms(3)
        last_field_codec [OF assms(4)]]]], of "(x, y, z, w)"]
  unfolding as_ssz_bytes_def [of a] as_ssz_bytes_def [of b] as_ssz_bytes_def [of c] as_ssz_bytes_def [of d] ssz_tuple4_def
  by (simp add: add_field_def last_field_def)


lemma vec_le:
  assumes "ssz_codec c V"
  shows "length (as_ssz_bytes (ssz_vec c m) xs) \<le> sum_list (map (\<lambda>x. 4 + length (as_ssz_bytes c x)) xs)"
proof -
  have "length (concat (map (as_ssz_bytes c) xs)) \<le> sum_list (map (\<lambda>x. 4 + length (as_ssz_bytes c x)) xs)"
    by (induction xs) auto
  moreover have "map (\<lambda>(b, bs). 4 + length bs) (ssz_codec.items c xs) = map (\<lambda>x. 4 + length (as_ssz_bytes c x)) xs"
    by simp
  ultimately show ?thesis
    using enc_length_le [of "4 * length xs" "ssz_codec.items c xs"]
    unfolding as_ssz_bytes_def [of "ssz_vec c m"] ssz_codec.vec_put [OF assms] append_Nil by (cases "ssz_is_fixed c") (simp_all only: if_True if_False simp_thms)
qed

section \<open>The size of a load\<close>

lemma contexts_count: "contexts_ok cs \<Longrightarrow> length cs \<le> 65"
proof -
  assume ok: "contexts_ok cs"
  then have "sorted_wrt (<) (map end_seal_index cs)" "set (map end_seal_index cs) \<subseteq> {..64}" by (auto simp: contexts_ok_def)
  then have "distinct (map end_seal_index cs)" "card (set (map end_seal_index cs)) \<le> card {..64::nat}"
    by (simp_all only: strict_sorted_iff card_mono finite_atMost)
  then show "length cs \<le> 65" using distinct_card [of "map end_seal_index cs"] by simp
qed

lemma batches_length:
  "batches_ok ps \<Longrightarrow> \<forall>p \<in> set ps. pb_end_sector p \<le> n \<Longrightarrow> sum_list (map (length \<circ> pb_data) ps) \<le> 256 * n"
proof (induction ps arbitrary: n rule: rev_induct)
  case (snoc p ps)
  have ok: "batches_ok ps" "batch_ok p" "\<forall>q \<in> set ps. pb_end_sector q \<le> pb_start_sector p"
    using snoc.prems(1) by (auto simp: batches_ok_def sorted_wrt_append)
  have "sum_list (map (length \<circ> pb_data) ps) \<le> 256 * pb_start_sector p" using snoc.IH ok by blast
  then show ?case using pb_end_bytes [OF ok(2)] snoc.prems(2) by (auto simp: comp_def)
qed simp

lemma batches_encoded_length:
  assumes "batches_ok ps" "\<forall>p \<in> set ps. pb_end_sector p \<le> 1024"
  shows "length (as_ssz_bytes (ssz_vec ssz_partial_batch None) ps) \<le> 524288"
proof -
  have "12 + length (pb_data p) \<le> 2 * length (pb_data p)" if "p \<in> set ps" for p
  proof -
    have "batch_ok p" using assms(1) that by (simp add: batches_ok_def)
    then show ?thesis by (auto simp: batch_ok_def dest!: dvd_imp_le)
  qed
  then have "sum_list (map (\<lambda>p. 4 + length (as_ssz_bytes ssz_partial_batch p)) ps) \<le> sum_list (map (\<lambda>p. 2 * length (pb_data p)) ps)"
    by (intro sum_list_mono) (simp add: ssz_partial_batch_def as_ssz_bytes_def)
  also have "\<dots> = 2 * sum_list (map (length \<circ> pb_data) ps)" by (simp add: sum_list_const_mult comp_def)
  finally show ?thesis
    using vec_le [OF ssz_partial_batch_codec, of None ps] batches_length [OF assms] by simp
qed

lemma context_encoded_length: "length (as_ssz_bytes ssz_seal_context_info c) \<le> 10 + length (context_digest c)"
  using tuple2_le [OF h256.ssz_codec_axioms u16.ssz_codec_axioms, of "context_digest c" "end_seal_index c"]
  by (simp add: ssz_seal_context_info_def) (simp add: ssz_byte_array_def ssz_uint_def as_ssz_bytes_def)

lemma seal_info_encoded_length:
  assumes "bitmap64_value B" "wf_seal_info si" "contexts_ok (si_contexts si)"
  shows "length (as_ssz_bytes (ssz_seal_info B) si) \<le> 4096"
proof -
  note bm = ssz_bitmap_codec [of B, OF bitmap64_value.from_into_value [OF assms(1)]]
  note parts = bm u64.ssz_codec_axioms h256.ssz_codec_axioms contexts_codec
  have "4 + length (as_ssz_bytes ssz_seal_context_info c) \<le> 46" if "c \<in> set (si_contexts si)" for c
    using context_encoded_length [of c] assms(2) that by (simp add: wf_seal_info_def wf_context_def)
  then have "sum_list (map (\<lambda>c. 4 + length (as_ssz_bytes ssz_seal_context_info c)) (si_contexts si)) \<le> 46 * length (si_contexts si)"
    using sum_list_mono [of "si_contexts si" "\<lambda>c. 4 + length (as_ssz_bytes ssz_seal_context_info c)" "\<lambda>_. 46"]
    by (simp add: sum_list_triv)
  then have "length (as_ssz_bytes (ssz_vec ssz_seal_context_info None) (si_contexts si)) \<le> 2990"
    using vec_le [OF ssz_context_codec, of None "si_contexts si"] contexts_count [OF assms(3)] by simp
  then show ?thesis
    using tuple4_le [OF parts, of "si_bitmap si" "si_load_index si" "si_miner_id si" "si_contexts si"] assms(2)
    by (simp add: ssz_seal_info_def wf_seal_info_def) (simp add: ssz_byte_array_def ssz_uint_def ssz_bitmap_def as_ssz_bytes_def)
qed

lemma data_encoded_length:
  assumes "data_ok e" "get_subtree_list e = []"
  shows "length (as_ssz_bytes ssz_entry_batch_data e) \<le> 600000"
proof (cases e)
  case (Complete d)
  then show ?thesis using assms by (simp add: data_ok_def ssz_entry_batch_data_def as_ssz_bytes_def)
next
  case (Incomplete x)
  then have x: "subtrees x = []" "length (as_ssz_bytes (ssz_vec ssz_partial_batch None) (known_data x)) \<le> 524288"
    using assms batches_encoded_length by (auto simp: data_ok_def get_subtree_list_def)
  have "length (as_ssz_bytes (ssz_vec ssz_subtree None) (subtrees x)) = 0"
    using vec_le [OF ssz_subtree_codec, of None "[]"] x(1) by simp
  then have "length (as_ssz_bytes ssz_incomplete_data x) \<le> 524296"
    using tuple2_le [OF subtrees_codec batches_codec, of "subtrees x" "known_data x"] x(2) by (simp add: ssz_incomplete_data_def)
  then show ?thesis using Incomplete
    by (simp add: ssz_entry_batch_data_def as_ssz_bytes_def [of "\<lparr>ssz_is_fixed = False, ssz_fixed_len = _, ssz_put = _, ssz_bytes_len = _, ssz_get = _\<rparr>"])
qed

section \<open>Loads with a given content\<close>

definition load_ok :: "(byte list \<Rightarrow> h256) \<Rightarrow> 'b bitmap_ops \<Rightarrow> 'b entry_batch \<Rightarrow> (nat \<rightharpoonup> byte) \<Rightarrow> bool" where
  "load_ok keccak B eb m \<longleftrightarrow> batch_inv B eb \<and> content keccak B eb = m \<and> wf_seal_info (eb_seal eb) \<and>
     get_subtree_list (eb_data eb) = []"

lemma data_ok_wf: "data_ok e \<Longrightarrow> get_subtree_list e = [] \<Longrightarrow> wf_data e"
proof (cases e)
  case (Incomplete x)
  assume a: "data_ok e" "get_subtree_list e = []"
  have "pb_start_sector p < 2 ^ 64" if "p \<in> set (known_data x)" for p
  proof -
    have "batch_ok p" "pb_end_sector p \<le> 1024" using a that Incomplete by (auto simp: data_ok_def batches_ok_def)
    then show ?thesis using pb_start_less_end [of p] by simp
  qed
  then show ?thesis using a Incomplete by (simp add: wf_data_def get_subtree_list_def)
qed (simp add: wf_data_def)

lemma load_ok_stored:
  assumes "bitmap64_value B" "load_ok keccak B eb m"
  shows "ssz_get (ssz_entry_batch B) (as_ssz_bytes (ssz_entry_batch B) eb) = Inr eb"
proof -
  note ok = assms(2) [unfolded load_ok_def batch_inv_def]
  have "length (as_ssz_bytes (ssz_seal_info B) (eb_seal eb)) \<le> 4096" "length (as_ssz_bytes ssz_entry_batch_data (eb_data eb)) \<le> 600000"
    using seal_info_encoded_length [OF assms(1)] data_encoded_length ok by blast+
  then have "length (as_ssz_bytes (ssz_entry_batch B) eb) < 2 ^ 32"
    using tuple2_le [OF ssz_seal_info_codec [OF assms(1)] ssz_data_codec, of "eb_seal eb" "eb_data eb"]
    by (simp add: ssz_entry_batch_def)
  moreover have "wf_entry_batch eb" using ok data_ok_wf by (simp add: wf_entry_batch_def)
  ultimately show ?thesis using ssz_codec.round_trip [OF ssz_entry_batch_codec [OF assms(1)]] by blast
qed

lemma load_ok_new: "bitmap64 B \<Longrightarrow> c < 2 ^ 64 \<Longrightarrow> load_ok keccak B (entry_batch_new B c) Map.empty"
  using bitmap64.new_content [of B]
  by (simp add: load_ok_def entry_batch_new_def seal_info_new_def wf_seal_info_def data_new_def get_subtree_list_def zero_h256_def)

text \<open>The subtree roots of a load: none appears by inserting or truncating.\<close>

lemma insert_data_subtrees:
  assumes "data_insert_data start data e = Inr (e', idx)" "get_subtree_list e = []"
  shows "get_subtree_list e' = []"
  using assms
  by (cases e) (auto simp: data_insert_data_def get_subtree_list_def binary_search_def Let_def rbind_def
      simp del: rbind_eq_Inr split: if_split_asm sum.split_asm prod.split_asm)

lemma data_truncate_subtrees:
  assumes "data_truncate n e = Inr e'" "get_subtree_list e = []"
  shows "get_subtree_list e' = []"
  using assms
  by (cases e) (auto simp: data_truncate_def incomplete_truncate_def get_subtree_list_def Let_def rbind_def
      simp del: rbind_eq_Inr split: if_split_asm sum.split_asm prod.split_asm)

lemma get_mut_subtrees:
  assumes "data_get_mut e start len f = Inr (Some e')"
  shows "get_subtree_list e' = get_subtree_list e"
  using assms
  by (cases e) (auto simp: data_get_mut_def get_subtree_list_def Let_def rbind_def
      simp del: rbind_eq_Inr split: if_split_asm sum.split_asm)

lemma truncate_seal_steps:
  assumes "rfold (truncate_seal_step keccak B t) is (eb, acc) = Inr (eb', acc')"
  shows "eb_seal eb' = eb_seal eb \<and> get_subtree_list (eb_data eb') = get_subtree_list (eb_data eb)"
  using assms
proof (induction "is" arbitrary: eb acc)
  case (Cons i "is")
  obtain eb1 acc1 where 1: "truncate_seal_step keccak B t i (eb, acc) = Inr (eb1, acc1)" "rfold (truncate_seal_step keccak B t) is (eb1, acc1) = Inr (eb', acc')"
    using Cons.prems by (cases "truncate_seal_step keccak B t i (eb, acc)") auto
  have "eb_seal eb1 = eb_seal eb \<and> get_subtree_list (eb_data eb1) = get_subtree_list (eb_data eb)"
    using 1(1) by (auto simp: truncate_seal_step_def Let_def split: if_splits sum.splits option.splits dest: get_mut_subtrees)
  then show ?case using Cons.IH [OF 1(2)] by simp
qed simp

lemma truncate_form:
  assumes "entry_batch_truncate keccak B t eb = Inr (eb', idx)" "get_subtree_list (eb_data eb) = []" "wf_seal_info (eb_seal eb)"
  shows "get_subtree_list (eb_data eb') = [] \<and> wf_seal_info (eb_seal eb') \<and> si_load_index (eb_seal eb') = si_load_index (eb_seal eb)"
proof -
  obtain d where d: "data_truncate (t * 256) (eb_data eb) = Inr d" "truncate_seal keccak B t (eb\<lparr>eb_data := d\<rparr>) = Inr (eb', idx)"
    using assms(1) by (auto simp: entry_batch_truncate_def split: sum.split_asm if_split_asm)
  have "get_subtree_list d = []" using data_truncate_subtrees [OF d(1) assms(2)] .
  then show ?thesis
    using d(2) assms(3)
    by (auto simp: truncate_seal_def seal_info_truncate_def wf_seal_info_def Let_def split: sum.splits dest!: truncate_seal_steps in_set_takeD)
qed

text \<open>What the operations do to a load of this form.\<close>

lemma load_ok_read:
  "load_ok keccak B eb m \<Longrightarrow> 0 < len \<Longrightarrow> start + len \<le> 1024 \<Longrightarrow> get_unsealed_data keccak B eb start len =
    Inr (if {256 * start..<256 * (start + len)} \<subseteq> dom m then Some (range_bytes m (256 * start) (256 * len)) else None)"
  using get_unsealed_data_correct [of B eb len start keccak] by (simp add: load_ok_def)

lemma insert_form:
  assumes "entry_batch_insert_data keccak B off data eb = Inr (eb', idx)" "get_subtree_list (eb_data eb) = []"
  shows "get_subtree_list (eb_data eb') = []" "eb_seal eb' = eb_seal eb"
  using assms by (auto simp: entry_batch_insert_data_def split: if_split_asm dest: insert_data_subtrees)

lemma load_ok_insert:
  assumes ok: "load_ok keccak B eb m" and al: "length data mod 256 = 0" "data \<noteq> []" "256 * off + length data \<le> 262144"
  defines "R \<equiv> {256 * off..<256 * off + length data}"
  shows "if dom m \<inter> R = {} \<or> R \<subseteq> dom m \<and> range_bytes m (256 * off) (length data) = data
    then \<exists>eb' idx. entry_batch_insert_data keccak B off data eb = Inr (eb', idx) \<and>
      load_ok keccak B eb' (m ++ bytes_at (256 * off) data) \<and> eb_seal eb' = eb_seal eb
    else \<exists>e. entry_batch_insert_data keccak B off data eb = Inl (Err e)"
proof -
  have inv: "batch_inv B eb" and m: "content keccak B eb = m" and st: "get_subtree_list (eb_data eb) = []"
    and wf: "wf_seal_info (eb_seal eb)" using ok by (auto simp: load_ok_def)
  have al': "aligned_data off data" using al by (auto simp: aligned_data_def)
  have stored: "?thesis" if res: "entry_batch_insert_data keccak B off data eb = Inr (eb', idx)"
    and "dom m \<inter> R = {} \<or> R \<subseteq> dom m \<and> range_bytes m (256 * off) (length data) = data" for eb' idx
    using insert_outcome [OF inv al' res] insert_form [OF res st] that m wf by (auto simp: load_ok_def)
  show ?thesis
  proof (cases "dom m \<inter> R = {}")
    case True
    then obtain eb' idx where "entry_batch_insert_data keccak B off data eb = Inr (eb', idx)"
      using entry_batch_insert_free [OF inv al(1,2), of off keccak] al(3) m unfolding R_def by auto
    then show ?thesis using stored True by blast
  next
    case False
    note over = entry_batch_insert_known [OF inv al(1,2), of off keccak, unfolded m]
    show ?thesis
    proof (cases "R \<subseteq> dom m \<and> range_bytes m (256 * off) (length data) = data")
      case True
      then have "entry_batch_insert_data keccak B off data eb = Inr (eb, [])" using over False al(3) unfolding R_def by simp
      then show ?thesis using stored True by blast
    next
      case False2: False
      then have "\<exists>e. entry_batch_insert_data keccak B off data eb = Inl (Err e)"
        using over False al(3) unfolding R_def by (simp only: sizes if_False simp_thms not_False_eq_True)
      then show ?thesis using False False2 by auto
    qed
  qed
qed

lemma load_ok_truncate:
  assumes "bitmap64 B" "load_ok keccak B eb m" "0 < t" "t < 1024"
  shows "\<exists>eb' reseal. entry_batch_truncate keccak B t eb = Inr (eb', reseal) \<and> load_ok keccak B eb' (m |` {..<256 * t}) \<and>
    si_load_index (eb_seal eb') = si_load_index (eb_seal eb)"
proof -
  have inv: "batch_inv B eb" "content keccak B eb = m" "get_subtree_list (eb_data eb) = []" "wf_seal_info (eb_seal eb)"
    using assms(2) by (auto simp: load_ok_def)
  obtain eb' reseal where "entry_batch_truncate keccak B t eb = Inr (eb', reseal)" "batch_inv B eb'"
    "content keccak B eb' = m |` {..<256 * t}"
    using bitmap64.entry_batch_truncate_content [OF assms(1) inv(1) assms(3), of keccak] assms(4) inv(2) by auto
  then show ?thesis using truncate_form inv(3,4) by (fastforce simp: load_ok_def)
qed

lemma load_ok_empty:
  assumes "load_ok keccak B eb m"
  shows "entry_batch_is_empty eb \<longleftrightarrow> m = Map.empty"
proof -
  have ok: "data_ok (eb_data eb)" and m: "dom m = dom (known (eb_data eb))"
    using assms dom_content [of keccak B eb] by (simp_all add: load_ok_def batch_inv_def)
  have "data_is_empty (eb_data eb) \<longleftrightarrow> dom (known (eb_data eb)) = {}"
  proof (cases "eb_data eb")
    case (Complete d)
    then show ?thesis using ok by (auto simp: data_is_empty_def known_def data_ok_def)
  next
    case (Incomplete x)
    then have "\<forall>p \<in> set (known_data x). dom (pb_map p) \<noteq> {}"
      using ok dom_pb_map pb_start_less_end by (auto simp: data_ok_def batches_ok_def)
    then show ?thesis using Incomplete by (auto simp: data_is_empty_def known_def dom_batch_map)
  qed
  then show ?thesis using m by (simp add: entry_batch_is_empty_def flip: dom_eq_empty_conv)
qed

lemma set_seal_context_wf:
  assumes "set_seal_context digest e miner si = Inr si'" "wf_seal_info si" "length digest = 32" "length miner = 32"
  shows "wf_seal_info si' \<and> si_load_index si' = si_load_index si"
  using assms
  by (auto simp: set_seal_context_def wf_seal_info_def wf_context_def Let_def u16_def split: if_split_asm dest!: in_set_takeD in_set_dropD)

lemma load_ok_seal:
  assumes "bitmap64 B" "load_ok keccak B eb m" "honest_answer keccak B eb m ans"
    and "length (sa_seal_context ans) = 32" "length (sa_miner_id ans) = 32"
  shows "\<exists>eb'. submit_seal_result B ans eb = Inr eb' \<and> load_ok keccak B eb' m \<and> si_load_index (eb_seal eb') = si_load_index (eb_seal eb)"
proof -
  have inv: "batch_inv B eb" "content keccak B eb = m" "get_subtree_list (eb_data eb) = []" "wf_seal_info (eb_seal eb)"
    using assms(2) by (auto simp: load_ok_def)
  obtain eb' where eb': "submit_seal_result B ans eb = Inr eb'" "batch_inv B eb'" "content keccak B eb' = m"
    using bitmap64.submit_honest [OF assms(1) inv(1), of keccak ans] assms(3) inv(2) by auto
  have "get_subtree_list (eb_data eb') = []" "wf_seal_info (eb_seal eb')" "si_load_index (eb_seal eb') = si_load_index (eb_seal eb)"
    using eb'(1) inv(3,4) assms(4,5) set_seal_context_wf get_mut_subtrees
    by (fastforce simp: submit_seal_result_def Let_def mark_sealed_def wf_seal_info_def)+
  then show ?thesis using eb' by (auto simp: load_ok_def)
qed

lemma load_ok_root:
  "node_cache C \<Longrightarrow> load_ok keccak B eb m \<Longrightarrow> build_root keccak C B eb first =
    Inr (if {if first then 256 else 0..<262144} \<subseteq> dom m then mnode (sha3_optional keccak) 0 (load_leaves keccak first m) 10 0 else None)"
  using build_root_content [of C B eb keccak m first] by (simp add: load_ok_def)

end
