(* ===== verification/Flow_Content.thy ===== *)
theory Flow_Content
  imports Flow_Store Load_Store
begin

text \<open>
  What the flow store promises: it is a partial map from positions of the flow to bytes, entry \<open>n\<close> being the 256
  bytes from \<open>256 * n\<close>. Appending adds the bytes of the shard, truncating and deleting batches remove bytes,
  sealing changes none, and reading returns the bytes of a range when all of them are there.
\<close>

section \<open>Slices of the flow\<close>

definition flow_slice :: "nat \<Rightarrow> (nat \<rightharpoonup> byte) \<Rightarrow> nat \<rightharpoonup> byte" where
  "flow_slice c F = (\<lambda>i. if i < BYTES_PER_LOAD then F (BYTES_PER_LOAD * c + i) else None)"

lemma range_subset_iff: "{a..<a + n} \<subseteq> A \<longleftrightarrow> (\<forall>j < n. a + j \<in> A)" for a :: nat
proof
  assume "\<forall>j < n. a + j \<in> A"
  then have "i \<in> A" if "a \<le> i" "i < a + n" for i using that by (metis le_Suc_ex nat_add_left_cancel_less)
  then show "{a..<a + n} \<subseteq> A" by auto
qed auto

lemma flow_slice_subset:
  "k + n \<le> 262144 \<Longrightarrow> {k..<k + n} \<subseteq> dom (flow_slice c F) \<longleftrightarrow> {262144 * c + k..<262144 * c + k + n} \<subseteq> dom F"
  unfolding range_subset_iff by (simp add: flow_slice_def dom_def add.assoc)

lemma range_bytes_slice:
  "k + n \<le> 262144 \<Longrightarrow> range_bytes (flow_slice c F) k n = range_bytes F (262144 * c + k) n"
  by (rule nth_equalityI) (auto simp: nth_range_bytes flow_slice_def add.assoc)

lemma flow_slice_eq: "(\<And>i. i < 262144 \<Longrightarrow> F (262144 * c + i) = G (262144 * c + i)) \<Longrightarrow> flow_slice c F = flow_slice c G"
  by (auto simp: flow_slice_def fun_eq_iff)

section \<open>The batches of a range of entries\<close>

definition batch_part :: "nat \<Rightarrow> nat \<Rightarrow> nat \<Rightarrow> nat \<times> nat" where
  "batch_part a b c = (max a (1024 * c), min b (1024 * c + 1024))"

definition batch_indices :: "nat \<Rightarrow> nat \<Rightarrow> nat list" where
  "batch_indices a b = [a div 1024..<(b + 1023) div 1024]"

lemma batch_iter_parts: "a < b \<Longrightarrow> batch_iter a b 1024 = Inr (map (batch_part a b) (batch_indices a b))"
proof -
  assume ab: "a < b"
  let ?q = "a div 1024"
  have n: "(b - ?q * 1024 + 1024 - 1) div 1024 = (b + 1023) div 1024 - ?q"
  proof -
    have "?q * 1024 \<le> b" using ab by (meson div_times_less_eq_dividend le_trans less_imp_le)
    then obtain r where r: "b = ?q * 1024 + r" using le_Suc_ex by blast
    have "b + 1023 = (r + 1023) + ?q * 1024" using r by simp
    then have "(b + 1023) div 1024 = ?q + (r + 1023) div 1024" by (simp only: div_mult_self1 [of 1024 "r + 1023" ?q, simplified])
    moreover have "b - ?q * 1024 + 1024 - 1 = r + 1023" using r by simp
    ultimately show ?thesis by (simp only: add_diff_cancel_left')
  qed
  have "map (\<lambda>j. ?q * 1024 + j * 1024) [0..<k] = map (\<lambda>c. c * 1024) [?q..<?q + k]" for k
    by (induction k) (simp_all add: algebra_simps)
  moreover have "?q \<le> (b + 1023) div 1024" using ab by (intro div_le_mono) simp
  ultimately have "step_by (?q * 1024) b 1024 = map (\<lambda>c. c * 1024) (batch_indices a b)"
    unfolding step_by_def n batch_indices_def by simp
  then show ?thesis by (simp add: batch_iter_def batch_part_def algebra_simps)
qed

lemma batch_part_bounds:
  assumes "a < b" "c \<in> set (batch_indices a b)"
  shows "fst (batch_part a b c) < snd (batch_part a b c)" "fst (batch_part a b c) div 1024 = c"
    "snd (batch_part a b c) \<le> 1024 * c + 1024" "1024 * c \<le> fst (batch_part a b c)" "a \<le> fst (batch_part a b c)" "snd (batch_part a b c) \<le> b"
proof -
  have "c + 1 \<le> (b + 1023) div 1024" "a div 1024 < c + 1" using assms(2) by (simp_all add: batch_indices_def)
  then have cb: "1024 * c < b" "a < 1024 * c + 1024"
    using less_eq_div_iff_mult_less_eq [of 1024 "c + 1" "b + 1023"] div_less_iff_less_mult [of 1024 a "c + 1"] by simp_all
  then show "fst (batch_part a b c) < snd (batch_part a b c)" "snd (batch_part a b c) \<le> 1024 * c + 1024"
    "1024 * c \<le> fst (batch_part a b c)" "a \<le> fst (batch_part a b c)" "snd (batch_part a b c) \<le> b"
    using assms(1) by (simp_all add: batch_part_def)
  show "fst (batch_part a b c) div 1024 = c"
    by (rule div_nat_eqI) (use cb in \<open>simp_all add: batch_part_def\<close>)
qed

lemma batch_indices_step:
  assumes "a < b" "c \<in> set (batch_indices a b)"
  shows "c + 1 \<in> set (batch_indices a b) \<and> fst (batch_part a b (c + 1)) = snd (batch_part a b c) \<or>
    c + 1 = (b + 1023) div 1024 \<and> snd (batch_part a b c) = b"
proof (cases "1024 * (c + 1) < b")
  case True
  then have "c + 2 \<le> (b + 1023) div 1024" using less_eq_div_iff_mult_less_eq [of 1024 "c + 2" "b + 1023"] by simp
  then show ?thesis using assms(2) True batch_part_bounds [OF assms]
    by (auto simp: batch_indices_def batch_part_def max_def min_def)
next
  case False
  then have "(b + 1023) div 1024 < c + 2" using div_less_iff_less_mult [of 1024 "b + 1023" "c + 2"] by simp
  then show ?thesis using assms(2) False by (auto simp: batch_indices_def batch_part_def)
qed

section \<open>The database of batches\<close>

definition holds_load :: "(byte list \<Rightarrow> h256) \<Rightarrow> 'b bitmap_ops \<Rightarrow> nat \<Rightarrow> byte list option \<Rightarrow> (nat \<rightharpoonup> byte) \<Rightarrow> bool" where
  "holds_load keccak B c v m \<longleftrightarrow>
     (case v of
        None \<Rightarrow> m = Map.empty
      | Some bytes \<Rightarrow> (\<exists>eb. bytes = as_ssz_bytes (ssz_entry_batch B) eb \<and> load_ok keccak B eb m \<and> si_load_index (eb_seal eb) = c))"

definition db_flow :: "(byte list \<Rightarrow> h256) \<Rightarrow> 'b bitmap_ops \<Rightarrow> contents \<Rightarrow> (nat \<rightharpoonup> byte) \<Rightarrow> bool" where
  "db_flow keccak B ct F \<longleftrightarrow>
     (\<forall>c < 2 ^ 64. holds_load keccak B c (ct COL_ENTRY_BATCH (be_bytes 8 c)) (flow_slice c F)) \<and>
     (\<forall>k. ct COL_ENTRY_BATCH k \<noteq> None \<longrightarrow> length k = 8)"

lemma db_flow_load: "db_flow keccak B ct F \<Longrightarrow> c < 2 ^ 64 \<Longrightarrow> holds_load keccak B c (ct COL_ENTRY_BATCH (be_bytes 8 c)) (flow_slice c F)"
  unfolding db_flow_def by blast

section \<open>Writing batches\<close>

lemma put_batches_contents:
  assumes "distinct (map fst l)" "\<forall>x \<in> set l. fst x < 2 ^ 64"
  shows "fold apply_op (map (put_batch_op B) l) ct =
    ct(COL_ENTRY_BATCH := ct COL_ENTRY_BATCH ++ map_of (map (\<lambda>x. (be_bytes 8 (fst x), as_ssz_bytes (ssz_entry_batch B) (snd x))) l))"
  using assms
proof (induction l arbitrary: ct)
  case (Cons x l)
  have neq: "be_bytes 8 (fst y) \<noteq> be_bytes 8 (fst x)" if "y \<in> set l" for y
  proof -
    have "fst x \<notin> fst ` set l" "fst y \<in> fst ` set l" using Cons.prems(1) that by simp_all
    then have "fst y \<noteq> fst x" by metis
    moreover have "fst y < 256 ^ 8" "fst x < 256 ^ 8" using Cons.prems(2) that by auto
    ultimately show ?thesis using be_bytes_eq_iff [of "fst y" 8 "fst x"] by simp
  qed
  have "be_bytes 8 (fst x) \<notin> (\<lambda>y. be_bytes 8 (fst y)) ` set l"
  proof
    assume "be_bytes 8 (fst x) \<in> (\<lambda>y. be_bytes 8 (fst y)) ` set l"
    then obtain y where "be_bytes 8 (fst x) = be_bytes 8 (fst y)" "y \<in> set l" by (rule imageE)
    then show False using neq [of y] by argo
  qed
  then have "map_of (map (\<lambda>x. (be_bytes 8 (fst x), as_ssz_bytes (ssz_entry_batch B) (snd x))) l) (be_bytes 8 (fst x)) = None"
    by (simp add: map_of_eq_None_iff image_image)
  then show ?case using Cons by (auto simp: put_batch_op_def map_add_def fun_eq_iff split: option.split)
qed simp

lemma put_batches_lookup:
  assumes "distinct (map fst l)" "\<forall>x \<in> set l. fst x < 2 ^ 64" "c < 2 ^ 64"
  shows "fold apply_op (map (put_batch_op B) l) ct COL_ENTRY_BATCH (be_bytes 8 c) =
    (case map_of l c of Some eb \<Rightarrow> Some (as_ssz_bytes (ssz_entry_batch B) eb) | None \<Rightarrow> ct COL_ENTRY_BATCH (be_bytes 8 c))"
proof -
  have "map_of (map (\<lambda>x. (be_bytes 8 (fst x), as_ssz_bytes (ssz_entry_batch B) (snd x))) l) (be_bytes 8 c) =
      map_option (as_ssz_bytes (ssz_entry_batch B)) (map_of l c)"
    using assms(2)
  proof (induction l)
    case (Cons x l)
    have "be_bytes 8 c = be_bytes 8 (fst x) \<longleftrightarrow> c = fst x" using Cons.prems assms(3) by (intro be_bytes_eq_iff) simp_all
    then show ?case using Cons by (cases x) simp
  qed simp
  then show ?thesis by (simp add: put_batches_contents [OF assms(1,2)] map_add_def split: option.split)
qed

lemma db_flow_puts:
  assumes flow: "db_flow keccak B ct F" and l: "distinct (map fst l)"
    and ok: "\<forall>(c, eb) \<in> set l. c < 2 ^ 64 \<and> load_ok keccak B eb (flow_slice c F') \<and> si_load_index (eb_seal eb) = c"
    and rest: "\<forall>c < 2 ^ 64. c \<notin> fst ` set l \<longrightarrow> flow_slice c F' = flow_slice c F"
  shows "db_flow keccak B (fold apply_op (map (put_batch_op B) l) ct) F'"
  unfolding db_flow_def
proof (intro conjI allI impI)
  have lt: "\<forall>x \<in> set l. fst x < 2 ^ 64" using ok by auto
  fix c :: nat assume c: "c < 2 ^ 64"
  show "holds_load keccak B c (fold apply_op (map (put_batch_op B) l) ct COL_ENTRY_BATCH (be_bytes 8 c)) (flow_slice c F')"
  proof (cases "map_of l c")
    case None
    then have "flow_slice c F' = flow_slice c F" using rest c by (metis map_of_eq_None_iff)
    then show ?thesis using db_flow_load [OF flow c] None put_batches_lookup [OF l lt c, of B ct] by simp
  next
    case (Some eb)
    then have "(c, eb) \<in> set l" by (rule map_of_SomeD)
    then have "load_ok keccak B eb (flow_slice c F') \<and> si_load_index (eb_seal eb) = c" using ok by blast
    then show ?thesis using Some put_batches_lookup [OF l lt c, of B ct] by (auto simp: holds_load_def)
  qed
next
  have lt: "\<forall>x \<in> set l. fst x < 2 ^ 64" using ok by auto
  fix k assume "fold apply_op (map (put_batch_op B) l) ct COL_ENTRY_BATCH k \<noteq> None"
  then have "ct COL_ENTRY_BATCH k \<noteq> None \<or> k \<in> (\<lambda>x. be_bytes 8 (fst x)) ` set l"
    by (auto simp: put_batches_contents [OF l lt] map_add_def dest!: map_of_SomeD split: option.splits)
  then show "length k = 8" using flow by (auto simp: db_flow_def)
qed

lemma db_flow_deletes:
  assumes flow: "db_flow keccak B ct F" and lt: "\<forall>c \<in> set cs. c < 2 ^ 64"
    and F': "\<forall>c < 2 ^ 64. flow_slice c F' = (if c \<in> set cs then Map.empty else flow_slice c F)"
  shows "db_flow keccak B (fold apply_op (map (\<lambda>i. Delete COL_ENTRY_BATCH (be_bytes 8 i)) cs) ct) F'"
proof -
  let ?K = "be_bytes 8 ` set cs"
  have ct: "fold apply_op (map (\<lambda>i. Delete COL_ENTRY_BATCH (be_bytes 8 i)) cs) ct = ct(COL_ENTRY_BATCH := ct COL_ENTRY_BATCH |` (- ?K))" for ct :: contents
    by (induction cs arbitrary: ct) (auto simp: fun_eq_iff restrict_map_def)
  have key: "be_bytes 8 c \<in> ?K \<longleftrightarrow> c \<in> set cs" if "c < 2 ^ 64" for c
  proof -
    have "be_bytes 8 c = be_bytes 8 i \<longleftrightarrow> c = i" if "i \<in> set cs" for i
      using that lt \<open>c < 2 ^ 64\<close> by (intro be_bytes_eq_iff) simp_all
    then show ?thesis by auto
  qed
  have "holds_load keccak B c ((ct COL_ENTRY_BATCH |` (- ?K)) (be_bytes 8 c)) (flow_slice c F')" if c: "c < 2 ^ 64" for c
  proof (cases "c \<in> set cs")
    case True
    then show ?thesis using F' [rule_format, OF c] key [OF c] by (simp add: restrict_map_def holds_load_def)
  next
    case False
    then show ?thesis using F' [rule_format, OF c] key [OF c] db_flow_load [OF flow c] by (simp add: restrict_map_def)
  qed
  moreover have "length k = 8" if "(ct COL_ENTRY_BATCH |` (- ?K)) k \<noteq> None" for k
    using that flow by (auto simp: db_flow_def restrict_map_def split: if_splits)
  ultimately show ?thesis unfolding ct db_flow_def by simp
qed

section \<open>Reading\<close>

locale flow_database = key_value_db D contents + bitmap64_value B + node_cache C
  for D :: "'d kv_ops" and contents :: "'d \<Rightarrow> contents" and B :: "'b bitmap_ops" and C :: "(optional_hash, 'c) lru_ops"
begin

lemma stored_batch_cases:
  assumes "db_flow keccak B (contents db) F" "c < 2 ^ 64"
  obtains "get_entry_batch B D c db = Inr None" "flow_slice c F = Map.empty"
  | eb where "get_entry_batch B D c db = Inr (Some eb)" "load_ok keccak B eb (flow_slice c F)" "si_load_index (eb_seal eb) = c"
proof (cases "contents db COL_ENTRY_BATCH (be_bytes 8 c)")
  case None
  then show ?thesis using db_flow_load [OF assms] that(1) by (simp add: holds_load_def get_entry_batch_def get robind_def)
next
  case (Some v)
  then obtain eb where eb: "v = as_ssz_bytes (ssz_entry_batch B) eb" "load_ok keccak B eb (flow_slice c F)" "si_load_index (eb_seal eb) = c"
    using db_flow_load [OF assms] by (auto simp: holds_load_def)
  then show ?thesis
    using Some that(2) load_ok_stored [OF bitmap64_value_axioms eb(2)] by (auto simp: get_entry_batch_def get robind_def)
qed

lemma read_batch_flow:
  assumes flow: "db_flow keccak B (contents (data_db s)) F" and bs: "batch_size s = 1024" and c: "c < 2 ^ 64"
    and r: "st < en" "st div 1024 = c" "en \<le> 1024 * c + 1024" "0 < st"
  shows "read_batch keccak B D s (st, en) acc =
    Inr (if {256 * st..<256 * en} \<subseteq> dom F then Some (acc @ range_bytes F (256 * st) (256 * (en - st))) else None)"
proof -
  define k where "k = st - c * 1024"
  have k: "st = 1024 * c + k" "k + (en - st) \<le> 1024" "\<not> (c = 0 \<and> k = 0)"
    using r by (auto simp: k_def minus_mod_eq_mult_div mult.commute simp flip: r(2))
  have w: "wsub en st = en - st" using r by simp
  have read: "read_batch keccak B D s (st, en) acc =
      robind (get_entry_batch B D c (data_db s)) (\<lambda>eb. robind (get_unsealed_data keccak B eb k (en - st)) (\<lambda>d. Inr (Some (acc @ d))))"
    using r(4) by (auto simp: read_batch_def bs r(2) w Let_def k_def)
  have e: "256 * st = 262144 * c + 256 * k" "256 * en = 262144 * c + 256 * k + 256 * (en - st)" using k(1) r(1) by simp_all
  have sub: "{256 * k..<256 * (k + (en - st))} \<subseteq> dom (flow_slice c F) \<longleftrightarrow> {256 * st..<256 * en} \<subseteq> dom F"
    unfolding e distrib_left using k(2) by (intro flow_slice_subset) simp
  have bytes: "range_bytes (flow_slice c F) (256 * k) (256 * (en - st)) = range_bytes F (256 * st) (256 * (en - st))"
    unfolding e(1) using k(2) by (intro range_bytes_slice) simp
  show ?thesis
  proof (rule stored_batch_cases [OF flow c])
    assume "get_entry_batch B D c (data_db s) = Inr None" "flow_slice c F = Map.empty"
    moreover have "\<not> {256 * k..<256 * (k + (en - st))} \<subseteq> {}" using r(1) by simp
    ultimately show ?thesis using sub by (simp add: read robind_def del: subset_empty)
  next
    fix eb assume "get_entry_batch B D c (data_db s) = Inr (Some eb)" and ok: "load_ok keccak B eb (flow_slice c F)"
    then show ?thesis using load_ok_read [OF ok, of "en - st" k] k(2) r(1) sub bytes by (simp add: read robind_def)
  qed
qed

lemma read_batches_flow:
  assumes flow: "db_flow keccak B (contents (data_db s)) F" and bs: "batch_size s = 1024"
    and r: "0 < a" "a < b" "b \<le> 2 ^ 64" and c: "c \<in> set (batch_indices a b)"
  shows "rofold (read_batch keccak B D s) (map (batch_part a b) [c..<(b + 1023) div 1024]) acc =
    Inr (if {256 * fst (batch_part a b c)..<256 * b} \<subseteq> dom F
         then Some (acc @ range_bytes F (256 * fst (batch_part a b c)) (256 * (b - fst (batch_part a b c)))) else None)"
  using c
proof (induction "(b + 1023) div 1024 - c" arbitrary: c acc)
  case 0
  then show ?case by (simp add: batch_indices_def)
next
  case (Suc n)
  let ?st = "fst (batch_part a b c)" and ?en = "snd (batch_part a b c)"
  note bd = batch_part_bounds [OF r(2) Suc.prems]
  have cut: "[c..<(b + 1023) div 1024] = c # [c + 1..<(b + 1023) div 1024]" using Suc.prems by (simp add: batch_indices_def upt_conv_Cons)
  have "1024 * c < 2 ^ 64" using bd r(3) by simp
  then have c: "c < 2 ^ 64" by simp
  have one: "read_batch keccak B D s (batch_part a b c) acc =
      Inr (if {256 * ?st..<256 * ?en} \<subseteq> dom F then Some (acc @ range_bytes F (256 * ?st) (256 * (?en - ?st))) else None)"
    using read_batch_flow [OF flow bs c bd(1,2,3), of acc] bd(5) r(1) by simp
  show ?case
    using batch_indices_step [OF r(2) Suc.prems]
  proof
    assume nxt: "c + 1 \<in> set (batch_indices a b) \<and> fst (batch_part a b (c + 1)) = ?en"
    note IH = Suc.hyps(1) [of "c + 1"]
    have n: "n = (b + 1023) div 1024 - (c + 1)" using Suc.hyps(2) by simp
    have whole: "{256 * ?st..<256 * b} = {256 * ?st..<256 * ?en} \<union> {256 * ?en..<256 * b}" using bd by auto
    have l: "256 * (b - ?st) = 256 * (?en - ?st) + 256 * (b - ?en)" "256 * ?st + 256 * (?en - ?st) = 256 * ?en" using bd by simp_all
    have "range_bytes F (256 * ?st) (256 * (b - ?st)) = range_bytes F (256 * ?st) (256 * (?en - ?st)) @ range_bytes F (256 * ?en) (256 * (b - ?en))"
      unfolding l(1) range_bytes_split l(2) ..
    then show ?thesis unfolding cut whole using one IH [OF n] nxt by (simp add: robind_def)
  next
    assume last: "c + 1 = (b + 1023) div 1024 \<and> ?en = b"
    then show ?thesis unfolding cut using one by (simp add: robind_def)
  qed
qed

lemma get_entries_flow:
  assumes flow: "db_flow keccak B (contents (data_db s)) F" and bs: "batch_size s = 1024" and r: "0 < a" "a < b" "b \<le> 2 ^ 64"
  shows "get_entries keccak B D a b s =
    Inr (if {256 * a..<256 * b} \<subseteq> dom F
         then Some \<lparr>ca_data = range_bytes F (256 * a) (256 * (b - a)), ca_start_index = a\<rparr> else None)"
proof -
  have c: "a div 1024 \<in> set (batch_indices a b)"
  proof -
    have "(a + 1024) div 1024 \<le> (b + 1023) div 1024" using r(2) by (intro div_le_mono) simp
    then show ?thesis by (simp add: batch_indices_def)
  qed
  have "fst (batch_part a b (a div 1024)) = a" by (simp add: batch_part_def max_absorb1)
  then show ?thesis
    using read_batches_flow [OF flow bs r c, of "[]"] batch_iter_parts [OF r(2)] r(2)
    by (simp add: get_entries_def bs batch_indices_def robind_def)
qed

end

section \<open>Appending\<close>

text \<open>The bytes that the store keeps of data appended at entry \<open>a\<close>: those of the loads of its shard.\<close>

definition owns :: "shard_config \<Rightarrow> nat \<Rightarrow> bool" where
  "owns sc c \<longleftrightarrow> c mod num_shard sc = shard_id sc"

definition kept_bytes :: "shard_config \<Rightarrow> nat \<Rightarrow> byte list \<Rightarrow> nat \<rightharpoonup> byte" where
  "kept_bytes sc a data = bytes_at (256 * a) data |` {i. owns sc (i div BYTES_PER_LOAD)}"

text \<open>In each load of the shard, the data is all new or already there.\<close>

definition append_fits :: "shard_config \<Rightarrow> nat \<Rightarrow> byte list \<Rightarrow> (nat \<rightharpoonup> byte) \<Rightarrow> nat \<Rightarrow> bool" where
  "append_fits sc a data F c \<longleftrightarrow>
     dom (flow_slice c (kept_bytes sc a data)) \<inter> dom (flow_slice c F) = {} \<or>
     flow_slice c (kept_bytes sc a data) \<subseteq>\<^sub>m flow_slice c F"

lemma flow_slice_add: "flow_slice c (F ++ G) = flow_slice c F ++ flow_slice c G"
  by (auto simp: flow_slice_def map_add_def fun_eq_iff)

lemma flow_slice_kept: "flow_slice c (kept_bytes sc a data) = (if owns sc c then flow_slice c (bytes_at (256 * a) data) else Map.empty)"
  by (auto simp: flow_slice_def kept_bytes_def fun_eq_iff restrict_map_def)

definition data_part :: "nat \<Rightarrow> byte list \<Rightarrow> nat \<times> nat \<Rightarrow> byte list" where
  "data_part a data p = take ((snd p - fst p) * 256) (drop ((fst p - a) * 256) data)"

lemma flow_slice_outside:
  assumes "length data = 256 * n" "c \<notin> set (batch_indices a (a + n))" "0 < n"
  shows "flow_slice c (bytes_at (256 * a) data) = Map.empty"
proof -
  have "c < a div 1024 \<or> (a + n + 1023) div 1024 < c + 1" using assms(2) by (auto simp: batch_indices_def)
  then have "1024 * (c + 1) \<le> a \<or> a + n \<le> 1024 * c"
    using less_eq_div_iff_mult_less_eq [of 1024 "c + 1" a] div_less_iff_less_mult [of 1024 "a + n + 1023" "c + 1"] by auto
  then show ?thesis using assms(1) by (auto simp: flow_slice_def bytes_at_def fun_eq_iff)
qed

lemma flow_slice_inside:
  assumes "length data = 256 * n" "c \<in> set (batch_indices a (a + n))" "0 < n"
  defines "p \<equiv> batch_part a (a + n) c"
  shows "flow_slice c (bytes_at (256 * a) data) = bytes_at (256 * (fst p mod 1024)) (data_part a data p)"
    "length (data_part a data p) = 256 * (snd p - fst p)"
proof -
  have ab: "a < a + n" using assms(3) by simp
  note bd = batch_part_bounds [OF ab assms(2), folded p_def]
  show len: "length (data_part a data p) = 256 * (snd p - fst p)"
    using bd assms(1) by (simp add: data_part_def)
  have off: "fst p mod 1024 = fst p - 1024 * c" using bd(2) by (metis minus_mult_div_eq_mod)
  have b: "snd p = min (a + n) (1024 * c + 1024)" "fst p = max a (1024 * c)" by (simp_all add: p_def batch_part_def)
  show "flow_slice c (bytes_at (256 * a) data) = bytes_at (256 * (fst p mod 1024)) (data_part a data p)"
  proof
    fix i
    have "(256 * (fst p - 1024 * c) \<le> i \<and> i < 256 * (fst p - 1024 * c) + 256 * (snd p - fst p)) \<longleftrightarrow>
        i < 262144 \<and> 256 * a \<le> 262144 * c + i \<and> 262144 * c + i < 256 * a + 256 * n"
      using bd(1,3,4,5,6) b by (auto simp: max_def min_def split: if_splits)
    moreover have "data ! (262144 * c + i - 256 * a) = data_part a data p ! (i - 256 * (fst p - 1024 * c))"
      if i: "256 * (fst p - 1024 * c) \<le> i" "i < 256 * (fst p - 1024 * c) + 256 * (snd p - fst p)"
    proof -
      define j where "j = i - 256 * (fst p - 1024 * c)"
      have j: "262144 * c + i - 256 * a = (fst p - a) * 256 + j" "j < (snd p - fst p) * 256" "(fst p - a) * 256 \<le> length data"
        using i bd(1,4,5,6) assms(1) unfolding j_def by arith+
      show ?thesis unfolding j(1) data_part_def j_def [symmetric] using j(2,3) by simp
    qed
    ultimately show "flow_slice c (bytes_at (256 * a) data) i = bytes_at (256 * (fst p mod 1024)) (data_part a data p) i"
      unfolding off by (auto simp: flow_slice_def bytes_at_def len assms(1))
  qed
qed

lemma bytes_at_subset:
  "bytes_at s xs \<subseteq>\<^sub>m m \<longleftrightarrow> {s..<s + length xs} \<subseteq> dom m \<and> range_bytes m s (length xs) = xs"
proof
  assume "bytes_at s xs \<subseteq>\<^sub>m m"
  then have m: "m (s + j) = Some (xs ! j)" if "j < length xs" for j
  proof -
    have "s + j \<in> dom (bytes_at s xs)" using that by simp
    moreover have "bytes_at s xs (s + j) = Some (xs ! j)" using that by (simp add: bytes_at_def)
    ultimately show ?thesis using \<open>bytes_at s xs \<subseteq>\<^sub>m m\<close> by (simp add: map_le_def)
  qed
  then show "{s..<s + length xs} \<subseteq> dom m \<and> range_bytes m s (length xs) = xs"
    unfolding range_subset_iff by (auto intro: nth_equalityI simp: nth_range_bytes)
next
  assume a: "{s..<s + length xs} \<subseteq> dom m \<and> range_bytes m s (length xs) = xs"
  then have "m ++ bytes_at s xs = m" using map_add_range_bytes by blast
  then show "bytes_at s xs \<subseteq>\<^sub>m m" by (metis map_le_map_add)
qed

definition load_root :: "(byte list \<Rightarrow> h256) \<Rightarrow> (nat \<rightharpoonup> byte) \<Rightarrow> nat \<Rightarrow> h256 option" where
  "load_root keccak F c =
     (if {if c = 0 then BYTES_PER_SECTOR else 0..<BYTES_PER_LOAD} \<subseteq> dom (flow_slice c F)
      then mnode (sha3_optional keccak) 0 (load_leaves keccak (c = 0) (flow_slice c F)) 10 0 else None)"

definition load_roots :: "(byte list \<Rightarrow> h256) \<Rightarrow> (nat \<rightharpoonup> byte) \<Rightarrow> nat list \<Rightarrow> (nat \<times> h256) list" where
  "load_roots keccak F cs = concat (map (\<lambda>c. case load_root keccak F c of None \<Rightarrow> [] | Some r \<Rightarrow> [(c, r)]) cs)"

context flow_database
begin

lemma batch_or_new_flow:
  assumes "db_flow keccak B (contents (data_db s)) F" "c < 2 ^ 64"
  obtains eb where "batch_or_new B D c s = Inr eb" "load_ok keccak B eb (flow_slice c F)" "si_load_index (eb_seal eb) = c"
proof (rule stored_batch_cases [OF assms])
  assume "get_entry_batch B D c (data_db s) = Inr None" and e: "flow_slice c F = Map.empty"
  then have "batch_or_new B D c s = Inr (entry_batch_new B c)" by (simp add: batch_or_new_def)
  moreover have "load_ok keccak B (entry_batch_new B c) (flow_slice c F)" unfolding e using load_ok_new [OF bitmap64_axioms assms(2)] .
  moreover have "si_load_index (eb_seal (entry_batch_new B c)) = c" by (simp add: entry_batch_new_def seal_info_new_def)
  ultimately show ?thesis by (rule that)
next
  fix eb assume "get_entry_batch B D c (data_db s) = Inr (Some eb)" "load_ok keccak B eb (flow_slice c F)" "si_load_index (eb_seal eb) = c"
  then show ?thesis using that by (simp add: batch_or_new_def)
qed

lemma append_step_flow:
  fixes now :: nat and acc :: "(nat \<times> 'b entry_batch) list"
  assumes flow: "db_flow keccak B (contents (data_db s)) F" and bs: "batch_size s = 1024" and sc: "0 < num_shard (flow_shard s)"
    and n: "length data = 256 * n" "0 < n" "a + n < 2 ^ 64" and c: "c \<in> set (batch_indices a (a + n))"
  defines "res \<equiv> append_step keccak B D now \<lparr>ca_data = data, ca_start_index = a\<rparr> (batch_part a (a + n) c) acc s"
  shows "if append_fits (flow_shard s) a data F c
    then \<exists>l m. res = (Inr (acc @ l), s\<lparr>seal_manager := m\<rparr>) \<and> map fst l = filter (owns (flow_shard s)) [c] \<and>
      (\<forall>x \<in> set l. load_ok keccak B (snd x) (flow_slice (fst x) (F ++ kept_bytes (flow_shard s) a data)) \<and> si_load_index (eb_seal (snd x)) = fst x)
    else \<exists>e. res = (Inl (Err e), s)"
proof -
  let ?sc = "flow_shard s" and ?p = "batch_part a (a + n) c" and ?ca = "\<lparr>ca_data = data, ca_start_index = a\<rparr>"
  have ab: "a < a + n" using n(2) by simp
  note bd = batch_part_bounds [OF ab c]
  let ?d = "data_part a data ?p" and ?off = "fst ?p mod 1024"
  note slice = flow_slice_inside [OF n(1) c n(2)]
  have c64: "c < 2 ^ 64" using bd(1,4,6) n(3) by simp
  have sub: "sub_array ?ca (fst ?p) (snd ?p) = Inr (Some \<lparr>ca_data = ?d, ca_start_index = fst ?p\<rparr>)"
    using bd n by (simp add: sub_array_eq data_part_def)
  have in_range: "in_range ?sc c = Inr (owns ?sc c)" using sc by (simp add: in_range_def owns_def)
  show ?thesis
  proof (cases "owns ?sc c")
    case False
    then have "append_fits ?sc a data F c" by (simp add: append_fits_def flow_slice_kept)
    moreover have "res = (Inr acc, s)" using False by (simp add: res_def append_step_def sub bs bd(2) in_range)
    ultimately show ?thesis using False by (auto intro!: exI [of _ "[]"] exI [of _ "seal_manager s"])
  next
    case True
    obtain eb where eb: "batch_or_new B D c s = Inr eb" "load_ok keccak B eb (flow_slice c F)" "si_load_index (eb_seal eb) = c"
      by (rule batch_or_new_flow [OF flow c64])
    have off: "?off = fst ?p - 1024 * c" using bd(2) by (metis minus_mult_div_eq_mod)
    have al: "length ?d mod 256 = 0" "?d \<noteq> []" "256 * ?off + length ?d \<le> 262144"
      using slice(2) bd off by auto
    have fits: "append_fits ?sc a data F c \<longleftrightarrow> dom (flow_slice c F) \<inter> {256 * ?off..<256 * ?off + length ?d} = {} \<or>
        {256 * ?off..<256 * ?off + length ?d} \<subseteq> dom (flow_slice c F) \<and> range_bytes (flow_slice c F) (256 * ?off) (length ?d) = ?d"
      using True by (simp add: append_fits_def flow_slice_kept slice(1) bytes_at_subset Int_commute)
    have ins: "if append_fits ?sc a data F c
      then \<exists>eb' idx. entry_batch_insert_data keccak B ?off ?d eb = Inr (eb', idx) \<and>
        load_ok keccak B eb' (flow_slice c F ++ bytes_at (256 * ?off) ?d) \<and> eb_seal eb' = eb_seal eb
      else \<exists>e. entry_batch_insert_data keccak B ?off ?d eb = Inl (Err e)"
      unfolding fits by (rule load_ok_insert [OF eb(2) al])
    have step: "res = (case entry_batch_insert_data keccak B ?off ?d eb of Inl e \<Rightarrow> (Inl e, s)
        | Inr (batch, _) \<Rightarrow> (Inr (acc @ [(c, batch)]), if seal_worker_available now (seal_manager s) \<and> entry_batch_is_complete batch
            then s\<lparr>seal_manager := seals_to_add B c batch (seal_manager s)\<rparr> else s))"
      using True by (simp add: res_def append_step_def sub bs bd(2) in_range eb(1) split: sum.split prod.split)
    show ?thesis
    proof (cases "append_fits ?sc a data F c")
      case f: True
      then obtain eb' idx where eb': "entry_batch_insert_data keccak B ?off ?d eb = Inr (eb', idx)"
        "load_ok keccak B eb' (flow_slice c F ++ bytes_at (256 * ?off) ?d)" "eb_seal eb' = eb_seal eb"
        using ins by auto
      have "load_ok keccak B eb' (flow_slice c (F ++ kept_bytes ?sc a data))"
        using eb'(2) True by (simp add: flow_slice_add flow_slice_kept slice(1))
      moreover have "\<exists>m. res = (Inr (acc @ [(c, eb')]), s\<lparr>seal_manager := m\<rparr>)"
        unfolding step eb'(1) by (auto intro: exI [of _ "seal_manager s"])
      ultimately show ?thesis using f True eb'(3) eb(3) by (auto intro!: exI [of _ "[(c, eb')]"])
    next
      case f: False
      then obtain e where "entry_batch_insert_data keccak B ?off ?d eb = Inl (Err e)" using ins by auto
      then show ?thesis using f by (simp add: step)
    qed
  qed
qed

lemma append_steps_flow:
  assumes flow: "db_flow keccak B (contents (data_db s)) F" and bs: "batch_size s = 1024" and sc: "0 < num_shard (flow_shard s)"
    and n: "length data = 256 * n" "0 < n" "a + n < 2 ^ 64" and cs: "set cs \<subseteq> set (batch_indices a (a + n))"
  shows "if \<forall>c \<in> set cs. append_fits (flow_shard s) a data F c
    then \<exists>l m. io_fold (append_step keccak B D now \<lparr>ca_data = data, ca_start_index = a\<rparr>) (map (batch_part a (a + n)) cs) acc s =
        (Inr (acc @ l), s\<lparr>seal_manager := m\<rparr>) \<and> map fst l = filter (owns (flow_shard s)) cs \<and>
      (\<forall>x \<in> set l. load_ok keccak B (snd x) (flow_slice (fst x) (F ++ kept_bytes (flow_shard s) a data)) \<and> si_load_index (eb_seal (snd x)) = fst x)
    else \<exists>e m. io_fold (append_step keccak B D now \<lparr>ca_data = data, ca_start_index = a\<rparr>) (map (batch_part a (a + n)) cs) acc s =
        (Inl (Err e), s\<lparr>seal_manager := m\<rparr>)"
  using flow bs sc cs
proof (induction cs arbitrary: acc s)
  case Nil
  then show ?case by (auto simp: io_return_def intro!: exI [of _ "seal_manager s"])
next
  case (Cons c cs)
  let ?f = "append_step keccak B D now \<lparr>ca_data = data, ca_start_index = a\<rparr>"
  have c: "c \<in> set (batch_indices a (a + n))" "set cs \<subseteq> set (batch_indices a (a + n))" using Cons.prems(4) by auto
  note one = append_step_flow [OF Cons.prems(1,2,3) n c(1), of now acc]
  show ?case
  proof (cases "append_fits (flow_shard s) a data F c")
    case False
    then obtain e where "?f (batch_part a (a + n) c) acc s = (Inl (Err e), s\<lparr>seal_manager := seal_manager s\<rparr>)" using one by auto
    then have "io_fold ?f (map (batch_part a (a + n)) (c # cs)) acc s = (Inl (Err e), s\<lparr>seal_manager := seal_manager s\<rparr>)" by simp
    then show ?thesis using False by (metis list.set_intros(1))
  next
    case True
    then obtain l m where 1: "?f (batch_part a (a + n) c) acc s = (Inr (acc @ l), s\<lparr>seal_manager := m\<rparr>)"
      "map fst l = filter (owns (flow_shard s)) [c]"
      "\<forall>x \<in> set l. load_ok keccak B (snd x) (flow_slice (fst x) (F ++ kept_bytes (flow_shard s) a data)) \<and> si_load_index (eb_seal (snd x)) = fst x"
      using one by auto
    note IH = Cons.IH [of "s\<lparr>seal_manager := m\<rparr>" "acc @ l", simplified, OF Cons.prems(1,2) _ c(2)]
    show ?thesis
    proof (cases "\<forall>c \<in> set cs. append_fits (flow_shard s) a data F c")
      case all: True
      then obtain l' m' where "io_fold ?f (map (batch_part a (a + n)) cs) (acc @ l) (s\<lparr>seal_manager := m\<rparr>) = (Inr (acc @ l @ l'), s\<lparr>seal_manager := m'\<rparr>)"
        "map fst l' = filter (owns (flow_shard s)) cs"
        "\<forall>x \<in> set l'. load_ok keccak B (snd x) (flow_slice (fst x) (F ++ kept_bytes (flow_shard s) a data)) \<and> si_load_index (eb_seal (snd x)) = fst x"
        using IH Cons.prems(3) by auto
      then show ?thesis using True all 1 by (auto intro!: exI [of _ "l @ l'"] exI [of _ m'])
    next
      case some: False
      then obtain e m' where "io_fold ?f (map (batch_part a (a + n)) cs) (acc @ l) (s\<lparr>seal_manager := m\<rparr>) = (Inl (Err e), s\<lparr>seal_manager := m'\<rparr>)"
        using IH [OF Cons.prems(3), unfolded if_not_P [OF some]] by auto
      then have "io_fold ?f (map (batch_part a (a + n)) (c # cs)) acc s = (Inl (Err e), s\<lparr>seal_manager := m'\<rparr>)" using 1(1) by simp
      then show ?thesis using some by (metis list.set_intros(2))
    qed
  qed
qed

lemma put_entry_batch_list_flow:
  assumes flow: "db_flow keccak B (contents db) F" and l: "distinct (map fst l)"
    and ok: "\<forall>x \<in> set l. fst x < 2 ^ 64 \<and> load_ok keccak B (snd x) (flow_slice (fst x) F') \<and> si_load_index (eb_seal (snd x)) = fst x"
    and rest: "\<forall>c < 2 ^ 64. c \<notin> fst ` set l \<longrightarrow> flow_slice c F' = flow_slice c F"
  shows "\<exists>db'. put_entry_batch_list keccak C B D l db = Inr (db', load_roots keccak F' (map fst l)) \<and> db_flow keccak B (contents db') F'"
proof -
  have "build_root keccak C B (snd x) (fst x = 0) = Inr (load_root keccak F' (fst x))" if "x \<in> set l" for x
    unfolding load_root_def sizes using ok that by (intro load_ok_root [OF node_cache_axioms]) blast
  then have "rfold (\<lambda>(batch_index, batch) completed.
        rbind (build_root keccak C B batch (batch_index = 0)) (\<lambda>r.
        Inr (case r of Some root \<Rightarrow> completed @ [(batch_index, root)] | None \<Rightarrow> completed))) l acc =
      Inr (acc @ load_roots keccak F' (map fst l))" for acc
    by (induction l arbitrary: acc) (auto simp: load_roots_def split: option.split)
  moreover obtain db' where "kv_write D db (map (put_batch_op B) l) = Inr db'" "contents db' = fold apply_op (map (put_batch_op B) l) (contents db)"
    by (rule written)
  moreover have "db_flow keccak B (fold apply_op (map (put_batch_op B) l) (contents db)) F'"
    using db_flow_puts [OF flow l] ok rest by (auto simp: case_prod_unfold)
  ultimately show ?thesis by (simp add: put_entry_batch_list_def)
qed

lemma append_entries_flow:
  assumes flow: "db_flow keccak B (contents (data_db s)) F" and bs: "batch_size s = 1024" and sc: "0 < num_shard (flow_shard s)"
    and n: "length data = 256 * n" "0 < n" "a + n < 2 ^ 64"
  shows "if \<forall>c \<in> set (batch_indices a (a + n)). append_fits (flow_shard s) a data F c
    then \<exists>m db. append_entries keccak C B D now \<lparr>ca_data = data, ca_start_index = a\<rparr> s =
        (Inr (load_roots keccak (F ++ kept_bytes (flow_shard s) a data) (filter (owns (flow_shard s)) (batch_indices a (a + n)))),
         s\<lparr>seal_manager := m, data_db := db\<rparr>) \<and>
      db_flow keccak B (contents db) (F ++ kept_bytes (flow_shard s) a data)
    else \<exists>e m. append_entries keccak C B D now \<lparr>ca_data = data, ca_start_index = a\<rparr> s = (Inl (Err e), s\<lparr>seal_manager := m\<rparr>)"
proof -
  let ?ca = "\<lparr>ca_data = data, ca_start_index = a\<rparr>" and ?F = "F ++ kept_bytes (flow_shard s) a data" and ?cs = "batch_indices a (a + n)"
  let ?own = "filter (owns (flow_shard s)) ?cs"
  have ab: "a < a + n" using n(2) by simp
  note steps = append_steps_flow [OF flow bs sc n subset_refl, of now "[]"]
  have pre: "append_entries keccak C B D now ?ca s =
      io_bind (io_fold (append_step keccak B D now ?ca) (map (batch_part a (a + n)) ?cs) []) (\<lambda>batch_list s.
        case put_entry_batch_list keccak C B D batch_list (data_db s) of
           Inl e \<Rightarrow> (Inl e, s) | Inr (db, roots) \<Rightarrow> (Inr roots, s\<lparr>data_db := db\<rparr>)) s"
    using n batch_iter_parts [OF ab] by (simp add: append_entries_def bs bytes_to_entries_def ENTRY_SIZE_def)
  show ?thesis
  proof (cases "\<forall>c \<in> set ?cs. append_fits (flow_shard s) a data F c")
    case True
    then obtain l m where l: "io_fold (append_step keccak B D now ?ca) (map (batch_part a (a + n)) ?cs) [] s = (Inr l, s\<lparr>seal_manager := m\<rparr>)"
      "map fst l = ?own"
      "\<forall>x \<in> set l. load_ok keccak B (snd x) (flow_slice (fst x) ?F) \<and> si_load_index (eb_seal (snd x)) = fst x"
      using steps by auto
    have dist: "distinct (map fst l)" unfolding l(2) by (simp add: batch_indices_def)
    have own: "fst ` set l = set ?own" using arg_cong [OF l(2), of set] by simp
    have lt: "c < 2 ^ 64" if "c \<in> set ?cs" for c using batch_part_bounds(1,4,6) [OF ab that] n(3) by simp
    have ok: "\<forall>x \<in> set l. fst x < 2 ^ 64 \<and> load_ok keccak B (snd x) (flow_slice (fst x) ?F) \<and> si_load_index (eb_seal (snd x)) = fst x"
    proof
      fix x assume x: "x \<in> set l"
      then have "fst x \<in> set ?own" unfolding own [symmetric] by simp
      then show "fst x < 2 ^ 64 \<and> load_ok keccak B (snd x) (flow_slice (fst x) ?F) \<and> si_load_index (eb_seal (snd x)) = fst x"
        using l(3) x lt by simp
    qed
    have rest: "\<forall>c < 2 ^ 64. c \<notin> fst ` set l \<longrightarrow> flow_slice c ?F = flow_slice c F"
      using flow_slice_outside [OF n(1) _ n(2)] unfolding own by (auto simp: flow_slice_add flow_slice_kept)
    obtain db where "put_entry_batch_list keccak C B D l (data_db s) = Inr (db, load_roots keccak ?F ?own)" "db_flow keccak B (contents db) ?F"
      using put_entry_batch_list_flow [OF flow dist ok rest] unfolding l(2) by blast
    then show ?thesis using True l(1) by (auto simp: pre intro!: exI [of _ m] exI [of _ db])
  next
    case False
    then obtain e m where "io_fold (append_step keccak B D now ?ca) (map (batch_part a (a + n)) ?cs) [] s = (Inl (Err e), s\<lparr>seal_manager := m\<rparr>)"
      using steps [unfolded if_not_P [OF False]] by auto
    then have "append_entries keccak C B D now ?ca s = (Inl (Err e), s\<lparr>seal_manager := m\<rparr>)" by (simp add: pre)
    then show ?thesis using False by auto
  qed
qed

end

section \<open>Truncating and deleting\<close>

lemma flow_slice_restrict: "flow_slice c (F |` A) = flow_slice c F |` {i. 262144 * c + i \<in> A}"
  by (auto simp: flow_slice_def restrict_map_def fun_eq_iff)

lemma db_flow_same:
  assumes "\<And>c. c < 2 ^ 64 \<Longrightarrow> flow_slice c F' = flow_slice c F" "db_flow keccak B ct F"
  shows "db_flow keccak B ct F'"
  using assms unfolding db_flow_def by simp

context key_value_db
begin

lemma last_key:
  obtains "kv_iter D db col = []" "contents db col = Map.empty"
  | k v where "kv_iter D db col \<noteq> []" "last (kv_iter D db col) = Inr (k, v)" "contents db col k \<noteq> None"
    "\<forall>k'. contents db col k' \<noteq> None \<longrightarrow> k' = k \<or> bytes_less k' k"
proof -
  obtain kvs where kvs: "kv_iter D db col = map Inr kvs" "map_of kvs = contents db col" "sorted_wrt bytes_less (map fst kvs)"
    using iter_ex by blast
  show ?thesis
  proof (cases kvs rule: rev_cases)
    case Nil
    then show ?thesis using kvs that(1) by simp
  next
    case (snoc ys kv)
    have keys: "contents db col k' \<noteq> None \<longleftrightarrow> k' \<in> fst ` set ys \<or> k' = fst kv" for k'
      using kvs(2) map_of_eq_None_iff [of kvs k'] snoc by auto
    have "bytes_less k' (fst kv)" if "k' \<in> fst ` set ys" for k'
      using kvs(3) that snoc by (auto simp: sorted_wrt_append)
    then show ?thesis using that(2) [of "fst kv" "snd kv"] kvs(1) snoc keys by auto
  qed
qed

end

context flow_database
begin

lemma truncate_first_flow:
  assumes flow: "db_flow keccak B (contents db) F" and q: "q < 2 ^ 64" and t: "0 < t" "t < 1024"
  shows "\<exists>tx reseal. truncate_first keccak B D q t db = Inr (tx, reseal) \<and>
    db_flow keccak B (fold apply_op tx (contents db)) (F |` {i. i div 262144 = q \<longrightarrow> i < 262144 * q + 256 * t})"
proof -
  let ?F = "F |` {i. i div 262144 = q \<longrightarrow> i < 262144 * q + 256 * t}"
  have q_slice: "flow_slice q ?F = flow_slice q F |` {..<256 * t}" by (auto simp: flow_slice_def restrict_map_def fun_eq_iff)
  have rest: "flow_slice c ?F = flow_slice c F" if "c \<noteq> q" for c using that by (auto simp: flow_slice_def restrict_map_def fun_eq_iff)
  show ?thesis
  proof (rule stored_batch_cases [OF flow q])
    assume none: "get_entry_batch B D q db = Inr None" "flow_slice q F = Map.empty"
    have "flow_slice c ?F = flow_slice c F" for c using rest q_slice none(2) by (cases "c = q") auto
    then have "db_flow keccak B (contents db) ?F" using db_flow_same [OF _ flow] by blast
    then show ?thesis using none(1) by (simp add: truncate_first_def)
  next
    fix eb assume eb: "get_entry_batch B D q db = Inr (Some eb)" "load_ok keccak B eb (flow_slice q F)" "si_load_index (eb_seal eb) = q"
    obtain eb' reseal where eb': "entry_batch_truncate keccak B t eb = Inr (eb', reseal)"
      "load_ok keccak B eb' (flow_slice q ?F)" "si_load_index (eb_seal eb') = q"
      using load_ok_truncate [OF bitmap64_axioms eb(2) t] eb(3) unfolding q_slice by auto
    let ?tx = "[if \<not> entry_batch_is_empty eb' then put_batch_op B (q, eb') else Delete COL_ENTRY_BATCH (be_bytes 8 q)]"
    have "db_flow keccak B (fold apply_op ?tx (contents db)) ?F"
    proof (cases "entry_batch_is_empty eb'")
      case True
      then have "flow_slice q ?F = Map.empty" using load_ok_empty [OF eb'(2)] by simp
      then show ?thesis using db_flow_deletes [OF flow, of "[q]" ?F] True q rest by simp
    next
      case False
      then show ?thesis using db_flow_puts [OF flow, of "[(q, eb')]" ?F] q rest eb'(2,3) by simp
    qed
    then show ?thesis using eb(1) eb'(1) by (auto simp: truncate_first_def)
  qed
qed

lemma last_batch:
  assumes flow: "db_flow keccak B (contents db) F"
  obtains "kv_iter D db COL_ENTRY_BATCH = []" "\<forall>c < 2 ^ 64. flow_slice c F = Map.empty"
  | k v e where "kv_iter D db COL_ENTRY_BATCH \<noteq> []" "last (kv_iter D db COL_ENTRY_BATCH) = Inr (k, v)" "try_decode_usize k = Inr e" "e < 2 ^ 64"
    "\<forall>c < 2 ^ 64. e < c \<longrightarrow> flow_slice c F = Map.empty"
proof (rule last_key [of db COL_ENTRY_BATCH])
  assume a: "kv_iter D db COL_ENTRY_BATCH = []" "contents db COL_ENTRY_BATCH = Map.empty"
  have "flow_slice c F = Map.empty" if "c < 2 ^ 64" for c using db_flow_load [OF flow that] a(2) by (simp add: holds_load_def)
  then show ?thesis using that(1) a(1) by blast
next
  fix k v assume k: "kv_iter D db COL_ENTRY_BATCH \<noteq> []" "last (kv_iter D db COL_ENTRY_BATCH) = Inr (k, v)"
    "contents db COL_ENTRY_BATCH k \<noteq> None" "\<forall>k'. contents db COL_ENTRY_BATCH k' \<noteq> None \<longrightarrow> k' = k \<or> bytes_less k' k"
  have len: "length k = 8" using flow k(3) by (simp add: db_flow_def)
  let ?e = "of_be_bytes k"
  have e: "try_decode_usize k = Inr ?e" "be_bytes 8 ?e = k" using len be_bytes_of_be_bytes [of k] by (simp_all add: try_decode_usize_def)
  have e64: "?e < 256 ^ 8" using of_be_bytes_less [of k] len by simp
  have "flow_slice c F = Map.empty" if c: "c < 2 ^ 64" "?e < c" for c
  proof -
    have "c < 256 ^ 8" using c(1) by simp
    then have "\<not> bytes_less (be_bytes 8 c) k" "be_bytes 8 c \<noteq> k"
      using bytes_less_be_bytes [of c 8 ?e] be_bytes_eq_iff [of c 8 ?e] e64 e(2) c(2) by simp_all
    then have "contents db COL_ENTRY_BATCH (be_bytes 8 c) = None" using k(4) by blast
    then show ?thesis using db_flow_load [OF flow c(1)] by (simp add: holds_load_def)
  qed
  then show ?thesis using that(2) [OF k(1,2) e(1)] e64 by simp
qed

lemma flow_db_truncate_flow:
  assumes flow: "db_flow keccak B (contents db) F" and n: "n < 2 ^ 64"
  shows "\<exists>db' reseal. flow_db_truncate keccak B D n 1024 db = Inr (db', reseal) \<and> db_flow keccak B (contents db') (F |` {..<256 * n})"
proof -
  define q t where "q = n div 1024" and "t = n mod 1024"
  have qt: "n = 1024 * q + t" "t < 1024" "q < 2 ^ 64" using n by (simp_all add: q_def t_def)
  let ?F = "F |` {..<256 * n}" and ?q = "if t \<noteq> 0 then q + 1 else q"
  let ?F1 = "if t \<noteq> 0 then F |` {i. i div 262144 = q \<longrightarrow> i < 262144 * q + 256 * t} else F"
  have low: "flow_slice c ?F = flow_slice c ?F1" if "c < ?q" for c
    using that qt by (auto simp: flow_slice_def restrict_map_def fun_eq_iff split: if_splits)
  have high: "flow_slice c ?F = Map.empty" if "?q \<le> c" for c
    using that qt by (auto simp: flow_slice_def restrict_map_def fun_eq_iff split: if_splits)
  obtain tx reseal where tx: "(if t \<noteq> 0 then truncate_first keccak B D q t db else Inr ([], [])) = Inr (tx, reseal)"
    "db_flow keccak B (fold apply_op tx (contents db)) ?F1"
    using truncate_first_flow [OF flow qt(3), of t] qt(2) flow by (cases "t = 0") auto
  show ?thesis
  proof (rule last_batch [OF flow])
    assume a: "kv_iter D db COL_ENTRY_BATCH = []" "\<forall>c < 2 ^ 64. flow_slice c F = Map.empty"
    have "flow_slice c ?F = flow_slice c F" if "c < 2 ^ 64" for c using a(2) that by (simp add: flow_slice_restrict)
    then have "db_flow keccak B (contents db) ?F" using db_flow_same [OF _ flow] by blast
    then show ?thesis using tx(1) a(1) by (auto simp: flow_db_truncate_def Let_def simp flip: q_def t_def)
  next
    fix k v e assume e: "kv_iter D db COL_ENTRY_BATCH \<noteq> []" "last (kv_iter D db COL_ENTRY_BATCH) = Inr (k, v)"
      "try_decode_usize k = Inr e" "e < 2 ^ 64" "\<forall>c < 2 ^ 64. e < c \<longrightarrow> flow_slice c F = Map.empty"
    let ?del = "map (\<lambda>i. Delete COL_ENTRY_BATCH (be_bytes 8 i)) [?q..<e + 1]"
    obtain db' where db': "kv_write D db (tx @ ?del) = Inr db'" "contents db' = fold apply_op (tx @ ?del) (contents db)"
      by (rule written)
    have "flow_slice c ?F = (if c \<in> set [?q..<e + 1] then Map.empty else flow_slice c ?F1)" if c: "c < 2 ^ 64" for c
    proof (cases "c < ?q")
      case True
      then show ?thesis using low by auto
    next
      case False
      then show ?thesis using high [of c] e(5) c by (auto simp: flow_slice_restrict not_le)
    qed
    then have "db_flow keccak B (contents db') ?F"
      unfolding db'(2) fold_append comp_apply using e(4) by (intro db_flow_deletes [OF tx(2)]) auto
    then show ?thesis using tx(1) e(1,2,3) db'(1) by (auto simp: flow_db_truncate_def Let_def simp flip: q_def t_def)
  qed
qed

end

section \<open>Sealing\<close>

text \<open>Answers that the sealer computed from the content, one after the other.\<close>

primrec honest_answers :: "(byte list \<Rightarrow> h256) \<Rightarrow> 'b bitmap_ops \<Rightarrow> 'b entry_batch \<Rightarrow> (nat \<rightharpoonup> byte) \<Rightarrow> seal_answer list \<Rightarrow> bool" where
  "honest_answers keccak B eb m [] \<longleftrightarrow> True"
| "honest_answers keccak B eb m (a # as) \<longleftrightarrow>
     honest_answer keccak B eb m a \<and> length (sa_seal_context a) = 32 \<and> length (sa_miner_id a) = 32 \<and>
     (case submit_seal_result B a eb of Inl _ \<Rightarrow> False | Inr eb' \<Rightarrow> honest_answers keccak B eb' m as)"

lemma honest_answers_load:
  assumes "bitmap64 B" "load_ok keccak B eb m" "honest_answers keccak B eb m as"
  shows "\<exists>eb'. rfold (submit_seal_result B) as eb = Inr eb' \<and> load_ok keccak B eb' m \<and> si_load_index (eb_seal eb') = si_load_index (eb_seal eb)"
  using assms(2,3)
proof (induction as arbitrary: eb)
  case (Cons a as)
  obtain eb1 where 1: "submit_seal_result B a eb = Inr eb1" "load_ok keccak B eb1 m" "si_load_index (eb_seal eb1) = si_load_index (eb_seal eb)"
    using load_ok_seal [OF assms(1) Cons.prems(1)] Cons.prems(2) by auto
  then show ?case using Cons.IH [OF 1(2)] Cons.prems(2) by auto
qed auto

lemma chunk_by_keys: "fst ` set (chunk_by f xs) = f ` set xs"
proof (induction xs)
  case (Cons x xs)
  have "fst ` set (chunk_by f (x # xs)) = insert (f x) (fst ` set (chunk_by f xs))"
  proof (cases "chunk_by f xs")
    case (Cons p rest)
    then show ?thesis by (cases p) auto
  qed simp
  then show ?case using Cons by simp
qed simp

definition same_config :: "'d flow_store \<Rightarrow> 'd flow_store \<Rightarrow> bool" where
  "same_config s s' \<longleftrightarrow> batch_size s' = batch_size s \<and> flow_shard s' = flow_shard s \<and> flow_db s' = flow_db s"

lemma chunk_by_sorted: "sorted (map f xs) \<Longrightarrow> sorted_wrt (<) (map fst (chunk_by f xs))" for f :: "'a \<Rightarrow> nat"
proof (induction xs)
  case (Cons x xs)
  have le: "f x \<le> k" if "k \<in> fst ` set (chunk_by f xs)" for k using that Cons.prems by (auto simp: chunk_by_keys)
  show ?case
  proof (cases "chunk_by f xs")
    case (Cons p rest)
    obtain k ys where p: "p = (k, ys)" by (cases p)
    have "sorted_wrt (<) (map fst ((k, ys) # rest))" using Cons.IH Cons.prems Cons p by simp
    then show ?thesis using le [of k] Cons p by auto
  qed simp
qed simp

context flow_database
begin

lemma submit_groups_flow:
  assumes flow: "db_flow keccak B (contents (data_db s)) F"
    and g: "\<forall>(c, as) \<in> set gs. c < 2 ^ 64 \<and> (\<exists>eb. get_entry_batch B D c (data_db s) = Inr (Some eb) \<and> honest_answers keccak B eb (flow_slice c F) as)"
  shows "\<exists>l. rfold (submit_group B D s) gs acc = Inr (acc @ l) \<and> map fst l = map fst gs \<and>
    (\<forall>(c, eb) \<in> set l. load_ok keccak B eb (flow_slice c F) \<and> si_load_index (eb_seal eb) = c)"
  using g
proof (induction gs arbitrary: acc)
  case (Cons g gs)
  obtain c as where g: "g = (c, as)" by (cases g)
  obtain eb where eb: "c < 2 ^ 64" "get_entry_batch B D c (data_db s) = Inr (Some eb)" "honest_answers keccak B eb (flow_slice c F) as"
    using Cons.prems g by auto
  have "load_ok keccak B eb (flow_slice c F)" "si_load_index (eb_seal eb) = c"
    using stored_batch_cases [OF flow eb(1)] eb(2) by auto
  then obtain eb' where eb': "rfold (submit_seal_result B) as eb = Inr eb'" "load_ok keccak B eb' (flow_slice c F)" "si_load_index (eb_seal eb') = c"
    using honest_answers_load [OF bitmap64_axioms _ eb(3)] by auto
  have "submit_group B D s g acc = Inr (acc @ [(c, eb')])" using eb(2) eb'(1) by (simp add: submit_group_def g)
  moreover obtain l where "rfold (submit_group B D s) gs (acc @ [(c, eb')]) = Inr ((acc @ [(c, eb')]) @ l)" "map fst l = map fst gs"
    "\<forall>(c, eb) \<in> set l. load_ok keccak B eb (flow_slice c F) \<and> si_load_index (eb_seal eb) = c"
    using Cons.IH [of "acc @ [(c, eb')]"] Cons.prems by auto
  ultimately show ?case using eb' g by (auto intro!: exI [of _ "(c, eb') # l"])
qed simp

lemma flow_submit_seal_result_flow:
  assumes flow: "db_flow keccak B (contents (data_db s)) F" and sorted: "sorted (map sa_seal_index answers)"
    and lt: "\<forall>a \<in> set answers. sa_seal_index a < 2 ^ 64"
  defines "todo \<equiv> filter (\<lambda>a. map_of (to_seal_set (seal_manager s)) (sa_seal_index a) = Some (sa_version a)) answers"
  assumes honest: "\<forall>(c, as) \<in> set (chunk_by (\<lambda>a. sa_seal_index a div SEALS_PER_LOAD) todo).
      \<exists>eb. get_entry_batch B D c (data_db s) = Inr (Some eb) \<and> honest_answers keccak B eb (flow_slice c F) as"
  shows "\<exists>s'. flow_submit_seal_result B D answers s = (Inr (), s') \<and> db_flow keccak B (contents (data_db s')) F \<and> same_config s s'"
proof -
  let ?gs = "chunk_by (\<lambda>a. sa_seal_index a div SEALS_PER_LOAD) todo"
  have sub: "set todo \<subseteq> set answers" by (auto simp: todo_def)
  have "sorted (map sa_seal_index todo)" using sorted unfolding todo_def by (rule sorted_filter)
  then have "sorted (map (\<lambda>a. sa_seal_index a div SEALS_PER_LOAD) todo)"
    by (auto simp: sorted_map elim!: sorted_wrt_mono_rel [rotated] intro: div_le_mono)
  then have dist: "distinct (map fst ?gs)" using chunk_by_sorted strict_sorted_iff by blast
  have c64: "c < 2 ^ 64" if "c \<in> fst ` set ?gs" for c
    using that lt sub unfolding chunk_by_keys by (auto intro: le_less_trans [OF div_le_dividend])
  obtain l where l: "rfold (submit_group B D s) ?gs [] = Inr l" "map fst l = map fst ?gs"
    "\<forall>(c, eb) \<in> set l. load_ok keccak B eb (flow_slice c F) \<and> si_load_index (eb_seal eb) = c"
    using submit_groups_flow [OF flow, of ?gs "[]"] honest c64 by force
  have keys: "fst ` set l = fst ` set ?gs" using arg_cong [OF l(2), of set] by simp
  obtain db where db: "kv_write D (data_db s) (map (put_batch_op B) l) = Inr db" "contents db = fold apply_op (map (put_batch_op B) l) (contents (data_db s))"
    by (rule written)
  have "\<forall>(c, eb) \<in> set l. c < 2 ^ 64 \<and> load_ok keccak B eb (flow_slice c F) \<and> si_load_index (eb_seal eb) = c"
    using l(3) c64 unfolding keys [symmetric] by fastforce
  then have "db_flow keccak B (contents db) F" unfolding db(2) using dist l(2) by (intro db_flow_puts [OF flow]) simp_all
  then show ?thesis using l(1) db(1)
    by (simp add: flow_submit_seal_result_def put_data_db_def put_entry_raw_def same_config_def flip: todo_def)
qed

lemma delete_batch_list_flow:
  assumes flow: "db_flow keccak B (contents (data_db s)) F" and lt: "\<forall>c \<in> set cs. c < 2 ^ 64"
  shows "\<exists>s'. delete_batch_list D cs s = (Inr (), s') \<and>
    db_flow keccak B (contents (data_db s')) (F |` {i. i div 262144 \<notin> set cs}) \<and> same_config s s'"
proof -
  let ?del = "map (\<lambda>i. Delete COL_ENTRY_BATCH (be_bytes 8 i)) cs"
  obtain db where db: "kv_write D (data_db s) ?del = Inr db" "contents db = fold apply_op ?del (contents (data_db s))" by (rule written)
  have "flow_slice c (F |` {i. i div 262144 \<notin> set cs}) = (if c \<in> set cs then Map.empty else flow_slice c F)" for c
    by (auto simp: flow_slice_def restrict_map_def fun_eq_iff)
  then have "db_flow keccak B (contents db) (F |` {i. i div 262144 \<notin> set cs})" unfolding db(2) by (intro db_flow_deletes [OF flow lt]) simp
  then show ?thesis using db(1) by (simp add: delete_batch_list_def put_data_db_def db_delete_batch_list_def same_config_def)
qed

lemma flow_truncate_flow:
  assumes flow: "db_flow keccak B (contents (data_db s)) F" and bs: "batch_size s = 1024" and n: "n < 2 ^ 64"
  shows "\<exists>s'. flow_truncate keccak B D n s = (Inr (), s') \<and> db_flow keccak B (contents (data_db s')) (F |` {..<256 * n}) \<and> same_config s s'"
  using flow_db_truncate_flow [OF flow n] by (auto simp: flow_truncate_def bs Let_def same_config_def split: prod.split)

end

end
