(* ===== verification/Flow_Properties.thy ===== *)
theory Flow_Properties
  imports Flow_Content
begin

text \<open>
  Runs of the flow store. A store that was created on an empty database and then appended to, truncated, pruned,
  sealed or given another shard, in any order and with failed appends in between, holds the flow that these
  operations describe.
\<close>

section \<open>Runs\<close>

inductive flow_reach ::
    "(byte list \<Rightarrow> h256) \<Rightarrow> (optional_hash, 'c) lru_ops \<Rightarrow> 'b bitmap_ops \<Rightarrow> 'd kv_ops \<Rightarrow> ('d \<Rightarrow> contents) \<Rightarrow>
     'd flow_store \<Rightarrow> (nat \<rightharpoonup> byte) \<Rightarrow> bool"
  for keccak C B D contents where
  flow_new: "\<lbrakk>contents ddb COL_ENTRY_BATCH = Map.empty; 0 < num_shard sc\<rbrakk>
    \<Longrightarrow> flow_reach keccak C B D contents (flow_store_new fdb ddb PORA_CHUNK_SIZE sc now) Map.empty"
| flow_append: "\<lbrakk>flow_reach keccak C B D contents s F; data \<noteq> []; a + bytes_to_entries (length data) < 2 ^ 64;
      append_entries keccak C B D now \<lparr>ca_data = data, ca_start_index = a\<rparr> s = (Inr roots, s')\<rbrakk>
    \<Longrightarrow> flow_reach keccak C B D contents s' (F ++ kept_bytes (flow_shard s) a data)"
| flow_append_failed: "\<lbrakk>flow_reach keccak C B D contents s F; data \<noteq> []; a + bytes_to_entries (length data) < 2 ^ 64;
      append_entries keccak C B D now \<lparr>ca_data = data, ca_start_index = a\<rparr> s = (Inl e, s')\<rbrakk>
    \<Longrightarrow> flow_reach keccak C B D contents s' F"
| flow_cut: "\<lbrakk>flow_reach keccak C B D contents s F; n < 2 ^ 64; flow_truncate keccak B D n s = (Inr (), s')\<rbrakk>
    \<Longrightarrow> flow_reach keccak C B D contents s' (F |` {..<BYTES_PER_SECTOR * n})"
| flow_prune: "\<lbrakk>flow_reach keccak C B D contents s F; \<forall>c \<in> set cs. c < 2 ^ 64; delete_batch_list D cs s = (Inr (), s')\<rbrakk>
    \<Longrightarrow> flow_reach keccak C B D contents s' (F |` {i. i div BYTES_PER_LOAD \<notin> set cs})"
| flow_seal: "\<lbrakk>flow_reach keccak C B D contents s F; sorted (map sa_seal_index answers); \<forall>a \<in> set answers. sa_seal_index a < 2 ^ 64;
      \<forall>(c, as) \<in> set (chunk_by (\<lambda>a. sa_seal_index a div SEALS_PER_LOAD)
          (filter (\<lambda>a. map_of (to_seal_set (seal_manager s)) (sa_seal_index a) = Some (sa_version a)) answers)).
        \<exists>eb. get_entry_batch B D c (data_db s) = Inr (Some eb) \<and> honest_answers keccak B eb (flow_slice c F) as;
      flow_submit_seal_result B D answers s = (Inr (), s')\<rbrakk>
    \<Longrightarrow> flow_reach keccak C B D contents s' F"
| flow_pull: "\<lbrakk>flow_reach keccak C B D contents s F; pull_seal_chunk B D now seal_index_max s = (r, s')\<rbrakk>
    \<Longrightarrow> flow_reach keccak C B D contents s' F"
| flow_shard_config: "\<lbrakk>flow_reach keccak C B D contents s F; 0 < num_shard sc\<rbrakk>
    \<Longrightarrow> flow_reach keccak C B D contents (flow_update_shard_config sc s) F"

context flow_database
begin

lemma new_flow: "ct COL_ENTRY_BATCH = Map.empty \<Longrightarrow> db_flow keccak B ct Map.empty"
  by (simp add: db_flow_def holds_load_def flow_slice_def)

lemma append_entries_cases:
  assumes "db_flow keccak B (contents (data_db s)) F" "batch_size s = 1024" "0 < num_shard (flow_shard s)"
    and "data \<noteq> []" "a + bytes_to_entries (length data) < 2 ^ 64"
    and res: "append_entries keccak C B D now \<lparr>ca_data = data, ca_start_index = a\<rparr> s = (r, s')"
  shows "(case r of Inl e \<Rightarrow> db_flow keccak B (contents (data_db s')) F
    | Inr roots \<Rightarrow> db_flow keccak B (contents (data_db s')) (F ++ kept_bytes (flow_shard s) a data)) \<and> same_config s s'"
proof (cases "length data mod 256 = 0")
  case True
  define n where "n = length data div 256"
  have len: "length data = 256 * n" using True by (auto simp: n_def)
  moreover have "0 < n" using len assms(4) by (cases n) simp_all
  moreover have "a + n < 2 ^ 64" using len assms(5) by (simp add: bytes_to_entries_def ENTRY_SIZE_def)
  ultimately have n: "length data = 256 * n" "0 < n" "a + n < 2 ^ 64" by blast+
  show ?thesis using append_entries_flow [OF assms(1-3) n, of now] assms(1) res by (auto simp: same_config_def split: if_split_asm)
next
  case False
  then show ?thesis using res assms(1) by (auto simp: append_entries_def same_config_def)
qed

lemma flow_reach_holds:
  "flow_reach keccak C B D contents s F \<Longrightarrow>
    db_flow keccak B (contents (data_db s)) F \<and> batch_size s = 1024 \<and> 0 < num_shard (flow_shard s)"
proof (induction rule: flow_reach.induct)
  case (flow_new ddb sc fdb now)
  then show ?case using new_flow by (simp add: flow_store_new_def PORA_CHUNK_SIZE_def)
next
  case (flow_append s F data a now roots s')
  then show ?case using append_entries_cases [of keccak s F data a now "Inr roots" s'] by (simp add: same_config_def)
next
  case (flow_append_failed s F data a now e s')
  then show ?case using append_entries_cases [of keccak s F data a now "Inl e" s'] by (simp add: same_config_def)
next
  case (flow_cut s F n s')
  then show ?case using flow_truncate_flow [of keccak s F n] by (auto simp: same_config_def)
next
  case (flow_prune s F cs s')
  then show ?case using delete_batch_list_flow [of keccak s F cs] by (auto simp: same_config_def)
next
  case (flow_seal s F answers s')
  then show ?case using flow_submit_seal_result_flow [of keccak s F answers] by (auto simp: same_config_def)
next
  case (flow_pull s F now seal_index_max r s')
  then show ?case by (auto simp: pull_seal_chunk_def)
next
  case (flow_shard_config s F sc)
  then show ?case by (simp add: flow_update_shard_config_def)
qed

end

interpretation memory_flow: flow_database memory_ops memory_contents word_bitmap map_cache ..

text \<open>A store with two sectors of data from entry 1 on.\<close>

definition one_shard :: shard_config where
  "one_shard = \<lparr>shard_id = 0, num_shard = 1\<rparr>"

lemma kept_by_one_shard: "kept_bytes one_shard a data = bytes_at (256 * a) data"
  by (auto simp: kept_bytes_def owns_def one_shard_def)

definition sample_flow :: "nat \<rightharpoonup> byte" where
  "sample_flow = bytes_at 256 (replicate 512 7)"

lemma sample_flow_range: "{256..<768} \<subseteq> dom sample_flow" "range_bytes sample_flow 256 512 = replicate 512 7" "dom sample_flow = {256..<768}"
proof -
  show "range_bytes sample_flow 256 512 = replicate 512 7" unfolding sample_flow_def using range_bytes_at [of 256 "replicate 512 7"] by simp
qed (simp_all add: sample_flow_def)

lemma sample_store:
  obtains s where "flow_reach toy_keccak map_cache word_bitmap memory_ops memory_contents s sample_flow" "flow_shard s = one_shard"
proof -
  let ?s = "flow_store_new (\<lambda>_. []) ((\<lambda>_. []) :: memory_db) PORA_CHUNK_SIZE one_shard 0" and ?d = "replicate 512 (7 :: byte)"
  have r: "flow_reach toy_keccak map_cache word_bitmap memory_ops memory_contents ?s Map.empty"
    by (rule flow_new) (simp_all add: memory_contents_def one_shard_def)
  have s: "batch_size ?s = 1024" "0 < num_shard (flow_shard ?s)" "flow_shard ?s = one_shard" "\<forall>c. append_fits one_shard 1 ?d Map.empty c"
    by (simp_all add: flow_store_new_def PORA_CHUNK_SIZE_def one_shard_def append_fits_def flow_slice_def)
  have db: "db_flow toy_keccak word_bitmap (memory_contents (data_db ?s)) Map.empty"
    by (rule memory_flow.new_flow) (simp add: flow_store_new_def memory_contents_def)
  have n: "length ?d = 256 * 2" "0 < (2::nat)" "1 + 2 < (2::nat) ^ 64" by simp_all
  have fits: "\<forall>c \<in> set (batch_indices 1 (1 + 2)). append_fits (flow_shard ?s) 1 ?d Map.empty c" using s(3,4) by simp
  obtain roots s' where s': "append_entries toy_keccak map_cache word_bitmap memory_ops 0 \<lparr>ca_data = ?d, ca_start_index = 1\<rparr> ?s = (Inr roots, s')"
    "flow_shard s' = one_shard"
    using memory_flow.append_entries_flow [OF db s(1,2) n, of 0, unfolded if_P [OF fits]] s(3) by auto
  have "flow_reach toy_keccak map_cache word_bitmap memory_ops memory_contents s' (Map.empty ++ kept_bytes (flow_shard ?s) 1 ?d)"
    by (rule flow_append [OF r _ _ s'(1)]) (simp_all add: bytes_to_entries_def ENTRY_SIZE_def)
  then show ?thesis using that s'(2) unfolding s(3) kept_by_one_shard sample_flow_def by simp
qed

section \<open>Properties\<close>



text \<open>C10: appending to the flow. When in every load of the shard the data is new or already stored, \<open>append_entries\<close>
  stores it and returns the Merkle root of each touched load that is now complete, computed from the plain bytes;
  otherwise it returns an error, and the stored flow is unchanged. It never panics.\<close>

theorem flow_append_outcome:
  assumes "flow_database D contents B C" "flow_reach keccak C B D contents s F"
    and "length data = 256 * n" "0 < n" "a + n < 2 ^ 64"
  shows "\<exists>r s'. append_entries keccak C B D now \<lparr>ca_data = data, ca_start_index = a\<rparr> s = (r, s') \<and>
    (if \<forall>c \<in> set (batch_indices a (a + n)). append_fits (flow_shard s) a data F c
     then r = Inr (load_roots keccak (F ++ kept_bytes (flow_shard s) a data) (filter (owns (flow_shard s)) (batch_indices a (a + n)))) \<and>
       flow_reach keccak C B D contents s' (F ++ kept_bytes (flow_shard s) a data)
     else (\<exists>e. r = Inl (Err e)) \<and> data_db s' = data_db s \<and> flow_reach keccak C B D contents s' F)"
proof -
  have inv: "db_flow keccak B (contents (data_db s)) F" "batch_size s = 1024" "0 < num_shard (flow_shard s)"
    using flow_database.flow_reach_holds [OF assms(1,2)] by auto
  have ne: "data \<noteq> []" "a + bytes_to_entries (length data) < 2 ^ 64"
    using assms(3-5) by (auto simp: bytes_to_entries_def ENTRY_SIZE_def)
  obtain r s' where res: "append_entries keccak C B D now \<lparr>ca_data = data, ca_start_index = a\<rparr> s = (r, s')" by fastforce
  note ok = flow_append [OF assms(2) ne, of now] and failed = flow_append_failed [OF assms(2) ne, of now]
  show ?thesis
    using flow_database.append_entries_flow [OF assms(1) inv assms(3-5), of now] res ok failed by (auto split: if_split_asm)
qed

theorem flow_append_outcome_witness:
  "\<exists>s s' e. append_entries toy_keccak map_cache word_bitmap memory_ops 0 \<lparr>ca_data = replicate 512 8, ca_start_index = 2\<rparr> s = (Inl (Err e), s')"
proof -
  obtain s where s: "flow_reach toy_keccak map_cache word_bitmap memory_ops memory_contents s sample_flow" "flow_shard s = one_shard"
    by (rule sample_store)
  let ?m = "flow_slice 0 (bytes_at 512 (replicate 512 (8 :: byte)))"
  have v: "?m 600 = Some 8" "?m 800 = Some 8" "flow_slice 0 sample_flow 600 = Some 7" "flow_slice 0 sample_flow 800 = None"
    by (simp_all add: flow_slice_def bytes_at_def sample_flow_def)
  then have "600 \<in> dom ?m \<inter> dom (flow_slice 0 sample_flow)" by auto
  moreover have "\<not> ?m \<subseteq>\<^sub>m flow_slice 0 sample_flow" using v by (force simp: map_le_def)
  ultimately have "\<not> append_fits one_shard 2 (replicate 512 8) sample_flow 0"
    unfolding append_fits_def kept_by_one_shard by auto
  then have no: "\<not> (\<forall>c \<in> set (batch_indices 2 (2 + 2)). append_fits (flow_shard s) 2 (replicate 512 8) sample_flow c)"
    using s(2) by (auto simp: batch_indices_def)
  show ?thesis
    using flow_append_outcome [OF memory_flow.flow_database_axioms s(1), of "replicate 512 8" 2 2 0, unfolded if_not_P [OF no]] by auto
qed

text \<open>C11: truncating the flow. \<open>truncate\<close> at entry \<open>n\<close> always succeeds; reads that end at or before \<open>n\<close> return what they
  returned before, and every read behind it finds data missing.\<close>

theorem flow_truncate_reads:
  assumes "flow_database D contents B C" "flow_reach keccak C B D contents s F" "n < 2 ^ 64" "0 < a" "a < b" "b \<le> 2 ^ 64"
  shows "\<exists>s'. flow_truncate keccak B D n s = (Inr (), s') \<and>
    get_entries keccak B D a b s' = (if b \<le> n then get_entries keccak B D a b s else Inr None)"
proof -
  have inv: "db_flow keccak B (contents (data_db s)) F" "batch_size s = 1024"
    using flow_database.flow_reach_holds [OF assms(1,2)] by auto
  obtain s' where s': "flow_truncate keccak B D n s = (Inr (), s')" "db_flow keccak B (contents (data_db s')) (F |` {..<256 * n})" "same_config s s'"
    using flow_database.flow_truncate_flow [OF assms(1) inv assms(3)] by blast
  note reads = flow_database.get_entries_flow [OF assms(1) _ _ assms(4-6)]
  have "{256 * a..<256 * b} \<subseteq> dom (F |` {..<256 * n}) \<longleftrightarrow> b \<le> n \<and> {256 * a..<256 * b} \<subseteq> dom F"
    using assms(5) by (auto simp: subset_iff dest: spec [of _ "256 * b - 1"])
  moreover have "range_bytes (F |` {..<256 * n}) (256 * a) (256 * (b - a)) = range_bytes F (256 * a) (256 * (b - a))" if "b \<le> n"
    using that by (intro range_bytes_cong) (auto simp: restrict_map_def)
  moreover have "batch_size s' = 1024" using s'(3) inv(2) by (simp add: same_config_def)
  ultimately show ?thesis using s'(1) reads [OF s'(2)] reads [OF inv] by auto
qed


theorem flow_truncate_reads_witness:
  "\<exists>s s'. flow_truncate toy_keccak word_bitmap memory_ops 2 s = (Inr (), s') \<and>
     get_entries toy_keccak word_bitmap memory_ops 1 3 s' = Inr None \<and> get_entries toy_keccak word_bitmap memory_ops 1 3 s \<noteq> Inr None"
proof -
  obtain s where s: "flow_reach toy_keccak map_cache word_bitmap memory_ops memory_contents s sample_flow" by (rule sample_store)
  have "db_flow toy_keccak word_bitmap (memory_contents (data_db s)) sample_flow" "batch_size s = 1024"
    using memory_flow.flow_reach_holds [OF s] by auto
  from memory_flow.get_entries_flow [OF this, of 1 3] have "get_entries toy_keccak word_bitmap memory_ops 1 3 s \<noteq> Inr None"
    using sample_flow_range(1) by simp
  then show ?thesis using flow_truncate_reads [OF memory_flow.flow_database_axioms s, of 2 1 3] by auto
qed

end
