(* ===== verification/Flow_Sealing.thy ===== *)
theory Flow_Sealing
  imports Flow_Properties
begin

text \<open>
  The segments that wait to be sealed: the set is kept in the order of the segments by every operation, and what
  happens to it when the flow is cut inside a sealed segment.
\<close>

section \<open>The set of segments\<close>

definition seal_order :: "'d flow_store \<Rightarrow> bool" where
  "seal_order s \<longleftrightarrow> sorted_wrt (<) (map fst (to_seal_set (seal_manager s)))"

lemma keys_bt_insert [simp]: "fst ` set (bt_insert k v xs) = insert k (fst ` set xs)"
  by (induction k v xs rule: bt_insert.induct) auto

lemma sorted_bt_insert: "sorted_wrt (<) (map fst xs) \<Longrightarrow> sorted_wrt (<) (map fst (bt_insert k v xs))"
proof (induction k v xs rule: bt_insert.induct)
  case (2 k v k' v' xs)
  then show ?case using keys_bt_insert [of k v xs] by (auto simp del: keys_bt_insert)
qed simp

lemma sorted_keys_filter: "sorted_wrt (<) (map fst xs) \<Longrightarrow> sorted_wrt (<) (map fst (filter P xs))"
  by (induction xs) auto

lemma fold_preserves: "P m \<Longrightarrow> (\<And>x m. P m \<Longrightarrow> P (f x m)) \<Longrightarrow> P (fold f xs m)"
  by (induction xs arbitrary: m) auto

lemma io_fold_preserves:
  assumes "\<And>x b s r s'. P s \<Longrightarrow> f x b s = (r, s') \<Longrightarrow> P s'" "P s" "io_fold f xs b s = (r, s')"
  shows "P s'"
  using assms(2,3)
proof (induction xs arbitrary: b s)
  case (Cons x xs)
  obtain r1 s1 where 1: "f x b s = (r1, s1)" by fastforce
  then show ?case using Cons assms(1) [OF Cons.prems(1) 1] by (cases r1) auto
qed simp

lemma seals_to_add_order:
  "sorted_wrt (<) (map fst (to_seal_set m)) \<Longrightarrow> sorted_wrt (<) (map fst (to_seal_set (seals_to_add B c eb m)))"
  unfolding seals_to_add_def
  by (rule fold_preserves [where P = "\<lambda>m. sorted_wrt (<) (map fst (to_seal_set m))"]) (auto simp: sorted_bt_insert)

lemma append_step_order:
  assumes "seal_order s" "append_step keccak B D now data rng acc s = (r, s')"
  shows "seal_order s'"
  using assms
  by (auto simp: append_step_def io_bind_def seal_order_def Let_def seals_to_add_order split: sum.split_asm if_split_asm prod.split_asm)

lemma seal_delete_order:
  "sorted_wrt (<) (map fst (to_seal_set m)) \<Longrightarrow> sorted_wrt (<) (map fst (to_seal_set (seal_delete_batch_list cs m)))"
  unfolding seal_delete_batch_list_def
  by (intro fold_preserves [where P = "\<lambda>m. sorted_wrt (<) (map fst (to_seal_set m))"]) (auto simp: bt_remove_def sorted_keys_filter)

lemma append_entries_order:
  assumes "seal_order s" "append_entries keccak C B D now data s = (r, s')"
  shows "seal_order s'"
proof -
  have keep: "seal_order t'" if "seal_order t" "(case put_entry_batch_list keccak C B D l (data_db t) of
      Inl e \<Rightarrow> (Inl e, t) | Inr (db, roots) \<Rightarrow> (Inr roots, t\<lparr>data_db := db\<rparr>)) = (r, t')" for t t' l and r :: "(nat \<times> h256) list res"
    using that by (auto simp: seal_order_def split: sum.split_asm prod.split_asm)
  have steps: "seal_order t" if "io_fold (append_step keccak B D now data) l [] s = (r, t)" for l r t
    by (rule io_fold_preserves [where P = seal_order, OF append_step_order assms(1) that])
  show ?thesis
  proof (cases "length (ca_data data) mod 256 = 0")
    case True
    show ?thesis
    proof (cases "batch_iter (ca_start_index data) (ca_start_index data + bytes_to_entries (length (ca_data data))) (batch_size s)")
      case (Inr l)
      obtain r1 t where t: "io_fold (append_step keccak B D now data) l [] s = (r1, t)" by fastforce
      then show ?thesis using assms(2) True Inr steps [OF t] keep [of t] by (cases r1) (auto simp: append_entries_def io_bind_def)
    qed (use assms True in \<open>auto simp: append_entries_def io_bind_def\<close>)
  qed (use assms in \<open>auto simp: append_entries_def\<close>)
qed

lemma flow_truncate_order:
  assumes "seal_order s" "flow_truncate keccak B D n s = (r, s')"
  shows "seal_order s'"
proof -
  have order: "sorted_wrt (<) (map fst (to_seal_set (fold (\<lambda>x. to_seal_set_update (bt_insert x v)) l m)))"
    if "sorted_wrt (<) (map fst (to_seal_set m))" for v l m
    by (rule fold_preserves [where P = "\<lambda>m. sorted_wrt (<) (map fst (to_seal_set m))"]) (use that in \<open>auto simp: sorted_bt_insert\<close>)
  show ?thesis
    using assms by (auto simp: flow_truncate_def seal_order_def inc_seal_version_def bt_split_off_def sorted_keys_filter Let_def
        intro!: order split: sum.split_asm prod.split_asm)
qed

lemma flow_submit_order:
  assumes "seal_order s" "flow_submit_seal_result B D answers s = (r, s')"
  shows "seal_order s'"
proof -
  have "sorted_wrt (<) (map fst (to_seal_set (fold (\<lambda>a. to_seal_set_update (bt_remove (sa_seal_index a))) l m)))"
    if "sorted_wrt (<) (map fst (to_seal_set m))" for l m
    by (rule fold_preserves [where P = "\<lambda>m. sorted_wrt (<) (map fst (to_seal_set m))"]) (use that in \<open>auto simp: bt_remove_def sorted_keys_filter\<close>)
  then show ?thesis
    using assms by (auto simp: flow_submit_seal_result_def io_bind_def seal_order_def put_data_db_def split: sum.split_asm prod.split_asm)
qed

lemma flow_reach_order: "flow_reach keccak C B D contents s F \<Longrightarrow> seal_order s"
proof (induction rule: flow_reach.induct)
  case (flow_new ddb sc fdb now)
  then show ?case by (simp add: seal_order_def flow_store_new_def seal_manager_new_def)
next
  case (flow_prune s F cs s')
  then show ?case
    by (auto simp: delete_batch_list_def put_data_db_def seal_order_def seal_delete_order split: sum.split_asm)
next
  case (flow_pull s F now seal_index_max r s')
  then show ?case by (auto simp: pull_seal_chunk_def seal_order_def update_pull_time_def)
next
  case (flow_shard_config s F sc)
  then show ?case by (simp add: flow_update_shard_config_def seal_order_def)
qed (auto dest: append_entries_order flow_truncate_order flow_submit_order)

section \<open>Tasks for the sealer\<close>

lemma non_sealed_content:
  assumes ok: "load_ok keccak B eb m" and k: "k < 64" and res: "get_non_sealed_data B eb k = Inr (Some d)"
  shows "seal_range k \<subseteq> dom m" "d = range_bytes m (4096 * k) 4096"
proof -
  have inv: "data_ok (eb_data eb)" "content keccak B eb = m" using ok by (auto simp: load_ok_def batch_inv_def)
  have n: "\<not> is_sealed B (eb_seal eb) k" using res by (auto simp: get_non_sealed_data_def split: if_split_asm)
  have get: "{4096 * k..<4096 * k + 4096} \<subseteq> dom (known (eb_data eb))" "d = range_bytes (known (eb_data eb)) (4096 * k) 4096"
    using res n data_get_correct [OF inv(1), of 4096 "k * 4096"] k by (auto simp: get_non_sealed_data_def mult.commute split: if_split_asm)
  show "seal_range k \<subseteq> dom m"
    using get(1) dom_content [of keccak B eb] unfolding inv(2) by (simp add: seal_range_def distrib_left add.commute)
  have "range_bytes (known (eb_data eb)) (4096 * k) 4096 = range_bytes m (4096 * k) 4096"
  proof (rule range_bytes_cong)
    fix i assume "4096 * k \<le> i" "i < 4096 * k + 4096"
    then have "i div 4096 = k" by (intro div_nat_eqI) simp_all
    then show "known (eb_data eb) i = m i" using content_not_sealed [of B eb i keccak] n inv(2) by simp
  qed
  then show "d = range_bytes m (4096 * k) 4096" using get(2) by simp
qed

definition task_of :: "'b bitmap_ops \<Rightarrow> 'b entry_batch \<Rightarrow> nat \<times> nat \<Rightarrow> seal_task res" where
  "task_of B batch_data = (\<lambda>(seal_index, version).
     rbind (get_non_sealed_data B batch_data (seal_index mod SEALS_PER_LOAD)) (\<lambda>r.
     rbind (ok_or (Panic ''Lost seal chunk in to_seal_set'') r) (\<lambda>d.
     Inr \<lparr>task_seal_index = seal_index, task_version = version, non_sealed_data = d\<rparr>)))"

text \<open>The entries that a pull takes: the first one and those of its load.\<close>

definition pulled :: "nat \<Rightarrow> (nat \<times> nat) list \<Rightarrow> (nat \<times> nat) list" where
  "pulled mx xs = (case xs of [] \<Rightarrow> [] | x # rest \<Rightarrow>
     x # filter (\<lambda>(i, _). fst x div SEALS_PER_LOAD = i div SEALS_PER_LOAD \<and> i < mx) rest)"

lemma pull_seal_chunk_eq:
  "pull_seal_chunk B D now mx s =
     ((case to_seal_set (seal_manager s) of
         [] \<Rightarrow> Inr None
       | x # rest \<Rightarrow>
           if mx \<le> fst x then Inr None
           else rbind (get_entry_batch B D (fst x div SEALS_PER_LOAD) (data_db s)) (\<lambda>found.
             rbind (ok_or (Panic ''Lost data chunk in to_seal_set'') found) (\<lambda>batch_data.
             rbind (rmap (task_of B batch_data) (pulled mx (x # rest))) (\<lambda>tasks. Inr (Some tasks))))),
      s\<lparr>seal_manager := update_pull_time now (seal_manager s)\<rparr>)"
  by (cases "to_seal_set (seal_manager s)")
    (auto simp: pull_seal_chunk_def update_pull_time_def task_of_def pulled_def split: prod.split)

lemma pulled_order:
  assumes "sorted_wrt (<) (map fst xs)"
  shows "sorted_wrt (<) (map fst (pulled mx xs))"
proof (cases xs)
  case (Cons x rest)
  then show ?thesis using assms sorted_keys_filter [of rest] by (auto simp: pulled_def)
qed (simp add: pulled_def)

lemma pulled_set: "x \<in> set (pulled mx xs) \<Longrightarrow> xs \<noteq> [] \<and> fst (hd xs) < mx \<Longrightarrow>
    x \<in> set xs \<and> fst x div 64 = fst (hd xs) div 64 \<and> fst x < mx"
  by (cases xs) (auto simp: pulled_def)

lemma task_of_Inr:
  "task_of B eb x = Inr task \<longleftrightarrow> (\<exists>d. get_non_sealed_data B eb (fst x mod 64) = Inr (Some d) \<and>
    task = \<lparr>task_seal_index = fst x, task_version = snd x, non_sealed_data = d\<rparr>)"
  by (cases x) (auto simp: task_of_def ok_or_def split: option.splits)

lemma rmap_Inr_list_all2: "rmap f xs = Inr ys \<longleftrightarrow> list_all2 (\<lambda>x y. f x = Inr y) xs ys"
  by (induction xs arbitrary: ys) (auto simp: list_all2_Cons1)

lemma list_all2_right: "list_all2 P xs ys \<Longrightarrow> y \<in> set ys \<Longrightarrow> \<exists>x \<in> set xs. P x y"
  by (induction rule: list_all2_induct) auto

lemma rmap_panics:
  assumes "\<And>x. x \<in> set xs \<Longrightarrow> is_ok (f x) \<or> panics (f x)" "\<exists>x \<in> set xs. panics (f x)"
  shows "panics (rmap f xs)"
  using assms
proof (induction xs)
  case (Cons x xs)
  show ?case
  proof (cases "panics (f x)")
    case False
    then obtain y where "f x = Inr y" using Cons.prems(1) [of x] by (auto simp: is_ok_iff)
    then show ?thesis using Cons False by (simp add: panics_rbind)
  qed (simp add: panics_rbind)
qed simp

lemma task_of_outcome:
  assumes "load_ok keccak B eb m"
  shows "is_ok (task_of B eb x) \<or> panics (task_of B eb x)"
    and "\<not> seal_range (fst x mod 64) \<subseteq> dom m \<Longrightarrow> panics (task_of B eb x)"
proof -
  let ?k = "fst x mod 64"
  have inv: "data_ok (eb_data eb)" using assms by (auto simp: load_ok_def batch_inv_def)
  have k: "?k < 64" by simp
  have "\<exists>r. get_non_sealed_data B eb ?k = Inr r"
    using data_get_correct [OF inv, of 4096 "?k * 4096"] k by (auto simp: get_non_sealed_data_def)
  then obtain r where r: "get_non_sealed_data B eb ?k = Inr r" by blast
  show "is_ok (task_of B eb x) \<or> panics (task_of B eb x)"
    using r by (cases r; cases x) (auto simp: task_of_def)
  show "panics (task_of B eb x)" if "\<not> seal_range ?k \<subseteq> dom m"
    using that r non_sealed_content [OF assms k] by (cases r; cases x) (auto simp: task_of_def)
qed

lemma truncate_reseal_le:
  assumes "entry_batch_truncate keccak B t eb = Inr (eb', reseal)" "t < 1024"
  shows "\<forall>i \<in> set reseal. i \<le> (t - 1) div 16"
proof -
  have step: "set acc' \<subseteq> set acc \<union> set is" if "rfold (truncate_seal_step keccak B t) is (e, acc) = Inr (e', acc')" for "is" e e' acc acc'
    using that
  proof (induction "is" arbitrary: e acc)
    case (Cons i "is")
    then obtain e1 acc1 where 1: "truncate_seal_step keccak B t i (e, acc) = Inr (e1, acc1)" "rfold (truncate_seal_step keccak B t) is (e1, acc1) = Inr (e', acc')"
      by (cases "truncate_seal_step keccak B t i (e, acc)") auto
    have "set acc1 \<subseteq> insert i (set acc)" using 1(1) by (auto simp: truncate_seal_step_def Let_def split: if_split_asm)
    then show ?case using Cons.IH [OF 1(2)] by auto
  qed simp
  have t: "0 < t" "u16 (wsub t 1 div 16) = (t - 1) div 16" using assms by (auto simp: entry_batch_truncate_def u16_def split: if_split_asm)
  obtain first e1 l where "rfold (truncate_seal_step keccak B t) [first..<(t - 1) div 16 + 1] (e1, []) = Inr (l, reseal)"
    using assms(1) t by (auto simp: entry_batch_truncate_def truncate_seal_def Let_def simp del: upt_Suc)
  from step [OF this] show ?thesis by (auto simp: subset_iff less_Suc_eq_le simp del: upt_Suc)
qed

lemma keys_fold_insert:
  "fst ` set (to_seal_set (fold (\<lambda>x. to_seal_set_update (bt_insert x v)) l m)) = set l \<union> fst ` set (to_seal_set m)"
  by (induction l arbitrary: m) auto

text \<open>A cut at sector \<open>t\<close> inside a sealed segment.\<close>

lemma cut_arith: "t mod 16 \<noteq> 0 \<Longrightarrow> 16 * (t div 16) < t \<and> (t - 1) div 16 = t div 16" for t :: nat
proof
  assume r: "t mod 16 \<noteq> 0"
  show lt: "16 * (t div 16) < t" using r mult_div_mod_eq [of 16 t] by linarith
  have "t < 16 * Suc (t div 16)" using dividend_less_times_div [of 16 t] by simp
  then show "(t - 1) div 16 = t div 16" using lt by (intro div_nat_eqI) simp_all
qed

lemma cut_segment:
  assumes "bitmap64 B" "load_ok keccak B eb m" "t < 1024" "t mod 16 \<noteq> 0" "is_sealed B (eb_seal eb) (t div 16)"
  obtains eb' reseal where "entry_batch_truncate keccak B t eb = Inr (eb', reseal)" "t div 16 \<in> set reseal"
    "\<forall>i \<in> set reseal. i \<le> t div 16" "seal_range (t div 16) \<subseteq> dom m"
proof -
  let ?r = "t div 16"
  note ar = cut_arith [OF assms(4)]
  have inv: "batch_inv B eb" "content keccak B eb = m" using assms(2) by (auto simp: load_ok_def)
  have t: "0 < t" "t < SECTORS_PER_LOAD" "?r < 64" using assms(3,4) by (auto intro: gr0I)
  obtain eb' reseal where eb': "entry_batch_truncate keccak B t eb = Inr (eb', reseal)" "batch_inv B eb'" "content keccak B eb' = m |` {..<256 * t}"
    "\<forall>s < SEALS_PER_LOAD. is_sealed B (eb_seal eb) s \<and> \<not> is_sealed B (eb_seal eb') s \<and> seal_range s \<inter> {..<256 * t} \<noteq> {} \<longleftrightarrow> s \<in> set reseal"
    using bitmap64.entry_batch_truncate_content [OF assms(1) inv(1) t(1,2), of keccak] inv(2) by auto
  have "4096 * ?r \<in> seal_range ?r \<inter> {..<256 * t}" using ar by (auto simp: seal_range_def)
  then have "seal_range ?r \<inter> {..<256 * t} \<noteq> {}" by blast
  moreover have "\<not> is_sealed B (eb_seal eb') ?r"
  proof
    assume "is_sealed B (eb_seal eb') ?r"
    then have "seal_range ?r \<subseteq> dom (content keccak B eb')" using eb'(2) t(3) by (simp add: batch_inv_def)
    then have "seal_range ?r \<subseteq> {..<256 * t}" unfolding eb'(3) by auto
    then have "4096 * ?r + 4095 < 256 * t" by (auto simp: seal_range_def subset_iff)
    then show False using dividend_less_times_div [of 16 t] by simp
  qed
  ultimately have "?r \<in> set reseal" using eb'(4) [rule_format, of ?r] assms(5) t(3) by simp
  moreover have "\<forall>i \<in> set reseal. i \<le> ?r" using truncate_reseal_le [OF eb'(1) assms(3)] ar by simp
  moreover have "seal_range ?r \<subseteq> dom (content keccak B eb)" using inv(1) assms(5) t(3) by (simp add: batch_inv_def)
  ultimately show ?thesis using that eb'(1) inv(2) by simp
qed

lemma truncated_seal_keys:
  assumes "flow_truncate keccak B D (1024 * c + t) s = (Inr (), s')" "batch_size s = 1024" "0 < t" "t < 1024"
    and "get_entry_batch B D c (data_db s) = Inr (Some eb)" "entry_batch_truncate keccak B t eb = Inr (eb', reseal)"
  shows "fst ` set (to_seal_set (seal_manager s')) =
    (\<lambda>x. c * 64 + x) ` set reseal \<union> {i \<in> fst ` set (to_seal_set (seal_manager s)). i < (1024 * c + t) div 16}"
proof -
  obtain db' l where l: "flow_db_truncate keccak B D (1024 * c + t) 1024 (data_db s) = Inr (db', l)"
    using assms(1,2) by (auto simp: flow_truncate_def split: sum.split_asm)
  then have "l = map (\<lambda>x. c * 64 + x) reseal"
    using assms(3-6) by (auto simp: flow_db_truncate_def truncate_first_def Let_def split: if_split_asm)
  moreover obtain m v where "seal_manager s' = fold (\<lambda>x. to_seal_set_update (bt_insert x v)) l m"
    "to_seal_set m = bt_split_off ((1024 * c + t) div 16) (to_seal_set (seal_manager s))"
    using assms(1,2) l by (auto simp: flow_truncate_def inc_seal_version_def Let_def)
  ultimately have "fst ` set (to_seal_set (seal_manager s')) =
      set (map (\<lambda>x. c * 64 + x) reseal) \<union> fst ` set (bt_split_off ((1024 * c + t) div 16) (to_seal_set (seal_manager s)))"
    by (simp only: keys_fold_insert)
  then show ?thesis by (auto simp: bt_split_off_def)
qed

lemma pull_lost_segment:
  assumes eb: "get_entry_batch B D c (data_db s) = Inr (Some eb)" "load_ok keccak B eb m"
    and keys: "\<forall>i \<in> fst ` set (to_seal_set (seal_manager s)). i div 64 = c \<and> i < mx"
    and lost: "64 * c + r \<in> fst ` set (to_seal_set (seal_manager s))" "r < 64" "\<not> seal_range r \<subseteq> dom m"
  shows "panics (fst (pull_seal_chunk B D now mx s))"
proof -
  let ?xs = "to_seal_set (seal_manager s)"
  obtain x rest where xs: "?xs = x # rest" using lost(1) by (cases ?xs) auto
  have "\<forall>y \<in> set ?xs. fst y div 64 = c \<and> fst y < mx" using keys by blast
  then have x: "fst x div 64 = c" "fst x < mx" and all: "pulled mx ?xs = ?xs"
    unfolding xs by (simp_all add: pulled_def filter_id_conv case_prod_unfold)
  obtain y where y: "y \<in> set ?xs" "fst y = 64 * c + r" using lost(1) by fastforce
  then have "panics (task_of B eb y)" using task_of_outcome(2) [OF eb(2), of y] lost(2,3) by simp
  then have "panics (rmap (task_of B eb) ?xs)" using task_of_outcome(1) [OF eb(2)] y(1) by (intro rmap_panics) blast+
  then show ?thesis using all eb(1) x unfolding xs by (simp add: pull_seal_chunk_eq xs panics_rbind)
qed

text \<open>A store that holds one complete load and waits for its segments to be sealed.\<close>

definition whole_load :: "64 word entry_batch" where
  "whole_load = \<lparr>eb_seal = seal_info_new word_bitmap 1, eb_data = Complete (replicate 262144 7)\<rparr>"

definition waiting_store :: "memory_db flow_store" where
  "waiting_store =
     (flow_store_new (\<lambda>_. []) (fold memory_op [put_batch_op word_bitmap (1, whole_load)] (\<lambda>_. [])) PORA_CHUNK_SIZE one_shard 0)
     \<lparr>seal_manager := seals_to_add word_bitmap 1 whole_load (seal_manager_new 0)\<rparr>"

lemma insert_whole_load:
  "entry_batch_insert_data toy_keccak word_bitmap 0 (replicate 262144 7) (entry_batch_new word_bitmap 1) =
     Inr (whole_load, filter (\<lambda>x. x < 64) [0..<64])"
  by (simp add: entry_batch_insert_data_def get_unsealed_data_def entry_batch_new_def data_new_def whole_load_def Let_def
      is_sealed_def seal_info_new_def data_get_def incomplete_get_def find_batch_def range_find_def binary_search_def
      data_insert_data_def merge_batches_def get_intact_sealing_index_def get_covered_sealing_index_def u16_def
      pb_end_sector_def bytes_to_chunks_def)

lemma whole_load_ok: "load_ok toy_keccak word_bitmap whole_load (bytes_at 0 (replicate 262144 7))"
proof -
  have "load_ok toy_keccak word_bitmap (entry_batch_new word_bitmap 1) Map.empty"
    by (rule load_ok_new [OF word_bitmap.bitmap64_axioms]) simp
  from load_ok_insert [OF this, of "replicate 262144 7" 0] show ?thesis using insert_whole_load by simp
qed

lemma append_whole_load:
  "\<exists>roots. append_entries toy_keccak map_cache word_bitmap memory_ops 0 \<lparr>ca_data = replicate 262144 7, ca_start_index = 1024\<rparr>
     (flow_store_new (\<lambda>_. []) (\<lambda>_. []) PORA_CHUNK_SIZE one_shard 0) = (Inr roots, waiting_store)"
proof -
  let ?s = "flow_store_new (\<lambda>_. []) ((\<lambda>_. []) :: memory_db) PORA_CHUNK_SIZE one_shard 0"
    and ?d = "\<lparr>ca_data = replicate 262144 7, ca_start_index = 1024\<rparr> :: chunk_array"
  let ?t = "?s\<lparr>seal_manager := seals_to_add word_bitmap 1 whole_load (seal_manager_new 0)\<rparr>"
  have iter: "batch_iter 1024 2048 1024 = Inr [(1024, 2048)]"
    using batch_iter_parts [of 1024 2048] by (simp add: batch_indices_def batch_part_def upt_rec)
  have "append_step toy_keccak word_bitmap memory_ops 0 ?d (1024, 2048) [] ?s = (Inr [(1, whole_load)], ?t)"
    using insert_whole_load
    by (simp add: append_step_def sub_array_eq flow_store_new_def PORA_CHUNK_SIZE_def in_range_def one_shard_def batch_or_new_def
        get_entry_batch_def memory_ops_def seal_worker_available_def seal_manager_new_def SEAL_TASK_PULL_TIMEOUT_SECONDS_def
        entry_batch_is_complete_def whole_load_def)
  then have "io_fold (append_step toy_keccak word_bitmap memory_ops 0 ?d) [(1024, 2048)] [] ?s = (Inr [(1, whole_load)], ?t)" by simp
  moreover obtain r where "build_root toy_keccak map_cache word_bitmap whole_load False = Inr r"
    using load_ok_root [OF map_cache.node_cache_axioms whole_load_ok] by blast
  ultimately show ?thesis using iter
    by (simp add: append_entries_def flow_store_new_def PORA_CHUNK_SIZE_def bytes_to_entries_def ENTRY_SIZE_def
        put_entry_batch_list_def memory_ops_def waiting_store_def)
qed

section \<open>Properties\<close>

text \<open>C12: tasks for the sealer. In every reachable store, the tasks that a pull returns are for segments of one load that
  wait to be sealed, in increasing order and below the limit, each with the version of its segment and with the
  4096 plain bytes of the flow at its place.\<close>

theorem seal_tasks_well_formed:
  assumes "flow_database D contents B C" "flow_reach keccak C B D contents s F" "mx \<le> 2 ^ 64"
    and pull: "pull_seal_chunk B D now mx s = (Inr (Some tasks), s')"
  shows "tasks \<noteq> [] \<and> sorted_wrt (<) (map task_seal_index tasks) \<and>
    (\<forall>task \<in> set tasks. task_seal_index task div SEALS_PER_LOAD = task_seal_index (hd tasks) div SEALS_PER_LOAD \<and>
       task_seal_index task < mx \<and> (task_seal_index task, task_version task) \<in> set (to_seal_set (seal_manager s)) \<and>
       {BYTES_PER_SEAL * task_seal_index task..<BYTES_PER_SEAL * (task_seal_index task + 1)} \<subseteq> dom F \<and>
       non_sealed_data task = range_bytes F (BYTES_PER_SEAL * task_seal_index task) BYTES_PER_SEAL)"
proof -
  let ?xs = "to_seal_set (seal_manager s)"
  obtain eb where x: "?xs \<noteq> []" "fst (hd ?xs) < mx" "get_entry_batch B D (fst (hd ?xs) div 64) (data_db s) = Inr (Some eb)"
    and tasks: "list_all2 (\<lambda>x y. task_of B eb x = Inr y) (pulled mx ?xs) tasks"
    using pull by (auto simp: pull_seal_chunk_eq rmap_Inr_list_all2 ok_or_def split: list.split_asm if_split_asm option.split_asm)
  let ?c = "fst (hd ?xs) div 64"
  have flow: "db_flow keccak B (contents (data_db s)) F" using flow_database.flow_reach_holds [OF assms(1,2)] by simp
  have c: "?c < 2 ^ 64" using x(2) assms(3) by (meson div_le_dividend le_less_trans less_le_trans)
  have eb: "load_ok keccak B eb (flow_slice ?c F)"
    by (rule flow_database.stored_batch_cases [OF assms(1) flow c]) (use x(3) in simp_all)
  have idx: "map task_seal_index tasks = map fst (pulled mx ?xs)"
    using tasks by (induction rule: list_all2_induct) (auto simp: task_of_Inr)
  have one: "task_seal_index task div 64 = ?c \<and> task_seal_index task < mx \<and> (task_seal_index task, task_version task) \<in> set ?xs \<and>
      {4096 * task_seal_index task..<4096 * task_seal_index task + 4096} \<subseteq> dom F \<and>
      non_sealed_data task = range_bytes F (4096 * task_seal_index task) 4096" if t: "task \<in> set tasks" for task
  proof -
    obtain y where y: "y \<in> set (pulled mx ?xs)" "task_of B eb y = Inr task"
      using list_all2_right [OF tasks t] by blast
    obtain d where d: "get_non_sealed_data B eb (fst y mod 64) = Inr (Some d)" "task = \<lparr>task_seal_index = fst y, task_version = snd y, non_sealed_data = d\<rparr>"
      using y(2) unfolding task_of_Inr by blast
    have p: "y \<in> set ?xs" "fst y div 64 = ?c" "fst y < mx" using pulled_set [OF y(1)] x(1,2) by auto
    note plain = non_sealed_content [OF eb _ d(1)]
    have e: "4096 * fst y = 262144 * ?c + 4096 * (fst y mod 64)" using div_mult_mod_eq [of "fst y" 64] p(2) by simp
    have "{4096 * (fst y mod 64)..<4096 * (fst y mod 64) + 4096} \<subseteq> dom (flow_slice ?c F)"
      using plain(1) by (simp add: seal_range_def distrib_left add.commute)
    then have "{4096 * fst y..<4096 * fst y + 4096} \<subseteq> dom F" unfolding e by (subst (asm) flow_slice_subset) auto
    moreover have "d = range_bytes F (4096 * fst y) 4096" using plain(2) unfolding e by (simp add: range_bytes_slice)
    ultimately show ?thesis using p d(2) by simp
  qed
  have "tasks \<noteq> []" using tasks x(1) by (cases ?xs) (auto simp: pulled_def list_all2_Cons1)
  moreover have "sorted_wrt (<) (map task_seal_index tasks)"
    unfolding idx using flow_reach_order [OF assms(2)] by (intro pulled_order) (simp add: seal_order_def)
  ultimately show ?thesis using one hd_in_set [of tasks] by (simp add: distrib_left add.commute)
qed

lemma waiting_store_reach:
  "flow_reach toy_keccak map_cache word_bitmap memory_ops memory_contents waiting_store (bytes_at 262144 (replicate 262144 7))"
proof -
  let ?s = "flow_store_new (\<lambda>_. []) ((\<lambda>_. []) :: memory_db) PORA_CHUNK_SIZE one_shard 0"
  obtain roots where a: "append_entries toy_keccak map_cache word_bitmap memory_ops 0 \<lparr>ca_data = replicate 262144 7, ca_start_index = 1024\<rparr> ?s =
      (Inr roots, waiting_store)" using append_whole_load by blast
  have "flow_reach toy_keccak map_cache word_bitmap memory_ops memory_contents ?s Map.empty"
    by (rule flow_new) (simp_all add: memory_contents_def one_shard_def)
  from flow_append [OF this _ _ a] show ?thesis
    by (simp add: bytes_to_entries_def ENTRY_SIZE_def flow_store_new_def kept_by_one_shard)
qed

lemma waiting_store_parts:
  "get_entry_batch word_bitmap memory_ops 1 (data_db waiting_store) = Inr (Some whole_load)"
  "to_seal_set (seal_manager waiting_store) = map (\<lambda>i. (i, 0)) [64..<128]"
proof -
  show "get_entry_batch word_bitmap memory_ops 1 (data_db waiting_store) = Inr (Some whole_load)"
    using load_ok_stored [OF word_bitmap.bitmap64_value_axioms whole_load_ok]
    by (simp add: get_entry_batch_def waiting_store_def memory_ops_def put_batch_op_def flow_store_new_def robind_def)
  show "to_seal_set (seal_manager waiting_store) = map (\<lambda>i. (i, 0)) [64..<128]"
    by (simp add: waiting_store_def seals_to_add_def whole_load_def is_sealed_def seal_info_new_def word_bitmap_def seal_manager_new_def upt_rec)
qed

theorem seal_tasks_well_formed_witness:
  "\<exists>tasks s'. pull_seal_chunk word_bitmap memory_ops 5 66 waiting_store = (Inr (Some tasks), s') \<and>
     map task_seal_index tasks = [64, 65] \<and> (\<forall>task \<in> set tasks. non_sealed_data task =
       range_bytes (bytes_at 262144 (replicate 262144 7)) (BYTES_PER_SEAL * task_seal_index task) BYTES_PER_SEAL)"
proof -
  have get: "get_non_sealed_data word_bitmap whole_load k = Inr (Some (replicate 4096 7))" if "k < 2" for k
    using that by (simp add: get_non_sealed_data_def whole_load_def is_sealed_def seal_info_new_def word_bitmap_def data_get_def slice_get_def)
  let ?tasks = "map (\<lambda>i. \<lparr>task_seal_index = i, task_version = 0, non_sealed_data = replicate 4096 7\<rparr>) [64, 65]"
  have cut: "map (\<lambda>i. (i, 0)) [64..<128] = (64, 0) # (65, 0) # map (\<lambda>i. (i, 0::nat)) [66..<128]" by (simp add: upt_rec)
  have "filter (\<lambda>(i, _). 64 div SEALS_PER_LOAD = i div SEALS_PER_LOAD \<and> i < 66) (map (\<lambda>i. (i, 0::nat)) [66..<128]) = []"
    by (auto simp: filter_empty_conv)
  then have "pulled 66 (map (\<lambda>i. (i, 0)) [64..<128]) = [(64, 0), (65, 0)]" by (simp only: cut pulled_def list.case) simp
  then have "fst (pull_seal_chunk word_bitmap memory_ops 5 66 waiting_store) = Inr (Some ?tasks)"
    using get [of 0] get [of 1] waiting_store_parts by (simp add: pull_seal_chunk_eq cut task_of_def)
  then obtain tasks s' where p: "pull_seal_chunk word_bitmap memory_ops 5 66 waiting_store = (Inr (Some tasks), s')"
    and idx: "map task_seal_index tasks = [64, 65]"
    by (cases "pull_seal_chunk word_bitmap memory_ops 5 66 waiting_store") auto
  have b: "66 \<le> (2::nat) ^ 64" by simp
  have "\<forall>task \<in> set tasks. non_sealed_data task =
      range_bytes (bytes_at 262144 (replicate 262144 7)) (BYTES_PER_SEAL * task_seal_index task) BYTES_PER_SEAL"
    using seal_tasks_well_formed [OF memory_flow.flow_database_axioms waiting_store_reach b p] by blast
  then show ?thesis using p idx by (intro exI conjI)
qed

text \<open>C35: a cut inside a sealed segment. When \<open>truncate\<close> cuts the flow inside a segment that has been sealed, the segment
  is put back into the set of segments to be sealed although only a part of it is left; when no earlier segment is
  waiting, the next \<open>pull_seal_chunk\<close> that reaches it panics (\<open>Lost seal chunk in to_seal_set\<close>).\<close>

theorem cut_inside_sealed_segment_panics:
  assumes db: "flow_database D contents B C" and reach: "flow_reach keccak C B D contents s F"
    and eb: "get_entry_batch B D c (data_db s) = Inr (Some eb)" "is_sealed B (eb_seal eb) (t div SECTORS_PER_SEAL)"
    and n: "t < SECTORS_PER_LOAD" "t mod SECTORS_PER_SEAL \<noteq> 0" "SECTORS_PER_LOAD * c + t < 2 ^ 64"
    and first: "\<forall>x \<in> set (to_seal_set (seal_manager s)). SEALS_PER_LOAD * c \<le> fst x"
    and mx: "SEALS_PER_LOAD * c + t div SECTORS_PER_SEAL < mx"
  shows "\<exists>s'. flow_truncate keccak B D (SECTORS_PER_LOAD * c + t) s = (Inr (), s') \<and> panics (fst (pull_seal_chunk B D now mx s'))"
proof -
  let ?n = "1024 * c + t" and ?r = "t div 16" and ?m = "flow_slice c F"
  have flow: "db_flow keccak B (contents (data_db s)) F" and bs: "batch_size s = 1024"
    using flow_database.flow_reach_holds [OF db reach] by auto
  have bm: "bitmap64 B" using db by (simp add: flow_database_def bitmap64_value_def)
  have c64: "c < 2 ^ 64" using n(3) by simp
  have ok: "load_ok keccak B eb ?m" by (rule flow_database.stored_batch_cases [OF db flow c64]) (use eb(1) in simp_all)
  have t: "0 < t" "t < 1024" "t mod 16 \<noteq> 0" "?r < 64" using n by (auto intro: gr0I)
  have sealed: "is_sealed B (eb_seal eb) ?r" using eb(2) by simp
  obtain eb' reseal where tr: "entry_batch_truncate keccak B t eb = Inr (eb', reseal)" "?r \<in> set reseal" "\<forall>i \<in> set reseal. i \<le> ?r" "seal_range ?r \<subseteq> dom ?m"
    by (rule cut_segment [OF bm ok t(2,3) sealed])
  obtain s' where s': "flow_truncate keccak B D ?n s = (Inr (), s')" "db_flow keccak B (contents (data_db s')) (F |` {..<256 * ?n})"
    using flow_database.flow_truncate_flow [OF db flow bs, of ?n] n(3) by auto
  let ?xs = "to_seal_set (seal_manager s')"
  have nr: "?n div 16 = 64 * c + ?r" by simp
  note keys = truncated_seal_keys [OF s'(1) bs t(1,2) eb(1) tr(1), unfolded nr]
  have in_load: "64 * c \<le> i \<and> i \<le> 64 * c + ?r" if "i \<in> fst ` set ?xs" for i
    using that tr(3) first unfolding keys by auto
  have r_key: "64 * c + ?r \<in> fst ` set ?xs" using tr(2) unfolding keys by auto
  have div_c: "i div 64 = c" if "i \<in> fst ` set ?xs" for i using in_load [OF that] t(4) by (intro div_nat_eqI) simp_all
  have slice: "flow_slice c (F |` {..<256 * ?n}) = ?m |` {..<256 * t}" by (auto simp: flow_slice_def restrict_map_def fun_eq_iff)
  note ar = cut_arith [OF t(3)]
  have "4096 * ?r \<in> seal_range ?r" by (simp add: seal_range_def)
  then have "4096 * ?r \<in> dom (?m |` {..<256 * t})" using tr(4) ar by auto
  then have ne: "flow_slice c (F |` {..<256 * ?n}) \<noteq> Map.empty" unfolding slice by (metis dom_empty empty_iff)
  obtain eb2 where eb2: "get_entry_batch B D c (data_db s') = Inr (Some eb2)" "load_ok keccak B eb2 (?m |` {..<256 * t})"
    by (rule flow_database.stored_batch_cases [OF db s'(2) c64]) (use ne slice in auto)
  have "4096 * ?r + 4095 \<in> seal_range ?r" "4096 * ?r + 4095 \<notin> {..<256 * t}"
    using dividend_less_times_div [of 16 t] by (simp_all add: seal_range_def)
  then have "\<not> seal_range ?r \<subseteq> dom (?m |` {..<256 * t})" by (auto simp: subset_iff)
  moreover have "\<forall>i \<in> fst ` set ?xs. i div 64 = c \<and> i < mx" using div_c in_load mx by fastforce
  ultimately have "panics (fst (pull_seal_chunk B D now mx s'))" using eb2 r_key t(4) by (intro pull_lost_segment) auto
  then show ?thesis using s'(1) by auto
qed

definition seal_one :: seal_answer where
  "seal_one = \<lparr>sa_seal_index = 64, sa_version = 0,
     sa_sealed_data = (case seal toy_keccak (replicate 4096 7) (replicate 32 1) (replicate 32 2) 1024 of Inr d \<Rightarrow> d | Inl _ \<Rightarrow> []),
     sa_miner_id = replicate 32 1, sa_seal_context = replicate 32 2, sa_context_end_seal = 65\<rparr>"

lemma seal_one_parts:
  "sa_seal_index seal_one = 64" "sa_version seal_one = 0" "length (sa_seal_context seal_one) = 32" "length (sa_miner_id seal_one) = 32"
  by (simp_all add: seal_one_def)

lemma seal_one_honest: "honest_answer toy_keccak word_bitmap whole_load (bytes_at 0 (replicate 262144 7)) seal_one"
proof -
  have "range_bytes (bytes_at 0 (replicate 262144 (7::byte))) 0 4096 = replicate 4096 7"
    by (rule nth_equalityI) (simp_all add: nth_range_bytes bytes_at_def)
  then show ?thesis
    by (simp add: honest_answer_def whole_load_def seal_one_def seal_info_new_def is_sealed_def word_bitmap_def seal_range_def
        context_fits_def context_of_def seal_def seal_with_mask_seed_def seal_with_mask_def global_seal_sector_def)
qed

lemma seal_one_accepted:
  obtains eb where "submit_seal_result word_bitmap seal_one whole_load = Inr eb" "is_sealed word_bitmap (eb_seal eb) 0"
    "load_ok toy_keccak word_bitmap eb (bytes_at 0 (replicate 262144 7))"
proof -
  have inv: "batch_inv word_bitmap whole_load" "content toy_keccak word_bitmap whole_load = bytes_at 0 (replicate 262144 7)"
    using whole_load_ok by (auto simp: load_ok_def)
  obtain eb where "submit_seal_result word_bitmap seal_one whole_load = Inr eb"
    "\<forall>t < 64. is_sealed word_bitmap (eb_seal eb) t \<longleftrightarrow> t = sa_seal_index seal_one mod 64 \<or> is_sealed word_bitmap (eb_seal whole_load) t"
    using word_bitmap.submit_honest [OF inv(1), of toy_keccak seal_one] seal_one_honest inv(2) by auto
  moreover from this(2) have "is_sealed word_bitmap (eb_seal eb) 0" by (simp add: seal_one_parts)
  moreover obtain eb2 where "submit_seal_result word_bitmap seal_one whole_load = Inr eb2" "load_ok toy_keccak word_bitmap eb2 (bytes_at 0 (replicate 262144 7))"
    using load_ok_seal [OF word_bitmap.bitmap64_axioms whole_load_ok seal_one_honest] seal_one_parts(3,4) by blast
  ultimately show ?thesis using that by simp
qed

lemma sealed_store:
  obtains s eb where "flow_reach toy_keccak map_cache word_bitmap memory_ops memory_contents s (bytes_at 262144 (replicate 262144 7))"
    "get_entry_batch word_bitmap memory_ops 1 (data_db s) = Inr (Some eb)" "is_sealed word_bitmap (eb_seal eb) 0"
    "to_seal_set (seal_manager s) = map (\<lambda>i. (i, 0)) [65..<128]"
proof -
  obtain eb where eb: "submit_seal_result word_bitmap seal_one whole_load = Inr eb" "is_sealed word_bitmap (eb_seal eb) 0"
    "load_ok toy_keccak word_bitmap eb (bytes_at 0 (replicate 262144 7))"
    by (rule seal_one_accepted)
  let ?todo = "filter (\<lambda>a. map_of (to_seal_set (seal_manager waiting_store)) (sa_seal_index a) = Some (sa_version a)) [seal_one]"
  have todo: "?todo = [seal_one]" unfolding waiting_store_parts by (simp add: seal_one_parts upt_rec)
  have one: "chunk_by (\<lambda>a. sa_seal_index a div SEALS_PER_LOAD) [seal_one] = [(1, [seal_one])]" by (simp add: seal_one_parts)
  have grp: "chunk_by (\<lambda>a. sa_seal_index a div SEALS_PER_LOAD) ?todo = [(1, [seal_one])]" unfolding todo by (rule one)
  have upd: "rfold (submit_group word_bitmap memory_ops waiting_store) [(1, [seal_one])] [] = Inr [(1, eb)]"
    using eb(1) waiting_store_parts(1) by (simp add: submit_group_def)
  have wr: "put_entry_raw word_bitmap memory_ops [(1, eb)] db = Inr (fold memory_op [put_batch_op word_bitmap (1, eb)] db)" for db
    by (simp add: put_entry_raw_def memory_ops_def)
  define s where "s = seal_manager_update (fold (\<lambda>a. to_seal_set_update (bt_remove (sa_seal_index a))) [seal_one]) waiting_store
    \<lparr>data_db := fold memory_op [put_batch_op word_bitmap (1, eb)] (data_db waiting_store)\<rparr>"
  have s: "flow_submit_seal_result word_bitmap memory_ops [seal_one] waiting_store = (Inr (), s)"
    unfolding flow_submit_seal_result_def io_bind_def io_simps prod.case sum.case todo one upd put_data_db_def wr
    by (simp add: s_def)
  have "bt_remove 64 (map (\<lambda>i. (i, 0 :: nat)) [64..<128]) = map (\<lambda>i. (i, 0)) [65..<128]"
    by (simp add: bt_remove_def upt_conv_Cons [of 64] del: upt_Suc)
  then have set: "to_seal_set (seal_manager s) = map (\<lambda>i. (i, 0)) [65..<128]"
    using waiting_store_parts(2) by (simp add: s_def seal_one_parts del: upt_Suc)
  have slice: "flow_slice 1 (bytes_at 262144 (replicate 262144 7)) = bytes_at 0 (replicate 262144 (7 :: byte))"
    by (auto simp: flow_slice_def bytes_at_def fun_eq_iff)
  have honest: "honest_answers toy_keccak word_bitmap whole_load (flow_slice 1 (bytes_at 262144 (replicate 262144 7))) [seal_one]"
    unfolding slice using seal_one_honest eb(1) by (simp add: seal_one_parts)
  have "flow_reach toy_keccak map_cache word_bitmap memory_ops memory_contents s (bytes_at 262144 (replicate 262144 7))"
  proof (rule flow_seal [OF waiting_store_reach _ _ _ s])
    show "\<forall>(c, as) \<in> set (chunk_by (\<lambda>a. sa_seal_index a div SEALS_PER_LOAD) ?todo).
        \<exists>eb. get_entry_batch word_bitmap memory_ops c (data_db waiting_store) = Inr (Some eb) \<and>
          honest_answers toy_keccak word_bitmap eb (flow_slice c (bytes_at 262144 (replicate 262144 7))) as"
      unfolding grp using waiting_store_parts(1) honest by (simp del: honest_answers.simps)
  qed (simp_all add: seal_one_parts)
  moreover have "get_entry_batch word_bitmap memory_ops 1 (data_db s) = Inr (Some eb)"
    using load_ok_stored [OF word_bitmap.bitmap64_value_axioms eb(3)]
    by (simp add: s_def get_entry_batch_def memory_ops_def put_batch_op_def robind_def)
  ultimately show ?thesis using that eb(2) set by blast
qed

theorem cut_inside_sealed_segment_panics_witness:
  "\<exists>s s'. flow_reach toy_keccak map_cache word_bitmap memory_ops memory_contents s (bytes_at 262144 (replicate 262144 7)) \<and>
     flow_truncate toy_keccak word_bitmap memory_ops 1032 s = (Inr (), s') \<and> panics (fst (pull_seal_chunk word_bitmap memory_ops 0 70 s'))"
proof -
  obtain s eb where s: "flow_reach toy_keccak map_cache word_bitmap memory_ops memory_contents s (bytes_at 262144 (replicate 262144 7))"
    "get_entry_batch word_bitmap memory_ops 1 (data_db s) = Inr (Some eb)" "is_sealed word_bitmap (eb_seal eb) 0"
    "to_seal_set (seal_manager s) = map (\<lambda>i. (i, 0)) [65..<128]"
    by (rule sealed_store)
  have "is_sealed word_bitmap (eb_seal eb) (8 div SECTORS_PER_SEAL)" using s(3) by simp
  from cut_inside_sealed_segment_panics [OF memory_flow.flow_database_axioms s(1,2) this, of 70 0] s(1,4) show ?thesis by auto
qed

end
