(* ===== verification/Spec2Isabelle.thy ===== *)
theory Spec2Isabelle
  imports Merkle_Properties Shard_Config File_Merkle Tx_Refinement Flow_Sealing
begin

text \<open>
  Verification of the storage layer of the 0G storage node.

  \<^bold>\<open>The program.\<close> A node keeps a shard of an append-only log of data, the flow. The contract on the chain fixes
  the order of transactions; each transaction submits a file by the roots of its Merkle subtrees and occupies the
  next entries of the flow. The node stores the transactions (\<open>tx_store.rs\<close>), the data (\<open>flow_store.rs\<close>, in loads
  of 1024 entries of 256 bytes that are sealed for mining, \<open>load_chunk/\<close>), and the Merkle tree of the whole flow
  (\<open>append_merkle\<close>), whose nodes it keeps in a key-value database. Files and segments are hashed with a second kind
  of tree (\<open>merkle_light\<close>, \<open>shared_types\<close>), and values are stored in SSZ (\<open>eth2_ssz\<close>).

  \<^bold>\<open>Conventions.\<close> \<open>Zgs_Prelude\<close>: a fallible function returns \<open>fault + 'a\<close>, where \<open>Err\<close> is an error value of the
  source, \<open>Panic\<close> a panic and \<open>Diverge\<close> a loop without end; so absence of panics is part of every theorem that gives
  the result as \<open>Inr\<close>. \<open>usize\<close> and \<open>u64\<close> are \<open>nat\<close>, with \<open>mod 2 ^ 64\<close> or \<open>wsub\<close> written where the source can wrap
  (release builds: overflow checks are off) and a \<open>64 word\<close> in \<open>next_pow2\<close>; bytes are \<open>8 word\<close>. A vector is a list and
  \<open>xs[i]\<close> is \<open>index\<close>, which panics out of range. \<open>HashMap\<close> and \<open>BTreeMap\<close> are maps, finite maps or ordered association
  lists. Stateful code that keeps its changes on an error returns \<open>'a res \<times> 's\<close> (\<open>io\<close> in \<open>Kv_Store\<close>).
  Logging and metrics are dropped, and so are functions compiled for tests only. Locks are not modelled: each
  operation runs alone on the state, as under the locks of the source.

  \<^bold>\<open>Parameters.\<close> Code outside the repository is an argument: Keccak (\<open>keccak\<close>), the LRU cache of nodes (\<open>lru_ops\<close>,
  laws in locale \<open>node_cache\<close>: a lookup returns the last value put or nothing), the bitmap crate (\<open>bitmap_ops\<close>,
  locales \<open>bitmap64\<close>, \<open>bitmap64_value\<close>), and the key-value database (\<open>kv_ops\<close>, locale \<open>key_value_db\<close>: a batch of
  operations is applied in order, a read returns the value last written, an iteration lists the keys in order). Each
  locale is interpreted on a concrete instance (\<open>map_cache\<close>, \<open>word_bitmap\<close>, \<open>memory_ops\<close>), on which the witnesses run.

  \<^bold>\<open>append_merkle.\<close> \<open>Hash_Algorithm\<close> (\<open>merkle_tree.rs\<close>, \<open>sha3.rs\<close>): the operations of \<open>HashElement\<close> and
  \<open>Algorithm\<close>, \<open>OptionalHash\<close> and its byte forms, the table of zero hashes (total here; the source has 64 entries, one
  per height a \<open>usize\<close> allows). \<open>Merkle_Proof\<close> (\<open>proof.rs\<close>): inclusion and range proofs; soundness of validation
  against the reference tree \<open>mnode\<close>, up to an explicit collision. \<open>Node_Manager\<close> (\<open>node_manager.rs\<close>): the cache over
  a node database, with the abstraction to a map of nodes. \<open>Append_Merkle\<close> (\<open>lib.rs\<close>): every operation of the tree;
  \<open>Recompute\<close>, \<open>Tree_Operations\<close>, \<open>History\<close>, \<open>Merkle_Read\<close>: what the operations do to a tree that is a partial view
  of a reference tree, versions, and proof generation; \<open>Tree_Refinement\<close>: the abstract machine (leaves and versions)
  that the tree refines; \<open>Merkle_Properties\<close>: the properties, for \<open>Sha3Algorithm\<close>. Theorems about the nodes of a tree
  assume \<open>null_free\<close>: no node equals the all-zero hash by which the source marks an unknown node.

  \<^bold>\<open>Files.\<close> \<open>Merkle_Light\<close>, \<open>Light_Tree\<close> (\<open>merkle_light/src/merkle.rs\<close>, \<open>hash.rs\<close>, \<open>merkle_tree/src/lib.rs\<close>):
  the array tree with its link map equals the reference tree, and \<open>gen_proof\<close> follows it (the fuel of \<open>gen_proof_loop\<close>
  is the length of the array, more than the layers it climbs). \<open>Shared_Types\<close>, \<open>File_Proof\<close>, \<open>Segment_Proof\<close>,
  \<open>Segment_Properties\<close> (\<open>shared_types/src/lib.rs\<close>, \<open>proof.rs\<close>): sizes, chunk arrays, file proofs, proofs of
  segments. \<open>Log_Helpers\<close>, \<open>File_Merkle\<close> (free functions of \<open>log_manager.rs\<close>): how a file is split into subtrees;
  \<open>split_nodes\<close> ends, and its roots are a commitment as the segment proofs need it.

  \<^bold>\<open>Loads.\<close> \<open>Zgs_Seal\<close> (\<open>zgs_seal\<close>, \<open>spec\<close>): the sealing cipher and its inverse. \<open>Chunk_Data\<close>, \<open>Chunk_Insert\<close>
  (\<open>chunk_data.rs\<close>), \<open>Seal_Info\<close> (\<open>seal.rs\<close>, \<open>bitmap.rs\<close>), \<open>Entry_Batch\<close>, \<open>Batch_Lifecycle\<close>, \<open>Batch_Properties\<close>
  (\<open>load_chunk/mod.rs\<close>): a load abstracts to a partial map of plain bytes (\<open>content\<close>), which insertion, sealing and
  truncation change as they should under the invariant \<open>batch_inv\<close>. \<open>Load_Root\<close>: its Merkle root. \<open>Load_Codec\<close>
  (\<open>serde.rs\<close>): its stored form.

  \<^bold>\<open>Stores.\<close> \<open>Ssz\<close>, \<open>Ssz_Laws\<close>, \<open>Ssz_Safe\<close> (\<open>eth2_ssz\<close>): encoder and decoder of containers and lists, the laws of a
  codec (round trip, no panic); a derived codec is that of the tuple of the fields; \<open>DecodeError\<close> is \<open>Err\<close> with the
  name of its variant. \<open>Kv_Store\<close> (\<open>storage/src/lib.rs\<close>). \<open>Tx_Codec\<close>, \<open>Tx_Store\<close>, \<open>Tx_Log\<close>, \<open>Tx_Refinement\<close>
  (\<open>tx_store.rs\<close>): the transaction store and the abstract log it refines. \<open>Flow_Store\<close> (\<open>flow_store.rs\<close>,
  \<open>seal_task_manager.rs\<close>): the operations of the store; \<open>Load_Store\<close>, \<open>Flow_Content\<close>, \<open>Flow_Properties\<close>: the data database
  abstracts to a partial map from positions of the flow to bytes (\<open>db_flow\<close>), on which every operation acts as it should;
  \<open>Flow_Sealing\<close>: the segments that wait to be sealed. \<open>Shard_Config\<close> (\<open>storage/src/config.rs\<close>): shards and their cover of the flow.

  \<^bold>\<open>Not modelled.\<close> The network stack (libp2p, discovery), the RPC front ends, the event loops of sync, router, miner,
  pruner and log-entry sync: tasks over channels and timers whose state is spread over third-party code.
\<close>

end
